(* ===== verification/Prelude.thy ===== *)
theory Prelude
  imports Main "HOL-Library.Word" "HOL-Library.AList" "HOL-Library.Code_Target_Nat"
begin

text \<open>
  Shared vocabulary of the development: the machine integers of the runtime, the
  exceptions its C++ code throws, the collections that carry the component proofs, and
  the generic lemmas on lists, association lists and words that several components use.

  \<^item> \<open>u8\<close>, \<open>u16\<close>, \<open>u32\<close>, \<open>u64\<close> are the fixed-width unsigned integers; arithmetic on
    them wraps as it does in the source. \<open>int32_t\<close> ids and counters are \<open>int\<close>.
  \<^item> A function that throws returns a value of \<open>exn + 'a\<close>; \<open>Inl\<close> is the exception.
  \<^item> An \<open>unordered_map\<close> is an association list handled through \<open>map_of\<close>,
    \<open>AList.update\<close> and \<open>AList.delete\<close>, so that the code's loops over all buckets stay
    executable.
\<close>

section \<open>Machine integers and exceptions\<close>

type_synonym u8 = "8 word"
type_synonym u16 = "16 word"
type_synonym u32 = "32 word"
type_synonym u64 = "64 word"

text \<open>Identifiers shared by all components: runs, task slots and NEXT_LEVEL workers.\<close>

type_synonym RunId = u64
type_synonym TaskSlot = int
type_synonym WorkerId = int

abbreviation INVALID_SLOT :: TaskSlot where "INVALID_SLOT \<equiv> -1"
abbreviation INVALID_RUN_ID :: RunId where "INVALID_RUN_ID \<equiv> 0"

abbreviation UINT64_MAX :: u64 where "UINT64_MAX \<equiv> - 1"
abbreviation UINT32_MAX :: u32 where "UINT32_MAX \<equiv> - 1"

datatype exn =
    InvalidArgument string
  | LogicError string
  | RuntimeError string
  | OverflowError string
  | OutOfRange string
  | LengthError string

text \<open>The guard \<open>if (bad) throw std::invalid_argument(msg);\<close> followed by the rest \<open>k\<close>.\<close>

definition reject_if :: "bool \<Rightarrow> string \<Rightarrow> exn + 'a \<Rightarrow> exn + 'a" where
  "reject_if bad msg k = (if bad then Inl (InvalidArgument msg) else k)"

lemma reject_if_Inr [simp]: "reject_if bad msg k = Inr x \<longleftrightarrow> \<not> bad \<and> k = Inr x"
  by (simp add: reject_if_def)

lemma reject_if_True [simp]: "reject_if True msg k = Inl (InvalidArgument msg)"
  by (simp add: reject_if_def)

lemma reject_if_False [simp]: "reject_if False msg k = k"
  by (simp add: reject_if_def)

text \<open>A loop whose body may throw: the first exception ends it.\<close>

fun for_each :: "('a \<Rightarrow> exn + unit) \<Rightarrow> 'a list \<Rightarrow> exn + unit" where
  "for_each f [] = Inr ()"
| "for_each f (x # xs) = (case f x of Inl e \<Rightarrow> Inl e | Inr _ \<Rightarrow> for_each f xs)"

lemma for_each_Inr [simp]: "for_each f xs = Inr u \<longleftrightarrow> (\<forall>x \<in> set xs. f x = Inr ())"
  by (induction xs) (auto split: sum.splits)

lemma bind_Inr: "(case r of Inl e \<Rightarrow> Inl e | Inr y \<Rightarrow> k y) = Inr x \<longleftrightarrow> (\<exists>y. r = Inr y \<and> k y = Inr x)"
  by (cases r) auto

text \<open>\<open>std::to_string\<close> on the \<open>int32_t\<close> numbers the messages carry.\<close>

definition digit_char :: "nat \<Rightarrow> char" where
  "digit_char d = char_of (48 + d)"

fun nat_to_string :: "nat \<Rightarrow> string" where
  "nat_to_string n = (if n < 10 then [digit_char n] else nat_to_string (n div 10) @ [digit_char (n mod 10)])"

declare nat_to_string.simps [simp del]

definition to_string :: "int \<Rightarrow> string" where
  "to_string i = (if i < 0 then ''-'' @ nat_to_string (nat (- i)) else nat_to_string (nat i))"

named_theorems model_defs \<open>definitions of operations unfolded in component proofs\<close>
named_theorems inv_intros \<open>preservation of component invariants\<close>

section \<open>Words\<close>

lemma nth_in_set: "set xs \<subseteq> A \<Longrightarrow> i < length xs \<Longrightarrow> xs ! i \<in> A"
  by auto

lemma unat_u64_bound [simp]: "unat (x :: u64) < 18446744073709551616"
  using unsigned_less [of x, where ?'a = nat] by simp

lemma unat_u32_bound [simp]: "unat (x :: u32) < 4294967296"
  using unsigned_less [of x, where ?'a = nat] by simp

lemma unat_u64_le [simp]: "unat (x :: u64) \<le> 18446744073709551615"
  using unat_u64_bound [of x] by linarith

lemma unat_UINT64_MAX [simp]: "unat UINT64_MAX = 18446744073709551615"
  by (simp add: unsigned_minus_1_eq_mask mask_eq_exp_minus_1)

lemma ucast_UINT32_MAX [simp]: "(ucast UINT32_MAX :: u64) = 4294967295"
  by code_simp

lemma unat_UINT32_MAX [simp]: "unat UINT32_MAX = 4294967295"
  by (simp add: unsigned_minus_1_eq_mask mask_eq_exp_minus_1)

lemma unat_ucast_u32_u64 [simp]: "unat (ucast (x :: u32) :: u64) = unat x"
  by (simp add: unsigned_ucast_eq take_bit_nat_eq_self_iff less_trans [OF unat_u32_bound])

lemma sint_of_nat_u32: "n < 2 ^ 31 \<Longrightarrow> sint (of_nat n :: u32) = int n"
  by (simp add: sint_uint unsigned_of_nat take_bit_nat_eq_self signed_take_bit_int_eq_self)

lemma unat_add_no_wrap:
  fixes a b :: u64
  assumes "unat a + unat b < 18446744073709551616"
  shows "unat (a + b) = unat a + unat b"
  using assms by (simp add: unat_word_ariths)

lemma unat_mult_no_wrap:
  fixes a b :: u64
  assumes "unat a * unat b < 18446744073709551616"
  shows "unat (a * b) = unat a * unat b"
  using assms by (simp add: unat_word_ariths)

lemma unat_sub_no_wrap:
  fixes a b :: u64
  assumes "b \<le> a"
  shows "unat (a - b) = unat a - unat b"
  using assms by (rule unat_sub)

section \<open>Step relations\<close>

text \<open>The states a step relation reaches from its initial states, and invariants of such a system.\<close>

definition reachable :: "('s \<Rightarrow> bool) \<Rightarrow> ('s \<Rightarrow> 's \<Rightarrow> bool) \<Rightarrow> 's \<Rightarrow> bool" where
  "reachable start step s \<longleftrightarrow> (\<exists>s0. start s0 \<and> step\<^sup>*\<^sup>* s0 s)"

lemma reachable_start: "start s \<Longrightarrow> reachable start step s"
  by (auto simp: reachable_def)

lemma reachable_step: "reachable start step s \<Longrightarrow> step s t \<Longrightarrow> reachable start step t"
  unfolding reachable_def by (metis rtranclp.rtrancl_into_rtrancl)

locale invariant_system =
  fixes start :: "'s \<Rightarrow> bool" and step :: "'s \<Rightarrow> 's \<Rightarrow> bool" and inv :: "'s \<Rightarrow> bool"
  assumes start_inv: "start s \<Longrightarrow> inv s"
    and step_inv: "inv s \<Longrightarrow> step s t \<Longrightarrow> inv t"
begin

lemma steps_inv: "step\<^sup>*\<^sup>* s t \<Longrightarrow> inv s \<Longrightarrow> inv t"
  by (induction rule: rtranclp_induct) (auto intro: step_inv)

lemma reachable_inv: "reachable start step s \<Longrightarrow> inv s"
  by (auto simp: reachable_def intro: steps_inv start_inv)

end

end
