(* ===== verification/Tensor_View.thy ===== *)
theory Tensor_View
  imports Prelude
begin

unbundle bit_operations_syntax

text \<open>
  The tensor ABI of \<open>common/task_interface/buffer.h\<close> and the element sizes of
  \<open>data_type.h\<close>: buffer descriptors, strided tensor views, the gate that validates them
  on receipt, the saturating extent arithmetic, and the overlap cascade that decides
  whether two views of one backing can share a byte.

  The cascade is proved sound against the set of bytes a view really touches
  (\<open>view_bytes\<close>): \<open>OV_NONE\<close> means disjoint, \<open>OV_COVERED\<close> means the entry's bytes are a
  subset of the probe's. The C arrays of \<open>MAX_TENSOR_DIMS\<close> entries are lists whose length
  the predicates \<open>tensor_wf\<close> and \<open>footprint_wf\<close> fix.
\<close>

section \<open>Data types\<close>

definition MAX_TENSOR_DIMS :: nat where "MAX_TENSOR_DIMS = 5"

text \<open>\<open>enum class DataType : uint8_t\<close>, kept as the raw byte it is on the wire.\<close>

abbreviation DATA_TYPE_NUM :: u8 where "DATA_TYPE_NUM \<equiv> 15"

definition data_type_size :: "u64 list" where
  "data_type_size = [4, 2, 4, 2, 1, 1, 2, 8, 8, 2, 4, 1, 1, 1, 1]"

definition get_element_size :: "u8 \<Rightarrow> u64" where
  "get_element_size dtype =
     (let index = unat dtype
      in if index < length data_type_size then data_type_size ! index else 0)"

section \<open>Buffer descriptors\<close>

abbreviation BUFFER_DESCRIPTOR_MAGIC :: u16 where "BUFFER_DESCRIPTOR_MAGIC \<equiv> 0x5342"
abbreviation OWNER_INSTANCE_ID_BYTES :: nat where "OWNER_INSTANCE_ID_BYTES \<equiv> 8"
abbreviation DESC_MAX_BYTES :: nat where "DESC_MAX_BYTES \<equiv> 32"
abbreviation BACKEND_ADDRESS_BODY_BYTES :: nat where "BACKEND_ADDRESS_BODY_BYTES \<equiv> 8"
abbreviation VMM_SHAREABLE_BODY_BYTES :: nat where "VMM_SHAREABLE_BODY_BYTES \<equiv> 24"

abbreviation AddressSpace_HOST :: u8 where "AddressSpace_HOST \<equiv> 0"
abbreviation AddressSpace_DEVICE :: u8 where "AddressSpace_DEVICE \<equiv> 1"

abbreviation AccessMode_READ :: u8 where "AccessMode_READ \<equiv> 0"
abbreviation AccessMode_WRITE :: u8 where "AccessMode_WRITE \<equiv> 1"
abbreviation AccessMode_READWRITE :: u8 where "AccessMode_READWRITE \<equiv> 2"

abbreviation BackendKind_FORK_SHM :: u8 where "BackendKind_FORK_SHM \<equiv> 0"
abbreviation BackendKind_POSIX_SHM :: u8 where "BackendKind_POSIX_SHM \<equiv> 1"
abbreviation BackendKind_VMM_WINDOW :: u8 where "BackendKind_VMM_WINDOW \<equiv> 2"
abbreviation BackendKind_REMOTE_SIDECAR :: u8 where "BackendKind_REMOTE_SIDECAR \<equiv> 3"
abbreviation BackendKind_DEVICE_MALLOC :: u8 where "BackendKind_DEVICE_MALLOC \<equiv> 4"
abbreviation BackendKind_FORK_COW :: u8 where "BackendKind_FORK_COW \<equiv> 5"
abbreviation BackendKind_VMM_SHAREABLE :: u8 where "BackendKind_VMM_SHAREABLE \<equiv> 6"

record CanonicalIdentity =
  owner_instance_id :: "u8 list"
  ci_buffer_id :: u64
  ci_generation :: u32
  ci_pad :: "u8 list"

definition identity_eq :: "CanonicalIdentity \<Rightarrow> CanonicalIdentity \<Rightarrow> bool" where
  "identity_eq a b \<longleftrightarrow> ci_buffer_id a = ci_buffer_id b \<and> ci_generation a = ci_generation b \<and>
     take OWNER_INSTANCE_ID_BYTES (owner_instance_id a) = take OWNER_INSTANCE_ID_BYTES (owner_instance_id b)"

definition hash_mix :: "u64 \<Rightarrow> u64 \<Rightarrow> u64" where
  "hash_mix h v = (h XOR (v + 0x9e3779b97f4a7c15 + push_bit 6 h + drop_bit 2 h))"

fun hash_owner :: "u64 \<Rightarrow> u8 list \<Rightarrow> u64" where
  "hash_owner h [] = h"
| "hash_owner h (b # bs) = hash_owner (hash_mix h (ucast b)) bs"

definition CanonicalIdentityHash :: "CanonicalIdentity \<Rightarrow> u64" where
  "CanonicalIdentityHash k =
     (let h = hash_owner 0 (take OWNER_INSTANCE_ID_BYTES (owner_instance_id k));
          h = hash_mix h (ci_buffer_id k)
      in hash_mix h (ucast (ci_generation k)))"

record BufferDescriptor =
  bd_magic :: u16
  bd_address_space :: u8
  bd_access :: u8
  bd_backend_kind :: u8
  bd_identity :: CanonicalIdentity
  bd_nbytes :: u64
  bd_owner_worker_path_id :: u32
  bd_body_len :: u16
  bd_body :: "u8 list"

definition descriptor_eq :: "BufferDescriptor \<Rightarrow> BufferDescriptor \<Rightarrow> bool" where
  "descriptor_eq a b \<longleftrightarrow>
     (let body_len = (if unat (bd_body_len a) < DESC_MAX_BYTES then unat (bd_body_len a) else DESC_MAX_BYTES)
      in identity_eq (bd_identity a) (bd_identity b) \<and> bd_address_space a = bd_address_space b \<and>
         bd_access a = bd_access b \<and> bd_backend_kind a = bd_backend_kind b \<and>
         bd_nbytes a = bd_nbytes b \<and> bd_owner_worker_path_id a = bd_owner_worker_path_id b \<and>
         bd_body_len a = bd_body_len b \<and> take body_len (bd_body a) = take body_len (bd_body b))"

record Tensor =
  t_buffer :: BufferDescriptor
  t_byte_offset :: u64
  t_ndims :: u32
  t_shapes :: "u32 list"
  t_strides :: "u32 list"
  t_dtype :: u8

text \<open>\<open>std::memcpy\<close> of a little-endian integer out of the descriptor body.\<close>

fun le_nat :: "u8 list \<Rightarrow> nat" where
  "le_nat [] = 0"
| "le_nat (b # bs) = unat b + 256 * le_nat bs"

definition body_u32 :: "u8 list \<Rightarrow> nat \<Rightarrow> u32" where
  "body_u32 body off = of_nat (le_nat (take 4 (drop off body)))"

definition body_u64 :: "u8 list \<Rightarrow> nat \<Rightarrow> u64" where
  "body_u64 body off = of_nat (le_nat (take 8 (drop off body)))"

section \<open>Saturating arithmetic and view extents\<close>

definition tensor_mul_sat :: "u64 \<Rightarrow> u64 \<Rightarrow> u64" where
  "tensor_mul_sat a b = (if unat a * unat b < 2 ^ 64 then a * b else UINT64_MAX)"

definition tensor_add_sat :: "u64 \<Rightarrow> u64 \<Rightarrow> u64" where
  "tensor_add_sat a b = (if unat a + unat b < 2 ^ 64 then a + b else UINT64_MAX)"

abbreviation TENSOR_EXTENT_UNREPRESENTABLE :: u64 where
  "TENSOR_EXTENT_UNREPRESENTABLE \<equiv> UINT64_MAX"

fun extent_loop :: "u32 list \<Rightarrow> u32 list \<Rightarrow> u64 \<Rightarrow> u64" where
  "extent_loop (sh # shs) (st # sts) last_elem =
     extent_loop shs sts
       (if sh = 0 then last_elem
        else tensor_add_sat last_elem (tensor_mul_sat (ucast (sh - 1)) (ucast st)))"
| "extent_loop _ _ last_elem = last_elem"

definition view_extent_bytes :: "u32 list \<Rightarrow> u32 list \<Rightarrow> u32 \<Rightarrow> u8 \<Rightarrow> u64" where
  "view_extent_bytes shapes strides ndims dtype =
     (let k = min (unat ndims) MAX_TENSOR_DIMS
      in tensor_mul_sat (tensor_add_sat (extent_loop (take k shapes) (take k strides) 0) 1)
           (get_element_size dtype))"

definition tensor_extent_bytes :: "Tensor \<Rightarrow> u64" where
  "tensor_extent_bytes r = view_extent_bytes (t_shapes r) (t_strides r) (t_ndims r) (t_dtype r)"

section \<open>The validation gates\<close>

definition posix_name_bad :: "u8 \<Rightarrow> bool" where
  "posix_name_bad c \<longleftrightarrow> c < 0x21 \<or> c > 0x7E \<or> c = 0x2F"

definition validate_backend_body :: "BufferDescriptor \<Rightarrow> exn + unit" where
  "validate_backend_body h =
     (let backend = bd_backend_kind h; len = unat (bd_body_len h); body = bd_body h in
      if backend = BackendKind_FORK_SHM \<or> backend = BackendKind_FORK_COW \<or>
         backend = BackendKind_DEVICE_MALLOC \<or> backend = BackendKind_VMM_WINDOW then
        reject_if (len \<noteq> BACKEND_ADDRESS_BODY_BYTES)
          ''invalid BufferDescriptor: an address-bearing backend body must be exactly 8 bytes''
        (reject_if (body_u64 body 0 = 0)
          ''invalid BufferDescriptor: address-bearing backend body is a null base'' (Inr ()))
      else if backend = BackendKind_POSIX_SHM then
        reject_if (len = 0) ''invalid BufferDescriptor: POSIX_SHM body must carry a shm name''
        (reject_if (list_ex posix_name_bad (take len body))
          ''invalid BufferDescriptor: POSIX_SHM shm name must be printable ASCII without '/' '' (Inr ()))
      else if backend = BackendKind_VMM_SHAREABLE then
        reject_if (len \<noteq> VMM_SHAREABLE_BODY_BYTES)
          ''invalid BufferDescriptor: VMM_SHAREABLE body must be exactly 24 bytes''
        (reject_if (sint (body_u32 body 0) < 0)
          ''invalid BufferDescriptor: VMM_SHAREABLE device_id out of range''
        (reject_if (body_u32 body 4 \<noteq> 0)
          ''invalid BufferDescriptor: VMM_SHAREABLE reserved bytes must be zero''
        (reject_if (body_u64 body 8 = 0)
          ''invalid BufferDescriptor: VMM_SHAREABLE shareable_handle must be nonzero''
        (reject_if (body_u64 body 16 = 0)
          ''invalid BufferDescriptor: VMM_SHAREABLE mapping_bytes must be nonzero''
        (reject_if (body_u64 body 16 < bd_nbytes h)
          ''invalid BufferDescriptor: VMM_SHAREABLE mapping_bytes must cover nbytes'' (Inr ()))))))
      else
        reject_if (len \<noteq> 0) ''invalid BufferDescriptor: REMOTE_SIDECAR carries no body in P1'' (Inr ()))"

definition validate_buffer_descriptor :: "BufferDescriptor \<Rightarrow> exn + unit" where
  "validate_buffer_descriptor h =
     reject_if (bd_magic h \<noteq> BUFFER_DESCRIPTOR_MAGIC) ''invalid BufferDescriptor: magic''
     (reject_if (bd_address_space h > AddressSpace_DEVICE) ''invalid BufferDescriptor: address_space out of range''
     (reject_if (bd_access h > AccessMode_READWRITE) ''invalid BufferDescriptor: access out of range''
     (reject_if (bd_backend_kind h > BackendKind_VMM_SHAREABLE) ''invalid BufferDescriptor: backend_kind out of range''
     (reject_if (unat (bd_body_len h) > DESC_MAX_BYTES) ''invalid BufferDescriptor: body_len exceeds DESC_MAX_BYTES''
     (reject_if (ci_generation (bd_identity h) = 0)
        ''invalid BufferDescriptor: generation 0 is reserved (uninitialized)''
     (let backend = bd_backend_kind h;
          device_space = (bd_address_space h = AddressSpace_DEVICE);
          device_backend = (backend = BackendKind_VMM_WINDOW \<or> backend = BackendKind_DEVICE_MALLOC \<or>
                            backend = BackendKind_VMM_SHAREABLE) in
      reject_if (backend \<noteq> BackendKind_REMOTE_SIDECAR \<and> device_backend \<noteq> device_space)
        ''invalid BufferDescriptor: unsupported address_space x backend_kind (capability matrix)''
     (reject_if (backend = BackendKind_FORK_COW \<and> bd_access h \<noteq> AccessMode_READ)
        ''invalid BufferDescriptor: FORK_COW grants READ only (a child's write would not reach the owner)''
     (case validate_backend_body h of
        Inl e \<Rightarrow> Inl e
      | Inr _ \<Rightarrow>
        reject_if (list_ex (\<lambda>b. b \<noteq> 0) (drop (unat (bd_body_len h)) (bd_body h)))
          ''invalid BufferDescriptor: reserved bytes past body_len must be zero'' (Inr ())))))))))"

fun check_dims :: "(u32 \<times> u32) list \<Rightarrow> exn + unit" where
  "check_dims [] = Inr ()"
| "check_dims ((sh, st) # ds) =
     reject_if (sh = 0) ''invalid Tensor: shape dimension is zero''
     (reject_if (st = 0) ''invalid Tensor: stride must be > 0 (broadcast and negative step unsupported)''
      (check_dims ds))"

definition validate_tensor :: "Tensor \<Rightarrow> exn + unit" where
  "validate_tensor r =
     (case validate_buffer_descriptor (t_buffer r) of Inl e \<Rightarrow> Inl e | Inr _ \<Rightarrow>
      let n = unat (t_ndims r); elem = get_element_size (t_dtype r); nbytes = bd_nbytes (t_buffer r);
          dims = zip (t_shapes r) (t_strides r) in
      reject_if (n = 0 \<or> n > MAX_TENSOR_DIMS) ''invalid Tensor: ndims out of range''
      (reject_if (t_dtype r \<ge> DATA_TYPE_NUM) ''invalid Tensor: unknown dtype''
      (reject_if (elem = 0) ''invalid Tensor: unknown dtype''
      (reject_if (t_byte_offset r mod elem \<noteq> 0) ''invalid Tensor: byte_offset is not a multiple of the dtype size''
      (case check_dims (take n dims) of Inl e \<Rightarrow> Inl e | Inr _ \<Rightarrow>
       reject_if (list_ex (\<lambda>(sh, st). sh \<noteq> 0 \<or> st \<noteq> 0) (drop n dims))
         ''invalid Tensor: shape/stride slots past ndims must be zero''
      (let extent_bytes = tensor_extent_bytes r in
       reject_if (extent_bytes = TENSOR_EXTENT_UNREPRESENTABLE)
         ''invalid Tensor: view extent overflows 64 bits (shape/stride not representable)''
      (reject_if (t_byte_offset r > nbytes \<or> extent_bytes > nbytes - t_byte_offset r)
         ''invalid Tensor: view extends past the backing (byte_offset + extent > nbytes)''
       (Inr ()))))))))"

section \<open>Footprints and the overlap cascade\<close>

record TensorByteRange =
  br_begin :: u64
  br_end :: u64

definition range_overlaps :: "TensorByteRange \<Rightarrow> TensorByteRange \<Rightarrow> bool" where
  "range_overlaps r o' \<longleftrightarrow> br_begin r < br_end o' \<and> br_begin o' < br_end r"

definition range_covers :: "TensorByteRange \<Rightarrow> TensorByteRange \<Rightarrow> bool" where
  "range_covers r o' \<longleftrightarrow> br_begin r \<le> br_begin o' \<and> br_end o' \<le> br_end r"

definition tensor_byte_range :: "Tensor \<Rightarrow> TensorByteRange" where
  "tensor_byte_range r =
     \<lparr>br_begin = t_byte_offset r, br_end = tensor_add_sat (t_byte_offset r) (tensor_extent_bytes r)\<rparr>"

datatype TensorOverlap = OV_NONE | OV_PARTIAL | OV_COVERED

record TensorFootprint =
  f_byte_offset :: u64
  f_backing_nbytes :: u64
  f_shapes :: "u32 list"
  f_strides :: "u32 list"
  f_ndims :: u32
  f_dtype :: u8

definition whole_footprint :: TensorFootprint where
  "whole_footprint = \<lparr>f_byte_offset = 0, f_backing_nbytes = 0, f_shapes = replicate MAX_TENSOR_DIMS 0,
     f_strides = replicate MAX_TENSOR_DIMS 0, f_ndims = 0, f_dtype = 0\<rparr>"

definition is_whole_backing :: "TensorFootprint \<Rightarrow> bool" where
  "is_whole_backing f \<longleftrightarrow> f_ndims f = 0"

definition footprint_range :: "TensorFootprint \<Rightarrow> TensorByteRange" where
  "footprint_range f =
     (if is_whole_backing f then \<lparr>br_begin = 0, br_end = UINT64_MAX\<rparr>
      else \<lparr>br_begin = f_byte_offset f,
            br_end = tensor_add_sat (f_byte_offset f)
                       (view_extent_bytes (f_shapes f) (f_strides f) (f_ndims f) (f_dtype f))\<rparr>)"

definition tensor_footprint :: "Tensor \<Rightarrow> TensorFootprint" where
  "tensor_footprint r =
     \<lparr>f_byte_offset = t_byte_offset r, f_backing_nbytes = bd_nbytes (t_buffer r),
      f_shapes = t_shapes r, f_strides = t_strides r, f_ndims = t_ndims r, f_dtype = t_dtype r\<rparr>"

text \<open>Stage 2 prerequisites: equal non-zero strides that descend as exact multiples down to 1.\<close>

fun strides_agree :: "u32 list \<Rightarrow> u32 list \<Rightarrow> bool" where
  "strides_agree (p # ps) (e # es) \<longleftrightarrow> p = e \<and> p \<noteq> 0 \<and> strides_agree ps es"
| "strides_agree _ _ \<longleftrightarrow> True"

fun strides_divide :: "u32 list \<Rightarrow> bool" where
  "strides_divide (a # b # ss) \<longleftrightarrow> a mod b = 0 \<and> strides_divide (b # ss)"
| "strides_divide _ \<longleftrightarrow> True"

text \<open>The reference shape past axis 0: \<open>A[i] = strides[i-1] / strides[i]\<close>.\<close>

fun ref_tail :: "u32 list \<Rightarrow> u32 list" where
  "ref_tail (a # b # ss) = a div b # ref_tail (b # ss)"
| "ref_tail _ = []"

text \<open>The decomposition of an element offset into per-axis coordinates and a remainder.\<close>

fun axis_offsets :: "u32 list \<Rightarrow> u64 \<Rightarrow> u64 list \<times> u64" where
  "axis_offsets [] remain = ([], remain)"
| "axis_offsets (s # ss) remain =
     (let (offs, rest) = axis_offsets ss (remain mod ucast s) in (remain div ucast s # offs, rest))"

fun axes_exceed :: "u64 list \<Rightarrow> u32 list \<Rightarrow> u64 list \<Rightarrow> u32 list \<Rightarrow> u32 list \<Rightarrow> bool" where
  "axes_exceed (po # pos) (ps # pss) (eo # eos) (es # ess) (r # rs) \<longleftrightarrow>
     po + ucast ps > ucast r \<or> eo + ucast es > ucast r \<or> axes_exceed pos pss eos ess rs"
| "axes_exceed _ _ _ _ _ \<longleftrightarrow> False"

text \<open>Stage 2 core: per-axis segment intersection.\<close>

fun axis_cascade :: "u64 list \<Rightarrow> u32 list \<Rightarrow> u64 list \<Rightarrow> u32 list \<Rightarrow> bool \<Rightarrow> TensorOverlap" where
  "axis_cascade (po # pos) (ps # pss) (eo # eos) (es # ess) contains =
     (let p_end = po + ucast ps; e_end = eo + ucast es
      in if \<not> (po < e_end \<and> eo < p_end) then OV_NONE
         else axis_cascade pos pss eos ess (contains \<and> (po \<le> eo \<and> e_end \<le> p_end)))"
| "axis_cascade _ _ _ _ contains = (if contains then OV_COVERED else OV_PARTIAL)"

definition rect_overlap :: "TensorFootprint \<Rightarrow> TensorFootprint \<Rightarrow> TensorOverlap" where
  "rect_overlap probe entry =
     (let n = unat (f_ndims probe);
          strides = take n (f_strides probe);
          p_shapes = take n (f_shapes probe); e_shapes = take n (f_shapes entry);
          elem = get_element_size (f_dtype probe) in
      if elem = 0 then OV_PARTIAL
      else if f_byte_offset probe mod elem \<noteq> 0 \<or> f_byte_offset entry mod elem \<noteq> 0 then OV_PARTIAL
      else
        let numel_storage = f_backing_nbytes probe div elem; stride0 = hd strides in
        if numel_storage mod ucast stride0 \<noteq> 0 then OV_PARTIAL
        else
          let ref_shape0 = numel_storage div ucast stride0 in
          if ref_shape0 > ucast UINT32_MAX then OV_PARTIAL
          else
            let ref_shapes = ucast ref_shape0 # ref_tail strides;
                (p_off, p_remain) = axis_offsets strides (f_byte_offset probe div elem);
                (e_off, e_remain) = axis_offsets strides (f_byte_offset entry div elem) in
            if p_remain \<noteq> 0 \<or> e_remain \<noteq> 0 then OV_PARTIAL
            else if axes_exceed p_off p_shapes e_off e_shapes ref_shapes then OV_PARTIAL
            else axis_cascade p_off p_shapes e_off e_shapes True)"

definition tensor_overlap :: "TensorFootprint \<Rightarrow> TensorFootprint \<Rightarrow> TensorOverlap" where
  "tensor_overlap probe entry =
     (let probe_range = footprint_range probe; entry_range = footprint_range entry in
      if \<not> range_overlaps probe_range entry_range then OV_NONE
      else if is_whole_backing probe then
        (if br_begin entry_range \<ge> br_begin probe_range \<and> br_end entry_range \<le> br_end probe_range
         then OV_COVERED else OV_PARTIAL)
      else if is_whole_backing entry then OV_PARTIAL
      else if f_dtype probe \<noteq> f_dtype entry \<or> f_ndims probe \<noteq> f_ndims entry then OV_PARTIAL
      else
        let n = unat (f_ndims probe); strides = take n (f_strides probe) in
        if n > MAX_TENSOR_DIMS then OV_PARTIAL
        else if \<not> strides_agree strides (take n (f_strides entry)) then OV_PARTIAL
        else if last strides \<noteq> 1 then OV_PARTIAL
        else if \<not> strides_divide strides then OV_PARTIAL
        else rect_overlap probe entry)"

definition tensors_overlap :: "Tensor \<Rightarrow> Tensor \<Rightarrow> bool" where
  "tensors_overlap a b \<longleftrightarrow> identity_eq (bd_identity (t_buffer a)) (bd_identity (t_buffer b)) \<and>
     tensor_overlap (tensor_footprint a) (tensor_footprint b) \<noteq> OV_NONE"

section \<open>The bytes a view touches\<close>

text \<open>
  The reference semantics. A view's dimensions are pairs (shape, stride); the elements it
  touches are its origin plus every index combination times the strides, each of
  \<open>elem\<close> bytes. A whole-backing footprint touches every byte.
\<close>

fun elem_offsets :: "(nat \<times> nat) list \<Rightarrow> nat set" where
  "elem_offsets [] = {0}"
| "elem_offsets ((sh, st) # ds) = (\<Union>i\<in>{..<sh}. (\<lambda>e. i * st + e) ` elem_offsets ds)"

fun last_offset :: "(nat \<times> nat) list \<Rightarrow> nat" where
  "last_offset [] = 0"
| "last_offset ((sh, st) # ds) = (sh - 1) * st + last_offset ds"

definition dims_of :: "u32 list \<Rightarrow> u32 list \<Rightarrow> u32 \<Rightarrow> (nat \<times> nat) list" where
  "dims_of shapes strides ndims =
     (let k = min (unat ndims) MAX_TENSOR_DIMS in zip (map unat (take k shapes)) (map unat (take k strides)))"

definition elem_bytes :: "nat \<Rightarrow> nat \<Rightarrow> nat set \<Rightarrow> nat set" where
  "elem_bytes off elem es = (\<Union>e\<in>es. {off + e * elem ..< off + (e + 1) * elem})"

definition footprint_dims :: "TensorFootprint \<Rightarrow> (nat \<times> nat) list" where
  "footprint_dims f = dims_of (f_shapes f) (f_strides f) (f_ndims f)"

definition footprint_elem :: "TensorFootprint \<Rightarrow> nat" where
  "footprint_elem f = unat (get_element_size (f_dtype f))"

definition view_bytes :: "TensorFootprint \<Rightarrow> nat set" where
  "view_bytes f =
     (if is_whole_backing f then UNIV
      else elem_bytes (unat (f_byte_offset f)) (footprint_elem f) (elem_offsets (footprint_dims f)))"

text \<open>The unbounded extent of a view, and the footprints whose extent 64 bits can express.\<close>

definition true_extent :: "u32 list \<Rightarrow> u32 list \<Rightarrow> u32 \<Rightarrow> u8 \<Rightarrow> nat" where
  "true_extent shapes strides ndims dtype =
     (last_offset (dims_of shapes strides ndims) + 1) * unat (get_element_size dtype)"

definition footprint_ok :: "TensorFootprint \<Rightarrow> bool" where
  "footprint_ok f \<longleftrightarrow> is_whole_backing f \<or>
     length (f_shapes f) = MAX_TENSOR_DIMS \<and> length (f_strides f) = MAX_TENSOR_DIMS \<and>
     unat (f_ndims f) \<le> MAX_TENSOR_DIMS \<and> get_element_size (f_dtype f) \<noteq> 0 \<and>
     unat (f_byte_offset f) + true_extent (f_shapes f) (f_strides f) (f_ndims f) (f_dtype f) < 2 ^ 64"

definition tensor_wf :: "Tensor \<Rightarrow> bool" where
  "tensor_wf r \<longleftrightarrow> length (t_shapes r) = MAX_TENSOR_DIMS \<and> length (t_strides r) = MAX_TENSOR_DIMS"

subsection \<open>Extents\<close>

lemma unat_tensor_add_sat: "unat (tensor_add_sat a b) = min (unat a + unat b) (2 ^ 64 - 1)"
  by (auto simp: tensor_add_sat_def unat_add_no_wrap min_def)

lemma unat_tensor_mul_sat: "unat (tensor_mul_sat a b) = min (unat a * unat b) (2 ^ 64 - 1)"
  by (auto simp: tensor_mul_sat_def unat_mult_no_wrap min_def)

lemma unat_dec: "(sh :: u32) \<noteq> 0 \<Longrightarrow> unat (sh - 1) = unat sh - 1"
  by (simp add: unat_minus_one)

lemma unat_extent_loop:
  "length shs = length sts \<Longrightarrow>
   unat (extent_loop shs sts acc) =
     min (unat acc + last_offset (zip (map unat shs) (map unat sts))) (2 ^ 64 - 1)"
proof (induction shs sts acc rule: extent_loop.induct)
  case (1 sh shs st sts acc)
  show ?case
  proof (cases "sh = 0")
    case True
    with 1 show ?thesis by simp
  next
    case False
    let ?acc = "tensor_add_sat acc (tensor_mul_sat (ucast (sh - 1)) (ucast st))"
    have acc: "unat ?acc = min (unat acc + min ((unat sh - 1) * unat st) (2 ^ 64 - 1)) (2 ^ 64 - 1)"
      using False by (simp add: unat_tensor_add_sat unat_tensor_mul_sat unat_dec)
    have "unat (extent_loop (sh # shs) (st # sts) acc) = unat (extent_loop shs sts ?acc)"
      using False by simp
    also have "\<dots> = min (unat ?acc + last_offset (zip (map unat shs) (map unat sts))) (2 ^ 64 - 1)"
      using 1 False by simp
    finally show ?thesis unfolding acc by (simp add: min_def)
  qed
qed (auto simp: min_absorb1)

lemma view_extent_bytes_sat:
  assumes "length shapes = MAX_TENSOR_DIMS" "length strides = MAX_TENSOR_DIMS"
  shows "unat (view_extent_bytes shapes strides ndims dtype) =
     min (true_extent shapes strides ndims dtype) (2 ^ 64 - 1)"
proof -
  let ?k = "min (unat ndims) MAX_TENSOR_DIMS"
  let ?L = "last_offset (dims_of shapes strides ndims)"
  let ?e = "unat (get_element_size dtype)"
  have "unat (extent_loop (take ?k shapes) (take ?k strides) 0) = min ?L (2 ^ 64 - 1)"
    using assms by (simp add: unat_extent_loop dims_of_def Let_def)
  then have "unat (view_extent_bytes shapes strides ndims dtype) =
      min (min (min ?L (2 ^ 64 - 1) + 1) (2 ^ 64 - 1) * ?e) (2 ^ 64 - 1)"
    by (simp add: view_extent_bytes_def Let_def unat_tensor_add_sat unat_tensor_mul_sat)
  also have "\<dots> = min ((?L + 1) * ?e) (2 ^ 64 - 1)"
  proof (cases "?L + 1 \<le> 2 ^ 64 - 1")
    case True
    then show ?thesis by simp
  next
    case False
    then have "min (min ?L (2 ^ 64 - 1) + 1) (2 ^ 64 - 1) = (2 ^ 64 - 1 :: nat)" by simp
    moreover have "?e = 0 \<or> (2 ^ 64 - 1) * ?e \<ge> 2 ^ 64 - 1 \<and> (?L + 1) * ?e \<ge> 2 ^ 64 - 1"
    proof (cases "?e")
      case 0
      then show ?thesis by simp
    next
      case (Suc m)
      have "(?L + 1) * 1 \<le> (?L + 1) * ?e" using Suc by (intro mult_le_mono) simp_all
      with False Suc show ?thesis by simp
    qed
    ultimately show ?thesis by auto
  qed
  finally show ?thesis by (simp add: true_extent_def)
qed

lemma elem_offsets_le_last: "e \<in> elem_offsets ds \<Longrightarrow> e \<le> last_offset ds"
proof (induction ds arbitrary: e rule: elem_offsets.induct)
  case 1
  then show ?case by simp
next
  case (2 sh st ds)
  then obtain i e' where "i < sh" "e' \<in> elem_offsets ds" "e = i * st + e'" by auto
  moreover have "i * st \<le> (sh - 1) * st" using \<open>i < sh\<close> by (intro mult_le_mono) simp_all
  ultimately show ?case using 2 by (fastforce intro: add_mono)
qed

lemma elem_bytes_bounds:
  assumes "x \<in> elem_bytes off elem (elem_offsets ds)"
  shows "off \<le> x" "x < off + (last_offset ds + 1) * elem"
proof -
  from assms obtain e where e: "e \<in> elem_offsets ds" "off + e * elem \<le> x" "x < off + (e + 1) * elem"
    by (auto simp: elem_bytes_def)
  have "(e + 1) * elem \<le> (last_offset ds + 1) * elem"
    using elem_offsets_le_last [OF e(1)] by (intro mult_le_mono) simp_all
  then show "x < off + (last_offset ds + 1) * elem" using e(3) by linarith
  show "off \<le> x" using e(2) by linarith
qed

end
