(* ===== verification/Overlap_Soundness.thy ===== *)
theory Overlap_Soundness
  imports Tensor_View
begin

text \<open>
  Soundness of \<open>tensor_overlap\<close> against the bytes two views touch, and the bounds a
  validated tensor guarantees. The first part is a mixed-radix argument over plain
  numbers: under a stride vector whose entries divide each other down to 1, a cell's
  coordinates are determined by its flat index. The second part reads the word-level
  cascade as statements about those coordinates.
\<close>

section \<open>Mixed-radix coordinates\<close>

fun flat :: "nat list \<Rightarrow> nat list \<Rightarrow> nat" where
  "flat (s # ss) (c # cs) = c * s + flat ss cs"
| "flat _ _ = 0"

fun radix_tail :: "nat list \<Rightarrow> nat list" where
  "radix_tail (a # b # ss) = a div b # radix_tail (b # ss)"
| "radix_tail _ = []"

fun radix_chain :: "nat list \<Rightarrow> bool" where
  "radix_chain (a # b # ss) \<longleftrightarrow> 0 < a \<and> b dvd a \<and> radix_chain (b # ss)"
| "radix_chain ss \<longleftrightarrow> ss = [1]"

lemma flat_below_radix:
  "radix_chain (s # ss) \<Longrightarrow> list_all2 (<) cs (radix_tail (s # ss)) \<Longrightarrow> flat ss cs < s"
proof (induction ss arbitrary: s cs)
  case Nil
  then show ?case by simp
next
  case (Cons t ts)
  then obtain c cs' where cs: "cs = c # cs'" "c < s div t" "list_all2 (<) cs' (radix_tail (t # ts))"
    by (cases cs) auto
  have "flat ts cs' < t" using Cons cs by simp
  then have "flat (t # ts) cs < (c + 1) * t" using cs by simp
  also have "\<dots> \<le> (s div t) * t" using cs(2) by (intro mult_le_mono) simp_all
  also have "\<dots> \<le> s" by simp
  finally show ?case .
qed

lemma flat_unique:
  assumes "radix_chain (s # ss)"
    and "list_all2 (<) cs (radix_tail (s # ss))" "list_all2 (<) ds (radix_tail (s # ss))"
    and "flat (s # ss) (c # cs) = flat (s # ss) (d # ds)"
  shows "c = d \<and> cs = ds"
  using assms
proof (induction ss arbitrary: s c d cs ds)
  case Nil
  then show ?case by simp
next
  case (Cons t ts)
  have lt: "flat (t # ts) cs < s" "flat (t # ts) ds < s"
    using Cons.prems flat_below_radix by blast+
  have eq: "c * s + flat (t # ts) cs = d * s + flat (t # ts) ds"
    using Cons.prems(4) by (cases cs; cases ds) auto
  have c: "c = d"
    using arg_cong [OF eq, of "\<lambda>x. x div s"] lt by simp
  with eq have rest: "flat (t # ts) cs = flat (t # ts) ds" by simp
  from Cons.prems(2,3) obtain a as b bs where "cs = a # as" "ds = b # bs"
    "list_all2 (<) as (radix_tail (t # ts))" "list_all2 (<) bs (radix_tail (t # ts))"
    by (cases cs; cases ds) auto
  with Cons.IH [of t as bs a b] Cons.prems(1) rest c show ?case by simp
qed

lemma flat_add:
  "length ss = length xs \<Longrightarrow> length ss = length ys \<Longrightarrow> flat ss (map2 (+) xs ys) = flat ss xs + flat ss ys"
proof (induction ss arbitrary: xs ys)
  case Nil
  then show ?case by simp
next
  case (Cons s ss)
  then show ?case by (cases xs; cases ys) (auto simp: algebra_simps)
qed

lemma elem_offsets_coords:
  "length shs = length ss \<Longrightarrow>
   e \<in> elem_offsets (zip shs ss) \<longleftrightarrow> (\<exists>idx. list_all2 (<) idx shs \<and> e = flat ss idx)"
proof (induction shs arbitrary: ss e)
  case Nil
  then show ?case by simp
next
  case (Cons sh shs)
  then obtain s ss' where ss: "ss = s # ss'" "length shs = length ss'" by (cases ss) auto
  show ?case
  proof
    assume "e \<in> elem_offsets (zip (sh # shs) ss)"
    then obtain i e' where "i < sh" "e' \<in> elem_offsets (zip shs ss')" "e = i * s + e'"
      using ss by auto
    then obtain idx where "list_all2 (<) idx shs" "e' = flat ss' idx"
      using Cons.IH ss by auto
    then have "list_all2 (<) (i # idx) (sh # shs) \<and> e = flat ss (i # idx)"
      using \<open>i < sh\<close> \<open>e = i * s + e'\<close> ss by simp
    then show "\<exists>idx. list_all2 (<) idx (sh # shs) \<and> e = flat ss idx" by blast
  next
    assume "\<exists>idx. list_all2 (<) idx (sh # shs) \<and> e = flat ss idx"
    then obtain i idx where "i < sh" "list_all2 (<) idx shs" "e = i * s + flat ss' idx"
      using ss by (auto simp: list_all2_Cons2)
    then show "e \<in> elem_offsets (zip (sh # shs) ss)"
      using Cons.IH ss by force
  qed
qed

section \<open>The word-level cascade in numbers\<close>

lemma axis_offsets_flat:
  "axis_offsets ss r = (offs, rest) \<Longrightarrow>
   length offs = length ss \<and> unat r = flat (map unat ss) (map unat offs) + unat rest"
proof (induction ss arbitrary: r offs rest)
  case Nil
  then show ?case by simp
next
  case (Cons s ss)
  obtain os where os: "axis_offsets ss (r mod ucast s) = (os, rest)" "offs = r div ucast s # os"
    using Cons.prems by (auto simp: Let_def split: prod.splits)
  have "unat r = unat (r div ucast s) * unat s + unat (r mod ucast s)"
    by (simp add: unat_div_distrib unat_mod_distrib)
  with Cons.IH [OF os(1)] os(2) show ?case by simp
qed

text \<open>No axis sum wraps when the farthest element of the view is representable.\<close>

definition axes_fit :: "u64 list \<Rightarrow> u32 list \<Rightarrow> bool" where
  "axes_fit offs shs \<longleftrightarrow> list_all2 (\<lambda>off sh. unat off + unat sh < 2 ^ 64) offs shs"

lemma axes_fitI:
  assumes "length offs = length ss" "length shs = length ss" "0 \<notin> set ss"
    and "flat (map unat ss) (map unat offs) + last_offset (zip (map unat shs) (map unat ss)) + 1 < 2 ^ 64"
  shows "axes_fit offs shs"
  using assms
proof (induction ss arbitrary: offs shs)
  case Nil
  then show ?case by (simp add: axes_fit_def)
next
  case (Cons s ss)
  then obtain off offs' sh shs' where l: "offs = off # offs'" "shs = sh # shs'"
    by (cases offs; cases shs) auto
  have "0 < unat s" using Cons.prems(3) by (auto simp: unat_gt_0)
  then have le: "unat off \<le> unat off * unat s" "unat sh - 1 \<le> (unat sh - 1) * unat s" by simp_all
  have "unat off * unat s + (unat sh - 1) * unat s + 1 < 2 ^ 64" using Cons.prems(4) by (simp add: l)
  then have "unat off + (unat sh - 1) + 1 < 2 ^ 64" using le by linarith
  then have "unat off + unat sh < 2 ^ 64" by linarith
  moreover have "axes_fit offs' shs'" using Cons l by simp
  ultimately show ?case by (simp add: axes_fit_def l)
qed

lemma axes_not_exceed:
  assumes "\<not> axes_exceed po ps eo es rs" "axes_fit po ps" "axes_fit eo es"
    and "length po = length rs" "length eo = length rs"
  shows "list_all2 (\<le>) (map2 (+) (map unat po) (map unat ps)) (map unat rs)"
    and "list_all2 (\<le>) (map2 (+) (map unat eo) (map unat es)) (map unat rs)"
  using assms
proof (induction po ps eo es rs rule: axes_exceed.induct)
  case (1 po pos ps pss eo eos es ess r rs)
  {
    case 1
    then show ?case using "1.IH"
      by (auto simp: axes_fit_def not_less word_le_nat_alt unat_add_no_wrap)
  next
    case 2
    then show ?case using "1.IH"
      by (auto simp: axes_fit_def not_less word_le_nat_alt unat_add_no_wrap)
  }
qed (auto simp: axes_fit_def)


lemma cascade_none:
  assumes "axis_cascade po ps eo es c = OV_NONE" "axes_fit po ps" "axes_fit eo es" "length po = length eo"
    and "list_all2 (\<lambda>x (o', s). unat o' \<le> x \<and> x < unat o' + unat s) xs (zip po ps)"
    and "list_all2 (\<lambda>y (o', s). unat o' \<le> y \<and> y < unat o' + unat s) ys (zip eo es)"
  shows "xs \<noteq> ys"
  using assms
proof (induction po ps eo es c arbitrary: xs ys rule: axis_cascade.induct)
  case (1 po pos ps pss eo eos es ess c)
  obtain x xs' y ys' where xy: "xs = x # xs'" "ys = y # ys'"
    using 1(6,7) by (auto simp: list_all2_Cons2)
  have fits: "unat po + unat ps < 2 ^ 64" "unat eo + unat es < 2 ^ 64"
    and fit': "axes_fit pos pss" "axes_fit eos ess"
    using 1(3,4) by (simp_all add: axes_fit_def)
  have in_axis: "unat po \<le> x" "x < unat po + unat ps" "unat eo \<le> y" "y < unat eo + unat es"
    using 1(6,7) by (simp_all add: xy)
  show ?case
  proof (cases "po < eo + ucast es \<and> eo < po + ucast ps")
    case True
    then have "axis_cascade pos pss eos ess (c \<and> (po \<le> eo \<and> eo + ucast es \<le> po + ucast ps)) = OV_NONE"
      using 1(2) by (simp add: Let_def)
    then have "xs' \<noteq> ys'"
      using 1(1) [OF refl refl _ _ fit'] True 1(5-7) by (simp add: xy)
    then show ?thesis by (simp add: xy)
  next
    case False
    then have "x \<noteq> y"
      using fits in_axis by (auto simp: word_less_nat_alt unat_add_no_wrap not_less)
    then show ?thesis by (simp add: xy)
  qed
qed (auto simp: axes_fit_def split: if_splits)

lemma cascade_flag: "axis_cascade po ps eo es c = OV_COVERED \<Longrightarrow> c"
  by (induction po ps eo es c rule: axis_cascade.induct) (auto simp: Let_def split: if_splits)

lemma cascade_covered:
  assumes "axis_cascade po ps eo es c = OV_COVERED" "axes_fit po ps" "axes_fit eo es" "length po = length eo"
    and "list_all2 (\<lambda>y (o', s). unat o' \<le> y \<and> y < unat o' + unat s) ys (zip eo es)"
  shows "list_all2 (\<lambda>y (o', s). unat o' \<le> y \<and> y < unat o' + unat s) ys (zip po ps)"
  using assms
proof (induction po ps eo es c arbitrary: ys rule: axis_cascade.induct)
  case (1 po pos ps pss eo eos es ess c)
  obtain y ys' where ys: "ys = y # ys'" using 1(6) by (auto simp: list_all2_Cons2)
  have fits: "unat po + unat ps < 2 ^ 64" "unat eo + unat es < 2 ^ 64"
    and fit': "axes_fit pos pss" "axes_fit eos ess"
    using 1(3,4) by (simp_all add: axes_fit_def)
  let ?c = "c \<and> (po \<le> eo \<and> eo + ucast es \<le> po + ucast ps)"
  have meet: "po < eo + ucast es \<and> eo < po + ucast ps" and rest: "axis_cascade pos pss eos ess ?c = OV_COVERED"
    using 1(2) by (simp_all add: Let_def split: if_splits)
  have "unat po \<le> unat eo" "unat eo + unat es \<le> unat po + unat ps"
    using cascade_flag [OF rest] fits by (auto simp: word_le_nat_alt unat_add_no_wrap)
  moreover have "list_all2 (\<lambda>y (o', s). unat o' \<le> y \<and> y < unat o' + unat s) ys' (zip pos pss)"
    using 1(1) [OF refl refl _ rest fit'] meet 1(5,6) by (simp add: ys)
  ultimately show ?case using 1(6) by (auto simp: ys)
qed (auto simp: axes_fit_def split: if_splits)

section \<open>Stage 2\<close>

lemma strides_agree_eq:
  "strides_agree ps es \<Longrightarrow> length ps = length es \<Longrightarrow> ps = es \<and> 0 \<notin> set ps"
  by (induction ps es rule: strides_agree.induct) auto

lemma strides_radix_chain:
  "strides_divide ss \<Longrightarrow> 0 \<notin> set ss \<Longrightarrow> ss \<noteq> [] \<Longrightarrow> last ss = 1 \<Longrightarrow> radix_chain (map unat ss)"
proof (induction ss rule: strides_divide.induct)
  case (1 a b ss)
  have "unat a mod unat b = 0"
    using 1(2) by (metis strides_divide.simps(1) unat_0 unat_mod_distrib)
  moreover have "0 < unat a" using 1(3) by (auto simp: unat_gt_0)
  ultimately show ?case using 1 by (auto simp: mod_eq_0_iff_dvd split: if_splits)
qed auto

lemma radix_tail_unat: "map unat (ref_tail ss) = radix_tail (map unat ss)"
  by (induction ss rule: ref_tail.induct) (auto simp: unat_div_distrib)

text \<open>What a pair that reaches the cascade satisfies, in numbers.\<close>

lemma coords_of_elem:
  assumes "list_all2 (<) idx (map unat shs)" "length offs = length shs"
  shows "list_all2 (\<lambda>x (o', s). unat o' \<le> x \<and> x < unat o' + unat s)
           (map2 (+) (map unat offs) idx) (zip offs shs)"
  using assms
proof (induction offs arbitrary: shs idx)
  case Nil
  then show ?case by simp
next
  case (Cons o' offs)
  then show ?case by (cases shs; cases idx) auto
qed

lemma elem_of_coords:
  assumes "list_all2 (\<lambda>x (o', s). unat o' \<le> x \<and> x < unat o' + unat s) xs (zip offs shs)"
    and "length offs = length shs"
  shows "\<exists>idx. list_all2 (<) idx (map unat shs) \<and> xs = map2 (+) (map unat offs) idx"
  using assms
proof (induction offs arbitrary: shs xs)
  case Nil
  then show ?case by auto
next
  case (Cons o' offs)
  then obtain sh shs' x xs' where l: "shs = sh # shs'" "xs = x # xs'" "unat o' \<le> x" "x < unat o' + unat sh"
    "list_all2 (\<lambda>x (o', s). unat o' \<le> x \<and> x < unat o' + unat s) xs' (zip offs shs')"
    by (cases shs; cases xs) auto
  then obtain idx where "list_all2 (<) idx (map unat shs')" "xs' = map2 (+) (map unat offs) idx"
    using Cons by force
  then have "list_all2 (<) ((x - unat o') # idx) (map unat shs) \<and>
      xs = map2 (+) (map unat (o' # offs)) ((x - unat o') # idx)"
    using l by auto
  then show ?case by blast
qed

lemma coords_below_ref:
  assumes "list_all2 (\<lambda>x (o', s). unat o' \<le> x \<and> x < unat o' + unat s) xs (zip offs shs)"
    and "list_all2 (\<le>) (map2 (+) (map unat offs) (map unat shs)) rs" "length offs = length shs"
  shows "list_all2 (<) xs rs"
  using assms
proof (induction offs arbitrary: shs xs rs)
  case Nil
  then show ?case by simp
next
  case (Cons o' offs)
  then show ?case by (cases shs; cases xs; cases rs) auto
qed

text \<open>
  The facts a pair satisfies once the cascade runs: both origins are cells of one
  row-major layout, no axis wraps, and each view stays inside the layout's axes.
\<close>

definition rect_pair ::
    "TensorFootprint \<Rightarrow> TensorFootprint \<Rightarrow> u64 list \<Rightarrow> u64 list \<Rightarrow> u32 list \<Rightarrow> bool" where
  "rect_pair p e po eo strides \<longleftrightarrow>
     (let n = unat (f_ndims p); S = map unat strides; elem = footprint_elem p;
          psh = take n (f_shapes p); esh = take n (f_shapes e) in
      strides \<noteq> [] \<and> radix_chain S \<and> length psh = length S \<and> length esh = length S \<and>
      length po = length S \<and> length eo = length S \<and>
      footprint_dims p = zip (map unat psh) S \<and> footprint_dims e = zip (map unat esh) S \<and>
      0 < elem \<and> footprint_elem e = elem \<and>
      unat (f_byte_offset p) = flat S (map unat po) * elem \<and>
      unat (f_byte_offset e) = flat S (map unat eo) * elem \<and>
      axes_fit po psh \<and> axes_fit eo esh)"

definition rect_bounded ::
    "TensorFootprint \<Rightarrow> TensorFootprint \<Rightarrow> u64 list \<Rightarrow> u64 list \<Rightarrow> u32 list \<Rightarrow> bool" where
  "rect_bounded p e po eo strides \<longleftrightarrow>
     (\<exists>r0. list_all2 (\<le>) (map2 (+) (map unat po) (map unat (take (unat (f_ndims p)) (f_shapes p))))
              (r0 # radix_tail (map unat strides)) \<and>
           list_all2 (\<le>) (map2 (+) (map unat eo) (map unat (take (unat (f_ndims p)) (f_shapes e))))
              (r0 # radix_tail (map unat strides)))"

text \<open>An element of a view, as a cell of the layout.\<close>

lemma view_cell:
  assumes "x \<in> elem_bytes (flat S (map unat offs) * elem) elem (elem_offsets (zip (map unat shs) S))"
    and "length offs = length S" "length shs = length S" "0 < elem"
  obtains xs where "list_all2 (\<lambda>c (o', s). unat o' \<le> c \<and> c < unat o' + unat s) xs (zip offs shs)"
    and "x div elem = flat S xs"
proof -
  let ?o = "map unat offs"
  from assms(1) obtain e where e: "e \<in> elem_offsets (zip (map unat shs) S)"
    and x: "flat S ?o * elem + e * elem \<le> x" "x < flat S ?o * elem + (e + 1) * elem"
    by (auto simp: elem_bytes_def)
  from e assms(3) obtain idx where idx: "list_all2 (<) idx (map unat shs)" "e = flat S idx"
    by (auto simp: elem_offsets_coords)
  have len: "length idx = length S" using idx(1) assms(3) by (simp add: list_all2_lengthD)
  have "x div elem = flat S ?o + e"
    using x assms(4) by (intro div_nat_eqI) (auto simp: algebra_simps)
  also have "\<dots> = flat S (map2 (+) ?o idx)" using idx(2) len assms(2) by (simp add: flat_add)
  finally show thesis
    using that [OF coords_of_elem [OF idx(1)]] assms(2,3) by simp
qed

lemma cell_view:
  assumes "list_all2 (\<lambda>c (o', s). unat o' \<le> c \<and> c < unat o' + unat s) xs (zip offs shs)"
    and "x div elem = flat S xs" "length offs = length S" "length shs = length S" "0 < elem"
  shows "x \<in> elem_bytes (flat S (map unat offs) * elem) elem (elem_offsets (zip (map unat shs) S))"
proof -
  let ?o = "map unat offs"
  obtain idx where idx: "list_all2 (<) idx (map unat shs)" "xs = map2 (+) ?o idx"
    using elem_of_coords [OF assms(1)] assms(3,4) by auto
  have len: "length idx = length S" using idx(1) assms(4) by (simp add: list_all2_lengthD)
  have e: "flat S idx \<in> elem_offsets (zip (map unat shs) S)"
    using idx(1) assms(4) by (auto simp: elem_offsets_coords)
  have "x div elem = flat S ?o + flat S idx"
    using assms(2,3) idx(2) len by (simp add: flat_add)
  then have "(flat S ?o + flat S idx) * elem \<le> x" "x < (flat S ?o + flat S idx + 1) * elem"
    using assms(5) div_times_less_eq_dividend [of x elem] dividend_less_div_times [of elem x] by (auto simp: algebra_simps)
  then show ?thesis using e by (auto simp: elem_bytes_def algebra_simps intro!: bexI [of _ "flat S idx"])
qed

lemma rect_none:
  assumes "rect_pair p e po eo strides" "rect_bounded p e po eo strides"
    and "axis_cascade po (take (unat (f_ndims p)) (f_shapes p)) eo (take (unat (f_ndims p)) (f_shapes e)) True = OV_NONE"
    and "\<not> is_whole_backing p" "\<not> is_whole_backing e"
  shows "view_bytes p \<inter> view_bytes e = {}"
proof (rule equals0I)
  let ?S = "map unat strides" and ?n = "unat (f_ndims p)"
  fix x assume "x \<in> view_bytes p \<inter> view_bytes e"
  then obtain xs ys
    where xs: "list_all2 (\<lambda>c (o', s). unat o' \<le> c \<and> c < unat o' + unat s) xs (zip po (take ?n (f_shapes p)))"
      and ys: "list_all2 (\<lambda>c (o', s). unat o' \<le> c \<and> c < unat o' + unat s) ys (zip eo (take ?n (f_shapes e)))"
      and eq: "flat ?S xs = flat ?S ys"
    using assms(1,4,5) by (auto simp: view_bytes_def rect_pair_def Let_def elim!: view_cell)
  from assms(2) obtain r0 where "list_all2 (<) xs (r0 # radix_tail ?S)" "list_all2 (<) ys (r0 # radix_tail ?S)"
    using coords_below_ref [OF xs] coords_below_ref [OF ys] assms(1)
    by (auto simp: rect_bounded_def rect_pair_def Let_def)
  then obtain a as b bs where "xs = a # as" "ys = b # bs"
    "list_all2 (<) as (radix_tail ?S)" "list_all2 (<) bs (radix_tail ?S)"
    by (auto simp: list_all2_Cons2)
  moreover obtain s ss where "?S = s # ss" using assms(1) by (cases strides) (auto simp: rect_pair_def Let_def)
  ultimately have "xs = ys"
    using flat_unique [of s ss as bs a b] eq assms(1) by (auto simp: rect_pair_def Let_def)
  moreover have "xs \<noteq> ys"
    using cascade_none [OF assms(3) _ _ _ xs ys] assms(1) by (auto simp: rect_pair_def Let_def)
  ultimately show False by simp
qed

lemma rect_covered:
  assumes "rect_pair p e po eo strides"
    and "axis_cascade po (take (unat (f_ndims p)) (f_shapes p)) eo (take (unat (f_ndims p)) (f_shapes e)) True = OV_COVERED"
    and "\<not> is_whole_backing p" "\<not> is_whole_backing e"
  shows "view_bytes e \<subseteq> view_bytes p"
proof
  let ?S = "map unat strides" and ?n = "unat (f_ndims p)"
  fix x assume "x \<in> view_bytes e"
  then obtain ys
    where ys: "list_all2 (\<lambda>c (o', s). unat o' \<le> c \<and> c < unat o' + unat s) ys (zip eo (take ?n (f_shapes e)))"
      and eq: "x div footprint_elem p = flat ?S ys"
    using assms(1,4) by (auto simp: view_bytes_def rect_pair_def Let_def elim!: view_cell)
  have "list_all2 (\<lambda>c (o', s). unat o' \<le> c \<and> c < unat o' + unat s) ys (zip po (take ?n (f_shapes p)))"
    using cascade_covered [OF assms(2) _ _ _ ys] assms(1) by (auto simp: rect_pair_def Let_def)
  from cell_view [OF this eq] show "x \<in> view_bytes p"
    using assms(1,3) by (auto simp: view_bytes_def rect_pair_def Let_def)
qed

text \<open>The guards of \<open>tensor_overlap\<close> and \<open>rect_overlap\<close> establish those facts.\<close>

lemma footprint_dims_take:
  assumes "footprint_ok f" "\<not> is_whole_backing f"
  shows "footprint_dims f =
    zip (map unat (take (unat (f_ndims f)) (f_shapes f))) (map unat (take (unat (f_ndims f)) (f_strides f)))"
  using assms by (simp add: footprint_dims_def dims_of_def footprint_ok_def Let_def min_def)

lemma offset_axes_fit:
  assumes "footprint_ok f" "\<not> is_whole_backing f"
    and "unat (f_byte_offset f) = flat (map unat strides) (map unat offs) * footprint_elem f"
    and "strides = take (unat (f_ndims f)) (f_strides f)" "0 \<notin> set strides"
    and "length offs = length strides"
  shows "axes_fit offs (take (unat (f_ndims f)) (f_shapes f))"
proof (rule axes_fitI [OF assms(6) _ assms(5)])
  let ?shs = "take (unat (f_ndims f)) (f_shapes f)" and ?S = "map unat strides"
  show "length ?shs = length strides"
    using assms(1,2,4) by (simp add: footprint_ok_def)
  let ?m = "flat ?S (map unat offs) + (last_offset (zip (map unat ?shs) ?S) + 1)"
  have "?m * footprint_elem f < 2 ^ 64"
    using assms(1-4) footprint_dims_take [OF assms(1,2)]
    by (simp add: footprint_ok_def true_extent_def footprint_elem_def footprint_dims_def algebra_simps)
  moreover have "?m * 1 \<le> ?m * footprint_elem f"
    using assms(1,2) by (intro mult_le_mono) (auto simp: footprint_ok_def footprint_elem_def Suc_le_eq unat_gt_0)
  ultimately show "flat ?S (map unat offs) + last_offset (zip (map unat ?shs) ?S) + 1 < 2 ^ 64" by simp
qed

lemma offset_multiple:
  assumes "off mod elem = 0" "axis_offsets strides (off div elem) = (offs, 0)"
  shows "unat off = flat (map unat strides) (map unat offs) * unat elem"
proof -
  have "unat off mod unat elem = 0" using assms(1) by (metis unat_0 unat_mod_distrib)
  then have "unat off = unat (off div elem) * unat elem"
    by (metis add.right_neutral div_mult_mod_eq unat_div_distrib)
  with axis_offsets_flat [OF assms(2)] show ?thesis by simp
qed

lemma rect_overlap_pair:
  assumes ok: "footprint_ok p" "footprint_ok e" and nw: "\<not> is_whole_backing p" "\<not> is_whole_backing e"
    and same: "f_dtype p = f_dtype e" "f_ndims p = f_ndims e"
    and strides: "strides = take (unat (f_ndims p)) (f_strides p)"
    and agree: "strides_agree strides (take (unat (f_ndims e)) (f_strides e))"
    and chain: "last strides = 1" "strides_divide strides"
    and res: "rect_overlap p e \<noteq> OV_PARTIAL"
  obtains po eo where "rect_pair p e po eo strides" "rect_bounded p e po eo strides"
    "rect_overlap p e =
       axis_cascade po (take (unat (f_ndims p)) (f_shapes p)) eo (take (unat (f_ndims p)) (f_shapes e)) True"
proof -
  let ?n = "unat (f_ndims p)" and ?elem = "get_element_size (f_dtype p)"
  have len: "length (take ?n (f_shapes p)) = ?n" "length (take ?n (f_shapes e)) = ?n" "length strides = ?n"
    "length (take (unat (f_ndims e)) (f_strides e)) = ?n"
    using ok nw same(2) by (auto simp: footprint_ok_def strides)
  have n0: "0 < ?n" using nw by (simp add: is_whole_backing_def unat_gt_0)
  then have ne: "strides \<noteq> []" using len(3) by auto
  have eq: "strides = take (unat (f_ndims e)) (f_strides e)" and nz: "0 \<notin> set strides"
    using strides_agree_eq [OF agree] len by auto
  have S: "radix_chain (map unat strides)" using strides_radix_chain chain nz ne by blast
  obtain po pr where po: "axis_offsets strides (f_byte_offset p div ?elem) = (po, pr)" by fastforce
  obtain eo er where eo: "axis_offsets strides (f_byte_offset e div ?elem) = (eo, er)" by fastforce
  let ?r0 = "ucast ((f_backing_nbytes p div ?elem) div ucast (hd strides)) :: u32"
  have guards: "f_byte_offset p mod ?elem = 0" "f_byte_offset e mod ?elem = 0" "pr = 0" "er = 0"
    and inside: "\<not> axes_exceed po (take ?n (f_shapes p)) eo (take ?n (f_shapes e)) (?r0 # ref_tail strides)"
    and run: "rect_overlap p e = axis_cascade po (take ?n (f_shapes p)) eo (take ?n (f_shapes e)) True"
    using res po eo strides by (auto simp: rect_overlap_def Let_def split: if_splits)
  have lpo: "length po = length strides" "length eo = length strides"
    using axis_offsets_flat [OF po] axis_offsets_flat [OF eo] by simp_all
  have offp: "unat (f_byte_offset p) = flat (map unat strides) (map unat po) * footprint_elem p"
    using offset_multiple [OF guards(1)] po guards(3) by (simp add: footprint_elem_def)
  have offe: "unat (f_byte_offset e) = flat (map unat strides) (map unat eo) * footprint_elem e"
    using offset_multiple [OF guards(2)] eo guards(4) same(1) by (simp add: footprint_elem_def)
  have fitp: "axes_fit po (take ?n (f_shapes p))"
    using offset_axes_fit [OF ok(1) nw(1) offp strides nz lpo(1)] .
  have fite: "axes_fit eo (take ?n (f_shapes e))"
    using offset_axes_fit [OF ok(2) nw(2) offe eq nz lpo(2)] same(2) by simp
  have lref: "length (?r0 # ref_tail strides) = length strides"
    using ne by (induction strides rule: ref_tail.induct) auto
  have "rect_pair p e po eo strides"
    using ne S len lpo offp offe fitp fite same ok nw footprint_dims_take [OF ok(1) nw(1)]
      footprint_dims_take [OF ok(2) nw(2)] strides eq
    by (auto simp: rect_pair_def Let_def footprint_elem_def footprint_ok_def unat_gt_0)
  moreover have "rect_bounded p e po eo strides"
    using axes_not_exceed [OF inside fitp fite] lpo lref radix_tail_unat [of strides]
    unfolding rect_bounded_def by (intro exI [of _ "unat ?r0"]) simp
  ultimately show thesis using that run by blast
qed

section \<open>Soundness of the cascade\<close>

lemma view_bytes_in_range:
  assumes "footprint_ok f" "\<not> is_whole_backing f" "x \<in> view_bytes f"
  shows "unat (br_begin (footprint_range f)) \<le> x" "x < unat (br_end (footprint_range f))"
proof -
  have b: "unat (f_byte_offset f) \<le> x"
    "x < unat (f_byte_offset f) + true_extent (f_shapes f) (f_strides f) (f_ndims f) (f_dtype f)"
    using elem_bytes_bounds assms(2,3)
    by (auto simp: view_bytes_def true_extent_def footprint_dims_def footprint_elem_def)
  have "unat (br_end (footprint_range f)) =
      unat (f_byte_offset f) + true_extent (f_shapes f) (f_strides f) (f_ndims f) (f_dtype f)"
    using assms(1,2) by (simp add: footprint_range_def footprint_ok_def unat_tensor_add_sat view_extent_bytes_sat)
  with b(2) show "x < unat (br_end (footprint_range f))" by simp
  show "unat (br_begin (footprint_range f)) \<le> x" using b(1) assms(2) by (simp add: footprint_range_def)
qed

lemma range_nonempty:
  assumes "footprint_ok f"
  shows "br_begin (footprint_range f) < br_end (footprint_range f)"
proof (cases "is_whole_backing f")
  case True
  then show ?thesis by (simp add: footprint_range_def word_less_nat_alt)
next
  case False
  have "0 < true_extent (f_shapes f) (f_strides f) (f_ndims f) (f_dtype f)"
    using assms False by (simp add: true_extent_def footprint_ok_def unat_gt_0)
  then show ?thesis
    using assms False
    by (simp add: footprint_range_def footprint_ok_def word_less_nat_alt unat_tensor_add_sat view_extent_bytes_sat)
qed

lemma disjoint_ranges:
  assumes "footprint_ok p" "footprint_ok e" "\<not> range_overlaps (footprint_range p) (footprint_range e)"
  shows "view_bytes p \<inter> view_bytes e = {}"
proof -
  have whole: "br_begin (footprint_range f) = 0 \<and> br_end (footprint_range f) = UINT64_MAX"
    if "is_whole_backing f" for f using that by (simp add: footprint_range_def)
  have "range_overlaps (footprint_range p) (footprint_range e)"
    if "is_whole_backing p \<or> is_whole_backing e"
    using that whole [of p] whole [of e] range_nonempty [OF assms(1)] range_nonempty [OF assms(2)]
    by (auto simp: range_overlaps_def intro: order.strict_trans2 [OF _ word_order.extremum]
      order.strict_trans1 [OF word_zero_le])
  then have "\<not> is_whole_backing p" "\<not> is_whole_backing e" using assms(3) by blast+
  then show ?thesis
    using assms view_bytes_in_range [of p] view_bytes_in_range [of e]
    by (fastforce simp: range_overlaps_def word_less_nat_alt)
qed

lemma tensor_overlap_rect:
  assumes "tensor_overlap p e \<noteq> OV_PARTIAL" "range_overlaps (footprint_range p) (footprint_range e)"
    and "\<not> is_whole_backing p"
  shows "\<not> is_whole_backing e" "f_dtype p = f_dtype e" "f_ndims p = f_ndims e"
    "strides_agree (take (unat (f_ndims p)) (f_strides p)) (take (unat (f_ndims e)) (f_strides e))"
    "last (take (unat (f_ndims p)) (f_strides p)) = 1" "strides_divide (take (unat (f_ndims p)) (f_strides p))"
    "tensor_overlap p e = rect_overlap p e"
  using assms by (auto simp: tensor_overlap_def Let_def split: if_splits)

lemma tensor_overlap_none_sound:
  assumes ok: "footprint_ok p" "footprint_ok e" and res: "tensor_overlap p e = OV_NONE"
  shows "view_bytes p \<inter> view_bytes e = {}"
proof (cases "range_overlaps (footprint_range p) (footprint_range e)")
  case False
  then show ?thesis using disjoint_ranges ok by blast
next
  case True
  then have nw: "\<not> is_whole_backing p" using res by (auto simp: tensor_overlap_def Let_def split: if_splits)
  from res have "tensor_overlap p e \<noteq> OV_PARTIAL" by simp
  note g = tensor_overlap_rect [OF this True nw]
  have "rect_overlap p e \<noteq> OV_PARTIAL" using g(7) res by simp
  from rect_overlap_pair [OF ok nw g(1-3) refl g(4-6) this]
  obtain po eo where rp: "rect_pair p e po eo (take (unat (f_ndims p)) (f_strides p))"
    and rb: "rect_bounded p e po eo (take (unat (f_ndims p)) (f_strides p))"
    and ax: "rect_overlap p e =
      axis_cascade po (take (unat (f_ndims p)) (f_shapes p)) eo (take (unat (f_ndims p)) (f_shapes e)) True" .
  show ?thesis using rect_none [OF rp rb _ nw g(1)] ax g(7) res by simp
qed

lemma tensor_overlap_covered_sound:
  assumes ok: "footprint_ok p" "footprint_ok e" and res: "tensor_overlap p e = OV_COVERED"
  shows "view_bytes e \<subseteq> view_bytes p"
proof (cases "is_whole_backing p")
  case True
  then show ?thesis by (simp add: view_bytes_def)
next
  case nw: False
  have r: "range_overlaps (footprint_range p) (footprint_range e)"
    using res by (auto simp: tensor_overlap_def Let_def split: if_splits)
  from res have "tensor_overlap p e \<noteq> OV_PARTIAL" by simp
  note g = tensor_overlap_rect [OF this r nw]
  have "rect_overlap p e \<noteq> OV_PARTIAL" using g(7) res by simp
  from rect_overlap_pair [OF ok nw g(1-3) refl g(4-6) this]
  obtain po eo where rp: "rect_pair p e po eo (take (unat (f_ndims p)) (f_strides p))"
    and ax: "rect_overlap p e =
      axis_cascade po (take (unat (f_ndims p)) (f_shapes p)) eo (take (unat (f_ndims p)) (f_shapes e)) True" .
  show ?thesis using rect_covered [OF rp _ nw g(1)] ax g(7) res by simp
qed

section \<open>Validated tensors\<close>

lemma validate_tensorD:
  assumes "validate_tensor r = Inr ()"
  shows "0 < unat (t_ndims r)" "unat (t_ndims r) \<le> MAX_TENSOR_DIMS" "get_element_size (t_dtype r) \<noteq> 0"
    "tensor_extent_bytes r \<noteq> UINT64_MAX" "t_byte_offset r \<le> bd_nbytes (t_buffer r)"
    "tensor_extent_bytes r \<le> bd_nbytes (t_buffer r) - t_byte_offset r"
    "check_dims (take (unat (t_ndims r)) (zip (t_shapes r) (t_strides r))) = Inr ()"
  using assms by (auto simp: validate_tensor_def Let_def not_less split: sum.splits)

lemma validated_extent:
  assumes "tensor_wf r" "validate_tensor r = Inr ()"
  shows "unat (t_byte_offset r) + true_extent (t_shapes r) (t_strides r) (t_ndims r) (t_dtype r)
           \<le> unat (bd_nbytes (t_buffer r))"
proof -
  note v = validate_tensorD [OF assms(2)]
  let ?t = "true_extent (t_shapes r) (t_strides r) (t_ndims r) (t_dtype r)"
  have "unat (tensor_extent_bytes r) = min ?t (2 ^ 64 - 1)"
    using assms(1) by (simp add: tensor_extent_bytes_def view_extent_bytes_sat tensor_wf_def)
  moreover have "unat (tensor_extent_bytes r) \<noteq> unat UINT64_MAX"
    using v(4) by (blast dest: unsigned_word_eqI)
  ultimately have "unat (tensor_extent_bytes r) = ?t" by (simp add: min_def split: if_splits)
  moreover have "unat (tensor_extent_bytes r) \<le> unat (bd_nbytes (t_buffer r)) - unat (t_byte_offset r)"
    using v(5,6) by (simp add: word_le_nat_alt unat_sub_no_wrap)
  moreover have "unat (t_byte_offset r) \<le> unat (bd_nbytes (t_buffer r))"
    using v(5) by (simp add: word_le_nat_alt)
  ultimately show ?thesis by simp
qed

lemma validated_footprint_ok:
  assumes "tensor_wf r" "validate_tensor r = Inr ()"
  shows "footprint_ok (tensor_footprint r)"
proof -
  have "unat (t_byte_offset r) + true_extent (t_shapes r) (t_strides r) (t_ndims r) (t_dtype r) < 2 ^ 64"
    using le_less_trans [OF validated_extent [OF assms] unat_u64_bound] by simp
  then show ?thesis
    using validate_tensorD [OF assms(2)] assms(1)
    by (simp add: footprint_ok_def tensor_footprint_def tensor_wf_def)
qed

section \<open>Properties\<close>

text \<open>Two views of one 4 by 8 matrix of floats in a 128-byte fork-shared backing.\<close>

definition sample_buffer :: BufferDescriptor where
  "sample_buffer =
     \<lparr>bd_magic = BUFFER_DESCRIPTOR_MAGIC, bd_address_space = AddressSpace_HOST, bd_access = AccessMode_READWRITE,
      bd_backend_kind = BackendKind_FORK_SHM,
      bd_identity = \<lparr>owner_instance_id = [1, 2, 3, 4, 5, 6, 7, 8], ci_buffer_id = 7, ci_generation = 1,
        ci_pad = [0, 0, 0, 0, 0, 0, 0, 0, 0, 0, 0, 0]\<rparr>,
      bd_nbytes = 128, bd_owner_worker_path_id = 0, bd_body_len = 8,
      bd_body = [16, 0, 0, 0, 0, 0, 0, 0, 0, 0, 0, 0, 0, 0, 0, 0, 0, 0, 0, 0, 0, 0, 0, 0, 0, 0, 0, 0, 0, 0, 0, 0]\<rparr>"

definition sample_block :: "u64 \<Rightarrow> u32 \<Rightarrow> u32 \<Rightarrow> Tensor" where
  "sample_block off rows cols =
     \<lparr>t_buffer = sample_buffer, t_byte_offset = off, t_ndims = 2, t_shapes = [rows, cols, 0, 0, 0],
      t_strides = [8, 1, 0, 0, 0], t_dtype = 0\<rparr>"

text \<open>The definitions that evaluate the gates and the cascade on such a view.\<close>

lemmas view_eval = sample_block_def sample_buffer_def tensor_wf_def MAX_TENSOR_DIMS_def get_element_size_def
  data_type_size_def tensor_add_sat_def tensor_mul_sat_def view_extent_bytes_def tensor_extent_bytes_def
  tensor_footprint_def is_whole_backing_def footprint_range_def range_overlaps_def tensor_overlap_def
  rect_overlap_def tensors_overlap_def identity_eq_def validate_backend_body_def validate_buffer_descriptor_def
  validate_tensor_def body_u32_def body_u64_def Let_def

text \<open>
  C4: two views that passed validation and live on one backing, and for which the overlap test answers
  "no", touch no common byte. The 64-bit arithmetic of the range stage and of the per-axis stage never
  wraps into a false answer, so no real conflict between two tasks is missed.
\<close>

theorem overlap_test_misses_nothing:
  assumes "tensor_wf a" "tensor_wf b" "validate_tensor a = Inr ()" "validate_tensor b = Inr ()"
    and "identity_eq (bd_identity (t_buffer a)) (bd_identity (t_buffer b))" "\<not> tensors_overlap a b"
  shows "view_bytes (tensor_footprint a) \<inter> view_bytes (tensor_footprint b) = {}"
  using assms tensor_overlap_none_sound validated_footprint_ok by (auto simp: tensors_overlap_def)

theorem overlap_test_misses_nothing_witness:
  "view_bytes (tensor_footprint (sample_block 0 4 4)) \<inter> view_bytes (tensor_footprint (sample_block 16 4 4)) = {}"
  by (rule overlap_test_misses_nothing) (simp_all add: view_eval)

text \<open>
  C23: when the cascade answers COVERED for a written view against a recorded one, every byte of the
  recorded view is among the bytes written. Only then does the dependency map drop the recorded producer.
\<close>

theorem covered_means_overwritten:
  assumes "tensor_wf a" "tensor_wf b" "validate_tensor a = Inr ()" "validate_tensor b = Inr ()"
    and "tensor_overlap (tensor_footprint a) (tensor_footprint b) = OV_COVERED"
  shows "view_bytes (tensor_footprint b) \<subseteq> view_bytes (tensor_footprint a)"
  using assms tensor_overlap_covered_sound validated_footprint_ok by blast

theorem covered_means_overwritten_witness:
  "view_bytes (tensor_footprint (sample_block 48 2 2)) \<subseteq> view_bytes (tensor_footprint (sample_block 32 3 6))"
  by (rule covered_means_overwritten) (simp_all add: view_eval)

text \<open>
  C28: a tensor that passes \<open>validate_tensor\<close> touches no byte outside its backing, whatever the shapes,
  strides and offset the sender put on the wire: the saturating extent cannot wrap past the bound check.
\<close>

theorem validated_view_inside_backing:
  assumes "tensor_wf r" "validate_tensor r = Inr ()"
  shows "view_bytes (tensor_footprint r) \<subseteq> {..< unat (bd_nbytes (t_buffer r))}"
proof -
  have nw: "\<not> is_whole_backing (tensor_footprint r)"
    using validate_tensorD(1) [OF assms(2)] by (auto simp: is_whole_backing_def tensor_footprint_def)
  have "x < unat (bd_nbytes (t_buffer r))" if "x \<in> view_bytes (tensor_footprint r)" for x
    using elem_bytes_bounds(2) that nw validated_extent [OF assms]
    by (fastforce simp: view_bytes_def true_extent_def footprint_dims_def footprint_elem_def tensor_footprint_def)
  then show ?thesis by auto
qed

theorem validated_view_inside_backing_witness:
  "view_bytes (tensor_footprint (sample_block 32 3 8)) \<subseteq> {..< 128}"
proof -
  have "view_bytes (tensor_footprint (sample_block 32 3 8))
          \<subseteq> {..< unat (bd_nbytes (t_buffer (sample_block 32 3 8)))}"
    by (rule validated_view_inside_backing) (simp_all add: view_eval)
  then show ?thesis by (simp add: sample_block_def sample_buffer_def)
qed

end
