(* ===== verification/Tensor_Map.thy ===== *)
theory Tensor_Map
  imports Overlap_Soundness
begin

text \<open>
  The dependency map of \<open>common/hierarchical/tensormap.h\<close> and \<open>tensormap.cpp\<close>: for every
  (run, backing) it keeps the list of (written view, producing task) entries that may still be the
  last word on some byte. The hash table is an association list, the entry vectors are lists, and the
  in-place compaction of \<open>insert\<close> and \<open>erase_task_outputs\<close> is kept as the index loop of the source and
  proved to be a filter.

  What the map promises its client is the locale \<open>dependency_map\<close>: looking a view up finds the last
  writer of each of its bytes. The laws are discharged for the code's operations by the
  interpretation at the end, which rests on the soundness of the overlap cascade.
\<close>

section \<open>Keys and entries\<close>

datatype TensorAddressKind = LOCAL_HOST | LOCAL_CHILD | REMOTE_BUFFER | HOST_INLINE

record TensorKey =
  tk_ptr :: u64
  tk_worker_id :: int
  tk_address_kind :: TensorAddressKind
  tk_owner_worker_id :: int
  tk_buffer_id :: u64
  tk_generation :: u64
  tk_offset_begin :: u64

definition local_host :: "u64 \<Rightarrow> TensorKey" where
  "local_host p = \<lparr>tk_ptr = p, tk_worker_id = -1, tk_address_kind = LOCAL_HOST, tk_owner_worker_id = -1,
     tk_buffer_id = 0, tk_generation = 0, tk_offset_begin = 0\<rparr>"

definition local_child :: "u64 \<Rightarrow> int \<Rightarrow> TensorKey" where
  "local_child p w = \<lparr>tk_ptr = p, tk_worker_id = w, tk_address_kind = LOCAL_CHILD, tk_owner_worker_id = -1,
     tk_buffer_id = 0, tk_generation = 0, tk_offset_begin = 0\<rparr>"

definition remote_buffer :: "TensorAddressKind \<Rightarrow> int \<Rightarrow> u64 \<Rightarrow> u64 \<Rightarrow> u64 \<Rightarrow> TensorKey" where
  "remote_buffer kind owner bid gen off = \<lparr>tk_ptr = 0, tk_worker_id = -1, tk_address_kind = kind,
     tk_owner_worker_id = owner, tk_buffer_id = bid, tk_generation = gen, tk_offset_begin = off\<rparr>"

record Entry =
  e_view :: TensorFootprint
  e_producer :: TaskSlot

type_synonym RunTensorKey = "RunId \<times> TensorKey"
type_synonym TensorMap = "(RunTensorKey \<times> Entry list) list"

section \<open>Operations\<close>

text \<open>The compaction loop: entry \<open>i\<close> is moved down to position \<open>kept\<close> unless it is dropped.\<close>

function compact_loop :: "('a \<Rightarrow> bool) \<Rightarrow> 'a list \<Rightarrow> nat \<Rightarrow> nat \<Rightarrow> 'a list \<times> nat" where
  "compact_loop dead entries i kept =
     (if i < length entries
      then if dead (entries ! i) then compact_loop dead entries (i + 1) kept
           else compact_loop dead (entries[kept := entries ! i]) (i + 1) (kept + 1)
      else (entries, kept))"
  by auto
termination by (relation "measure (\<lambda>(_, entries, i, _). length entries - i)") auto

declare compact_loop.simps [simp del]

definition compact :: "('a \<Rightarrow> bool) \<Rightarrow> 'a list \<Rightarrow> 'a list" where
  "compact dead entries = (case compact_loop dead entries 0 0 of (es, kept) \<Rightarrow> take kept es)"

definition bucket :: "TensorMap \<Rightarrow> RunTensorKey \<Rightarrow> Entry list" where
  "bucket m rk = (case map_of m rk of None \<Rightarrow> [] | Some es \<Rightarrow> es)"

definition lookup_overlapping :: "TensorMap \<Rightarrow> RunId \<Rightarrow> TensorKey \<Rightarrow> TensorFootprint \<Rightarrow> TaskSlot list \<Rightarrow> TaskSlot list" where
  "lookup_overlapping m run_id key view out =
     (case map_of m (run_id, key) of
        None \<Rightarrow> out
      | Some entries \<Rightarrow> out @ map e_producer (filter (\<lambda>e. tensor_overlap view (e_view e) \<noteq> OV_NONE) entries))"

definition tm_insert :: "TensorMap \<Rightarrow> RunId \<Rightarrow> TensorKey \<Rightarrow> TensorFootprint \<Rightarrow> TaskSlot \<Rightarrow> TensorMap" where
  "tm_insert m run_id key view producer =
     (let entries = bucket m (run_id, key);
          entries = compact (\<lambda>e. tensor_overlap view (e_view e) = OV_COVERED) entries
      in AList.update (run_id, key) (entries @ [\<lparr>e_view = view, e_producer = producer\<rparr>]) m)"

definition erase_key :: "RunId \<Rightarrow> TaskSlot \<Rightarrow> TensorKey \<Rightarrow> TensorMap \<Rightarrow> TensorMap" where
  "erase_key run_id owner key m =
     (case map_of m (run_id, key) of
        None \<Rightarrow> m
      | Some entries \<Rightarrow>
          let entries = compact (\<lambda>e. e_producer e = owner) entries
          in if entries = [] then AList.delete (run_id, key) m else AList.update (run_id, key) entries m)"

definition erase_task_outputs :: "TensorMap \<Rightarrow> RunId \<Rightarrow> TaskSlot \<Rightarrow> TensorKey list \<Rightarrow> TensorMap" where
  "erase_task_outputs m run_id owner keys = fold (erase_key run_id owner) keys m"

definition tm_size :: "TensorMap \<Rightarrow> int" where
  "tm_size m = sint (of_nat (sum_list (map (\<lambda>(_, es). length es) m)) :: u32)"

section \<open>Buckets\<close>

lemma compact_loop_filter:
  assumes "kept \<le> i" "i \<le> length es"
  shows "case compact_loop dead es i kept of (es', k') \<Rightarrow>
    take k' es' = take kept es @ filter (\<lambda>e. \<not> dead e) (drop i es)"
  using assms
proof (induction dead es i kept rule: compact_loop.induct)
  case (1 dead es i kept)
  show ?case
  proof (cases "i < length es")
    case False
    then show ?thesis using 1(4) by (simp add: compact_loop.simps)
  next
    case True
    then have d: "drop i es = es ! i # drop (Suc i) es" by (simp add: Cons_nth_drop_Suc)
    show ?thesis
    proof (cases "dead (es ! i)")
      case True
      with 1 \<open>i < length es\<close> d show ?thesis by (subst compact_loop.simps) auto
    next
      case False
      then have "take (Suc kept) (es[kept := es ! i]) = take kept es @ [es ! i]"
        using \<open>i < length es\<close> 1(3) by (simp add: take_Suc_conv_app_nth)
      moreover have "drop (Suc i) (es[kept := es ! i]) = drop (Suc i) es" using 1(3) by simp
      ultimately show ?thesis
        using False 1 \<open>i < length es\<close> d by (subst compact_loop.simps) auto
    qed
  qed
qed

lemma compact_filter: "compact dead es = filter (\<lambda>e. \<not> dead e) es"
  using compact_loop_filter [of 0 0 es dead] by (simp add: compact_def split: prod.splits)

lemma bucket_update [simp]: "bucket (AList.update k v m) k' = (if k' = k then v else bucket m k')"
  by (simp add: bucket_def update_conv)

lemma bucket_delete [simp]: "bucket (AList.delete k m) k' = (if k' = k then [] else bucket m k')"
  by (simp add: bucket_def delete_conv)

lemma bucket_Nil [simp]: "bucket [] k = []"
  by (simp add: bucket_def)

lemma bucket_insert:
  "bucket (tm_insert m run_id key view p) rk =
     (if rk = (run_id, key)
      then filter (\<lambda>e. tensor_overlap view (e_view e) \<noteq> OV_COVERED) (bucket m rk) @ [\<lparr>e_view = view, e_producer = p\<rparr>]
      else bucket m rk)"
  by (simp add: tm_insert_def compact_filter Let_def)

lemma bucket_erase_key:
  "bucket (erase_key run_id owner key m) rk =
     (if rk = (run_id, key) then filter (\<lambda>e. e_producer e \<noteq> owner) (bucket m rk) else bucket m rk)"
  by (auto simp: erase_key_def compact_filter Let_def bucket_def delete_conv update_conv split: option.splits)

lemma bucket_erase:
  "bucket (erase_task_outputs m run_id owner keys) rk =
     (if fst rk = run_id \<and> snd rk \<in> set keys then filter (\<lambda>e. e_producer e \<noteq> owner) (bucket m rk)
      else bucket m rk)"
  unfolding erase_task_outputs_def
proof (induction keys arbitrary: m)
  case Nil
  then show ?case by simp
next
  case (Cons k ks)
  then show ?case by (cases rk) (auto simp: bucket_erase_key)
qed

lemma lookup_bucket:
  "lookup_overlapping m run_id key view out =
     out @ map e_producer (filter (\<lambda>e. tensor_overlap view (e_view e) \<noteq> OV_NONE) (bucket m (run_id, key)))"
  by (simp add: lookup_overlapping_def bucket_def split: option.splits)

text \<open>The table's invariant: distinct keys, no empty bucket.\<close>

definition tm_inv :: "TensorMap \<Rightarrow> bool" where
  "tm_inv m \<longleftrightarrow> distinct (map fst m) \<and> (\<forall>(rk, es) \<in> set m. es \<noteq> [])"

lemma tm_inv_map_of:
  "tm_inv m \<longleftrightarrow> distinct (map fst m) \<and> (\<forall>rk. map_of m rk \<noteq> Some [])"
  by (auto simp: tm_inv_def dest: map_of_SomeD)

lemma tm_inv_insert [inv_intros]: "tm_inv m \<Longrightarrow> tm_inv (tm_insert m run_id key view p)"
  by (auto simp: tm_inv_map_of tm_insert_def Let_def distinct_update update_conv)

lemma tm_inv_erase_key [inv_intros]: "tm_inv m \<Longrightarrow> tm_inv (erase_key run_id owner key m)"
  by (auto simp: tm_inv_map_of erase_key_def Let_def distinct_update distinct_delete update_conv delete_conv
      simp del: map_of_eq_Some_iff split: option.splits)

lemma tm_inv_erase [inv_intros]: "tm_inv m \<Longrightarrow> tm_inv (erase_task_outputs m run_id owner keys)"
  unfolding erase_task_outputs_def by (induction keys arbitrary: m) (auto intro: inv_intros)

section \<open>What the map promises\<close>

text \<open>
  The abstract state is the last writer of each byte of each backing. A write makes the producer the
  writer of the bytes of its view, and erasing a consumed task forgets it.
\<close>

datatype ('k, 'v, 'g) dep_op = DepWrite 'k 'v TaskSlot | DepForget TaskSlot 'g

type_synonym 'k byte_writers = "'k \<Rightarrow> nat \<Rightarrow> TaskSlot option"

fun writers_step ::
  "('v \<Rightarrow> nat set) \<Rightarrow> ('g \<Rightarrow> 'k set) \<Rightarrow> ('k, 'v, 'g) dep_op \<Rightarrow> 'k byte_writers \<Rightarrow> 'k byte_writers" where
  "writers_step bytes keys_of (DepWrite k v p) w = w(k := \<lambda>b. if b \<in> bytes v then Some p else w k b)"
| "writers_step bytes keys_of (DepForget p g) w =
     (\<lambda>k b. if k \<in> keys_of g \<and> w k b = Some p then None else w k b)"

fun op_ok :: "('v \<Rightarrow> bool) \<Rightarrow> ('k, 'v, 'g) dep_op \<Rightarrow> bool" where
  "op_ok ok (DepWrite _ v _) = ok v"
| "op_ok ok (DepForget _ _) = True"

locale dependency_map =
  fixes step :: "('k, 'v, 'g) dep_op \<Rightarrow> 'm \<Rightarrow> 'm"
    and live :: "'m \<Rightarrow> 'k \<Rightarrow> ('v \<times> TaskSlot) set"
    and find_writers :: "'m \<Rightarrow> 'k \<Rightarrow> 'v \<Rightarrow> TaskSlot set"
    and bytes :: "'v \<Rightarrow> nat set"
    and keys_of :: "'g \<Rightarrow> 'k set"
    and ok :: "'v \<Rightarrow> bool"
  assumes write_recorded: "(v, p) \<in> live (step (DepWrite k v p) m) k"
    and write_adds_only: "live (step (DepWrite k v p) m) k' \<subseteq> live m k' \<union> {(v, p)}"
    and write_keeps: "(v', p') \<in> live m k' \<Longrightarrow> ok v \<Longrightarrow> ok v' \<Longrightarrow> k' \<noteq> k \<or> \<not> bytes v' \<subseteq> bytes v \<Longrightarrow>
      (v', p') \<in> live (step (DepWrite k v p) m) k'"
    and forget_live: "live (step (DepForget p g) m) k =
      (if k \<in> keys_of g then {(v, q) \<in> live m k. q \<noteq> p} else live m k)"
    and finds: "(v', p) \<in> live m k \<Longrightarrow> ok v \<Longrightarrow> ok v' \<Longrightarrow> bytes v \<inter> bytes v' \<noteq> {} \<Longrightarrow> p \<in> find_writers m k v"
begin

text \<open>The simulation: the last writer of a byte is live under a view that contains the byte.\<close>

definition simulates :: "'k byte_writers \<Rightarrow> 'm \<Rightarrow> bool" where
  "simulates w m \<longleftrightarrow> (\<forall>k. \<forall>(v, p) \<in> live m k. ok v) \<and>
     (\<forall>k b p. w k b = Some p \<longrightarrow> (\<exists>v. (v, p) \<in> live m k \<and> b \<in> bytes v))"

lemma simulates_step:
  assumes "simulates w m" "op_ok ok op"
  shows "simulates (writers_step bytes keys_of op w) (step op m)"
proof (cases op)
  case (DepWrite k v p)
  have "\<exists>v'. (v', q) \<in> live (step op m) k' \<and> b \<in> bytes v'"
    if "writers_step bytes keys_of op w k' b = Some q" for k' b q
  proof (cases "k' = k \<and> b \<in> bytes v")
    case True
    then show ?thesis using that write_recorded [of v q k m] DepWrite by auto
  next
    case False
    then have "w k' b = Some q" using that DepWrite by (auto split: if_splits)
    then obtain v' where v': "(v', q) \<in> live m k'" "b \<in> bytes v'"
      using assms(1) unfolding simulates_def by blast
    moreover have "ok v'" "ok v" using v' assms DepWrite by (auto simp: simulates_def)
    ultimately show ?thesis using False write_keeps DepWrite by blast
  qed
  moreover have "\<forall>k. \<forall>(v, p) \<in> live (step op m) k. ok v"
    using assms DepWrite write_adds_only by (fastforce simp: simulates_def)
  ultimately show ?thesis by (auto simp: simulates_def)
next
  case (DepForget p g)
  then show ?thesis using assms by (fastforce simp: simulates_def forget_live split: if_splits)
qed

lemma simulates_run:
  "simulates w m \<Longrightarrow> list_all (op_ok ok) ops \<Longrightarrow> simulates (fold (writers_step bytes keys_of) ops w) (fold step ops m)"
  by (induction ops arbitrary: w m) (auto intro: simulates_step)

lemma last_writer_found:
  assumes "simulates w m" "w k b = Some p" "b \<in> bytes v" "ok v"
  shows "p \<in> find_writers m k v"
  using assms finds by (fastforce simp: simulates_def)

end

section \<open>The code keeps the promise\<close>

type_synonym tm_op = "(RunTensorKey, TensorFootprint, RunId \<times> TensorKey list) dep_op"

fun tm_step :: "tm_op \<Rightarrow> TensorMap \<Rightarrow> TensorMap" where
  "tm_step (DepWrite (run_id, key) view p) m = tm_insert m run_id key view p"
| "tm_step (DepForget p (run_id, keys)) m = erase_task_outputs m run_id p keys"

definition live_entries :: "TensorMap \<Rightarrow> RunTensorKey \<Rightarrow> (TensorFootprint \<times> TaskSlot) set" where
  "live_entries m rk = (\<lambda>e. (e_view e, e_producer e)) ` set (bucket m rk)"

definition found_writers :: "TensorMap \<Rightarrow> RunTensorKey \<Rightarrow> TensorFootprint \<Rightarrow> TaskSlot set" where
  "found_writers m rk view = set (lookup_overlapping m (fst rk) (snd rk) view [])"

definition run_keys :: "RunId \<times> TensorKey list \<Rightarrow> RunTensorKey set" where
  "run_keys g = {fst g} \<times> set (snd g)"

lemma live_entries_iff:
  "(v, p) \<in> live_entries m rk \<longleftrightarrow> \<lparr>e_view = v, e_producer = p\<rparr> \<in> set (bucket m rk)"
proof -
  have "(v, p) = (e_view e, e_producer e) \<longleftrightarrow> e = \<lparr>e_view = v, e_producer = p\<rparr>" for e by (cases e) auto
  then show ?thesis by (auto simp: live_entries_def image_iff)
qed

interpretation tm: dependency_map tm_step live_entries found_writers view_bytes run_keys footprint_ok
proof unfold_locales
  fix v p k m
  show "(v, p) \<in> live_entries (tm_step (DepWrite k v p) m) k"
    by (cases k) (simp add: live_entries_iff bucket_insert)
next
  fix k v p m k'
  show "live_entries (tm_step (DepWrite k v p) m) k' \<subseteq> live_entries m k' \<union> {(v, p)}"
    by (cases k) (auto simp: live_entries_iff bucket_insert split: if_splits)
next
  fix v' p' m k' v k p
  assume "(v', p') \<in> live_entries m k'" "footprint_ok v" "footprint_ok v'"
    and "k' \<noteq> k \<or> \<not> view_bytes v' \<subseteq> view_bytes v"
  then show "(v', p') \<in> live_entries (tm_step (DepWrite k v p) m) k'"
    using tensor_overlap_covered_sound by (cases k) (auto simp: live_entries_iff bucket_insert)
next
  fix p g m k
  show "live_entries (tm_step (DepForget p g) m) k =
      (if k \<in> run_keys g then {(v, q) \<in> live_entries m k. q \<noteq> p} else live_entries m k)"
    by (cases g; cases k) (auto simp: live_entries_iff bucket_erase run_keys_def)
next
  fix v' p m k v
  assume "(v', p) \<in> live_entries m k" "footprint_ok v" "footprint_ok v'" "view_bytes v \<inter> view_bytes v' \<noteq> {}"
  then show "p \<in> found_writers m k v"
    using tensor_overlap_none_sound by (force simp: found_writers_def lookup_bucket live_entries_iff)
qed

text \<open>Last writers of a sequence of operations on the empty map.\<close>

definition last_writers :: "tm_op list \<Rightarrow> RunTensorKey byte_writers" where
  "last_writers ops = fold (writers_step view_bytes run_keys) ops (\<lambda>_ _. None)"

lemma tm_simulates: "list_all (op_ok footprint_ok) ops \<Longrightarrow> tm.simulates (last_writers ops) (fold tm_step ops [])"
  unfolding last_writers_def by (rule tm.simulates_run) (auto simp: tm.simulates_def live_entries_def)

subsection \<open>Which entries survive\<close>

fun kills :: "tm_op \<Rightarrow> RunTensorKey \<Rightarrow> Entry \<Rightarrow> bool" where
  "kills (DepWrite rk' v _) rk e \<longleftrightarrow> rk' = rk \<and> tensor_overlap v (e_view e) = OV_COVERED"
| "kills (DepForget p (run_id, keys)) rk e \<longleftrightarrow> fst rk = run_id \<and> snd rk \<in> set keys \<and> e_producer e = p"

fun survives :: "tm_op list \<Rightarrow> RunTensorKey \<Rightarrow> Entry \<Rightarrow> bool" where
  "survives [] rk e \<longleftrightarrow> False"
| "survives (op # ops) rk e \<longleftrightarrow> survives ops rk e \<or>
     op = DepWrite rk (e_view e) (e_producer e) \<and> \<not> list_ex (\<lambda>op'. kills op' rk e) ops"

lemma survives_snoc:
  "survives (ops @ [op]) rk e \<longleftrightarrow>
     (survives ops rk e \<and> \<not> kills op rk e) \<or> op = DepWrite rk (e_view e) (e_producer e)"
  by (induction ops) auto

lemma bucket_step:
  "e \<in> set (bucket (tm_step op m) rk) \<longleftrightarrow>
     (e \<in> set (bucket m rk) \<and> \<not> kills op rk e) \<or> op = DepWrite rk (e_view e) (e_producer e)"
proof (cases op)
  case (DepWrite rk' v p)
  have "e = \<lparr>e_view = v, e_producer = p\<rparr> \<longleftrightarrow> v = e_view e \<and> p = e_producer e" by (cases e) auto
  then show ?thesis using DepWrite by (cases rk') (auto simp: bucket_insert)
next
  case (DepForget p g)
  then show ?thesis by (cases g) (auto simp: bucket_erase)
qed

lemma bucket_survives: "e \<in> set (bucket (fold tm_step ops []) rk) \<longleftrightarrow> survives ops rk e"
  by (induction ops rule: rev_induct) (simp_all add: bucket_step survives_snoc)

lemma tm_inv_run: "tm_inv (fold tm_step ops [])"
proof (induction ops rule: rev_induct)
  case Nil
  then show ?case by (simp add: tm_inv_def)
next
  case (snoc op ops)
  then show ?case by (cases "(op, fold tm_step ops [])" rule: tm_step.cases) (auto intro: inv_intros)
qed

lemma tm_size_counts:
  assumes "tm_inv m" "(\<Sum>rk\<in>fst ` set m. length (bucket m rk)) < 2 ^ 31"
  shows "tm_size m = int (\<Sum>rk\<in>fst ` set m. length (bucket m rk))"
proof -
  have "(\<Sum>rk\<in>fst ` set m. length (bucket m rk)) = sum_list (map (\<lambda>rk. length (bucket m rk)) (map fst m))"
    using assms(1) sum.distinct_set_conv_list [of "map fst m"] by (simp add: tm_inv_def)
  also have "\<dots> = sum_list (map (\<lambda>(_, es). length es) m)"
    using assms(1) by (auto simp: tm_inv_def bucket_def intro!: arg_cong [where f = sum_list])
  finally show ?thesis
    using assms(2)
    by (simp add: tm_size_def sint_of_nat_u32)
qed

section \<open>Properties\<close>

text \<open>
  C1: no dependency is lost. After any sequence of writes and of erasures of consumed tasks, looking a
  view up returns, for each byte of the view, the task that wrote that byte last (unless it was
  consumed), although the map only keeps views and drops those a later write covers.
\<close>

theorem last_writer_always_found:
  assumes "list_all (op_ok footprint_ok) ops" "footprint_ok v"
    and "b \<in> view_bytes v" "last_writers ops (run_id, key) b = Some p"
  shows "p \<in> set (lookup_overlapping (fold tm_step ops []) run_id key v [])"
  using tm.last_writer_found [OF tm_simulates [OF assms(1)] assms(4,3,2)] by (simp add: found_writers_def)

definition sample_view :: "u64 \<Rightarrow> u32 \<Rightarrow> u32 \<Rightarrow> TensorFootprint" where
  "sample_view off rows cols = tensor_footprint (sample_block off rows cols)"

definition sample_ops :: "tm_op list" where
  "sample_ops = [DepWrite (1, local_host 9) (sample_view 0 4 8) 3, DepWrite (1, local_host 9) (sample_view 0 4 4) 5]"

lemmas map_eval = sample_view_def sample_ops_def tm_insert_def compact_filter bucket_def lookup_overlapping_def
  local_host_def view_eval

theorem last_writer_always_found_witness:
  "3 \<in> set (lookup_overlapping (fold tm_step sample_ops []) 1 (local_host 9) (sample_view 0 2 8) [])"
proof (rule last_writer_always_found [where b = 16])
  have in_row: "16 \<in> view_bytes (sample_view 0 rows 8)" if "0 < unat rows" for rows
    using that
    by (simp add: view_bytes_def elem_bytes_def footprint_elem_def footprint_dims_def dims_of_def map_eval,
        intro bexI [of _ 0] bexI [of _ 4]) simp_all
  have "16 \<notin> view_bytes (sample_view 0 4 4)"
    by (auto simp: view_bytes_def elem_bytes_def footprint_elem_def footprint_dims_def dims_of_def map_eval)
      presburger
  then show "last_writers sample_ops (1, local_host 9) 16 = Some 3"
    using in_row [of 4] by (simp add: last_writers_def sample_ops_def)
  show "16 \<in> view_bytes (sample_view 0 2 8)" using in_row by simp
qed (simp_all add: map_eval footprint_ok_def true_extent_def dims_of_def)

text \<open>
  C29: and nothing is invented. The producers a lookup returns are exactly those of the writes that no
  later operation superseded (a write the cascade judges to cover them, or the consumption of their task)
  and whose view the cascade cannot tell apart from the one looked up.
\<close>

theorem lookup_exact:
  "p \<in> set (lookup_overlapping (fold tm_step ops []) run_id key v []) \<longleftrightarrow>
     (\<exists>e. survives ops (run_id, key) e \<and> e_producer e = p \<and> tensor_overlap v (e_view e) \<noteq> OV_NONE)"
  by (auto simp: lookup_bucket bucket_survives [symmetric])

text \<open>
  Erasing a consumed task removes it from the answers under its keys, changes no other answer, and
  leaves no empty bucket behind.
\<close>

theorem erase_exact:
  assumes "tm_inv m"
  shows "tm_inv (erase_task_outputs m run_id owner keys) \<and>
    lookup_overlapping (erase_task_outputs m run_id owner keys) run_id' key v [] =
      (if run_id' = run_id \<and> key \<in> set keys
       then filter (\<lambda>p. p \<noteq> owner) (lookup_overlapping m run_id' key v [])
       else lookup_overlapping m run_id' key v [])"
  using assms by (auto simp: lookup_bucket bucket_erase filter_map o_def conj_commute intro: inv_intros)

end
