(* ===== verification/Heap_Ring.thy ===== *)
theory Heap_Ring
  imports Prelude
begin

unbundle bit_operations_syntax

text \<open>
  The slot and heap allocator of \<open>common/hierarchical/ring.h\<close> and \<open>ring.cpp\<close>: four heap rings
  chosen by scope depth, each a bump cursor that wraps, a FIFO frontier over the released slots, and a
  pool of slot states shared by all rings.

  The record \<open>HeapRing\<close> is one ring, \<open>Ring\<close> the whole allocator. \<open>Ring::alloc\<close> runs in two critical
  sections, which are two definitions here (\<open>alloc_reserve\<close> under the ring's mutex and \<open>alloc_park\<close> under
  the slot mutex), so that the step relation of \<open>Ring_Safety\<close> can interleave them with those of other calls; likewise the
  sections of \<open>release\<close> and \<open>reset_to_empty\<close>. The wait on the condition variable is \<open>alloc_loop\<close>, driven by the list of
  events that wake it.
\<close>

section \<open>One heap ring\<close>

definition HEAP_ALIGN :: u64 where "HEAP_ALIGN = 1024"
definition MAX_RING_DEPTH :: nat where "MAX_RING_DEPTH = 4"
abbreviation ALLOC_TIMEOUT_MS :: u32 where "ALLOC_TIMEOUT_MS \<equiv> 10000"

definition align_up :: "u64 \<Rightarrow> u64 \<Rightarrow> u64" where
  "align_up v align = (v + align - 1) AND NOT (align - 1)"

definition ring_idx_for_scope :: "int \<Rightarrow> nat" where
  "ring_idx_for_scope scope_depth =
     (let scope_depth = (if scope_depth < 0 then 0 else scope_depth)
      in if scope_depth < int MAX_RING_DEPTH then nat scope_depth else MAX_RING_DEPTH - 1)"

record HeapRing =
  hr_base :: u64
  hr_size :: u64
  hr_top :: u64
  hr_tail :: u64
  hr_mapped :: bool
  hr_released :: "u8 list"
  hr_slot_heap_end :: "u64 list"
  hr_last_alive :: nat

text \<open>\<open>None\<close> is the result \<open>false\<close>; otherwise the updated ring, the pointer and the end offset.\<close>

definition try_bump_ring_heap_locked :: "HeapRing \<Rightarrow> u64 \<Rightarrow> (HeapRing \<times> u64 \<times> u64) option" where
  "try_bump_ring_heap_locked r aligned =
     (let top = hr_top r; tail = hr_tail r in
      if top \<ge> tail then
        let at_end = hr_size r - top in
        if at_end \<ge> aligned then Some (r\<lparr>hr_top := top + aligned\<rparr>, hr_base r + top, top + aligned)
        else if tail > aligned then Some (r\<lparr>hr_top := aligned\<rparr>, hr_base r, aligned)
        else None
      else if tail - top > aligned then Some (r\<lparr>hr_top := top + aligned\<rparr>, hr_base r + top, top + aligned)
      else None)"

function advance_last_alive_locked :: "HeapRing \<Rightarrow> HeapRing" where
  "advance_last_alive_locked r =
     (if hr_last_alive r < length (hr_released r) \<and> hr_released r ! hr_last_alive r = 1
      then advance_last_alive_locked
             (r\<lparr>hr_tail := hr_slot_heap_end r ! hr_last_alive r, hr_last_alive := hr_last_alive r + 1\<rparr>)
      else r)"
  by auto
termination by (relation "measure (\<lambda>r. length (hr_released r) - hr_last_alive r)") auto

declare advance_last_alive_locked.simps [simp del]

text \<open>Phase 1 of \<open>alloc\<close>, once the wait is over: carve the slab and record the in-ring position.\<close>

definition carve :: "HeapRing \<Rightarrow> u64 \<Rightarrow> (HeapRing \<times> u64 option \<times> u64) option" where
  "carve ring aligned =
     (if aligned = 0 then Some (ring, None, hr_top ring)
      else case try_bump_ring_heap_locked ring aligned of
             None \<Rightarrow> None
           | Some (ring', heap_ptr, heap_end) \<Rightarrow> Some (ring', Some heap_ptr, heap_end))"

definition push_slot :: "HeapRing \<Rightarrow> u64 \<Rightarrow> HeapRing" where
  "push_slot ring heap_end =
     ring\<lparr>hr_released := hr_released ring @ [0], hr_slot_heap_end := hr_slot_heap_end ring @ [heap_end]\<rparr>"

text \<open>The second critical section of \<open>release\<close>.\<close>

definition release_locked :: "HeapRing \<Rightarrow> int \<Rightarrow> HeapRing" where
  "release_locked ring ring_slot_idx =
     (if ring_slot_idx < 0 \<or> ring_slot_idx \<ge> int (length (hr_released ring)) then ring
      else if hr_released ring ! nat ring_slot_idx \<noteq> 0 then ring
      else advance_last_alive_locked (ring\<lparr>hr_released := (hr_released ring)[nat ring_slot_idx := 1]\<rparr>))"

definition rewind :: "HeapRing \<Rightarrow> HeapRing" where
  "rewind r = r\<lparr>hr_top := 0, hr_tail := 0, hr_last_alive := 0, hr_released := [], hr_slot_heap_end := []\<rparr>"

section \<open>The allocator\<close>

record RingSlot =
  rs_ring_idx :: nat
  rs_ring_slot_idx :: int

record Ring =
  rg_timeout_ms :: u32
  rg_next_task_id :: int
  rg_slot_states :: "RingSlot list"
  rg_shutdown :: bool
  rg_rings :: "HeapRing list"

record AllocResult =
  ar_slot :: int
  ar_heap_ptr :: "u64 option"
  ar_heap_end_offset :: u64
  ar_ring_idx :: nat

text \<open>
  \<open>init\<close>: the operating system's answers to the four \<open>mmap\<close> calls are the argument \<open>maps\<close>, one
  base address per ring or \<open>None\<close> for \<open>MAP_FAILED\<close>.
\<close>

fun init_rings :: "u64 \<Rightarrow> HeapRing list \<Rightarrow> u64 option list \<Rightarrow> HeapRing list option" where
  "init_rings heap_bytes (r # rs) (m # ms) =
     (if heap_bytes > 0 then
        (case m of
           None \<Rightarrow> None
         | Some base \<Rightarrow> map_option (Cons ((rewind r)\<lparr>hr_base := base, hr_size := heap_bytes, hr_mapped := True\<rparr>))
                         (init_rings heap_bytes rs ms))
      else map_option (Cons ((rewind r)\<lparr>hr_base := 0, hr_size := 0\<rparr>)) (init_rings heap_bytes rs ms))"
| "init_rings heap_bytes _ _ = Some []"

definition ring_init :: "Ring \<Rightarrow> u64 \<Rightarrow> u32 \<Rightarrow> u64 option list \<Rightarrow> exn + Ring" where
  "ring_init rg heap_bytes timeout_ms maps =
     (if list_ex hr_mapped (rg_rings rg) then Inl (LogicError ''Ring::init called twice'')
      else case init_rings heap_bytes (rg_rings rg) maps of
             None \<Rightarrow> Inl (RuntimeError ''Ring: per-ring heap mmap failed'')
           | Some rings \<Rightarrow>
               Inr \<lparr>rg_timeout_ms = (if timeout_ms = 0 then ALLOC_TIMEOUT_MS else timeout_ms),
                    rg_next_task_id = 0, rg_slot_states = [], rg_shutdown = False, rg_rings = rings\<rparr>)"

definition empty_ring :: Ring where
  "empty_ring = \<lparr>rg_timeout_ms = ALLOC_TIMEOUT_MS, rg_next_task_id = 0, rg_slot_states = [], rg_shutdown = False,
     rg_rings = replicate MAX_RING_DEPTH \<lparr>hr_base = 0, hr_size = 0, hr_top = 0, hr_tail = 0, hr_mapped = False,
       hr_released = [], hr_slot_heap_end = [], hr_last_alive = 0\<rparr>\<rparr>"

text \<open>The checks of \<open>alloc\<close> before it takes a lock.\<close>

definition alloc_request :: "Ring \<Rightarrow> u64 \<Rightarrow> int \<Rightarrow> exn + nat \<times> u64" where
  "alloc_request rg bytes scope_depth =
     (let ring_idx = ring_idx_for_scope scope_depth; ring = rg_rings rg ! ring_idx;
          aligned = (if bytes > 0 then align_up bytes HEAP_ALIGN else 0) in
      if bytes > 0 \<and> hr_size ring = 0
      then Inl (RuntimeError ''Ring: heap disabled (heap_bytes=0) but alloc(bytes>0) requested'')
      else if aligned > hr_size ring
      then Inl (RuntimeError ''Ring: requested allocation exceeds per-ring heap size'')
      else Inr (ring_idx, aligned))"

record Reservation =
  rv_ring_idx :: nat
  rv_ring_slot_idx :: int
  rv_heap_ptr :: "u64 option"
  rv_heap_end :: u64

text \<open>One pass of the loop body of Phase 1: \<open>None\<close> is "wait".\<close>

definition alloc_reserve :: "Ring \<Rightarrow> nat \<Rightarrow> u64 \<Rightarrow> (Ring \<times> Reservation) option" where
  "alloc_reserve rg ring_idx aligned =
     (let ring = rg_rings rg ! ring_idx in
      case carve ring aligned of
        None \<Rightarrow> None
      | Some (ring', heap_ptr, heap_end) \<Rightarrow>
          Some (rg\<lparr>rg_rings := (rg_rings rg)[ring_idx := push_slot ring' heap_end]\<rparr>,
                \<lparr>rv_ring_idx = ring_idx, rv_ring_slot_idx = int (length (hr_released ring')),
                 rv_heap_ptr = heap_ptr, rv_heap_end = heap_end\<rparr>))"

text \<open>Phase 2: the global task id and the slot state.\<close>

definition alloc_park :: "Ring \<Rightarrow> Reservation \<Rightarrow> Ring \<times> AllocResult" where
  "alloc_park rg rv =
     (let task_id = rg_next_task_id rg in
      (rg\<lparr>rg_next_task_id := task_id + 1,
          rg_slot_states := rg_slot_states rg @
            [\<lparr>rs_ring_idx = rv_ring_idx rv, rs_ring_slot_idx = rv_ring_slot_idx rv\<rparr>]\<rparr>,
       \<lparr>ar_slot = task_id, ar_heap_ptr = rv_heap_ptr rv, ar_heap_end_offset = rv_heap_end rv,
        ar_ring_idx = rv_ring_idx rv\<rparr>))"

text \<open>
  \<open>release\<close> reads the position of the slot under the slot mutex and marks it under the mutex of the ring, in two
  critical sections.
\<close>

definition release_locate :: "Ring \<Rightarrow> int \<Rightarrow> (nat \<times> int) option" where
  "release_locate rg slot =
     (if slot < 0 \<or> slot \<ge> int (length (rg_slot_states rg)) then None
      else let s = rg_slot_states rg ! nat slot in Some (rs_ring_idx s, rs_ring_slot_idx s))"

definition release_at :: "Ring \<Rightarrow> nat \<times> int \<Rightarrow> Ring" where
  "release_at rg pos =
     (case pos of (ring_idx, ring_slot_idx) \<Rightarrow>
        rg\<lparr>rg_rings := (rg_rings rg)[ring_idx := release_locked (rg_rings rg ! ring_idx) ring_slot_idx]\<rparr>)"

definition ring_release :: "Ring \<Rightarrow> int \<Rightarrow> Ring" where
  "ring_release rg slot = (case release_locate rg slot of None \<Rightarrow> rg | Some pos \<Rightarrow> release_at rg pos)"

definition ring_slot_state :: "Ring \<Rightarrow> int \<Rightarrow> RingSlot option" where
  "ring_slot_state rg slot =
     (if slot < 0 \<or> slot \<ge> int (length (rg_slot_states rg)) then None
      else Some (rg_slot_states rg ! nat slot))"

definition ring_shutdown :: "Ring \<Rightarrow> Ring" where
  "ring_shutdown rg = rg\<lparr>rg_shutdown := True\<rparr>"

text \<open>
  \<open>reset_to_empty\<close> holds the slot mutex and takes the mutexes of the rings one at a time: once to check each ring, then, after
  the slot states are dropped, once to rewind each. The sections are definitions of their own; \<open>reset_to_empty\<close> runs them without
  an interruption.
\<close>

definition drained :: "HeapRing \<Rightarrow> bool" where
  "drained r \<longleftrightarrow> hr_last_alive r = length (hr_released r)"

definition reset_slots :: "Ring \<Rightarrow> Ring" where
  "reset_slots rg = rg\<lparr>rg_next_task_id := 0, rg_slot_states := []\<rparr>"

definition reset_rewind :: "nat \<Rightarrow> Ring \<Rightarrow> Ring" where
  "reset_rewind i rg = rg\<lparr>rg_rings := (rg_rings rg)[i := rewind (rg_rings rg ! i)]\<rparr>"

definition reset_to_empty :: "Ring \<Rightarrow> exn + Ring" where
  "reset_to_empty rg =
     (if list_ex (\<lambda>r. \<not> drained r) (rg_rings rg)
      then Inl (LogicError ''Ring::reset_to_empty: tasks still live on at least one ring. Did every registered run complete?'')
      else Inr (fold reset_rewind [0 ..< length (rg_rings rg)] (reset_slots rg)))"

definition active_count :: "Ring \<Rightarrow> int" where
  "active_count rg = rg_next_task_id rg - int (sum_list (map hr_last_alive (rg_rings rg)))"

definition ring_at :: "Ring \<Rightarrow> int \<Rightarrow> exn + HeapRing" where
  "ring_at rg ring_idx =
     (if ring_idx < 0 \<or> ring_idx \<ge> int MAX_RING_DEPTH then Inl (OutOfRange ''Ring: ring_idx out of range'')
      else Inr (rg_rings rg ! nat ring_idx))"

text \<open>
  The waiting loop of \<open>alloc\<close>. While it waits other threads release slots or shut the ring down, or the
  deadline passes; \<open>None\<close> means that the events listed leave it waiting.
\<close>

datatype wake = Released "int list" | ShutDown | TimedOut

fun alloc_loop :: "Ring \<Rightarrow> nat \<Rightarrow> u64 \<Rightarrow> wake list \<Rightarrow> (exn + Ring \<times> AllocResult) option" where
  "alloc_loop rg ring_idx aligned events =
     (if rg_shutdown rg
      then Some (Inr (rg, \<lparr>ar_slot = INVALID_SLOT, ar_heap_ptr = None, ar_heap_end_offset = 0, ar_ring_idx = ring_idx\<rparr>))
      else case alloc_reserve rg ring_idx aligned of
             Some (rg', rv) \<Rightarrow> Some (Inr (alloc_park rg' rv))
           | None \<Rightarrow>
             (case events of
                [] \<Rightarrow> None
              | Released slots # events' \<Rightarrow> alloc_loop (fold (\<lambda>s rg. ring_release rg s) slots rg) ring_idx aligned events'
              | ShutDown # events' \<Rightarrow> alloc_loop (ring_shutdown rg) ring_idx aligned events'
              | TimedOut # _ \<Rightarrow> Some (Inl (RuntimeError
                  ''Ring: per-ring heap exhausted (timed out waiting). Increase heap_ring_size on Worker.''))))"

declare alloc_loop.simps [simp del]

definition ring_alloc :: "Ring \<Rightarrow> u64 \<Rightarrow> int \<Rightarrow> wake list \<Rightarrow> (exn + Ring \<times> AllocResult) option" where
  "ring_alloc rg bytes scope_depth events =
     (case alloc_request rg bytes scope_depth of
        Inl e \<Rightarrow> Some (Inl e)
      | Inr (ring_idx, aligned) \<Rightarrow> alloc_loop rg ring_idx aligned events)"

section \<open>The composed operations\<close>

lemma ring_release_eq:
  "ring_release rg slot =
     (if slot < 0 \<or> slot \<ge> int (length (rg_slot_states rg)) then rg
      else let s = rg_slot_states rg ! nat slot; i = rs_ring_idx s in
           rg\<lparr>rg_rings := (rg_rings rg)[i := release_locked (rg_rings rg ! i) (rs_ring_slot_idx s)]\<rparr>)"
  by (simp add: ring_release_def release_locate_def release_at_def Let_def)

lemma rewind_prefix:
  "n \<le> length (rg_rings rg) \<Longrightarrow>
     fold reset_rewind [0 ..< n] rg = rg\<lparr>rg_rings := map rewind (take n (rg_rings rg)) @ drop n (rg_rings rg)\<rparr>"
proof (induction n)
  case (Suc n)
  then have "n < length (rg_rings rg)" by simp
  then show ?case
    using Suc by (simp add: reset_rewind_def list_update_append nth_append take_Suc_conv_app_nth Cons_nth_drop_Suc [symmetric])
qed simp

lemma reset_drained:
  "reset_to_empty rg = Inr rg' \<longleftrightarrow> (\<forall>r \<in> set (rg_rings rg). drained r) \<and>
     rg' = rg\<lparr>rg_next_task_id := 0, rg_slot_states := [], rg_rings := map rewind (rg_rings rg)\<rparr>"
  using rewind_prefix [of "length (rg_rings rg)" "reset_slots rg"] by (auto simp: reset_to_empty_def list_ex_iff reset_slots_def)

end
