(* ===== verification/Heap_Layout.thy ===== *)
theory Heap_Layout
  imports Heap_Ring
begin

unbundle bit_operations_syntax

text \<open>
  Correctness of one heap ring. A slab is a pair of offsets (begin, end); the code only records the
  ends, so the begins are ghost state of the proofs. The live slabs of a ring, oldest first, are either
  one run of adjacent slabs from the tail up to the top, or (after a wrap) a run from the tail up to some
  earlier top followed by a run from offset 0 up to the current top, which stays strictly below the tail.
  Every operation keeps this layout, and it gives disjointness, bounds and alignment.
\<close>

section \<open>Layouts\<close>

type_synonym slab = "nat \<times> nat"

fun chain :: "nat \<Rightarrow> slab list \<Rightarrow> nat \<Rightarrow> bool" where
  "chain lo [] hi \<longleftrightarrow> lo = hi"
| "chain lo ((a, b) # xs) hi \<longleftrightarrow> a = lo \<and> a \<le> b \<and> chain b xs hi"

lemma chain_append: "chain lo (xs @ ys) hi \<longleftrightarrow> (\<exists>m. chain lo xs m \<and> chain m ys hi)"
  by (induction lo xs hi rule: chain.induct) auto

lemma chain_le: "chain lo xs hi \<Longrightarrow> lo \<le> hi"
  by (induction lo xs hi rule: chain.induct) auto

lemma chain_bounds: "chain lo xs hi \<Longrightarrow> (a, b) \<in> set xs \<Longrightarrow> lo \<le> a \<and> a \<le> b \<and> b \<le> hi"
  by (induction lo xs hi rule: chain.induct) (auto dest: chain_le)

lemma chain_sorted: "chain lo xs hi \<Longrightarrow> sorted_wrt (\<lambda>s t. snd s \<le> fst t) xs"
  by (induction lo xs hi rule: chain.induct) (auto dest: chain_bounds)

definition laid_out :: "slab list \<Rightarrow> nat \<Rightarrow> nat \<Rightarrow> nat \<Rightarrow> bool" where
  "laid_out L tail head cap \<longleftrightarrow>
     tail \<le> head \<and> head \<le> cap \<and> chain tail L head \<or>
     head < tail \<and> (\<exists>A B e. L = A @ B \<and> B \<noteq> [] \<and> chain tail A e \<and> e \<le> cap \<and> chain 0 B head)"

lemma laid_out_empty: "head \<le> cap \<Longrightarrow> laid_out [] head head cap"
  by (simp add: laid_out_def)

lemma laid_out_bump:
  assumes "laid_out L tail head cap" "if tail \<le> head then n \<le> cap - head else n < tail - head"
  shows "laid_out (L @ [(head, head + n)]) tail (head + n) cap"
proof (cases "tail \<le> head")
  case True
  then show ?thesis using assms by (auto simp: laid_out_def chain_append)
next
  case False
  then obtain A B e where "L = A @ B" "B \<noteq> []" "chain tail A e" "e \<le> cap" "chain 0 B head"
    using assms(1) by (auto simp: laid_out_def)
  then have "L @ [(head, head + n)] = A @ (B @ [(head, head + n)])" "chain 0 (B @ [(head, head + n)]) (head + n)"
    by (simp_all add: chain_append)
  then show ?thesis
    using False assms(2) \<open>chain tail A e\<close> \<open>e \<le> cap\<close> unfolding laid_out_def
    by (intro disjI2 conjI exI [of _ A] exI [of _ "B @ [(head, head + n)]"] exI [of _ e]) auto
qed

lemma laid_out_wrap:
  assumes "laid_out L tail head cap" "tail \<le> head" "n < tail"
  shows "laid_out (L @ [(0, n)]) tail n cap"
  using assms unfolding laid_out_def
  by (intro disjI2 conjI exI [of _ L] exI [of _ "[(0, n)]"] exI [of _ head]) auto

lemma laid_out_pop:
  assumes "laid_out (s # L) tail head cap"
  shows "laid_out L (snd s) head cap"
proof (cases "tail \<le> head")
  case True
  then show ?thesis using assms by (cases s) (auto simp: laid_out_def dest: chain_le)
next
  case False
  then obtain A B e where AB: "s # L = A @ B" "B \<noteq> []" "chain tail A e" "e \<le> cap" "chain 0 B head"
    using assms by (auto simp: laid_out_def)
  have "tail \<le> cap" using AB(3,4) chain_le by fastforce
  show ?thesis
  proof (cases A)
    case Nil
    then have "chain (snd s) L head" using AB by (cases s) auto
    then show ?thesis using False \<open>tail \<le> cap\<close> chain_le by (fastforce simp: laid_out_def)
  next
    case (Cons t A')
    then have "s = t" "L = A' @ B" "chain (snd s) A' e" "tail \<le> snd s" using AB by (cases t; simp)+
    then show ?thesis using False AB unfolding laid_out_def
      by (intro disjI2 conjI exI [of _ A'] exI [of _ B] exI [of _ e]) auto
  qed
qed

definition slabs_disjoint :: "slab list \<Rightarrow> bool" where
  "slabs_disjoint L \<longleftrightarrow> sorted_wrt (\<lambda>s t. snd s \<le> fst t \<or> snd t \<le> fst s) L"

lemma laid_out_disjoint: "laid_out L tail head cap \<Longrightarrow> slabs_disjoint L"
proof -
  assume lo: "laid_out L tail head cap"
  have weaken: "slabs_disjoint xs" if "chain lo xs hi" for lo hi xs
    unfolding slabs_disjoint_def using chain_sorted [OF that] by (rule sorted_wrt_mono_rel [rotated]) blast
  show ?thesis
  proof (cases "tail \<le> head")
    case True
    then show ?thesis using lo weaken by (auto simp: laid_out_def)
  next
    case False
    then obtain A B e where AB: "L = A @ B" "chain tail A e" "chain 0 B head" "head < tail"
      using lo by (auto simp: laid_out_def)
    have "snd t \<le> fst s" if "s \<in> set A" "t \<in> set B" for s t
      using that AB chain_bounds [of tail A e "fst s" "snd s"] chain_bounds [of 0 B head "fst t" "snd t"] by force
    then show ?thesis
      using weaken [OF AB(2)] weaken [OF AB(3)] AB(1) by (auto simp: slabs_disjoint_def sorted_wrt_append)
  qed
qed

lemma laid_out_bounds:
  assumes "laid_out L tail head cap" "s \<in> set L"
  shows "fst s \<le> snd s" "snd s \<le> cap"
proof -
  have "fst s \<le> snd s \<and> snd s \<le> cap"
  proof (cases "tail \<le> head")
    case True
    then show ?thesis using assms chain_bounds [of tail L head "fst s" "snd s"] by (auto simp: laid_out_def)
  next
    case False
    then obtain A B e where AB: "L = A @ B" "chain tail A e" "e \<le> cap" "chain 0 B head" "head < tail"
      using assms(1) by (auto simp: laid_out_def)
    then show ?thesis
      using assms(2) chain_le [OF AB(2)] chain_bounds [of tail A e "fst s" "snd s"] chain_bounds [of 0 B head "fst s" "snd s"]
      by auto
  qed
  then show "fst s \<le> snd s" "snd s \<le> cap" by simp_all
qed

lemma laid_out_top: "laid_out L tail head cap \<Longrightarrow> head \<le> cap \<and> tail \<le> cap"
  by (auto simp: laid_out_def dest: chain_le)

lemma laid_out_drained: "laid_out [] tail head cap \<longleftrightarrow> tail = head \<and> head \<le> cap"
  by (auto simp: laid_out_def)

section \<open>The invariant of a ring\<close>

definition live_slabs :: "HeapRing \<Rightarrow> slab list \<Rightarrow> slab list" where
  "live_slabs r slabs = drop (hr_last_alive r) slabs"

definition heap_inv :: "HeapRing \<Rightarrow> slab list \<Rightarrow> bool" where
  "heap_inv r slabs \<longleftrightarrow>
     length (hr_released r) = length slabs \<and> map unat (hr_slot_heap_end r) = map snd slabs \<and>
     hr_last_alive r \<le> length slabs \<and> set (hr_released r) \<subseteq> {0, 1} \<and>
     (\<forall>i < hr_last_alive r. hr_released r ! i = 1) \<and>
     (hr_last_alive r < length slabs \<longrightarrow> hr_released r ! hr_last_alive r = 0) \<and>
     laid_out (live_slabs r slabs) (unat (hr_tail r)) (unat (hr_top r)) (unat (hr_size r))"

text \<open>Everything but the maximality of the frontier, which \<open>advance_last_alive_locked\<close> restores.\<close>

definition heap_pre :: "HeapRing \<Rightarrow> slab list \<Rightarrow> bool" where
  "heap_pre r slabs \<longleftrightarrow>
     length (hr_released r) = length slabs \<and> map unat (hr_slot_heap_end r) = map snd slabs \<and>
     hr_last_alive r \<le> length slabs \<and> set (hr_released r) \<subseteq> {0, 1} \<and>
     (\<forall>i < hr_last_alive r. hr_released r ! i = 1) \<and>
     laid_out (live_slabs r slabs) (unat (hr_tail r)) (unat (hr_top r)) (unat (hr_size r))"

lemma heap_inv_pre:
  "heap_inv r slabs \<longleftrightarrow> heap_pre r slabs \<and>
     (hr_last_alive r < length slabs \<longrightarrow> hr_released r ! hr_last_alive r = 0)"
  by (auto simp: heap_inv_def heap_pre_def)

lemma heap_pre_advance_once:
  assumes "heap_pre r slabs" "hr_last_alive r < length slabs" "hr_released r ! hr_last_alive r = 1"
  shows "heap_pre (r\<lparr>hr_tail := hr_slot_heap_end r ! hr_last_alive r, hr_last_alive := hr_last_alive r + 1\<rparr>) slabs"
proof -
  let ?k = "hr_last_alive r"
  have "length (hr_slot_heap_end r) = length slabs" using assms(1) by (metis heap_pre_def length_map)
  then have "unat (hr_slot_heap_end r ! ?k) = snd (slabs ! ?k)"
    using assms(1,2) by (metis heap_pre_def nth_map)
  moreover have "live_slabs r slabs = slabs ! ?k # drop (?k + 1) slabs"
    using assms(2) by (simp add: live_slabs_def Cons_nth_drop_Suc)
  ultimately show ?thesis
    using assms laid_out_pop [of "slabs ! ?k" "drop (?k + 1) slabs"]
    by (auto simp: heap_pre_def live_slabs_def less_Suc_eq simp del: split_paired_All)
qed

lemma heap_inv_advance:
  "heap_pre r slabs \<Longrightarrow> heap_inv (advance_last_alive_locked r) slabs"
proof (induction r rule: advance_last_alive_locked.induct)
  case (1 r)
  show ?case
  proof (cases "hr_last_alive r < length (hr_released r) \<and> hr_released r ! hr_last_alive r = 1")
    case True
    then show ?thesis using 1 heap_pre_advance_once
      by (subst advance_last_alive_locked.simps) (auto simp: heap_pre_def)
  next
    case False
    then have "advance_last_alive_locked r = r" by (subst advance_last_alive_locked.simps) auto
    moreover have "hr_last_alive r < length slabs \<longrightarrow> hr_released r ! hr_last_alive r = 0"
      using False 1(2) nth_in_set [of "hr_released r" "{0, 1}" "hr_last_alive r"] by (simp add: heap_pre_def)
    ultimately show ?thesis using 1(2) by (simp add: heap_inv_pre)
  qed
qed

lemma nth_update_same: "j < length xs \<Longrightarrow> xs ! j = v \<Longrightarrow> xs[i := v] ! j = v"
  by (cases "i = j") auto

lemma heap_inv_release: "heap_inv r slabs \<Longrightarrow> heap_inv (release_locked r i) slabs"
proof -
  assume inv: "heap_inv r slabs"
  show ?thesis
  proof (cases "i < 0 \<or> int (length (hr_released r)) \<le> i \<or> hr_released r ! nat i \<noteq> 0")
    case True
    then show ?thesis using inv by (auto simp: release_locked_def)
  next
    case False
    have "set ((hr_released r)[nat i := 1]) \<subseteq> {0, 1}"
      using inv set_update_subset_insert [of "hr_released r" "nat i" 1] by (auto simp: heap_inv_def)
    then have "heap_pre (r\<lparr>hr_released := (hr_released r)[nat i := 1]\<rparr>) slabs"
      using inv by (auto simp: heap_inv_def heap_pre_def live_slabs_def nth_update_same)
    then show ?thesis using False heap_inv_advance by (simp add: release_locked_def)
  qed
qed

lemma heap_inv_push:
  assumes "heap_inv r slabs" "laid_out (live_slabs r slabs @ [(b, unat e)]) (unat (hr_tail r)) (unat h) (unat (hr_size r))"
  shows "heap_inv (push_slot (r\<lparr>hr_top := h\<rparr>) e) (slabs @ [(b, unat e)])"
  using assms by (auto simp: heap_inv_def push_slot_def live_slabs_def nth_append)

text \<open>Where \<open>carve\<close> puts a slab: \<open>r'\<close> differs from \<open>r\<close> in its top only.\<close>

lemma carve_cases:
  assumes "carve r n = Some (r', p, e)" "laid_out L (unat (hr_tail r)) (unat (hr_top r)) (unat (hr_size r))"
  obtains (bump) "r' = r\<lparr>hr_top := e\<rparr>" "unat e = unat (hr_top r) + unat n"
      "if unat (hr_tail r) \<le> unat (hr_top r) then unat n \<le> unat (hr_size r) - unat (hr_top r)
       else unat n < unat (hr_tail r) - unat (hr_top r)"
      "p = (if n = 0 then None else Some (hr_base r + hr_top r))"
  | (wrap) "r' = r\<lparr>hr_top := n\<rparr>" "e = n" "n \<noteq> 0" "unat (hr_tail r) \<le> unat (hr_top r)" "unat n < unat (hr_tail r)"
      "p = Some (hr_base r)"
proof -
  have top: "unat (hr_top r) \<le> unat (hr_size r)" "unat (hr_tail r) \<le> unat (hr_size r)"
    using laid_out_top [OF assms(2)] by auto
  have bumped: "unat (hr_top r + n) = unat (hr_top r) + unat n" if "unat n \<le> unat (hr_size r) - unat (hr_top r)"
  proof (rule unat_add_no_wrap)
    have "unat (hr_top r) + unat n \<le> unat (hr_size r)" using that top by simp
    from le_less_trans [OF this unat_u64_bound] show "unat (hr_top r) + unat n < 18446744073709551616" .
  qed
  consider (slot) "n = 0" | (fwd) "n \<noteq> 0" "hr_tail r \<le> hr_top r" "n \<le> hr_size r - hr_top r"
    | (start) "n \<noteq> 0" "hr_tail r \<le> hr_top r" "\<not> n \<le> hr_size r - hr_top r" | (gap) "n \<noteq> 0" "\<not> hr_tail r \<le> hr_top r"
    by blast
  then show thesis
  proof cases
    case slot
    then have "r' = r" "e = hr_top r" "p = None" using assms(1) by (auto simp: carve_def)
    with slot top show thesis by (intro bump) simp_all
  next
    case fwd
    then have r': "r' = r\<lparr>hr_top := e\<rparr>" "e = hr_top r + n" "p = Some (hr_base r + hr_top r)"
      using assms(1) by (auto simp: carve_def try_bump_ring_heap_locked_def Let_def)
    have n: "unat n \<le> unat (hr_size r) - unat (hr_top r)"
      using fwd(3) top(1) by (simp add: word_le_nat_alt unat_sub)
    show thesis
      by (rule bump) (use r' fwd n bumped in \<open>simp_all add: word_le_nat_alt\<close>)
  next
    case start
    then have "n < hr_tail r" "r' = r\<lparr>hr_top := n\<rparr>" "e = n" "p = Some (hr_base r)"
      using assms(1) by (auto simp: carve_def try_bump_ring_heap_locked_def Let_def split: if_splits)
    with start show thesis by (intro wrap) (simp_all add: word_le_nat_alt word_less_nat_alt)
  next
    case gap
    then have g: "n < hr_tail r - hr_top r" and r': "r' = r\<lparr>hr_top := hr_top r + n\<rparr>"
      "e = hr_top r + n" "p = Some (hr_base r + hr_top r)"
      using assms(1) by (auto simp: carve_def try_bump_ring_heap_locked_def Let_def split: if_splits)
    have n: "unat n < unat (hr_tail r) - unat (hr_top r)"
      using g gap(2) by (simp add: word_less_nat_alt word_le_nat_alt unat_sub)
    with top bumped have "unat e = unat (hr_top r) + unat n" using r'(2) by simp
    with n r' gap show thesis by (intro bump) (simp_all add: word_le_nat_alt)
  qed
qed

lemma heap_inv_carve:
  assumes "heap_inv r slabs" "carve r n = Some (r', p, e)"
  shows "heap_inv (push_slot r' e) (slabs @ [(unat e - unat n, unat e)])"
proof -
  have lo: "laid_out (live_slabs r slabs) (unat (hr_tail r)) (unat (hr_top r)) (unat (hr_size r))"
    using assms(1) by (simp add: heap_inv_def)
  from assms(2) lo show ?thesis
  proof (cases rule: carve_cases)
    case bump
    then show ?thesis
      using heap_inv_push [OF assms(1), of "unat (hr_top r)" e e] laid_out_bump [OF lo bump(3)] by simp
  next
    case wrap
    then show ?thesis using heap_inv_push [OF assms(1), of 0 n n] laid_out_wrap [OF lo wrap(4,5)] by simp
  qed
qed

lemma heap_inv_rewind: "heap_inv (rewind r) []"
  by (simp add: heap_inv_def rewind_def live_slabs_def laid_out_empty)

section \<open>Alignment\<close>

lemma and_not_mask: "(x :: u64) AND NOT (mask n) = push_bit n (drop_bit n x)"
  by (rule bit_word_eqI) (auto simp: bit_simps)

lemma unat_align_down: "unat ((x :: u64) AND NOT (mask n)) = unat x div 2 ^ n * 2 ^ n"
proof -
  have "unat x div 2 ^ n * 2 ^ n < 2 ^ 64"
    using le_less_trans [OF div_times_less_eq_dividend unat_u64_bound, of x "2 ^ n"] by simp
  then show ?thesis
    unfolding and_not_mask unsigned_push_bit_eq unsigned_drop_bit_eq
    by (simp add: push_bit_nat_def drop_bit_nat_def take_bit_nat_eq_self)
qed

lemma unat_align_up:
  "unat (align_up v HEAP_ALIGN) =
     (if unat v + 1023 < 2 ^ 64 then (unat v + 1023) div 1024 * 1024
      else (unat v + 1023 - 2 ^ 64) div 1024 * 1024)"
proof -
  have "align_up v HEAP_ALIGN = (v + 1023) AND NOT (mask 10)"
    by (simp add: align_up_def HEAP_ALIGN_def mask_eq_exp_minus_1 add.commute)
  then have "unat (align_up v HEAP_ALIGN) = unat (v + 1023) div 1024 * 1024"
    by (simp add: unat_align_down)
  moreover have "unat (v + 1023) = (if unat v + 1023 < 2 ^ 64 then unat v + 1023 else unat v + 1023 - 2 ^ 64)"
    by (auto simp: unat_word_ariths le_mod_geq intro!: mod_less le_less_trans [OF diff_le_self unat_u64_bound])
  ultimately show ?thesis by simp
qed

definition starts_aligned :: "HeapRing \<Rightarrow> slab list \<Rightarrow> bool" where
  "starts_aligned r slabs \<longleftrightarrow> 1024 dvd unat (hr_top r) \<and> (\<forall>s \<in> set slabs. 1024 dvd fst s)"

lemma starts_aligned_carve:
  assumes "starts_aligned r slabs" "heap_inv r slabs" "1024 dvd unat n" "carve r n = Some (r', p, e)"
  shows "starts_aligned (push_slot r' e) (slabs @ [(unat e - unat n, unat e)])"
proof -
  have lo: "laid_out (live_slabs r slabs) (unat (hr_tail r)) (unat (hr_top r)) (unat (hr_size r))"
    using assms(2) by (simp add: heap_inv_def)
  from assms(4) lo show ?thesis
    by (cases rule: carve_cases) (use assms(1,3) in \<open>auto simp: starts_aligned_def push_slot_def\<close>)
qed

lemma advance_top [simp]: "hr_top (advance_last_alive_locked r) = hr_top r"
  by (induction r rule: advance_last_alive_locked.induct) (subst advance_last_alive_locked.simps, auto)

lemma starts_aligned_release: "starts_aligned r slabs \<Longrightarrow> starts_aligned (release_locked r i) slabs"
  by (simp add: starts_aligned_def release_locked_def)

end
