(* ===== verification/Ring_Safety.thy ===== *)
theory Ring_Safety
  imports Heap_Layout "HOL-Library.Multiset"
begin

text \<open>
  The allocator as a whole, under concurrency. Allocations sit between their two critical sections (\<open>rw_pending\<close>), releases
  between theirs (\<open>rw_releasing\<close>), and a reset between the mutexes of two rings (\<open>rw_reset\<close>), while other threads run theirs. The
  ghost component \<open>rw_slabs\<close> records the slab of every slot of every ring since the ring was rewound. The invariant
  \<open>ring_inv\<close> says that each ring is laid out correctly and that every in-ring position belongs to exactly
  one slot state or one pending allocation.

  A reset holds the slot mutex, so no allocation parks and no release looks its slot up meanwhile. Beyond the mutexes it relies
  on what \<open>ring.h\<close> and \<open>ring.cpp\<close> ask of its caller: no run is registered, so no allocation reserves during a reset, and when
  the rings are rewound no release is in flight. \<open>reset_needs_quiescence\<close> shows that the first of these is needed.
\<close>

section \<open>The step relation\<close>

datatype reset_phase = NoReset | Checking nat | Rewinding nat

record ring_world =
  rw_ring :: Ring
  rw_slabs :: "slab list list"
  rw_pending :: "Reservation list"
  rw_releasing :: "(nat \<times> int) list"
  rw_reset :: reset_phase

abbreviation ring_at_rest :: "Ring \<Rightarrow> slab list list \<Rightarrow> ring_world" where
  "ring_at_rest rg slabs \<equiv> \<lparr>rw_ring = rg, rw_slabs = slabs, rw_pending = [], rw_releasing = [], rw_reset = NoReset\<rparr>"

definition ring_start :: "ring_world \<Rightarrow> bool" where
  "ring_start w \<longleftrightarrow>
     (\<exists>heap_bytes timeout_ms maps. length maps = MAX_RING_DEPTH \<and>
        ring_init empty_ring heap_bytes timeout_ms maps = Inr (rw_ring w)) \<and>
     rw_slabs w = replicate MAX_RING_DEPTH [] \<and> rw_pending w = [] \<and> rw_releasing w = [] \<and> rw_reset w = NoReset"

inductive ring_step :: "ring_world \<Rightarrow> ring_world \<Rightarrow> bool" where
  reserve: "ring_step w (w\<lparr>rw_ring := rg', rw_slabs := (rw_slabs w)[i := rw_slabs w ! i @
      [(unat (rv_heap_end rv) - unat aligned, unat (rv_heap_end rv))]], rw_pending := rw_pending w @ [rv]\<rparr>)"
  if "rw_reset w = NoReset" "\<not> rg_shutdown (rw_ring w)" "alloc_request (rw_ring w) bytes scope_depth = Inr (i, aligned)"
    "alloc_reserve (rw_ring w) i aligned = Some (rg', rv)"
| park: "ring_step w (w\<lparr>rw_ring := fst (alloc_park (rw_ring w) rv), rw_pending := remove1 rv (rw_pending w)\<rparr>)"
  if "rw_reset w = NoReset" "rv \<in> set (rw_pending w)"
| locate: "ring_step w (w\<lparr>rw_releasing := rw_releasing w @ [pos]\<rparr>)"
  if "rw_reset w = NoReset" "release_locate (rw_ring w) slot = Some pos"
| release: "ring_step w (w\<lparr>rw_ring := release_at (rw_ring w) pos, rw_releasing := before @ after\<rparr>)"
  if "rw_releasing w = before @ pos # after"
| reset: "ring_step w (w\<lparr>rw_reset := Checking 0\<rparr>)"
  if "rw_reset w = NoReset"
| checked: "ring_step w (w\<lparr>rw_reset := Checking (Suc i)\<rparr>)"
  if "rw_reset w = Checking i" "i < MAX_RING_DEPTH" "drained (rg_rings (rw_ring w) ! i)"
| refused: "ring_step w (w\<lparr>rw_reset := NoReset\<rparr>)"
  if "rw_reset w = Checking i" "i < MAX_RING_DEPTH" "\<not> drained (rg_rings (rw_ring w) ! i)"
| dropped: "ring_step w (w\<lparr>rw_ring := reset_slots (rw_ring w), rw_reset := Rewinding 0\<rparr>)"
  if "rw_reset w = Checking MAX_RING_DEPTH" "rw_releasing w = []"
| rewound: "ring_step w (w\<lparr>rw_ring := reset_rewind i (rw_ring w), rw_slabs := (rw_slabs w)[i := []], rw_reset := Rewinding (Suc i)\<rparr>)"
  if "rw_reset w = Rewinding i" "i < MAX_RING_DEPTH"
| reset_done: "ring_step w (w\<lparr>rw_reset := NoReset\<rparr>)"
  if "rw_reset w = Rewinding MAX_RING_DEPTH"
| shutdown: "ring_step w (w\<lparr>rw_ring := ring_shutdown (rw_ring w)\<rparr>)"

inductive_cases ring_stepE: "ring_step w w'"

section \<open>The invariant\<close>

definition parked :: "Ring \<Rightarrow> (nat \<times> int) list" where
  "parked rg = map (\<lambda>s. (rs_ring_idx s, rs_ring_slot_idx s)) (rg_slot_states rg)"

definition owners :: "ring_world \<Rightarrow> (nat \<times> int) list" where
  "owners w = parked (rw_ring w) @ map (\<lambda>rv. (rv_ring_idx rv, rv_ring_slot_idx rv)) (rw_pending w)"

definition positions :: "slab list list \<Rightarrow> (nat \<times> int) set" where
  "positions slabs = {(i, int j) | i j. i < length slabs \<and> j < length (slabs ! i)}"

definition rings_ok :: "HeapRing list \<Rightarrow> slab list list \<Rightarrow> bool" where
  "rings_ok rings slabs \<longleftrightarrow> list_all2 heap_inv rings slabs \<and> list_all2 starts_aligned rings slabs"

fun reset_ok :: "reset_phase \<Rightarrow> ring_world \<Rightarrow> bool" where
  "reset_ok NoReset w \<longleftrightarrow> set (owners w) = positions (rw_slabs w)"
| "reset_ok (Checking k) w \<longleftrightarrow> set (owners w) = positions (rw_slabs w) \<and> k \<le> MAX_RING_DEPTH \<and> (\<forall>i < k. drained (rg_rings (rw_ring w) ! i))"
| "reset_ok (Rewinding k) w \<longleftrightarrow> owners w = [] \<and> rw_releasing w = [] \<and> k \<le> MAX_RING_DEPTH \<and> (\<forall>i < k. rw_slabs w ! i = [])"

definition ring_inv :: "ring_world \<Rightarrow> bool" where
  "ring_inv w \<longleftrightarrow>
     length (rg_rings (rw_ring w)) = MAX_RING_DEPTH \<and> rings_ok (rg_rings (rw_ring w)) (rw_slabs w) \<and>
     distinct (owners w) \<and> set (rw_releasing w) \<subseteq> set (parked (rw_ring w)) \<and> reset_ok (rw_reset w) w \<and>
     rg_next_task_id (rw_ring w) = int (length (rg_slot_states (rw_ring w))) \<and>
     (\<forall>rv \<in> set (rw_pending w). hr_released (rg_rings (rw_ring w) ! rv_ring_idx rv) ! nat (rv_ring_slot_idx rv) = 0)"

lemma ring_inv_positions:
  assumes "ring_inv w" "rv \<in> set (rw_pending w) \<or> pos \<in> set (parked (rw_ring w))"
  shows "set (owners w) = positions (rw_slabs w)"
  using assms by (cases "rw_reset w") (auto simp: ring_inv_def owners_def)

lemma rings_ok_update:
  assumes "rings_ok rings slabs" "heap_inv r s" "starts_aligned r s"
  shows "rings_ok (rings[i := r]) (slabs[i := s])"
  using assms by (simp add: rings_ok_def list_all2_update_cong)

lemma rings_ok_release:
  assumes "rings_ok rings slabs"
  shows "rings_ok (rings[i := release_locked (rings ! i) k]) slabs"
proof (cases "i < length rings")
  case True
  have "heap_inv (rings ! i) (slabs ! i)" "starts_aligned (rings ! i) (slabs ! i)"
    using assms True by (auto simp: rings_ok_def list_all2_conv_all_nth)
  then have "rings_ok (rings[i := release_locked (rings ! i) k]) (slabs[i := slabs ! i])"
    using assms by (intro rings_ok_update heap_inv_release starts_aligned_release)
  then show ?thesis by simp
qed (use assms in \<open>simp add: list_update_beyond\<close>)

lemma rings_ok_carve:
  assumes "rings_ok rings slabs" "i < length rings" "1024 dvd unat n" "carve (rings ! i) n = Some (r', p, e)"
  shows "rings_ok (rings[i := push_slot r' e]) (slabs[i := slabs ! i @ [(unat e - unat n, unat e)]])"
proof -
  have "heap_inv (rings ! i) (slabs ! i)" "starts_aligned (rings ! i) (slabs ! i)"
    using assms(1,2) by (auto simp: rings_ok_def list_all2_conv_all_nth)
  then show ?thesis
    using assms by (intro rings_ok_update heap_inv_carve starts_aligned_carve)
qed

lemma positions_snoc:
  "i < length slabs \<Longrightarrow> positions (slabs[i := slabs ! i @ [s]]) = insert (i, int (length (slabs ! i))) (positions slabs)"
  by (auto simp: positions_def nth_list_update less_Suc_eq split: if_splits)

lemma ring_idx_bound: "ring_idx_for_scope d < MAX_RING_DEPTH"
  by (auto simp: ring_idx_for_scope_def MAX_RING_DEPTH_def Let_def)

lemma alloc_requestD:
  assumes "alloc_request rg bytes d = Inr (i, n)"
  shows "i < MAX_RING_DEPTH" "1024 dvd unat n"
  using assms ring_idx_bound unat_align_up [of bytes]
  by (auto simp: alloc_request_def Let_def split: if_splits)

text \<open>\<open>carve\<close> only moves the top.\<close>

lemma carve_frame:
  assumes "carve r n = Some (r', p, e)"
  shows "hr_released r' = hr_released r" "hr_slot_heap_end r' = hr_slot_heap_end r" "hr_last_alive r' = hr_last_alive r"
  using assms by (auto simp: carve_def try_bump_ring_heap_locked_def Let_def split: if_splits option.splits)

lemma advance_released [simp]: "hr_released (advance_last_alive_locked r) = hr_released r"
  by (induction r rule: advance_last_alive_locked.induct) (subst advance_last_alive_locked.simps, auto)

lemma release_flag:
  "hr_released (release_locked r k) ! j = 0 \<or> k = int j" if "hr_released r ! j = 0"
  using that by (auto simp: release_locked_def nth_list_update)

section \<open>Preservation\<close>

lemma rings_ok_length: "rings_ok rings slabs \<Longrightarrow> length slabs = length rings"
  by (auto simp: rings_ok_def dest: list_all2_lengthD)

lemma rings_ok_nth:
  assumes "rings_ok rings slabs" "i < length rings"
  shows "heap_inv (rings ! i) (slabs ! i)" "starts_aligned (rings ! i) (slabs ! i)"
    "length (hr_released (rings ! i)) = length (slabs ! i)"
  using assms by (auto simp: rings_ok_def list_all2_conv_all_nth heap_inv_def)

lemma reserve_inv:
  assumes inv: "ring_inv w" and none: "rw_reset w = NoReset" and req: "alloc_request (rw_ring w) bytes d = Inr (i, n)"
    and res: "alloc_reserve (rw_ring w) i n = Some (rg', rv)"
  shows "ring_inv (w\<lparr>rw_ring := rg', rw_slabs := (rw_slabs w)[i := rw_slabs w ! i @
      [(unat (rv_heap_end rv) - unat n, unat (rv_heap_end rv))]], rw_pending := rw_pending w @ [rv]\<rparr>)"
proof -
  let ?rings = "rg_rings (rw_ring w)"
  have i: "i < length ?rings" "1024 dvd unat n" and ok: "rings_ok ?rings (rw_slabs w)"
    using alloc_requestD [OF req] inv by (auto simp: ring_inv_def)
  obtain r' p e where c: "carve (?rings ! i) n = Some (r', p, e)" and
    rg': "rg' = rw_ring w\<lparr>rg_rings := ?rings[i := push_slot r' e]\<rparr>" and
    rv: "rv_ring_idx rv = i" "rv_ring_slot_idx rv = int (length (rw_slabs w ! i))" "rv_heap_end rv = e"
    using res carve_frame(1) rings_ok_nth(3) [OF ok i(1)]
    by (auto simp: alloc_reserve_def Let_def split: option.splits)
  have pos: "positions ((rw_slabs w)[i := rw_slabs w ! i @ [s]]) =
      insert (i, int (length (rw_slabs w ! i))) (positions (rw_slabs w))" for s
    using i(1) rings_ok_length [OF ok] by (simp add: positions_snoc)
  have fresh: "(i, int (length (rw_slabs w ! i))) \<notin> positions (rw_slabs w)" by (simp add: positions_def)
  have live: "hr_released (?rings[i := push_slot r' e] ! rv_ring_idx q) ! nat (rv_ring_slot_idx q) = 0"
    if "q \<in> set (rw_pending w)" for q
  proof -
    have "(rv_ring_idx q, rv_ring_slot_idx q) \<in> positions (rw_slabs w)"
      using inv none that by (auto simp: ring_inv_def owners_def)
    then have "nat (rv_ring_slot_idx q) < length (rw_slabs w ! rv_ring_idx q)" by (auto simp: positions_def)
    moreover have "hr_released (?rings ! rv_ring_idx q) ! nat (rv_ring_slot_idx q) = 0"
      using inv that by (simp add: ring_inv_def)
    ultimately show ?thesis
      using i(1) rings_ok_nth(3) [OF ok i(1)] carve_frame(1) [OF c]
      by (cases "rv_ring_idx q = i") (simp_all add: push_slot_def nth_append)
  qed
  have "rings_ok (?rings[i := push_slot r' e]) ((rw_slabs w)[i := rw_slabs w ! i @ [(unat e - unat n, unat e)]])"
    using rings_ok_carve [OF ok i c] .
  moreover have "hr_released (push_slot r' e) ! length (rw_slabs w ! i) = 0"
    using rings_ok_nth(3) [OF ok i(1)] carve_frame(1) [OF c] by (simp add: push_slot_def nth_append)
  ultimately show ?thesis
    using inv none pos fresh rv rg' live i(1) by (auto simp: ring_inv_def owners_def parked_def)
qed

lemma park_inv:
  assumes "ring_inv w" "rv \<in> set (rw_pending w)" "rw_reset w = NoReset"
  shows "ring_inv (w\<lparr>rw_ring := fst (alloc_park (rw_ring w) rv), rw_pending := remove1 rv (rw_pending w)\<rparr>)"
    (is "ring_inv ?w'")
proof -
  obtain xs ys where xy: "rw_pending w = xs @ rv # ys" "rv \<notin> set xs"
    using assms(2) by (auto dest: split_list_first)
  have "mset (owners ?w') = mset (owners w)"
    using xy by (simp add: owners_def parked_def alloc_park_def Let_def remove1_append)
  then have "distinct (owners ?w') = distinct (owners w)" "set (owners ?w') = set (owners w)"
    by (metis mset_eq_imp_distinct_iff, metis set_mset_mset)
  then show ?thesis
    using assms(1,3) set_remove1_subset [of rv "rw_pending w"] by (auto simp: ring_inv_def alloc_park_def parked_def Let_def)
qed

text \<open>A drained ring has no unreleased slot; releasing in it changes nothing.\<close>

lemma drained_release:
  assumes "heap_inv r slabs" "drained r"
  shows "release_locked r k = r"
proof (cases "k < 0 \<or> int (length (hr_released r)) \<le> k")
  case False
  then have "nat k < hr_last_alive r" using assms(2) by (simp add: drained_def nat_less_iff)
  then have "hr_released r ! nat k = 1" using assms(1) by (simp add: heap_inv_def)
  then show ?thesis by (simp add: release_locked_def)
qed (auto simp: release_locked_def)

lemma release_inv:
  assumes "ring_inv w" "pos \<in> set (parked (rw_ring w))"
  shows "ring_inv (w\<lparr>rw_ring := release_at (rw_ring w) pos\<rparr>)"
proof -
  obtain j k where pos: "pos = (j, k)" by (cases pos)
  let ?rings = "rg_rings (rw_ring w)" and ?rings' = "rg_rings (release_at (rw_ring w) pos)"
  have ok: "rings_ok ?rings (rw_slabs w)" and len: "length ?rings = MAX_RING_DEPTH" using assms(1) by (simp_all add: ring_inv_def)
  have own: "set (owners w) = positions (rw_slabs w)" using ring_inv_positions [OF assms(1)] assms(2) by blast
  have u: "hr_released (?rings' ! rv_ring_idx q) ! nat (rv_ring_slot_idx q) = 0" if q: "q \<in> set (rw_pending w)" for q
  proof -
    have z: "hr_released (?rings ! rv_ring_idx q) ! nat (rv_ring_slot_idx q) = 0"
      using assms(1) q by (simp add: ring_inv_def)
    have ne: "(j, k) \<noteq> (rv_ring_idx q, rv_ring_slot_idx q)"
      using assms pos q by (force simp: ring_inv_def owners_def)
    have "(rv_ring_idx q, rv_ring_slot_idx q) \<in> positions (rw_slabs w)"
      using own q by (auto simp: owners_def)
    then have "int (nat (rv_ring_slot_idx q)) = rv_ring_slot_idx q" "rv_ring_idx q < length ?rings"
      using rings_ok_length [OF ok] by (auto simp: positions_def)
    then show ?thesis
      using z ne release_flag [OF z] by (cases "rv_ring_idx q = j") (auto simp: release_at_def pos)
  qed
  have d: "drained (?rings' ! i)" if "drained (?rings ! i)" "i < MAX_RING_DEPTH" for i
  proof (cases "i = j")
    case True
    then have "release_locked (?rings ! i) k = ?rings ! i" using drained_release [OF rings_ok_nth(1) [OF ok, of i] that(1)] that(2) len by simp
    then show ?thesis using True that len by (simp add: release_at_def pos)
  qed (use that in \<open>simp add: release_at_def pos\<close>)
  have f: "rg_slot_states (release_at (rw_ring w) pos) = rg_slot_states (rw_ring w)"
    "rg_next_task_id (release_at (rw_ring w) pos) = rg_next_task_id (rw_ring w)" "length ?rings' = length ?rings"
    by (simp_all add: release_at_def pos)
  then have o: "owners (w\<lparr>rw_ring := release_at (rw_ring w) pos\<rparr>) = owners w" "parked (release_at (rw_ring w) pos) = parked (rw_ring w)"
    by (simp_all add: owners_def parked_def)
  have "rings_ok ?rings' (rw_slabs w)" using rings_ok_release [OF ok] by (simp add: release_at_def pos)
  moreover have "reset_ok (rw_reset w) (w\<lparr>rw_ring := release_at (rw_ring w) pos\<rparr>)"
    using assms(1) d by (cases "rw_reset w") (auto simp: ring_inv_def o)
  ultimately show ?thesis using assms(1) u f o by (simp add: ring_inv_def)
qed

text \<open>When every ring is drained no allocation is pending.\<close>

lemma drained_no_pending:
  assumes "ring_inv w" "\<forall>i < MAX_RING_DEPTH. drained (rg_rings (rw_ring w) ! i)"
  shows "rw_pending w = []"
proof (rule ccontr)
  assume "rw_pending w \<noteq> []"
  then obtain q where q: "q \<in> set (rw_pending w)" by (cases "rw_pending w") auto
  let ?i = "rv_ring_idx q" and ?j = "nat (rv_ring_slot_idx q)"
  have ok: "rings_ok (rg_rings (rw_ring w)) (rw_slabs w)" using assms(1) by (simp add: ring_inv_def)
  have "(?i, rv_ring_slot_idx q) \<in> positions (rw_slabs w)" using ring_inv_positions [OF assms(1) disjI1 [OF q]] q by (auto simp: owners_def)
  then have i: "?i < length (rg_rings (rw_ring w))" and j: "?j < length (rw_slabs w ! ?i)"
    using rings_ok_length [OF ok] by (auto simp: positions_def)
  have "drained (rg_rings (rw_ring w) ! ?i)" using assms i by (simp add: ring_inv_def)
  then have "hr_released (rg_rings (rw_ring w) ! ?i) ! ?j = 1"
    using rings_ok_nth(1,3) [OF ok i] j by (auto simp: drained_def heap_inv_def)
  then show False using assms(1) q by (simp add: ring_inv_def)
qed

definition fresh :: "HeapRing \<Rightarrow> bool" where
  "fresh r \<longleftrightarrow> hr_released r = [] \<and> hr_slot_heap_end r = [] \<and> hr_last_alive r = 0 \<and> hr_top r = 0 \<and> hr_tail r = 0"

lemma fresh_ok: "fresh r \<Longrightarrow> heap_inv r []" "fresh r \<Longrightarrow> starts_aligned r []"
  by (auto simp: fresh_def heap_inv_def starts_aligned_def live_slabs_def laid_out_empty)

lemma fresh_rewind [simp]: "fresh (rewind r)"
  by (simp add: fresh_def rewind_def)

lemma rings_ok_fresh:
  "list_all fresh rings \<Longrightarrow> length slabs = length rings \<Longrightarrow> rings_ok rings (map (\<lambda>_. []) slabs)"
  by (auto simp: rings_ok_def list_all2_conv_all_nth list_all_length intro: fresh_ok)

lemma drop_inv:
  assumes "ring_inv w" "rw_reset w = Checking MAX_RING_DEPTH" "rw_releasing w = []"
  shows "ring_inv (w\<lparr>rw_ring := reset_slots (rw_ring w), rw_reset := Rewinding 0\<rparr>)"
proof -
  have "rw_pending w = []" using drained_no_pending [OF assms(1)] assms by (simp add: ring_inv_def)
  then show ?thesis using assms by (simp add: ring_inv_def reset_slots_def owners_def parked_def)
qed

lemma rewind_inv:
  assumes "ring_inv w" "rw_reset w = Rewinding i" "i < MAX_RING_DEPTH"
  shows "ring_inv (w\<lparr>rw_ring := reset_rewind i (rw_ring w), rw_slabs := (rw_slabs w)[i := []], rw_reset := Rewinding (Suc i)\<rparr>)"
proof -
  have "rings_ok ((rg_rings (rw_ring w))[i := rewind (rg_rings (rw_ring w) ! i)]) ((rw_slabs w)[i := []])"
    using assms(1) by (intro rings_ok_update fresh_ok) (simp_all add: ring_inv_def)
  then show ?thesis
    using assms by (auto simp: ring_inv_def reset_rewind_def owners_def parked_def less_Suc_eq nth_list_update dest: rings_ok_length)
qed

lemma rewound_inv:
  assumes "ring_inv w" "rw_reset w = Rewinding MAX_RING_DEPTH"
  shows "ring_inv (w\<lparr>rw_reset := NoReset\<rparr>)"
proof -
  have "length (rw_slabs w) = MAX_RING_DEPTH" using assms(1) by (auto simp: ring_inv_def dest: rings_ok_length)
  then have "positions (rw_slabs w) = {}" using assms by (auto simp: ring_inv_def positions_def)
  then show ?thesis using assms by (simp add: ring_inv_def owners_def)
qed

lemma init_rings_fresh:
  "init_rings heap_bytes rs maps = Some rs' \<Longrightarrow> length rs = length maps \<Longrightarrow>
     length rs' = length rs \<and> list_all fresh rs'"
  by (induction heap_bytes rs maps arbitrary: rs' rule: init_rings.induct)
    (auto split: if_splits option.splits simp: fresh_def rewind_def)

lemma ring_start_inv:
  assumes "ring_start w"
  shows "ring_inv w"
proof -
  obtain hb t maps where init: "length maps = MAX_RING_DEPTH" "Inr (rw_ring w) = ring_init empty_ring hb t maps"
    and w: "rw_slabs w = replicate MAX_RING_DEPTH []" "rw_pending w = []" "rw_releasing w = []" "rw_reset w = NoReset"
    using assms by (auto simp: ring_start_def dest: sym)
  from init(2) obtain rings where rings: "init_rings hb (rg_rings empty_ring) maps = Some rings"
    and rg: "rg_rings (rw_ring w) = rings" "rg_slot_states (rw_ring w) = []" "rg_next_task_id (rw_ring w) = 0"
    by (auto simp: ring_init_def split: if_splits option.splits)
  have "length (rg_rings empty_ring) = length maps" by (simp add: empty_ring_def init(1))
  from init_rings_fresh [OF rings this] have len: "length rings = MAX_RING_DEPTH" and f: "list_all fresh rings"
    by (simp_all add: empty_ring_def)
  have "rings_ok rings (map (\<lambda>_. []) (rw_slabs w))" using f w(1) len by (intro rings_ok_fresh) simp_all
  then show ?thesis using rg w len by (simp add: ring_inv_def owners_def parked_def positions_def map_replicate_const)
qed

lemma locate_parked: "release_locate rg slot = Some pos \<Longrightarrow> pos \<in> set (parked rg)"
  by (auto simp: release_locate_def parked_def Let_def split: if_splits)

lemma ring_inv_fewer:
  assumes "ring_inv w" "set ps \<subseteq> set (parked (rw_ring w))" "rw_releasing w = [] \<Longrightarrow> ps = []"
  shows "ring_inv (w\<lparr>rw_releasing := ps\<rparr>)"
  using assms by (cases "rw_reset w") (auto simp: ring_inv_def owners_def)

lemma ring_step_inv:
  assumes "ring_inv w" "ring_step w w'"
  shows "ring_inv w'"
  using assms(2)
proof cases
  case (reserve bytes d i n rg' rv)
  then show ?thesis using reserve_inv assms(1) by blast
next
  case (park rv)
  then show ?thesis using park_inv assms(1) by blast
next
  case (locate slot pos)
  then show ?thesis using assms(1) locate_parked by (auto simp: ring_inv_def owners_def)
next
  case (release before pos after)
  then have p: "set (before @ pos # after) \<subseteq> set (parked (rw_ring w))" using assms(1) by (simp add: ring_inv_def)
  then have "ring_inv (w\<lparr>rw_ring := release_at (rw_ring w) pos\<rparr>)" using release_inv assms(1) by simp
  then show ?thesis
    using p release(2) ring_inv_fewer [of "w\<lparr>rw_ring := release_at (rw_ring w) pos\<rparr>" "before @ after"]
    unfolding release(1) by (simp add: parked_def release_at_def case_prod_unfold)
next
  case (checked i)
  then show ?thesis using assms(1) by (auto simp: ring_inv_def owners_def less_Suc_eq)
next
  case (dropped)
  then show ?thesis using drop_inv assms(1) by blast
next
  case (rewound i)
  then show ?thesis using rewind_inv assms(1) by blast
next
  case reset_done
  then show ?thesis using rewound_inv assms(1) by blast
next
  case shutdown
  then show ?thesis using assms(1) by (cases "rw_reset w") (simp_all add: ring_inv_def owners_def parked_def ring_shutdown_def)
qed (use assms(1) in \<open>auto simp: ring_inv_def owners_def\<close>)

interpretation ring_sys: invariant_system ring_start ring_step ring_inv
  by unfold_locales (auto intro: ring_start_inv ring_step_inv)

section \<open>Facts about reachable allocators\<close>

lemma reachable_ring:
  assumes "reachable ring_start ring_step w" "i < MAX_RING_DEPTH"
  shows "heap_inv (rg_rings (rw_ring w) ! i) (rw_slabs w ! i)" "starts_aligned (rg_rings (rw_ring w) ! i) (rw_slabs w ! i)"
  using ring_sys.reachable_inv [OF assms(1)] assms(2) rings_ok_nth by (auto simp: ring_inv_def)

lemma unreleased_live:
  assumes "heap_inv r slabs" "j < length slabs" "hr_released r ! j = 0"
  shows "hr_last_alive r \<le> j"
  using assms by (force simp: heap_inv_def not_less [symmetric])

lemma takeWhile_prefix: "k \<le> length xs \<Longrightarrow> (\<forall>i<k. P (xs ! i)) \<Longrightarrow> (k < length xs \<longrightarrow> \<not> P (xs ! k)) \<Longrightarrow>
  length (takeWhile P xs) = k"
proof (induction xs arbitrary: k)
  case (Cons x xs)
  show ?case
  proof (cases k)
    case (Suc k')
    have "P x" using Cons.prems(2) Suc by force
    moreover have "length (takeWhile P xs) = k'"
      using Cons.prems Suc by (intro Cons.IH) (auto simp: All_less_Suc2)
    ultimately show ?thesis using Suc by simp
  qed (use Cons.prems in auto)
qed simp

lemma heap_inv_frontier: "heap_inv r slabs \<Longrightarrow> hr_last_alive r = length (takeWhile (\<lambda>x. x = 1) (hr_released r))"
  by (rule takeWhile_prefix [symmetric]) (auto simp: heap_inv_def)

lemma card_positions: "card (positions slabs) = sum_list (map length slabs)"
proof -
  have "positions slabs = (\<Union>i\<in>{..<length slabs}. (\<lambda>j. (i, int j)) ` {..<length (slabs ! i)})"
    by (auto simp: positions_def)
  also have "card \<dots> = (\<Sum>i<length slabs. card ((\<lambda>j. (i, int j)) ` {..<length (slabs ! i)}))"
    by (rule card_UN_disjoint) auto
  also have "\<dots> = (\<Sum>i<length slabs. length (slabs ! i))"
    by (intro sum.cong refl) (simp add: card_image inj_on_def)
  finally show ?thesis by (simp add: sum_list_sum_nth atLeast0LessThan)
qed

definition live_count :: "ring_world \<Rightarrow> int" where
  "live_count w = sum_list (map2 (\<lambda>r s. int (length (live_slabs r s))) (rg_rings (rw_ring w)) (rw_slabs w))"

lemma live_count_sum:
  assumes "rings_ok rings slabs"
  shows "sum_list (map2 (\<lambda>r s. int (length (live_slabs r s))) rings slabs) =
    int (sum_list (map length slabs)) - int (sum_list (map hr_last_alive rings))"
  using assms
proof (induction rings arbitrary: slabs)
  case (Cons r rs)
  then obtain s ss where "slabs = s # ss" by (cases slabs) (auto simp: rings_ok_def)
  with Cons show ?case by (auto simp: rings_ok_def live_slabs_def heap_inv_def)
qed (auto simp: rings_ok_def)

lemma inv_active_count:
  assumes "ring_inv w" "rw_reset w = NoReset"
  shows "active_count (rw_ring w) + int (length (rw_pending w)) = live_count w"
proof -
  have "length (owners w) = sum_list (map length (rw_slabs w))"
    using assms card_positions distinct_card [of "owners w"] by (simp add: ring_inv_def)
  then show ?thesis
    using assms live_count_sum [of "rg_rings (rw_ring w)" "rw_slabs w"]
    by (simp add: ring_inv_def active_count_def live_count_def owners_def parked_def)
qed

lemma all_drained_iff:
  assumes "rings_ok rings slabs"
  shows "(\<forall>r \<in> set rings. drained r) \<longleftrightarrow> sum_list (map2 (\<lambda>r s. int (length (live_slabs r s))) rings slabs) = 0"
  using assms
proof (induction rings arbitrary: slabs)
  case (Cons r rs)
  then obtain s ss where s: "slabs = s # ss" by (cases slabs) (auto simp: rings_ok_def)
  have "0 \<le> sum_list (map2 (\<lambda>r s. int (length (live_slabs r s))) rs ss)"
    by (rule sum_list_nonneg) auto
  moreover have "drained r \<longleftrightarrow> int (length (live_slabs r s)) = 0"
    using Cons.prems s by (auto simp: rings_ok_def heap_inv_def drained_def live_slabs_def)
  moreover have "(\<forall>r \<in> set rs. drained r) \<longleftrightarrow>
      sum_list (map2 (\<lambda>r s. int (length (live_slabs r s))) rs ss) = 0"
    using Cons.prems s by (intro Cons.IH) (simp add: rings_ok_def)
  moreover have "0 \<le> int (length (live_slabs r s))" by simp
  ultimately show ?case
    unfolding s by (simp only: list.set(2) ball_simps zip_Cons_Cons list.map(2) prod.case sum_list.Cons
        add_nonneg_eq_0_iff)
qed (auto simp: rings_ok_def)

lemma release_locked_idem: "release_locked (release_locked r k) k = release_locked r k"
proof (cases "k < 0 \<or> int (length (hr_released r)) \<le> k")
  case True
  then show ?thesis by (auto simp: release_locked_def)
next
  case False
  then have "nat k < length (hr_released r)" by linarith
  then show ?thesis by (simp add: release_locked_def)
qed

lemma list_update_idem:
  "f (f (xs ! i)) = f (xs ! i) \<Longrightarrow> xs[i := f (xs[i := f (xs ! i)] ! i)] = xs[i := f (xs ! i)]"
  by (cases "i < length xs") (auto simp: list_update_beyond)

lemma ring_release_idem: "ring_release (ring_release rg slot) slot = ring_release rg slot"
  by (simp add: ring_release_eq Let_def release_locked_idem
      list_update_idem [where f = "\<lambda>r. release_locked r _"])

text \<open>When a drained ring, whose top and tail coincide, can serve a request.\<close>

lemma drained_carve:
  assumes "heap_inv r slabs" "drained r" "n \<noteq> 0"
  shows "carve r n \<noteq> None \<longleftrightarrow> unat n \<le> unat (hr_size r) - unat (hr_top r) \<or> unat n < unat (hr_top r)"
proof -
  have "live_slabs r slabs = []" using assms(1,2) by (simp add: live_slabs_def heap_inv_def drained_def)
  then have "unat (hr_tail r) = unat (hr_top r)" and top: "unat (hr_top r) \<le> unat (hr_size r)"
    using assms(1) by (simp_all add: heap_inv_def laid_out_drained)
  then have "hr_tail r = hr_top r" by (simp add: word_unat_eq_iff)
  then show ?thesis
    using assms(3) top
    by (auto simp: carve_def try_bump_ring_heap_locked_def Let_def word_le_nat_alt word_less_nat_alt unat_sub not_le
        split: option.splits)
qed

section \<open>Allocation as steps\<close>

text \<open>A whole allocation, when no other thread runs between its two critical sections.\<close>

definition world_alloc :: "ring_world \<Rightarrow> u64 \<Rightarrow> int \<Rightarrow> ring_world option" where
  "world_alloc w bytes d =
     (case alloc_request (rw_ring w) bytes d of
        Inl _ \<Rightarrow> None
      | Inr (i, n) \<Rightarrow>
          (case alloc_reserve (rw_ring w) i n of
             None \<Rightarrow> None
           | Some (rg', rv) \<Rightarrow>
               if rg_shutdown (rw_ring w) \<or> rw_reset w \<noteq> NoReset then None
               else Some (w\<lparr>rw_ring := fst (alloc_park rg' rv),
                 rw_slabs := (rw_slabs w)[i := rw_slabs w ! i @ [(unat (rv_heap_end rv) - unat n, unat (rv_heap_end rv))]],
                 rw_pending := remove1 rv (rw_pending w @ [rv])\<rparr>)))"

lemma world_alloc_steps:
  assumes "world_alloc w bytes d = Some w'"
  shows "ring_step\<^sup>*\<^sup>* w w'"
proof -
  obtain i n rg' rv where *: "alloc_request (rw_ring w) bytes d = Inr (i, n)"
    "alloc_reserve (rw_ring w) i n = Some (rg', rv)" "\<not> rg_shutdown (rw_ring w)" "rw_reset w = NoReset"
    using assms by (auto simp: world_alloc_def split: sum.splits option.splits if_splits)
  let ?w1 = "w\<lparr>rw_ring := rg', rw_slabs := (rw_slabs w)[i := rw_slabs w ! i @
      [(unat (rv_heap_end rv) - unat n, unat (rv_heap_end rv))]], rw_pending := rw_pending w @ [rv]\<rparr>"
  have "ring_step w ?w1" using * by (intro ring_step.reserve)
  moreover have "ring_step ?w1 (?w1\<lparr>rw_ring := fst (alloc_park (rw_ring ?w1) rv), rw_pending := remove1 rv (rw_pending ?w1)\<rparr>)"
    using *(4) by (intro ring_step.park) simp_all
  moreover have "?w1\<lparr>rw_ring := fst (alloc_park (rw_ring ?w1) rv), rw_pending := remove1 rv (rw_pending ?w1)\<rparr> = w'"
    using assms * by (auto simp: world_alloc_def)
  ultimately show ?thesis by (metis (no_types, lifting) r_into_rtranclp rtranclp.rtrancl_into_rtrancl)
qed

lemma reachable_steps: "reachable start step s \<Longrightarrow> step\<^sup>*\<^sup>* s t \<Longrightarrow> reachable start step t"
  by (auto simp: reachable_def)

text \<open>A release and a reset that nothing interrupts.\<close>

lemma release_step:
  assumes "rw_reset w = NoReset"
  shows "ring_step\<^sup>*\<^sup>* w (w\<lparr>rw_ring := ring_release (rw_ring w) slot\<rparr>)"
proof (cases "release_locate (rw_ring w) slot")
  case None
  then show ?thesis by (simp add: ring_release_def)
next
  case (Some pos)
  let ?w1 = "w\<lparr>rw_releasing := rw_releasing w @ [pos]\<rparr>"
  have "ring_step w ?w1" using ring_step.locate [OF assms Some] .
  moreover have "ring_step ?w1 (?w1\<lparr>rw_ring := release_at (rw_ring ?w1) pos, rw_releasing := rw_releasing w @ []\<rparr>)"
    by (rule ring_step.release) simp
  moreover have "?w1\<lparr>rw_ring := release_at (rw_ring ?w1) pos, rw_releasing := rw_releasing w @ []\<rparr> = w\<lparr>rw_ring := ring_release (rw_ring w) slot\<rparr>"
    using Some by (simp add: ring_release_def)
  ultimately show ?thesis by (metis (no_types, lifting) r_into_rtranclp rtranclp.rtrancl_into_rtrancl)
qed

lemma release_steps:
  assumes "rw_reset w = NoReset"
  shows "ring_step\<^sup>*\<^sup>* w (w\<lparr>rw_ring := fold (\<lambda>s rg. ring_release rg s) slots (rw_ring w)\<rparr>)"
  using assms
proof (induction slots arbitrary: w)
  case (Cons s ss)
  have "ring_step\<^sup>*\<^sup>* w (w\<lparr>rw_ring := ring_release (rw_ring w) s\<rparr>)" using release_step Cons.prems .
  moreover have "ring_step\<^sup>*\<^sup>* (w\<lparr>rw_ring := ring_release (rw_ring w) s\<rparr>) (w\<lparr>rw_ring := fold (\<lambda>s rg. ring_release rg s) (s # ss) (rw_ring w)\<rparr>)"
    using Cons.IH [of "w\<lparr>rw_ring := ring_release (rw_ring w) s\<rparr>"] Cons.prems by simp
  ultimately show ?case by (rule rtranclp_trans)
qed simp

lemma check_steps:
  assumes "rw_reset w = NoReset" "\<forall>i < MAX_RING_DEPTH. drained (rg_rings (rw_ring w) ! i)"
  shows "k \<le> MAX_RING_DEPTH \<Longrightarrow> ring_step\<^sup>*\<^sup>* w (w\<lparr>rw_reset := Checking k\<rparr>)"
proof (induction k)
  case 0
  show ?case using ring_step.reset [OF assms(1)] by blast
next
  case (Suc k)
  have "ring_step (w\<lparr>rw_reset := Checking k\<rparr>) (w\<lparr>rw_reset := Checking (Suc k)\<rparr>)"
    using ring_step.checked [of "w\<lparr>rw_reset := Checking k\<rparr>" k] assms(2) Suc.prems by simp
  then show ?case using Suc by simp
qed

lemma rewind_steps:
  "k \<le> length (rw_slabs w) \<Longrightarrow> length (rw_slabs w) = MAX_RING_DEPTH \<Longrightarrow>
    ring_step\<^sup>*\<^sup>* (w\<lparr>rw_reset := Rewinding 0\<rparr>) (w\<lparr>rw_ring := fold reset_rewind [0 ..< k] (rw_ring w),
      rw_slabs := replicate k [] @ drop k (rw_slabs w), rw_reset := Rewinding k\<rparr>)"
proof (induction k)
  case (Suc k)
  let ?w = "w\<lparr>rw_ring := fold reset_rewind [0 ..< k] (rw_ring w), rw_slabs := replicate k [] @ drop k (rw_slabs w), rw_reset := Rewinding k\<rparr>"
  have "(replicate k [] @ drop k (rw_slabs w))[k := []] = replicate (Suc k) [] @ drop (Suc k) (rw_slabs w)"
    using Suc.prems Cons_nth_drop_Suc [of k "rw_slabs w", symmetric] by (simp add: list_update_append replicate_append_same [symmetric])
  then have "ring_step ?w (w\<lparr>rw_ring := fold reset_rewind [0 ..< Suc k] (rw_ring w), rw_slabs := replicate (Suc k) [] @ drop (Suc k) (rw_slabs w), rw_reset := Rewinding (Suc k)\<rparr>)"
    using ring_step.rewound [of ?w k] Suc.prems by simp
  then show ?case using Suc by (simp del: upt_Suc replicate_Suc)
qed simp

lemma reset_steps:
  assumes "ring_inv w" "rw_reset w = NoReset" "rw_releasing w = []" "reset_to_empty (rw_ring w) = Inr rg'"
  shows "ring_step\<^sup>*\<^sup>* w (w\<lparr>rw_ring := rg', rw_slabs := map (\<lambda>_. []) (rw_slabs w)\<rparr>)"
proof -
  have len: "length (rg_rings (rw_ring w)) = MAX_RING_DEPTH" "length (rw_slabs w) = MAX_RING_DEPTH"
    using assms(1) by (auto simp: ring_inv_def dest: rings_ok_length)
  have d: "\<forall>i < MAX_RING_DEPTH. drained (rg_rings (rw_ring w) ! i)" using assms(4) len by (simp add: reset_drained)
  have rg': "rg' = fold reset_rewind [0 ..< MAX_RING_DEPTH] (reset_slots (rw_ring w))"
    using assms(4) len by (simp add: reset_to_empty_def split: if_splits)
  let ?w1 = "w\<lparr>rw_reset := Checking MAX_RING_DEPTH\<rparr>" and ?w2 = "w\<lparr>rw_ring := reset_slots (rw_ring w)\<rparr>"
  have "ring_step ?w1 (?w2\<lparr>rw_reset := Rewinding 0\<rparr>)" using ring_step.dropped [of ?w1] assms(3) by simp
  moreover have "ring_step\<^sup>*\<^sup>* (?w2\<lparr>rw_reset := Rewinding 0\<rparr>) (w\<lparr>rw_ring := rg', rw_slabs := map (\<lambda>_. []) (rw_slabs w), rw_reset := Rewinding MAX_RING_DEPTH\<rparr>)"
    using rewind_steps [of MAX_RING_DEPTH ?w2] len by (simp add: rg' map_replicate_const)
  moreover have "ring_step (w\<lparr>rw_ring := rg', rw_slabs := map (\<lambda>_. []) (rw_slabs w), rw_reset := Rewinding MAX_RING_DEPTH\<rparr>)
      (w\<lparr>rw_ring := rg', rw_slabs := map (\<lambda>_. []) (rw_slabs w), rw_reset := NoReset\<rparr>)"
    using ring_step.reset_done [of "w\<lparr>rw_ring := rg', rw_slabs := map (\<lambda>_. []) (rw_slabs w), rw_reset := Rewinding MAX_RING_DEPTH\<rparr>"] by simp
  moreover have "w\<lparr>rw_ring := rg', rw_slabs := map (\<lambda>_. []) (rw_slabs w), rw_reset := NoReset\<rparr> = w\<lparr>rw_ring := rg', rw_slabs := map (\<lambda>_. []) (rw_slabs w)\<rparr>"
    using assms(2) by simp
  ultimately show ?thesis
    using check_steps [OF assms(2) d order_refl] by (metis (no_types, lifting) rtranclp.rtrancl_into_rtrancl rtranclp_trans)
qed

text \<open>What an allocation hands out: a slab at the end of the chosen ring's list, of the aligned size.\<close>

definition hands_out :: "ring_world \<Rightarrow> nat \<Rightarrow> u64 \<Rightarrow> AllocResult \<Rightarrow> bool" where
  "hands_out w i n res \<longleftrightarrow>
     (let e = unat (ar_heap_end_offset res); b = e - unat n; k = length (rw_slabs w ! i) - 1; ring = rg_rings (rw_ring w) ! i in
      i < MAX_RING_DEPTH \<and> ar_ring_idx res = i \<and> ar_slot res = int (length (rg_slot_states (rw_ring w))) - 1 \<and>
      rg_slot_states (rw_ring w) \<noteq> [] \<and> last (rg_slot_states (rw_ring w)) = \<lparr>rs_ring_idx = i, rs_ring_slot_idx = int k\<rparr> \<and>
      unat n \<le> e \<and> rw_slabs w ! i \<noteq> [] \<and> rw_slabs w ! i ! k = (b, e) \<and> hr_released ring ! k = 0 \<and>
      ar_heap_ptr res = (if n = 0 then None else Some (hr_base ring + of_nat b)))"

lemma reserve_hands_out:
  assumes inv: "ring_inv w" "rw_reset w = NoReset" and req: "alloc_request (rw_ring w) bytes d = Inr (i, n)" "\<not> rg_shutdown (rw_ring w)"
    and res: "alloc_reserve (rw_ring w) i n = Some (rg', rv)" "alloc_park rg' rv = (rg'', res)"
  shows "\<exists>w'. ring_step\<^sup>*\<^sup>* w w' \<and> rw_ring w' = rg'' \<and> hands_out w' i n res"
proof -
  let ?ring = "rg_rings (rw_ring w) ! i"
  have i: "i < MAX_RING_DEPTH" using alloc_requestD [OF req(1)] by simp
  have ok: "rings_ok (rg_rings (rw_ring w)) (rw_slabs w)" and len: "length (rg_rings (rw_ring w)) = MAX_RING_DEPTH"
    using inv by (auto simp: ring_inv_def)
  have lo: "laid_out (live_slabs ?ring (rw_slabs w ! i)) (unat (hr_tail ?ring)) (unat (hr_top ?ring)) (unat (hr_size ?ring))"
    using rings_ok_nth(1) [OF ok] i len by (simp add: heap_inv_def)
  obtain w' where w': "world_alloc w bytes d = Some w'" using inv(2) req res by (simp add: world_alloc_def)
  obtain r' p e where c: "carve ?ring n = Some (r', p, e)"
    and rv: "rv = \<lparr>rv_ring_idx = i, rv_ring_slot_idx = int (length (hr_released r')), rv_heap_ptr = p, rv_heap_end = e\<rparr>"
    and rg': "rg' = rw_ring w\<lparr>rg_rings := (rg_rings (rw_ring w))[i := push_slot r' e]\<rparr>"
    using res(1) by (auto simp: alloc_reserve_def Let_def split: option.splits)
  have slab: "unat n \<le> unat e \<and> p = (if n = 0 then None else Some (hr_base ?ring + of_nat (unat e - unat n)))"
    using c lo by (cases rule: carve_cases) auto
  have base: "hr_base r' = hr_base ?ring"
    using c lo by (cases rule: carve_cases) auto
  have ids: "rg_next_task_id (rw_ring w) = int (length (rg_slot_states (rw_ring w)))"
    using inv by (simp add: ring_inv_def)
  have rel: "length (hr_released r') = length (rw_slabs w ! i)"
    using carve_frame(1) [OF c] rings_ok_nth(3) [OF ok] i len by simp
  have "hands_out w' i n res"
    using w' inv(2) req res c rv rg' slab base i len ids rel rings_ok_length [OF ok]
    by (auto simp: world_alloc_def hands_out_def alloc_park_def Let_def push_slot_def nth_append)
  moreover have "rw_ring w' = rg''" using w' inv(2) req res by (auto simp: world_alloc_def)
  ultimately show ?thesis using world_alloc_steps [OF w'] by blast
qed

lemma advance_size [simp]: "hr_size (advance_last_alive_locked r) = hr_size r"
  by (induction r rule: advance_last_alive_locked.induct) (subst advance_last_alive_locked.simps, auto)

lemma release_size [simp]: "hr_size (rg_rings (ring_release rg s) ! i) = hr_size (rg_rings rg ! i)"
proof -
  have "hr_size (release_locked r k) = hr_size r" for r k by (simp add: release_locked_def)
  then have "hr_size (rs[j := release_locked (rs ! j) k] ! i) = hr_size (rs ! i)" for rs j k
    by (cases "j < length rs"; cases "i = j") (auto simp: list_update_beyond)
  then show ?thesis by (simp add: ring_release_eq Let_def)
qed

lemma alloc_request_cong:
  "(\<And>i. hr_size (rg_rings rg' ! i) = hr_size (rg_rings rg ! i)) \<Longrightarrow> alloc_request rg' b d = alloc_request rg b d"
  by (simp add: alloc_request_def Let_def)

lemma alloc_request_release [simp]:
  "alloc_request (fold (\<lambda>s rg. ring_release rg s) slots rg) b d = alloc_request rg b d"
proof (induction slots arbitrary: rg)
  case (Cons s ss)
  have "alloc_request (ring_release rg s) b d = alloc_request rg b d" by (rule alloc_request_cong) simp
  with Cons show ?case by simp
qed simp

lemma alloc_loop_returns:
  assumes "ring_inv w" "rw_reset w = NoReset" "alloc_request (rw_ring w) bytes d = Inr (i, n)"
    and "rg_shutdown (rw_ring w) \<or> alloc_reserve (rw_ring w) i n \<noteq> None"
    and "alloc_loop (rw_ring w) i n events = Some (Inr (rg', res))"
  shows "\<exists>w'. ring_step\<^sup>*\<^sup>* w w' \<and> rw_ring w' = rg' \<and>
    (rg_shutdown rg' \<and> ar_slot res = INVALID_SLOT \<or> hands_out w' i n res)"
proof (cases "rg_shutdown (rw_ring w)")
  case True
  then have "rg' = rw_ring w" "ar_slot res = INVALID_SLOT"
    using assms(5) by (auto simp: alloc_loop.simps [of _ _ _ events])
  then show ?thesis using True by blast
next
  case False
  then obtain rg1 rv where r: "alloc_reserve (rw_ring w) i n = Some (rg1, rv)" using assms(4) by auto
  then have "alloc_park rg1 rv = (rg', res)"
    using False assms(5) by (simp add: alloc_loop.simps [of _ _ _ events])
  then show ?thesis using reserve_hands_out [OF assms(1-3) False r] by blast
qed

lemma alloc_loop_waits:
  assumes "\<not> rg_shutdown rg" "alloc_reserve rg i n = None"
  shows "alloc_loop rg i n (Released slots # evs) = alloc_loop (fold (\<lambda>s rg. ring_release rg s) slots rg) i n evs"
    and "alloc_loop rg i n (ShutDown # evs) = alloc_loop (ring_shutdown rg) i n evs"
    and "alloc_loop rg i n (TimedOut # evs) = Some (Inl (RuntimeError
      ''Ring: per-ring heap exhausted (timed out waiting). Increase heap_ring_size on Worker.''))"
    and "alloc_loop rg i n [] = None"
  using assms by (subst alloc_loop.simps, simp)+

lemma alloc_loop_steps:
  assumes "ring_inv w" "rw_reset w = NoReset" "alloc_request (rw_ring w) bytes d = Inr (i, n)"
    and "alloc_loop (rw_ring w) i n events = Some (Inr (rg', res))"
  shows "\<exists>w'. ring_step\<^sup>*\<^sup>* w w' \<and> rw_ring w' = rg' \<and>
    (rg_shutdown rg' \<and> ar_slot res = INVALID_SLOT \<or> hands_out w' i n res)"
  using assms
proof (induction events arbitrary: w)
  case Nil
  then show ?case using alloc_loop_returns alloc_loop_waits(4) by fastforce
next
  case (Cons ev evs)
  show ?case
  proof (cases "rg_shutdown (rw_ring w) \<or> alloc_reserve (rw_ring w) i n \<noteq> None")
    case True
    then show ?thesis using Cons.prems alloc_loop_returns by blast
  next
    case False
    then have wait: "\<not> rg_shutdown (rw_ring w)" "alloc_reserve (rw_ring w) i n = None" by blast+
    obtain w1 where w1: "ring_step\<^sup>*\<^sup>* w w1" "rw_reset w1 = NoReset" "alloc_request (rw_ring w1) bytes d = Inr (i, n)"
      "alloc_loop (rw_ring w1) i n evs = Some (Inr (rg', res))"
    proof (cases ev)
      case (Released slots)
      then show thesis
        using that [OF release_steps [OF Cons.prems(2)]] Cons.prems alloc_loop_waits(1) [OF wait] by simp
    next
      case ShutDown
      then show thesis
        using that [OF r_into_rtranclp [of ring_step, OF ring_step.shutdown]] Cons.prems alloc_loop_waits(2) [OF wait]
          alloc_request_cong [of "ring_shutdown (rw_ring w)" "rw_ring w"] by (simp add: ring_shutdown_def)
    next
      case TimedOut
      then show thesis using Cons.prems alloc_loop_waits(3) [OF wait] by simp
    qed
    have "ring_inv w1" using ring_sys.steps_inv w1(1) Cons.prems(1) by blast
    from Cons.IH [OF this w1(2-4)] obtain w' where "ring_step\<^sup>*\<^sup>* w1 w'" "rw_ring w' = rg'"
      "rg_shutdown rg' \<and> ar_slot res = INVALID_SLOT \<or> hands_out w' i n res" by blast
    moreover from this(1) w1(1) have "ring_step\<^sup>*\<^sup>* w w'" by simp
    ultimately show ?thesis by blast
  qed
qed

section \<open>Properties\<close>

text \<open>A four-ring allocator with 4096 bytes per ring, and the runs used as examples.\<close>

definition sample_ring :: Ring where
  "sample_ring = (case ring_init empty_ring 4096 0 (replicate 4 (Some 65536)) of Inr rg \<Rightarrow> rg | Inl _ \<Rightarrow> empty_ring)"

definition sample_world :: ring_world where
  "sample_world = ring_at_rest sample_ring (replicate 4 [])"

lemma sample_start: "ring_start sample_world"
proof -
  have "ring_init empty_ring 4096 0 (replicate 4 (Some 65536)) = Inr sample_ring"
    by (simp add: sample_ring_def ring_init_def empty_ring_def MAX_RING_DEPTH_def numeral_eq_Suc)
  then show ?thesis
    unfolding ring_start_def sample_world_def MAX_RING_DEPTH_def
    by (metis length_replicate ring_world.select_convs)
qed

definition sample_two :: ring_world where
  "sample_two = (case world_alloc sample_world 1000 0 of
     Some w \<Rightarrow> (case world_alloc w 2048 0 of Some w' \<Rightarrow> w' | None \<Rightarrow> w) | None \<Rightarrow> sample_world)"

lemma sample_two_reachable: "reachable ring_start ring_step sample_two"
proof -
  have "ring_step\<^sup>*\<^sup>* sample_world sample_two"
    unfolding sample_two_def
    by (auto split: option.split intro: rtranclp_trans dest!: world_alloc_steps)
  then show ?thesis
    using reachable_steps [OF reachable_start [of ring_start, OF sample_start]] by blast
qed

lemma unreleased_slabs_apart:
  assumes "reachable ring_start ring_step w" "i < MAX_RING_DEPTH" "j < k" "k < length (rw_slabs w ! i)"
    and "hr_released (rg_rings (rw_ring w) ! i) ! j = 0"
  shows "snd (rw_slabs w ! i ! j) \<le> fst (rw_slabs w ! i ! k) \<or> snd (rw_slabs w ! i ! k) \<le> fst (rw_slabs w ! i ! j)"
proof -
  let ?r = "rg_rings (rw_ring w) ! i" and ?s = "rw_slabs w ! i"
  note inv = reachable_ring [OF assms(1,2)]
  let ?a = "hr_last_alive ?r" and ?L = "live_slabs ?r ?s"
  have "?a \<le> j" using unreleased_live [OF inv(1)] assms by simp
  then have jk: "?s ! j = ?L ! (j - ?a)" "?s ! k = ?L ! (k - ?a)" "k - ?a < length ?L" "j - ?a < k - ?a"
    using assms(3,4) by (simp_all add: live_slabs_def)
  have "laid_out ?L (unat (hr_tail ?r)) (unat (hr_top ?r)) (unat (hr_size ?r))" using inv(1) by (simp add: heap_inv_def)
  from laid_out_disjoint [OF this] show ?thesis
    using jk unfolding slabs_disjoint_def sorted_wrt_iff_nth_less by metis
qed

lemma unreleased_slab_bounds:
  assumes "reachable ring_start ring_step w" "i < MAX_RING_DEPTH" "k < length (rw_slabs w ! i)"
    and "hr_released (rg_rings (rw_ring w) ! i) ! k = 0"
  shows "fst (rw_slabs w ! i ! k) \<le> snd (rw_slabs w ! i ! k) \<and>
    snd (rw_slabs w ! i ! k) \<le> unat (hr_size (rg_rings (rw_ring w) ! i)) \<and> 1024 dvd fst (rw_slabs w ! i ! k)"
proof -
  let ?r = "rg_rings (rw_ring w) ! i" and ?s = "rw_slabs w ! i"
  note inv = reachable_ring [OF assms(1,2)]
  have lo: "laid_out (live_slabs ?r ?s) (unat (hr_tail ?r)) (unat (hr_top ?r)) (unat (hr_size ?r))"
    using inv(1) by (simp add: heap_inv_def)
  have a: "hr_last_alive ?r \<le> k" using unreleased_live [OF inv(1)] assms(3,4) by simp
  then have "live_slabs ?r ?s ! (k - hr_last_alive ?r) = ?s ! k" using assms(3) by (simp add: live_slabs_def)
  then have "?s ! k \<in> set (live_slabs ?r ?s)" using a assms(3) by (metis diff_less_mono length_drop live_slabs_def nth_mem)
  moreover have "?s ! k \<in> set ?s" using assms(3) by simp
  ultimately show ?thesis using laid_out_bounds [OF lo] inv(2) unfolding starts_aligned_def by metis
qed

text \<open>
  C3: the slabs of two tasks of one ring that are both unreleased never overlap, and each lies inside the ring's heap and
  starts on a 1024-byte boundary. This holds in every state that the critical sections of any number of allocations
  (two each), releases (two each) and shutdowns reach in any order, together with resets, whose sections interleave with
  those of releases in flight. As \<open>reset_to_empty\<close> requires of its callers, no allocation reserves during a reset and no release is
  in flight any more when it starts to rewind.
\<close>

theorem unreleased_slabs_disjoint:
  assumes "reachable ring_start ring_step w" "i < MAX_RING_DEPTH"
    and "j < k" "k < length (rw_slabs w ! i)"
    and "hr_released (rg_rings (rw_ring w) ! i) ! j = 0" "hr_released (rg_rings (rw_ring w) ! i) ! k = 0"
  shows "(snd (rw_slabs w ! i ! j) \<le> fst (rw_slabs w ! i ! k) \<or> snd (rw_slabs w ! i ! k) \<le> fst (rw_slabs w ! i ! j)) \<and>
    fst (rw_slabs w ! i ! j) \<le> snd (rw_slabs w ! i ! j) \<and> fst (rw_slabs w ! i ! k) \<le> snd (rw_slabs w ! i ! k) \<and>
    snd (rw_slabs w ! i ! j) \<le> unat (hr_size (rg_rings (rw_ring w) ! i)) \<and>
    snd (rw_slabs w ! i ! k) \<le> unat (hr_size (rg_rings (rw_ring w) ! i)) \<and>
    1024 dvd fst (rw_slabs w ! i ! j) \<and> 1024 dvd fst (rw_slabs w ! i ! k)"
  using unreleased_slabs_apart [OF assms(1-5)] unreleased_slab_bounds [OF assms(1,2,4,6)]
    unreleased_slab_bounds [OF assms(1,2) less_trans [OF assms(3,4)] assms(5)] by blast

theorem unreleased_slabs_disjoint_witness:
  "rw_slabs sample_two ! 0 = [(0, 1024), (1024, 3072)] \<and>
   snd (rw_slabs sample_two ! 0 ! 1) \<le> unat (hr_size (rg_rings (rw_ring sample_two) ! 0))"
proof -
  have s: "rw_slabs sample_two ! 0 = [(0, 1024), (1024, 3072)]"
    "hr_released (rg_rings (rw_ring sample_two) ! 0) = [0, 0]"
    by code_simp+
  then show ?thesis
    using unreleased_slabs_disjoint [OF sample_two_reachable, of 0 0 1] by (simp add: MAX_RING_DEPTH_def)
qed

text \<open>
  A reset relies on its caller: an allocation that reserves after the rings were checked and before they are rewound is
  forgotten, and the next allocation gets the same memory.
\<close>

lemma reset_needs_quiescence:
  "case alloc_reserve sample_ring 0 1024 of
     None \<Rightarrow> False
   | Some (rg, rv) \<Rightarrow>
       list_all drained (rg_rings sample_ring) \<and>
       (case alloc_park (fold reset_rewind [0, 1, 2, 3] (reset_slots rg)) rv of
          (rg1, res1) \<Rightarrow>
            (case ring_alloc rg1 1024 0 [] of
               Some (Inr (rg2, res2)) \<Rightarrow> ar_slot res1 \<noteq> ar_slot res2 \<and> ar_heap_ptr res1 = ar_heap_ptr res2
             | _ \<Rightarrow> False))"
  by code_simp

text \<open>
  C24: \<open>alloc\<close> hands out what was asked for. Whatever releases and shutdowns wake its waiting loop, if it returns then
  either the ring was shut down and the slot is the sentinel, or the allocator took steps to a state in which the slot returned
  is the newest one and owns the newest position of the ring of its scope; the slab there is at least as long as the request and
  less than 1024 bytes longer, lies inside the ring's heap, starts on a 1024-byte boundary, overlaps no slab of the ring that is not
  released, ends at the offset returned, and the pointer returned is the heap's base plus its begin. The request must be one
  that can be rounded up in 64 bits.
\<close>

theorem alloc_hands_out_slab:
  assumes "reachable ring_start ring_step w" "rw_reset w = NoReset" "unat bytes + 1023 < 2 ^ 64"
    and "ring_alloc (rw_ring w) bytes d events = Some (Inr (rg', res))"
  shows "rg_shutdown rg' \<and> ar_slot res = INVALID_SLOT \<or>
    (\<exists>w' b e k i. ring_step\<^sup>*\<^sup>* w w' \<and> rw_ring w' = rg' \<and> i = ring_idx_for_scope d \<and> length (rw_slabs w' ! i) = Suc k \<and>
      ar_ring_idx res = i \<and> ar_slot res = int (length (rg_slot_states rg')) - 1 \<and>
      rg_slot_states rg' \<noteq> [] \<and> last (rg_slot_states rg') = \<lparr>rs_ring_idx = i, rs_ring_slot_idx = int k\<rparr> \<and>
      rw_slabs w' ! i ! k = (b, e) \<and> b + unat bytes \<le> e \<and> e < b + unat bytes + 1024 \<and> 1024 dvd b \<and>
      e \<le> unat (hr_size (rg_rings rg' ! i)) \<and> e = unat (ar_heap_end_offset res) \<and>
      ar_heap_ptr res = (if bytes = 0 then None else Some (hr_base (rg_rings rg' ! i) + of_nat b)) \<and>
      (\<forall>j < k. hr_released (rg_rings rg' ! i) ! j = 0 \<longrightarrow> snd (rw_slabs w' ! i ! j) \<le> b \<or> e \<le> fst (rw_slabs w' ! i ! j)))"
proof -
  obtain i n where req: "alloc_request (rw_ring w) bytes d = Inr (i, n)"
    and loop: "alloc_loop (rw_ring w) i n events = Some (Inr (rg', res))"
    using assms(4) by (auto simp: ring_alloc_def split: sum.splits)
  have "n = (if bytes > 0 then align_up bytes HEAP_ALIGN else 0)" and i: "i = ring_idx_for_scope d"
    using req by (auto simp: alloc_request_def Let_def split: if_splits)
  then have n: "unat bytes \<le> unat n \<and> unat n < unat bytes + 1024" and n0: "n = 0 \<longleftrightarrow> bytes = 0"
    using assms(3) unat_align_up [of bytes] by (auto simp: word_gt_0 unat_eq_0 [symmetric])
  from alloc_loop_steps [OF ring_sys.reachable_inv [OF assms(1)] assms(2) req loop]
  obtain w' where w': "ring_step\<^sup>*\<^sup>* w w'" "rw_ring w' = rg'"
    and cases: "rg_shutdown rg' \<and> ar_slot res = INVALID_SLOT \<or> hands_out w' i n res" by blast
  show ?thesis
  proof (cases "rg_shutdown rg' \<and> ar_slot res = INVALID_SLOT")
    case False
    let ?k = "length (rw_slabs w' ! i) - 1" and ?e = "unat (ar_heap_end_offset res)"
    have h: "hands_out w' i n res" and r: "reachable ring_start ring_step w'" using False cases reachable_steps [OF assms(1) w'(1)] by blast+
    then have k: "?k < length (rw_slabs w' ! i)" "i < MAX_RING_DEPTH" "hr_released (rg_rings (rw_ring w') ! i) ! ?k = 0"
      and s: "rw_slabs w' ! i ! ?k = (?e - unat n, ?e)" "unat n \<le> ?e" by (simp_all add: hands_out_def Let_def)
    have apart: "snd (rw_slabs w' ! i ! j) \<le> ?e - unat n \<or> ?e \<le> fst (rw_slabs w' ! i ! j)"
      if "j < ?k" "hr_released (rg_rings rg' ! i) ! j = 0" for j
      using unreleased_slabs_apart [OF r k(2) that(1) k(1)] that(2) s(1) w'(2) by simp
    have p: "ar_ring_idx res = i" "ar_slot res = int (length (rg_slot_states rg')) - 1" "rg_slot_states rg' \<noteq> []"
      "last (rg_slot_states rg') = \<lparr>rs_ring_idx = i, rs_ring_slot_idx = int ?k\<rparr>" "length (rw_slabs w' ! i) = Suc ?k"
      "ar_heap_ptr res = (if bytes = 0 then None else Some (hr_base (rg_rings rg' ! i) + of_nat (?e - unat n)))"
      using h w'(2) k(1) n0 by (simp_all add: hands_out_def Let_def of_nat_diff Suc_le_eq)
    have q: "?e - unat n + unat bytes \<le> ?e" "?e < ?e - unat n + unat bytes + 1024" using n s(2) by linarith+
    have "1024 dvd ?e - unat n" "?e \<le> unat (hr_size (rg_rings rg' ! i))"
      using unreleased_slab_bounds [OF r k(2,1,3)] s(1) w'(2) by simp_all
    with w' i p s(1) q apart show ?thesis by metis
  qed blast
qed

definition sample_result :: "(exn + Ring \<times> AllocResult) option" where
  "sample_result = ring_alloc (rw_ring sample_two) 1500 0 [Released [0], Released [1]]"

theorem alloc_hands_out_slab_witness:
  "\<exists>rg' res w'. sample_result = Some (Inr (rg', res)) \<and> ar_slot res = 2 \<and> ring_step\<^sup>*\<^sup>* sample_two w' \<and> rw_ring w' = rg' \<and>
     (case rw_slabs w' ! 0 ! 2 of (b, e) \<Rightarrow> b + 1500 \<le> e \<and> e < b + 2524)"
proof -
  have "case sample_result of Some (Inr (rg', res)) \<Rightarrow> ar_slot res = 2 \<and> \<not> rg_shutdown rg' \<and>
      last (rg_slot_states rg') = \<lparr>rs_ring_idx = 0, rs_ring_slot_idx = 2\<rparr> | _ \<Rightarrow> False"
    by code_simp
  then obtain rg' res where r: "sample_result = Some (Inr (rg', res))" "ar_slot res = 2" "\<not> rg_shutdown rg'"
    "last (rg_slot_states rg') = \<lparr>rs_ring_idx = 0, rs_ring_slot_idx = 2\<rparr>"
    by (auto split: option.splits sum.splits)
  have b: "unat (1500 :: u64) + 1023 < 2 ^ 64" and n: "rw_reset sample_two = NoReset" by (simp, code_simp)
  from alloc_hands_out_slab [OF sample_two_reachable n b r(1) [unfolded sample_result_def]] r(3)
  obtain w' b e k i where "ring_step\<^sup>*\<^sup>* sample_two w'" "rw_ring w' = rg'" "last (rg_slot_states rg') = \<lparr>rs_ring_idx = i, rs_ring_slot_idx = int k\<rparr>"
    "rw_slabs w' ! i ! k = (b, e)" "b + 1500 \<le> e" "e < b + 1500 + 1024" by auto
  then have "ring_step\<^sup>*\<^sup>* sample_two w' \<and> rw_ring w' = rg' \<and> (case rw_slabs w' ! 0 ! 2 of (b, e) \<Rightarrow> b + 1500 \<le> e \<and> e < b + 2524)"
    using r(4) by simp
  with r(1,2) show ?thesis by (intro exI [of _ rg'] exI [of _ res] exI [of _ w']) simp
qed

text \<open>
  C25: the FIFO frontier. In every reachable state the slots a ring has reclaimed are exactly the longest
  prefix of released ones, so a slab is reused only after every older task of its ring was released.
\<close>

theorem frontier_is_longest_released_prefix:
  assumes "reachable ring_start ring_step w" "i < MAX_RING_DEPTH"
  shows "hr_last_alive (rg_rings (rw_ring w) ! i) =
    length (takeWhile (\<lambda>x. x = 1) (hr_released (rg_rings (rw_ring w) ! i)))"
  using reachable_ring(1) [OF assms] by (rule heap_inv_frontier)

theorem frontier_is_longest_released_prefix_witness:
  "hr_last_alive (rg_rings (rw_ring sample_two) ! 0) = 0"
proof -
  have "hr_released (rg_rings (rw_ring sample_two) ! 0) = [0, 0]" by code_simp
  then show ?thesis
    using frontier_is_longest_released_prefix [OF sample_two_reachable, of 0] by (simp add: MAX_RING_DEPTH_def)
qed

text \<open>
  Counting: \<open>active_count\<close> plus the allocations still between their two critical sections counts the live
  slabs of all rings, and \<open>reset_to_empty\<close> succeeds exactly when both are zero: a reset can never
  discard a slot that an allocation in progress is about to publish.
\<close>

theorem reset_iff_nothing_live:
  assumes "reachable ring_start ring_step w" "rw_reset w = NoReset"
  shows "active_count (rw_ring w) + int (length (rw_pending w)) = live_count w \<and>
    ((\<exists>rg'. reset_to_empty (rw_ring w) = Inr rg') \<longleftrightarrow> live_count w = 0)"
proof -
  have inv: "ring_inv w" using ring_sys.reachable_inv [OF assms(1)] .
  then show ?thesis
    using inv_active_count [OF inv assms(2)] all_drained_iff [of "rg_rings (rw_ring w)" "rw_slabs w"]
    by (auto simp: reset_drained live_count_def ring_inv_def)
qed

theorem reset_iff_nothing_live_witness:
  "active_count (rw_ring sample_two) = 2 \<and> \<not> (\<exists>rg'. reset_to_empty (rw_ring sample_two) = Inr rg')"
proof -
  have "active_count (rw_ring sample_two) = 2" "rw_pending sample_two = []" "rw_reset sample_two = NoReset" by code_simp+
  then show ?thesis using reset_iff_nothing_live [OF sample_two_reachable] by auto
qed

text \<open>Releasing a slot twice is releasing it once, for every slot number, valid or not.\<close>

theorem release_idempotent: "ring_release (ring_release rg slot) slot = ring_release rg slot"
  by (rule ring_release_idem)

text \<open>
  A ring on which nothing is live does not serve every request that fits its heap: it serves one
  exactly when it fits behind the top or strictly below it, because the cursor is only rewound by
  \<open>reset_to_empty\<close>.
\<close>

theorem drained_ring_serves_iff:
  assumes "reachable ring_start ring_step w" "i < MAX_RING_DEPTH" "n \<noteq> 0"
    and "hr_last_alive (rg_rings (rw_ring w) ! i) = length (hr_released (rg_rings (rw_ring w) ! i))"
  shows "alloc_reserve (rw_ring w) i n \<noteq> None \<longleftrightarrow>
    unat n \<le> unat (hr_size (rg_rings (rw_ring w) ! i)) - unat (hr_top (rg_rings (rw_ring w) ! i)) \<or>
    unat n < unat (hr_top (rg_rings (rw_ring w) ! i))"
  using drained_carve [OF reachable_ring(1) [OF assms(1,2)] _ assms(3)] assms(4)
  by (auto simp: drained_def alloc_reserve_def Let_def split: option.splits)

definition sample_drained :: ring_world where
  "sample_drained = (case world_alloc sample_world 2048 0 of
     Some w \<Rightarrow> w\<lparr>rw_ring := ring_release (rw_ring w) 0\<rparr> | None \<Rightarrow> sample_world)"

lemma sample_drained_reachable: "reachable ring_start ring_step sample_drained"
proof -
  have "ring_step\<^sup>*\<^sup>* sample_world (w\<lparr>rw_ring := ring_release (rw_ring w) 0\<rparr>)" if w: "world_alloc sample_world 2048 0 = Some w" for w
  proof -
    have "rw_reset w = NoReset" using w by (auto simp: world_alloc_def split: sum.splits option.splits if_splits)
    from rtranclp_trans [OF world_alloc_steps [OF w] release_step [OF this]] show ?thesis .
  qed
  then have "ring_step\<^sup>*\<^sup>* sample_world sample_drained" unfolding sample_drained_def by (simp split: option.split)
  then show ?thesis
    using reachable_steps [OF reachable_start [of ring_start, OF sample_start]] by blast
qed

theorem drained_ring_serves_iff_witness:
  "active_count (rw_ring sample_drained) = 0 \<and> alloc_reserve (rw_ring sample_drained) 0 3072 = None"
proof -
  have "hr_last_alive (rg_rings (rw_ring sample_drained) ! 0) = length (hr_released (rg_rings (rw_ring sample_drained) ! 0))"
    "unat (hr_size (rg_rings (rw_ring sample_drained) ! 0)) = 4096"
    "unat (hr_top (rg_rings (rw_ring sample_drained) ! 0)) = 2048"
    "active_count (rw_ring sample_drained) = 0"
    by code_simp+
  then show ?thesis
    using drained_ring_serves_iff [OF sample_drained_reachable, of 0 3072]
    by (simp add: MAX_RING_DEPTH_def del: not_None_eq)
qed

text \<open>
  C32: and so an empty allocator can time out. With 4096-byte rings, after one 2048-byte task was allocated
  and released, \<open>alloc\<close> of 3072 bytes waits for its deadline and throws, although nothing is live and
  the request fits.
\<close>

theorem empty_ring_times_out:
  "reachable ring_start ring_step sample_drained \<and> active_count (rw_ring sample_drained) = 0 \<and>
   alloc_request (rw_ring sample_drained) 3072 0 = Inr (0, 3072) \<and>
   ring_alloc (rw_ring sample_drained) 3072 0 [TimedOut] =
     Some (Inl (RuntimeError ''Ring: per-ring heap exhausted (timed out waiting). Increase heap_ring_size on Worker.''))"
proof (intro conjI sample_drained_reachable)
  show "active_count (rw_ring sample_drained) = 0" by code_simp
  show req: "alloc_request (rw_ring sample_drained) 3072 0 = Inr (0, 3072)" by code_simp
  have "alloc_reserve (rw_ring sample_drained) 0 3072 = None" "\<not> rg_shutdown (rw_ring sample_drained)"
    by code_simp+
  with req show "ring_alloc (rw_ring sample_drained) 3072 0 [TimedOut] =
     Some (Inl (RuntimeError ''Ring: per-ring heap exhausted (timed out waiting). Increase heap_ring_size on Worker.''))"
    by (simp add: ring_alloc_def alloc_loop_waits(3))
qed

text \<open>
  C33: rounding wraps. On a ring with a heap a request of more than 2^64 - 1024 bytes is rounded to zero. It is not refused as
  too large: \<open>alloc\<close> returns at once with a new slot and a null pointer, and takes nothing from the heap.
\<close>

theorem huge_request_becomes_slot_only:
  assumes "2 ^ 64 \<le> unat bytes + 1023" "hr_size (rg_rings rg ! ring_idx_for_scope d) \<noteq> 0" "\<not> rg_shutdown rg"
  shows "\<exists>rg' res. ring_alloc rg bytes d events = Some (Inr (rg', res)) \<and> ar_slot res = rg_next_task_id rg \<and> ar_heap_ptr res = None \<and>
    map hr_top (rg_rings rg') = map hr_top (rg_rings rg)"
proof -
  let ?i = "ring_idx_for_scope d" and ?e = "hr_top (rg_rings rg ! ring_idx_for_scope d)"
  have "unat bytes + 1023 - 18446744073709551616 < 1024" using unat_u64_bound [of bytes] by linarith
  then have "unat (align_up bytes HEAP_ALIGN) = 0"
    using assms(1) unat_align_up [of bytes] by simp
  then have "align_up bytes HEAP_ALIGN = 0" by (simp add: unat_eq_0)
  then have req: "alloc_request rg bytes d = Inr (?i, 0)" using assms(2) by (simp add: alloc_request_def Let_def)
  have "map hr_top ((rg_rings rg)[?i := push_slot (rg_rings rg ! ?i) ?e]) = (map hr_top (rg_rings rg))[?i := hr_top (rg_rings rg ! ?i)]"
    by (simp add: map_update push_slot_def)
  also have "\<dots> = map hr_top (rg_rings rg)" by (cases "?i < length (rg_rings rg)") (simp_all add: list_update_beyond list_update_same_conv)
  finally show ?thesis
    using req assms(3) by (simp add: ring_alloc_def alloc_loop.simps [of rg] alloc_reserve_def carve_def alloc_park_def Let_def)
qed

theorem huge_request_becomes_slot_only_witness:
  "\<exists>rg' res. ring_alloc sample_ring UINT64_MAX 0 [] = Some (Inr (rg', res)) \<and> ar_slot res = 0 \<and> ar_heap_ptr res = None"
proof -
  have "hr_size (rg_rings sample_ring ! ring_idx_for_scope 0) \<noteq> 0" "\<not> rg_shutdown sample_ring" "rg_next_task_id sample_ring = 0" by code_simp+
  with huge_request_becomes_slot_only [of UINT64_MAX sample_ring 0 "[]"] show ?thesis by auto
qed

end
