(* ===== verification/Ready_Queue.thy ===== *)
theory Ready_Queue
  imports Prelude
begin

text \<open>
  The ready queues of \<open>common/hierarchical/types.h\<close> and \<open>types.cpp\<close>: \<open>ReadyQueue\<close>, one FIFO per run
  plus the order in which the runs became non-empty, and \<open>NextLevelReadyQueues\<close>, one such queue per
  NEXT_LEVEL worker and one for groups.

  The contract the scheduler relies on is the locale \<open>run_fifo\<close>: per run, what is popped is what was
  pushed, in order and once. It is interpreted on \<open>ReadyQueue\<close> under the invariant that ties the order
  list to the hash table, which also excludes the "corrupt run order" exception.
\<close>

section \<open>ReadyQueue\<close>

record ReadyQueue =
  rq_queues :: "(RunId \<times> TaskSlot list) list"
  rq_run_order :: "RunId list"

definition empty_queue :: ReadyQueue where
  "empty_queue = \<lparr>rq_queues = [], rq_run_order = []\<rparr>"

definition rq_push :: "ReadyQueue \<Rightarrow> RunId \<Rightarrow> TaskSlot \<Rightarrow> ReadyQueue" where
  "rq_push q run_id slot =
     (case map_of (rq_queues q) run_id of
        None \<Rightarrow> \<lparr>rq_queues = AList.update run_id [slot] (rq_queues q), rq_run_order = rq_run_order q @ [run_id]\<rparr>
      | Some slots \<Rightarrow> q\<lparr>rq_queues := AList.update run_id (slots @ [slot]) (rq_queues q)\<rparr>)"

definition rq_push_any :: "ReadyQueue \<Rightarrow> TaskSlot \<Rightarrow> ReadyQueue" where
  "rq_push_any q slot = rq_push q INVALID_RUN_ID slot"

text \<open>The unfiltered pop takes from the oldest run; \<open>None\<close> is the result \<open>false\<close>.\<close>

definition rq_try_pop_any :: "ReadyQueue \<Rightarrow> exn + (ReadyQueue \<times> TaskSlot) option" where
  "rq_try_pop_any q =
     (case rq_run_order q of
        [] \<Rightarrow> Inr None
      | run_id # order \<Rightarrow>
          (case map_of (rq_queues q) run_id of
             None \<Rightarrow> Inl (LogicError ''ReadyQueue: corrupt run order'')
           | Some [] \<Rightarrow> Inl (LogicError ''ReadyQueue: corrupt run order'')
           | Some (slot # slots) \<Rightarrow>
               Inr (Some (if slots = [] then \<lparr>rq_queues = AList.delete run_id (rq_queues q), rq_run_order = order\<rparr>
                          else q\<lparr>rq_queues := AList.update run_id slots (rq_queues q)\<rparr>, slot))))"

definition rq_try_pop :: "ReadyQueue \<Rightarrow> RunId \<Rightarrow> (ReadyQueue \<times> TaskSlot) option" where
  "rq_try_pop q run_id =
     (case map_of (rq_queues q) run_id of
        None \<Rightarrow> None
      | Some [] \<Rightarrow> None
      | Some (slot # slots) \<Rightarrow>
          Some (if slots = []
                then \<lparr>rq_queues = AList.delete run_id (rq_queues q), rq_run_order = remove1 run_id (rq_run_order q)\<rparr>
                else q\<lparr>rq_queues := AList.update run_id slots (rq_queues q)\<rparr>, slot))"

definition rq_empty_any :: "ReadyQueue \<Rightarrow> bool" where
  "rq_empty_any q \<longleftrightarrow> rq_run_order q = []"

definition rq_empty :: "ReadyQueue \<Rightarrow> RunId \<Rightarrow> bool" where
  "rq_empty q run_id \<longleftrightarrow> (case map_of (rq_queues q) run_id of None \<Rightarrow> True | Some slots \<Rightarrow> slots = [])"

definition rq_try_front_any :: "ReadyQueue \<Rightarrow> exn + TaskSlot option" where
  "rq_try_front_any q =
     (case rq_run_order q of
        [] \<Rightarrow> Inr None
      | run_id # _ \<Rightarrow>
          (case map_of (rq_queues q) run_id of
             Some (slot # _) \<Rightarrow> Inr (Some slot)
           | _ \<Rightarrow> Inl (LogicError ''ReadyQueue: corrupt run order'')))"

definition rq_try_front :: "ReadyQueue \<Rightarrow> RunId \<Rightarrow> TaskSlot option" where
  "rq_try_front q run_id = (case map_of (rq_queues q) run_id of Some (slot # _) \<Rightarrow> Some slot | _ \<Rightarrow> None)"

definition rq_erase_run :: "ReadyQueue \<Rightarrow> RunId \<Rightarrow> ReadyQueue" where
  "rq_erase_run q run_id =
     \<lparr>rq_queues = AList.delete run_id (rq_queues q), rq_run_order = remove1 run_id (rq_run_order q)\<rparr>"

section \<open>NextLevelReadyQueues\<close>

record NextLevelReadyQueues =
  nl_worker_ids :: "WorkerId list"
  nl_queues :: "ReadyQueue list"
  nl_group_queue :: ReadyQueue

fun nl_reset_loop :: "WorkerId list \<Rightarrow> WorkerId list \<Rightarrow> exn + WorkerId list" where
  "nl_reset_loop seen [] = Inr seen"
| "nl_reset_loop seen (w # ws) =
     reject_if (w < 0) ''NextLevelReadyQueues::reset: negative worker id''
     (reject_if (w \<in> set seen) ''NextLevelReadyQueues::reset: duplicate worker id'' (nl_reset_loop (seen @ [w]) ws))"

definition nl_reset :: "NextLevelReadyQueues \<Rightarrow> WorkerId list \<Rightarrow> exn + NextLevelReadyQueues" where
  "nl_reset n worker_ids =
     (case nl_reset_loop [] worker_ids of
        Inl e \<Rightarrow> Inl e
      | Inr ids \<Rightarrow> Inr (n\<lparr>nl_worker_ids := ids, nl_queues := replicate (length ids) empty_queue\<rparr>))"

fun find_index :: "WorkerId list \<Rightarrow> WorkerId \<Rightarrow> nat option" where
  "find_index [] w = None"
| "find_index (x # xs) w = (if x = w then Some 0 else map_option Suc (find_index xs w))"

definition index_for :: "NextLevelReadyQueues \<Rightarrow> WorkerId \<Rightarrow> exn + nat" where
  "index_for n worker_id =
     (case find_index (nl_worker_ids n) worker_id of
        None \<Rightarrow> Inl (OutOfRange ''NextLevelReadyQueues: unknown worker id'')
      | Some i \<Rightarrow> Inr i)"

text \<open>The vectors have one length; an index behind the end stands for no queue.\<close>

definition queue_at :: "NextLevelReadyQueues \<Rightarrow> nat \<Rightarrow> ReadyQueue" where
  "queue_at n i = (if i < length (nl_queues n) then nl_queues n ! i else empty_queue)"

definition push_single :: "NextLevelReadyQueues \<Rightarrow> WorkerId \<Rightarrow> RunId \<Rightarrow> TaskSlot \<Rightarrow> exn + NextLevelReadyQueues" where
  "push_single n worker_id run_id slot =
     (case index_for n worker_id of
        Inl e \<Rightarrow> Inl e
      | Inr i \<Rightarrow> Inr (n\<lparr>nl_queues := (nl_queues n)[i := rq_push (queue_at n i) run_id slot]\<rparr>))"

definition try_front_single :: "NextLevelReadyQueues \<Rightarrow> WorkerId \<Rightarrow> RunId \<Rightarrow> exn + TaskSlot option" where
  "try_front_single n worker_id run_id =
     (case index_for n worker_id of Inl e \<Rightarrow> Inl e | Inr i \<Rightarrow> Inr (rq_try_front (queue_at n i) run_id))"

definition try_pop_single ::
  "NextLevelReadyQueues \<Rightarrow> WorkerId \<Rightarrow> RunId \<Rightarrow> exn + (NextLevelReadyQueues \<times> TaskSlot) option" where
  "try_pop_single n worker_id run_id =
     (case index_for n worker_id of
        Inl e \<Rightarrow> Inl e
      | Inr i \<Rightarrow>
          (case rq_try_pop (queue_at n i) run_id of
             None \<Rightarrow> Inr None
           | Some (q, slot) \<Rightarrow> Inr (Some (n\<lparr>nl_queues := (nl_queues n)[i := q]\<rparr>, slot))))"

definition push_group :: "NextLevelReadyQueues \<Rightarrow> RunId \<Rightarrow> TaskSlot \<Rightarrow> NextLevelReadyQueues" where
  "push_group n run_id slot = n\<lparr>nl_group_queue := rq_push (nl_group_queue n) run_id slot\<rparr>"

definition try_front_group :: "NextLevelReadyQueues \<Rightarrow> RunId \<Rightarrow> TaskSlot option" where
  "try_front_group n run_id = rq_try_front (nl_group_queue n) run_id"

definition try_pop_group :: "NextLevelReadyQueues \<Rightarrow> RunId \<Rightarrow> (NextLevelReadyQueues \<times> TaskSlot) option" where
  "try_pop_group n run_id =
     (case rq_try_pop (nl_group_queue n) run_id of
        None \<Rightarrow> None
      | Some (q, slot) \<Rightarrow> Some (n\<lparr>nl_group_queue := q\<rparr>, slot))"

definition groups_empty :: "NextLevelReadyQueues \<Rightarrow> RunId \<Rightarrow> bool" where
  "groups_empty n run_id = rq_empty (nl_group_queue n) run_id"

definition single_empty :: "NextLevelReadyQueues \<Rightarrow> WorkerId \<Rightarrow> RunId \<Rightarrow> exn + bool" where
  "single_empty n worker_id run_id =
     (case index_for n worker_id of Inl e \<Rightarrow> Inl e | Inr i \<Rightarrow> Inr (rq_empty (queue_at n i) run_id))"

definition singles_empty :: "NextLevelReadyQueues \<Rightarrow> RunId \<Rightarrow> bool" where
  "singles_empty n run_id = list_all (\<lambda>q. rq_empty q run_id) (nl_queues n)"

definition nl_erase_run :: "NextLevelReadyQueues \<Rightarrow> RunId \<Rightarrow> NextLevelReadyQueues" where
  "nl_erase_run n run_id =
     n\<lparr>nl_group_queue := rq_erase_run (nl_group_queue n) run_id,
       nl_queues := map (\<lambda>q. rq_erase_run q run_id) (nl_queues n)\<rparr>"

section \<open>The contract: one FIFO per run\<close>

datatype ('r, 's) fifo_op = Push 'r 's | Pop 'r | Erase 'r

text \<open>A sequence of operations on a queue, with the log of what the pops returned.\<close>

fun fifo_exec ::
  "('q \<Rightarrow> 'r \<Rightarrow> 's \<Rightarrow> 'q) \<Rightarrow> ('q \<Rightarrow> 'r \<Rightarrow> ('q \<times> 's) option) \<Rightarrow> ('q \<Rightarrow> 'r \<Rightarrow> 'q) \<Rightarrow>
   ('r, 's) fifo_op list \<Rightarrow> 'q \<times> ('r \<times> 's) list \<Rightarrow> 'q \<times> ('r \<times> 's) list" where
  "fifo_exec push pop erase [] st = st"
| "fifo_exec push pop erase (Push r s # ops) (q, log) = fifo_exec push pop erase ops (push q r s, log)"
| "fifo_exec push pop erase (Pop r # ops) (q, log) =
     fifo_exec push pop erase ops (case pop q r of None \<Rightarrow> (q, log) | Some (q', s) \<Rightarrow> (q', log @ [(r, s)]))"
| "fifo_exec push pop erase (Erase r # ops) (q, log) = fifo_exec push pop erase ops (erase q r, log)"

text \<open>The abstract queue of one run: its waiting slots and the slots popped so far.\<close>

fun fifo_spec :: "'r \<Rightarrow> ('r, 's) fifo_op list \<Rightarrow> 's list \<times> 's list \<Rightarrow> 's list \<times> 's list" where
  "fifo_spec r [] st = st"
| "fifo_spec r (Push r' s # ops) (xs, out) = fifo_spec r ops (if r' = r then xs @ [s] else xs, out)"
| "fifo_spec r (Pop r' # ops) (xs, out) =
     fifo_spec r ops (if r' = r then (case xs of [] \<Rightarrow> ([], out) | x # xs' \<Rightarrow> (xs', out @ [x])) else (xs, out))"
| "fifo_spec r (Erase r' # ops) (xs, out) = fifo_spec r ops (if r' = r then [] else xs, out)"

fun pushed :: "'r \<Rightarrow> ('r, 's) fifo_op list \<Rightarrow> 's list" where
  "pushed r [] = []"
| "pushed r (Push r' s # ops) = (if r' = r then s # pushed r ops else pushed r ops)"
| "pushed r (_ # ops) = pushed r ops"

definition popped :: "'r \<Rightarrow> ('r \<times> 's) list \<Rightarrow> 's list" where
  "popped r log = map snd (filter (\<lambda>p. fst p = r) log)"

lemma fifo_spec_conserves:
  "Erase r \<notin> set ops \<Longrightarrow> fifo_spec r ops (xs, out) = (ys, out') \<Longrightarrow> out @ xs @ pushed r ops = out' @ ys"
proof (induction r ops "(xs, out)" arbitrary: xs out rule: fifo_spec.induct)
  case (3 r r' ops xs out)
  then show ?case by (cases xs) (auto split: if_splits)
qed (auto split: if_splits)

locale run_fifo =
  fixes contents :: "'q \<Rightarrow> 'r \<Rightarrow> 's list"
    and push :: "'q \<Rightarrow> 'r \<Rightarrow> 's \<Rightarrow> 'q"
    and pop :: "'q \<Rightarrow> 'r \<Rightarrow> ('q \<times> 's) option"
    and erase :: "'q \<Rightarrow> 'r \<Rightarrow> 'q"
    and inv :: "'q \<Rightarrow> bool"
  assumes inv_push: "inv q \<Longrightarrow> inv (push q r s)"
    and inv_pop: "inv q \<Longrightarrow> pop q r = Some (q', s) \<Longrightarrow> inv q'"
    and inv_erase: "inv q \<Longrightarrow> inv (erase q r)"
    and contents_push: "inv q \<Longrightarrow> contents (push q r s) r' = (if r' = r then contents q r @ [s] else contents q r')"
    and pop_None: "inv q \<Longrightarrow> pop q r = None \<longleftrightarrow> contents q r = []"
    and pop_Some: "inv q \<Longrightarrow> pop q r = Some (q', s) \<Longrightarrow> contents q r = s # contents q' r"
    and pop_other: "inv q \<Longrightarrow> pop q r = Some (q', s) \<Longrightarrow> r' \<noteq> r \<Longrightarrow> contents q' r' = contents q r'"
    and contents_erase: "inv q \<Longrightarrow> contents (erase q r) r' = (if r' = r then [] else contents q r')"
begin

lemma exec_refines:
  "inv q \<Longrightarrow> fifo_exec push pop erase ops (q, log) = (q', log') \<Longrightarrow>
   inv q' \<and> fifo_spec r ops (contents q r, popped r log) = (contents q' r, popped r log')"
proof (induction ops arbitrary: q log)
  case (Cons op ops)
  show ?case
  proof (cases op)
    case (Push r' s)
    then show ?thesis
      using Cons.IH [of "push q r' s" log] Cons.prems by (auto simp: inv_push contents_push)
  next
    case (Erase r')
    then show ?thesis
      using Cons.IH [of "erase q r'" log] Cons.prems by (auto simp: inv_erase contents_erase)
  next
    case (Pop r')
    show ?thesis
    proof (cases "pop q r'")
      case None
      then have "contents q r' = []" using Cons.prems(1) pop_None by blast
      then show ?thesis using Cons.IH [of q log] Cons.prems Pop None by auto
    next
      case (Some p)
      then obtain q1 s where p: "pop q r' = Some (q1, s)" by (cases p) simp
      have "inv q1" using inv_pop [OF Cons.prems(1) p] .
      moreover have "fifo_exec push pop erase ops (q1, log @ [(r', s)]) = (q', log')" using Cons.prems(2) Pop p by simp
      ultimately have "inv q' \<and> fifo_spec r ops (contents q1 r, popped r (log @ [(r', s)])) = (contents q' r, popped r log')"
        by (rule Cons.IH)
      then show ?thesis
        using Pop pop_Some [OF Cons.prems(1) p] pop_other [OF Cons.prems(1) p, of r] by (auto simp: popped_def)
    qed
  qed
qed auto

end

section \<open>ReadyQueue meets the contract\<close>

definition rq_contents :: "ReadyQueue \<Rightarrow> RunId \<Rightarrow> TaskSlot list" where
  "rq_contents q run_id = (case map_of (rq_queues q) run_id of None \<Rightarrow> [] | Some slots \<Rightarrow> slots)"

definition rq_inv :: "ReadyQueue \<Rightarrow> bool" where
  "rq_inv q \<longleftrightarrow> distinct (rq_run_order q) \<and> (\<forall>r. r \<in> set (rq_run_order q) \<longleftrightarrow> map_of (rq_queues q) r \<noteq> None) \<and>
     (\<forall>r. map_of (rq_queues q) r \<noteq> Some [])"

lemma rq_inv_empty: "rq_inv empty_queue"
  by (simp add: rq_inv_def empty_queue_def)

lemma rq_inv_push: "rq_inv q \<Longrightarrow> rq_inv (rq_push q r s)"
  by (auto simp: rq_inv_def rq_push_def update_conv split: option.splits)

lemma rq_inv_erase: "rq_inv q \<Longrightarrow> rq_inv (rq_erase_run q r)"
  by (auto simp: rq_inv_def rq_erase_run_def delete_conv)

lemma rq_inv_pop: "rq_inv q \<Longrightarrow> rq_try_pop q r = Some (q', s) \<Longrightarrow> rq_inv q'"
  by (auto simp: rq_inv_def rq_try_pop_def delete_conv update_conv split: option.splits list.splits if_splits)

interpretation rq: run_fifo rq_contents rq_push rq_try_pop rq_erase_run rq_inv
proof unfold_locales
  fix q r q' s
  assume "rq_inv q" "rq_try_pop q r = Some (q', s)"
  then show "rq_contents q r = s # rq_contents q' r"
    by (auto simp: rq_try_pop_def rq_contents_def delete_conv update_conv split: option.splits list.splits if_splits)
next
  fix q r q' s r'
  assume "rq_inv q" "rq_try_pop q r = Some (q', s)" "r' \<noteq> r"
  then show "rq_contents q' r' = rq_contents q r'"
    by (auto simp: rq_try_pop_def rq_contents_def delete_conv update_conv split: option.splits list.splits if_splits)
next
  fix q r
  assume "rq_inv q"
  then show "rq_try_pop q r = None \<longleftrightarrow> rq_contents q r = []"
    by (auto simp: rq_try_pop_def rq_contents_def split: option.splits list.splits)
qed (fact rq_inv_push rq_inv_pop rq_inv_erase
    | simp add: rq_push_def rq_erase_run_def rq_contents_def delete_conv update_conv split: option.splits)+

text \<open>The unfiltered pop is the pop of the oldest waiting run.\<close>

lemma pop_any_oldest:
  assumes "rq_inv q"
  shows "rq_try_pop_any q = Inr (case rq_run_order q of [] \<Rightarrow> None | r # _ \<Rightarrow> rq_try_pop q r)"
proof (cases "rq_run_order q")
  case Nil
  then show ?thesis by (simp add: rq_try_pop_any_def)
next
  case (Cons r rs)
  then obtain s ss where "map_of (rq_queues q) r = Some (s # ss)"
    using assms by (auto simp: rq_inv_def) (metis list.set_intros(1) list.exhaust)
  then show ?thesis using Cons by (simp add: rq_try_pop_any_def rq_try_pop_def)
qed

section \<open>Worker routing\<close>

definition nl_inv :: "NextLevelReadyQueues \<Rightarrow> bool" where
  "nl_inv n \<longleftrightarrow> length (nl_queues n) = length (nl_worker_ids n) \<and> distinct (nl_worker_ids n) \<and>
     list_all (\<lambda>w. 0 \<le> w) (nl_worker_ids n) \<and> list_all rq_inv (nl_queues n) \<and> rq_inv (nl_group_queue n)"

lemma find_index_Some: "find_index ws w = Some i \<Longrightarrow> i < length ws \<and> ws ! i = w"
  by (induction ws w arbitrary: i rule: find_index.induct) (auto split: if_splits)

lemma find_index_None: "find_index ws w = None \<longleftrightarrow> w \<notin> set ws"
  by (induction ws w rule: find_index.induct) auto

lemma nl_reset_loop_ok:
  "nl_reset_loop seen ws = Inr ids \<Longrightarrow> distinct seen \<Longrightarrow> list_all (\<lambda>w. 0 \<le> w) seen \<Longrightarrow>
     ids = seen @ ws \<and> distinct ids \<and> list_all (\<lambda>w. 0 \<le> w) ids"
proof (induction ws arbitrary: seen)
  case (Cons w ws)
  from Cons.prems have "nl_reset_loop (seen @ [w]) ws = Inr ids" "distinct (seen @ [w])"
    "list_all (\<lambda>w. 0 \<le> w) (seen @ [w])" by auto
  from Cons.IH [OF this] show ?case by auto
qed simp

lemma nl_inv_reset: "rq_inv (nl_group_queue n) \<Longrightarrow> nl_reset n ws = Inr n' \<Longrightarrow> nl_inv n' \<and> nl_worker_ids n' = ws"
  using nl_reset_loop_ok [of "[]" ws]
  by (auto simp: nl_reset_def nl_inv_def list_all_length rq_inv_empty split: sum.splits)

lemma list_all_update: "list_all P xs \<Longrightarrow> P x \<Longrightarrow> list_all P (xs[i := x])"
  by (auto simp: list_all_iff dest: set_update_subset_insert [THEN subsetD])

lemma index_for_Inr:
  assumes "nl_inv n" "index_for n w = Inr i"
  shows "i < length (nl_queues n)" "nl_worker_ids n ! i = w" "rq_inv (nl_queues n ! i)"
  using assms find_index_Some by (auto simp: index_for_def nl_inv_def list_all_length split: option.splits)

lemma queue_at_simp [simp]: "i < length (nl_queues n) \<Longrightarrow> queue_at n i = nl_queues n ! i"
  by (simp add: queue_at_def)

lemma nl_inv_push_single: "nl_inv n \<Longrightarrow> push_single n w r s = Inr n' \<Longrightarrow> nl_inv n'"
  using index_for_Inr [of n w]
  by (auto simp: push_single_def nl_inv_def rq_inv_push list_all_update split: sum.splits)

lemma nl_inv_pop_single: "nl_inv n \<Longrightarrow> try_pop_single n w r = Inr (Some (n', s)) \<Longrightarrow> nl_inv n'"
  using index_for_Inr [of n w]
  by (auto simp: try_pop_single_def nl_inv_def list_all_update split: sum.splits option.splits dest: rq_inv_pop)

lemma nl_inv_push_group: "nl_inv n \<Longrightarrow> nl_inv (push_group n r s)"
  by (simp add: push_group_def nl_inv_def rq_inv_push)

lemma nl_inv_pop_group: "nl_inv n \<Longrightarrow> try_pop_group n r = Some (n', s) \<Longrightarrow> nl_inv n'"
  by (auto simp: try_pop_group_def nl_inv_def split: option.splits dest: rq_inv_pop)

lemma nl_inv_erase: "nl_inv n \<Longrightarrow> nl_inv (nl_erase_run n r)"
  by (auto simp: nl_erase_run_def nl_inv_def rq_inv_erase list_all_iff)

text \<open>What waits for a worker: the contents of its queue.\<close>

definition single_contents :: "NextLevelReadyQueues \<Rightarrow> WorkerId \<Rightarrow> RunId \<Rightarrow> TaskSlot list" where
  "single_contents n w r = (case index_for n w of Inl _ \<Rightarrow> [] | Inr i \<Rightarrow> rq_contents (nl_queues n ! i) r)"

lemma single_contents_push:
  assumes "nl_inv n" "push_single n w r s = Inr n'"
  shows "single_contents n' w' r' = (if w' = w \<and> r' = r then single_contents n w r @ [s] else single_contents n w' r')"
proof -
  obtain i where i: "index_for n w = Inr i" and n': "n' = n\<lparr>nl_queues := (nl_queues n)[i := rq_push (nl_queues n ! i) r s]\<rparr>"
    using assms(2) index_for_Inr(1) [OF assms(1)] by (auto simp: push_single_def split: sum.splits)
  have idx: "index_for n' w' = index_for n w'" using n' by (simp add: index_for_def)
  show ?thesis
  proof (cases "index_for n w'")
    case (Inl e)
    then show ?thesis using i idx by (auto simp: single_contents_def)
  next
    case (Inr j)
    have "j = i \<longleftrightarrow> w' = w" using index_for_Inr(2) [OF assms(1)] Inr i by auto
    then show ?thesis
      using i idx n' Inr index_for_Inr [OF assms(1) i] rq.contents_push
      by (auto simp: single_contents_def)
  qed
qed

lemma single_contents_pop:
  assumes "nl_inv n" "try_pop_single n w r = Inr (Some (n', s))"
  shows "single_contents n w r = s # single_contents n' w r"
    and "w' \<noteq> w \<or> r' \<noteq> r \<Longrightarrow> single_contents n' w' r' = single_contents n w' r'"
proof -
  obtain i q where i: "index_for n w = Inr i" and q: "rq_try_pop (nl_queues n ! i) r = Some (q, s)"
    and n': "n' = n\<lparr>nl_queues := (nl_queues n)[i := q]\<rparr>"
    using assms(2) index_for_Inr(1) [OF assms(1)] by (auto simp: try_pop_single_def split: sum.splits option.splits)
  have idx: "index_for n' v = index_for n v" for v using n' by (simp add: index_for_def)
  note at = index_for_Inr [OF assms(1) i]
  show "single_contents n w r = s # single_contents n' w r"
    using rq.pop_Some [OF at(3) q] at i idx n' by (simp add: single_contents_def)
  show "single_contents n' w' r' = single_contents n w' r'" if "w' \<noteq> w \<or> r' \<noteq> r"
  proof (cases "index_for n w'")
    case (Inl e)
    then show ?thesis using idx by (simp add: single_contents_def)
  next
    case (Inr j)
    have "j = i \<longleftrightarrow> w' = w" using index_for_Inr(2) [OF assms(1)] Inr i by auto
    then show ?thesis using that rq.pop_other [OF at(3) q] at(1) idx n' Inr i by (auto simp: single_contents_def)
  qed
qed

lemma single_contents_erase:
  assumes "nl_inv n"
  shows "single_contents (nl_erase_run n r) w r' = (if r' = r then [] else single_contents n w r')"
proof -
  have idx: "index_for (nl_erase_run n r) w = index_for n w" by (simp add: index_for_def nl_erase_run_def)
  show ?thesis
  proof (cases "index_for n w")
    case (Inl e)
    then show ?thesis using idx by (simp add: single_contents_def)
  next
    case (Inr i)
    then show ?thesis
      using index_for_Inr [OF assms Inr] idx rq.contents_erase by (auto simp: single_contents_def nl_erase_run_def)
  qed
qed

section \<open>Properties\<close>

text \<open>
  C26: every run sees one FIFO. After any sequence of pushes, pops and run erasures, the slots waiting for
  a run and the slots popped for it are those of a plain FIFO of that run alone; without an erasure
  nothing is lost, duplicated or reordered, and the unfiltered pop serves the oldest waiting run and never
  finds the run order corrupt.
\<close>

theorem ready_queue_is_fifo_per_run:
  assumes "fifo_exec rq_push rq_try_pop rq_erase_run ops (empty_queue, []) = (q, log)"
  shows "fifo_spec r ops ([], []) = (rq_contents q r, popped r log) \<and>
    (Erase r \<notin> set ops \<longrightarrow> pushed r ops = popped r log @ rq_contents q r) \<and>
    rq_try_pop_any q = Inr (case rq_run_order q of [] \<Rightarrow> None | oldest # _ \<Rightarrow> rq_try_pop q oldest)"
proof -
  have ref: "rq_inv q" "fifo_spec r ops ([], []) = (rq_contents q r, popped r log)"
    using rq.exec_refines [OF rq_inv_empty assms, of r] by (auto simp: rq_contents_def empty_queue_def popped_def)
  then show ?thesis using fifo_spec_conserves [OF _ ref(2)] pop_any_oldest by auto
qed

theorem ready_queue_is_fifo_per_run_witness:
  "pushed 7 [Push 7 1, Push 9 5, Push 7 (2 :: int), Pop (7 :: u64), Push 7 3] = [1] @ [2, 3]"
proof -
  let ?ops = "[Push 7 1, Push 9 5, Push 7 (2 :: int), Pop (7 :: u64), Push 7 3]"
  have "fifo_exec rq_push rq_try_pop rq_erase_run ?ops (empty_queue, []) =
      (\<lparr>rq_queues = [(7, [2, 3]), (9, [5])], rq_run_order = [7, 9]\<rparr>, [(7, 1)])"
    by (simp add: rq_push_def rq_try_pop_def empty_queue_def)
  from ready_queue_is_fifo_per_run [OF this, of 7] show ?thesis by (simp add: popped_def rq_contents_def)
qed

text \<open>
  A ready task reaches only the worker it was submitted for. Pushing a single task appends it to the
  queue of its worker and run and changes no other worker's or run's queue, popping removes the head of that queue
  only, erasing a run empties its queues at every worker, and a worker id that was not configured is refused.
\<close>

theorem singles_routed_exactly:
  assumes "nl_inv n"
  shows "(\<forall>n'. push_single n w r s = Inr n' \<longrightarrow> nl_inv n' \<and>
      (\<forall>w' r'. single_contents n' w' r' = (if w' = w \<and> r' = r then single_contents n w r @ [s] else single_contents n w' r'))) \<and>
    (\<forall>n' t. try_pop_single n w r = Inr (Some (n', t)) \<longrightarrow> nl_inv n' \<and> single_contents n w r = t # single_contents n' w r \<and>
      (\<forall>w' r'. w' \<noteq> w \<or> r' \<noteq> r \<longrightarrow> single_contents n' w' r' = single_contents n w' r')) \<and>
    (\<forall>w' r'. single_contents (nl_erase_run n r) w' r' = (if r' = r then [] else single_contents n w' r')) \<and>
    ((\<exists>n'. push_single n w r s = Inr n') \<longleftrightarrow> w \<in> set (nl_worker_ids n))"
proof (intro conjI allI impI)
  show "(\<exists>n'. push_single n w r s = Inr n') \<longleftrightarrow> w \<in> set (nl_worker_ids n)"
    using find_index_None [of "nl_worker_ids n" w]
    by (auto simp: push_single_def index_for_def split: sum.splits option.splits)
qed (fact single_contents_push [OF assms] single_contents_erase [OF assms] nl_inv_push_single [OF assms]
    nl_inv_pop_single [OF assms] single_contents_pop [OF assms])+

definition sample_queues :: NextLevelReadyQueues where
  "sample_queues = \<lparr>nl_worker_ids = [3, 0], nl_queues = [empty_queue, empty_queue], nl_group_queue = empty_queue\<rparr>"

theorem singles_routed_exactly_witness:
  "\<exists>n'. push_single sample_queues 0 5 11 = Inr n' \<and> single_contents n' 0 5 = [11] \<and> single_contents n' 3 5 = []"
proof -
  have "nl_inv sample_queues" by (simp add: nl_inv_def sample_queues_def rq_inv_empty)
  note p = singles_routed_exactly [OF this, of 0 5 11]
  have empty: "single_contents sample_queues w 5 = []" for w
    by (simp add: single_contents_def index_for_def sample_queues_def rq_contents_def empty_queue_def)
  obtain n' where n': "push_single sample_queues 0 5 11 = Inr n'" using p by (auto simp: sample_queues_def)
  with p have "single_contents n' w' 5 = (if w' = 0 then [11] else [])" for w' by (simp add: empty)
  with n' show ?thesis by simp
qed

end
