(* ===== verification/Run_Arena.thy ===== *)
theory Run_Arena
  imports Prelude
begin

text \<open>
  The run-resource sets of \<open>common/worker/run_resource_arena.h\<close>: the arena that mints leases
  (\<open>RunResourceArena\<close>) and the replay filter of a consumer downstream of it
  (\<open>PipelineSlotGenerationFilter\<close>). The properties are about every sequence of operations: a lease that
  was superseded never owns its set again, a quarantined set is never handed out again, and a lease its
  holder still owns always passes the filter.
\<close>

section \<open>The arena\<close>

record PipelineSlotLease =
  pl_slot_id :: u32
  pl_reserved :: u32
  pl_generation :: u64

record SetState =
  ss_generation :: u64
  ss_in_use :: bool
  ss_quarantined :: bool

record RunResourceArena =
  ra_granted :: u32
  ra_sets :: "SetState list"

abbreviation fresh_set :: SetState where
  "fresh_set \<equiv> \<lparr>ss_generation = 0, ss_in_use = False, ss_quarantined = False\<rparr>"

definition make_arena :: "u32 \<Rightarrow> exn + RunResourceArena" where
  "make_arena granted =
     reject_if (granted = 0) ''a context must be granted at least one run-resource set''
       (Inr \<lparr>ra_granted = granted, ra_sets = replicate (unat granted) fresh_set\<rparr>)"

definition regrant :: "RunResourceArena \<Rightarrow> u32 \<Rightarrow> exn + RunResourceArena" where
  "regrant a granted =
     reject_if (granted = 0) ''a context must be granted at least one run-resource set''
       (if list_ex (\<lambda>st. ss_in_use st \<or> ss_quarantined st \<or> ss_generation st \<noteq> 0) (ra_sets a)
        then Inl (LogicError ''the run-resource grant cannot change after a set has been handed out'')
        else Inr (a\<lparr>ra_sets := replicate (unat granted) fresh_set, ra_granted := granted\<rparr>))"

text \<open>The scan of \<open>try_acquire\<close>: the first set that is neither held nor quarantined.\<close>

fun acquire_scan :: "SetState list \<Rightarrow> nat \<Rightarrow> exn + (SetState list \<times> nat \<times> u64) option" where
  "acquire_scan [] slot = Inr None"
| "acquire_scan (st # sts) slot =
     (if ss_in_use st \<or> ss_quarantined st then
        (case acquire_scan sts (slot + 1) of
           Inr (Some (sts', r)) \<Rightarrow> Inr (Some (st # sts', r))
         | Inr None \<Rightarrow> Inr None
         | Inl e \<Rightarrow> Inl e)
      else if ss_generation st = UINT64_MAX then Inl (OverflowError ''run-resource set generation space exhausted'')
      else Inr (Some (st\<lparr>ss_generation := ss_generation st + 1, ss_in_use := True\<rparr> # sts, slot, ss_generation st + 1)))"

definition try_acquire :: "RunResourceArena \<Rightarrow> u32 \<Rightarrow> exn + RunResourceArena \<times> PipelineSlotLease option" where
  "try_acquire a admission_depth =
     reject_if (admission_depth = 0 \<or> admission_depth > ra_granted a)
       ''run-resource admission depth is outside the arena's grant''
     (let d = unat admission_depth in
      case acquire_scan (take d (ra_sets a)) 0 of
        Inl e \<Rightarrow> Inl e
      | Inr None \<Rightarrow> Inr (a, None)
      | Inr (Some (sts, slot, gen)) \<Rightarrow>
          Inr (a\<lparr>ra_sets := sts @ drop d (ra_sets a)\<rparr>,
               Some \<lparr>pl_slot_id = of_nat slot, pl_reserved = 0, pl_generation = gen\<rparr>))"

definition matches_generation :: "RunResourceArena \<Rightarrow> PipelineSlotLease \<Rightarrow> bool" where
  "matches_generation a lease \<longleftrightarrow>
     pl_reserved lease = 0 \<and> pl_generation lease \<noteq> 0 \<and> unat (pl_slot_id lease) < length (ra_sets a) \<and>
     ss_generation (ra_sets a ! unat (pl_slot_id lease)) = pl_generation lease"

definition owns :: "RunResourceArena \<Rightarrow> PipelineSlotLease \<Rightarrow> bool" where
  "owns a lease \<longleftrightarrow> matches_generation a lease \<and> ss_in_use (ra_sets a ! unat (pl_slot_id lease))"

definition arena_release :: "RunResourceArena \<Rightarrow> PipelineSlotLease \<Rightarrow> RunResourceArena \<times> bool" where
  "arena_release a lease =
     (let i = unat (pl_slot_id lease) in
      if \<not> matches_generation a lease then (a, False)
      else if ss_quarantined (ra_sets a ! i) then (a, False)
      else (a\<lparr>ra_sets := (ra_sets a)[i := (ra_sets a ! i)\<lparr>ss_in_use := False\<rparr>]\<rparr>, True))"

definition quarantine :: "RunResourceArena \<Rightarrow> PipelineSlotLease \<Rightarrow> RunResourceArena \<times> bool" where
  "quarantine a lease =
     (let i = unat (pl_slot_id lease) in
      if \<not> matches_generation a lease then (a, False)
      else (a\<lparr>ra_sets := (ra_sets a)[i := (ra_sets a ! i)\<lparr>ss_quarantined := True, ss_in_use := False\<rparr>]\<rparr>, True))"

definition is_quarantined :: "RunResourceArena \<Rightarrow> u32 \<Rightarrow> bool" where
  "is_quarantined a slot_id \<longleftrightarrow> unat slot_id < length (ra_sets a) \<and> ss_quarantined (ra_sets a ! unat slot_id)"

definition free_count :: "RunResourceArena \<Rightarrow> nat" where
  "free_count a = length (filter (\<lambda>st. \<not> ss_in_use st \<and> \<not> ss_quarantined st) (ra_sets a))"

definition live_set_count :: "RunResourceArena \<Rightarrow> nat" where
  "live_set_count a = length (filter (\<lambda>st. ss_in_use st \<and> \<not> ss_quarantined st) (ra_sets a))"

definition quarantined_count :: "RunResourceArena \<Rightarrow> nat" where
  "quarantined_count a = length (filter ss_quarantined (ra_sets a))"

section \<open>The replay filter\<close>

type_synonym GenerationFilter = "u64 list"

definition filter_resize :: "u32 \<Rightarrow> GenerationFilter" where
  "filter_resize granted = replicate (unat granted) 0"

definition is_admissible :: "GenerationFilter \<Rightarrow> PipelineSlotLease \<Rightarrow> bool" where
  "is_admissible newest lease \<longleftrightarrow>
     unat (pl_slot_id lease) < length newest \<and> pl_generation lease \<ge> newest ! unat (pl_slot_id lease)"

definition admit :: "GenerationFilter \<Rightarrow> PipelineSlotLease \<Rightarrow> GenerationFilter \<times> bool" where
  "admit newest lease =
     (let i = unat (pl_slot_id lease) in
      if i \<ge> length newest then (newest, False)
      else if pl_generation lease < newest ! i then (newest, False)
      else (newest[i := pl_generation lease], True))"

definition filter_reset :: "GenerationFilter \<Rightarrow> GenerationFilter" where
  "filter_reset newest = map (\<lambda>_. 0) newest"

section \<open>The scan\<close>

lemma acquire_scan_None: "acquire_scan sts k = Inr None \<longleftrightarrow> list_all (\<lambda>st. ss_in_use st \<or> ss_quarantined st) sts"
  by (induction sts k rule: acquire_scan.induct) (auto split: sum.splits option.splits)

lemma acquire_scan_Some:
  "acquire_scan sts k = Inr (Some (sts', slot, gen)) \<Longrightarrow>
   \<exists>i < length sts. slot = k + i \<and> \<not> ss_in_use (sts ! i) \<and> \<not> ss_quarantined (sts ! i) \<and>
     ss_generation (sts ! i) \<noteq> UINT64_MAX \<and> gen = ss_generation (sts ! i) + 1 \<and>
     (\<forall>j<i. ss_in_use (sts ! j) \<or> ss_quarantined (sts ! j)) \<and>
     sts' = sts[i := (sts ! i)\<lparr>ss_generation := gen, ss_in_use := True\<rparr>]"
proof (induction sts k arbitrary: sts' rule: acquire_scan.induct)
  case (2 st sts k)
  show ?case
  proof (cases "ss_in_use st \<or> ss_quarantined st")
    case False
    then show ?thesis using 2(2) by (auto split: if_splits)
  next
    case True
    then obtain sts1 where s: "acquire_scan sts (k + 1) = Inr (Some (sts1, slot, gen))" "sts' = st # sts1"
      using 2(2) by (auto split: sum.splits option.splits)
    from 2(1) [OF True s(1)] obtain i where i: "i < length sts" "slot = k + 1 + i"
      "\<not> ss_in_use (sts ! i) \<and> \<not> ss_quarantined (sts ! i)" "ss_generation (sts ! i) \<noteq> UINT64_MAX"
      "gen = ss_generation (sts ! i) + 1" "\<forall>j<i. ss_in_use (sts ! j) \<or> ss_quarantined (sts ! j)"
      "sts1 = sts[i := (sts ! i)\<lparr>ss_generation := gen, ss_in_use := True\<rparr>]" by blast
    then show ?thesis using True s(2) by (intro exI [of _ "Suc i"]) (auto simp: nth_Cons' less_Suc_eq_0_disj)
  qed
qed simp

lemma try_acquire_Some:
  assumes "try_acquire a d = Inr (a', Some lease)" "length (ra_sets a) = unat (ra_granted a)"
  obtains i where "i < unat d" "i < length (ra_sets a)" "unat (pl_slot_id lease) = i" "pl_reserved lease = 0"
    "\<not> ss_in_use (ra_sets a ! i)" "\<not> ss_quarantined (ra_sets a ! i)" "ss_generation (ra_sets a ! i) \<noteq> UINT64_MAX"
    "pl_generation lease = ss_generation (ra_sets a ! i) + 1"
    "\<forall>j<i. ss_in_use (ra_sets a ! j) \<or> ss_quarantined (ra_sets a ! j)"
    "a' = a\<lparr>ra_sets := (ra_sets a)[i := (ra_sets a ! i)\<lparr>ss_generation := pl_generation lease, ss_in_use := True\<rparr>]\<rparr>"
proof -
  let ?d = "unat d"
  obtain sts slot gen where scan: "acquire_scan (take ?d (ra_sets a)) 0 = Inr (Some (sts, slot, gen))"
    and a': "a' = a\<lparr>ra_sets := sts @ drop ?d (ra_sets a)\<rparr>"
    and lease: "lease = \<lparr>pl_slot_id = of_nat slot, pl_reserved = 0, pl_generation = gen\<rparr>"
    using assms(1) by (auto simp: try_acquire_def Let_def split: sum.splits option.splits)
  from acquire_scan_Some [OF scan] obtain i where i: "i < length (take ?d (ra_sets a))" "slot = i"
    "\<not> ss_in_use (take ?d (ra_sets a) ! i) \<and> \<not> ss_quarantined (take ?d (ra_sets a) ! i)"
    "ss_generation (take ?d (ra_sets a) ! i) \<noteq> UINT64_MAX" "gen = ss_generation (take ?d (ra_sets a) ! i) + 1"
    "\<forall>j<i. ss_in_use (take ?d (ra_sets a) ! j) \<or> ss_quarantined (take ?d (ra_sets a) ! j)"
    "sts = (take ?d (ra_sets a))[i := (take ?d (ra_sets a) ! i)\<lparr>ss_generation := gen, ss_in_use := True\<rparr>]" by auto
  have b: "i < ?d" "i < length (ra_sets a)" using i(1) by auto
  have "i < 2 ^ 32" using less_trans [OF b(2) [unfolded assms(2)] unat_u32_bound] by simp
  then have "unat (of_nat i :: u32) = i" by (simp add: unsigned_of_nat take_bit_nat_eq_self)
  moreover have "sts @ drop ?d (ra_sets a) =
      (ra_sets a)[i := (ra_sets a ! i)\<lparr>ss_generation := gen, ss_in_use := True\<rparr>]"
    using i(7) b append_take_drop_id [of ?d "(ra_sets a)[i := (ra_sets a ! i)\<lparr>ss_generation := gen, ss_in_use := True\<rparr>]"]
    by (simp add: take_update_swap)
  ultimately show thesis using that [of i] i b a' lease by auto
qed

section \<open>All interleavings\<close>

text \<open>
  The arena, a downstream filter, the leases handed out so far, those of them that were not given back since by a release or a
  quarantine, and the leases the filter has admitted since it was reset. Releases and quarantines may be
  attempted with any lease value; the filter is presented with leases that were handed out.
\<close>

record arena_world =
  aw_arena :: RunResourceArena
  aw_newest :: GenerationFilter
  aw_issued :: "PipelineSlotLease list"
  aw_held :: "PipelineSlotLease list"
  aw_admitted :: "PipelineSlotLease list"

definition gives_back :: "PipelineSlotLease \<Rightarrow> PipelineSlotLease list \<Rightarrow> PipelineSlotLease list" where
  "gives_back lease ls = filter (\<lambda>l. l \<noteq> lease) ls"

definition arena_start :: "arena_world \<Rightarrow> bool" where
  "arena_start w \<longleftrightarrow> (\<exists>granted. make_arena granted = Inr (aw_arena w) \<and> aw_newest w = filter_resize granted) \<and>
     aw_issued w = [] \<and> aw_held w = [] \<and> aw_admitted w = []"

inductive arena_step :: "arena_world \<Rightarrow> arena_world \<Rightarrow> bool" where
  acquire: "arena_step w (w\<lparr>aw_arena := a', aw_issued := aw_issued w @ [lease], aw_held := aw_held w @ [lease]\<rparr>)"
  if "try_acquire (aw_arena w) depth = Inr (a', Some lease)"
| release: "arena_step w (w\<lparr>aw_arena := fst (arena_release (aw_arena w) lease), aw_held := gives_back lease (aw_held w)\<rparr>)"
| withdraw: "arena_step w (w\<lparr>aw_arena := fst (quarantine (aw_arena w) lease), aw_held := gives_back lease (aw_held w)\<rparr>)"
| present: "arena_step w (w\<lparr>aw_newest := newest, aw_admitted := (if ok then aw_admitted w @ [lease] else aw_admitted w)\<rparr>)"
  if "lease \<in> set (aw_issued w)" "admit (aw_newest w) lease = (newest, ok)"
| restart: "arena_step w (w\<lparr>aw_newest := filter_reset (aw_newest w), aw_admitted := []\<rparr>)"

definition set_ok :: "SetState \<Rightarrow> bool" where
  "set_ok st \<longleftrightarrow> (ss_quarantined st \<longrightarrow> \<not> ss_in_use st)"

definition issued_ok :: "RunResourceArena \<Rightarrow> PipelineSlotLease \<Rightarrow> bool" where
  "issued_ok a l \<longleftrightarrow> pl_reserved l = 0 \<and> pl_generation l \<noteq> 0 \<and> unat (pl_slot_id l) < length (ra_sets a) \<and>
     pl_generation l \<le> ss_generation (ra_sets a ! unat (pl_slot_id l))"

text \<open>The mark of a set is the newest generation admitted.\<close>

definition marks_ok :: "GenerationFilter \<Rightarrow> PipelineSlotLease list \<Rightarrow> bool" where
  "marks_ok newest admitted \<longleftrightarrow>
     (\<forall>l \<in> set admitted. unat (pl_slot_id l) < length newest \<longrightarrow> pl_generation l \<le> newest ! unat (pl_slot_id l)) \<and>
     (\<forall>i < length newest. newest ! i = 0 \<or> (\<exists>l \<in> set admitted. unat (pl_slot_id l) = i \<and> pl_generation l = newest ! i))"

definition arena_inv :: "arena_world \<Rightarrow> bool" where
  "arena_inv w \<longleftrightarrow> (let a = aw_arena w; sets = ra_sets a in
     length sets = unat (ra_granted a) \<and> list_all set_ok sets \<and> distinct (aw_issued w) \<and>
     (\<forall>l \<in> set (aw_issued w). issued_ok a l) \<and>
     (\<forall>i < length sets. ss_in_use (sets ! i) \<longrightarrow>
        (\<exists>l \<in> set (aw_issued w). unat (pl_slot_id l) = i \<and> pl_generation l = ss_generation (sets ! i))) \<and>
     list_all2 (\<lambda>n st. n \<le> ss_generation st) (aw_newest w) sets \<and>
     distinct (aw_held w) \<and> (\<forall>l. l \<in> set (aw_held w) \<longleftrightarrow> owns a l) \<and> marks_ok (aw_newest w) (aw_admitted w))"

lemma arena_invD:
  assumes "arena_inv w"
  shows "length (ra_sets (aw_arena w)) = unat (ra_granted (aw_arena w))"
    "list_all set_ok (ra_sets (aw_arena w))" "distinct (aw_issued w)"
    "l \<in> set (aw_issued w) \<Longrightarrow> issued_ok (aw_arena w) l"
    "i < length (ra_sets (aw_arena w)) \<Longrightarrow> ss_in_use (ra_sets (aw_arena w) ! i) \<Longrightarrow>
       \<exists>l \<in> set (aw_issued w). unat (pl_slot_id l) = i \<and> pl_generation l = ss_generation (ra_sets (aw_arena w) ! i)"
    "list_all2 (\<lambda>n st. n \<le> ss_generation st) (aw_newest w) (ra_sets (aw_arena w))"
    "distinct (aw_held w)" "k \<in> set (aw_held w) \<longleftrightarrow> owns (aw_arena w) k" "marks_ok (aw_newest w) (aw_admitted w)"
  using assms by (simp_all add: arena_inv_def Let_def)

lemma arena_start_inv: "arena_start w \<Longrightarrow> arena_inv w"
proof -
  assume "arena_start w"
  then obtain g where "aw_arena w = \<lparr>ra_granted = g, ra_sets = replicate (unat g) fresh_set\<rparr>"
    "aw_newest w = replicate (unat g) 0" "aw_issued w = []" "aw_held w = []" "aw_admitted w = []"
    by (auto simp: arena_start_def make_arena_def filter_resize_def dest: sym)
  then show ?thesis
    by (simp add: arena_inv_def Let_def list_all_length set_ok_def list_all2_conv_all_nth marks_ok_def owns_def matches_generation_def)
qed

lemma inc_gt: "(g :: u64) \<noteq> UINT64_MAX \<Longrightarrow> g < g + 1" "(g :: u64) \<noteq> UINT64_MAX \<Longrightarrow> g + 1 \<noteq> 0"
proof -
  assume "g \<noteq> UINT64_MAX"
  then have "unat g \<noteq> unat UINT64_MAX" by (blast dest: unsigned_word_eqI)
  then have "unat g + 1 < 18446744073709551616" using unat_u64_le [of g] unfolding unat_UINT64_MAX by linarith
  then have "unat (g + 1) = unat g + 1" by (simp add: unat_word_ariths)
  then show "g < g + 1" "g + 1 \<noteq> 0" by (auto simp: word_less_nat_alt)
qed

lemma owned_unique:
  assumes "owns a l" "owns a l'" "pl_slot_id l = pl_slot_id l'"
  shows "l = l'"
  using assms by (cases l; cases l') (auto simp: owns_def matches_generation_def)

text \<open>Who owns a set after one set changed.\<close>

lemma owns_update:
  assumes "i < length (ra_sets a)"
  shows "owns (a\<lparr>ra_sets := (ra_sets a)[i := st]\<rparr>) l \<longleftrightarrow>
    (if unat (pl_slot_id l) = i then pl_reserved l = 0 \<and> pl_generation l \<noteq> 0 \<and> ss_generation st = pl_generation l \<and> ss_in_use st else owns a l)"
  using assms by (auto simp: owns_def matches_generation_def)

lemma acquire_inv:
  assumes inv: "arena_inv w" and acq: "try_acquire (aw_arena w) d = Inr (a', Some lease)"
  shows "arena_inv (w\<lparr>aw_arena := a', aw_issued := aw_issued w @ [lease], aw_held := aw_held w @ [lease]\<rparr>)"
proof -
  let ?sets = "ra_sets (aw_arena w)"
  note I = arena_invD [OF inv]
  from try_acquire_Some [OF acq I(1)] obtain i where b: "i < unat d" and i: "i < length ?sets"
    "unat (pl_slot_id lease) = i" "pl_reserved lease = 0" "\<not> ss_in_use (?sets ! i)" "\<not> ss_quarantined (?sets ! i)"
    "ss_generation (?sets ! i) \<noteq> UINT64_MAX" "pl_generation lease = ss_generation (?sets ! i) + 1"
    and first: "\<forall>j<i. ss_in_use (?sets ! j) \<or> ss_quarantined (?sets ! j)"
    and a': "a' = aw_arena w\<lparr>ra_sets := ?sets[i := (?sets ! i)\<lparr>ss_generation := pl_generation lease, ss_in_use := True\<rparr>]\<rparr>" .
  have up: "ss_generation (?sets ! i) < pl_generation lease" "pl_generation lease \<noteq> 0" using inc_gt [OF i(6)] i(7) by auto
  have new: "lease \<notin> set (aw_issued w)"
    using I(4) [of lease] up i(2) by (auto simp: issued_ok_def)
  have old: "issued_ok a' l" if "l \<in> set (aw_issued w)" for l
    using I(4) [OF that] up(1) i(1) a' by (auto simp: issued_ok_def nth_list_update)
  have "list_all set_ok (ra_sets a')"
    using I(2) i(1,5) a' by (auto simp: list_all_length set_ok_def nth_list_update)
  moreover have "list_all2 (\<lambda>n st. n \<le> ss_generation st) (aw_newest w) (ra_sets a')"
    using I(6) i(1) a' up(1) by (auto simp: list_all2_conv_all_nth nth_list_update)
  moreover have "\<exists>l \<in> set (aw_issued w @ [lease]). unat (pl_slot_id l) = j \<and> pl_generation l = ss_generation (ra_sets a' ! j)"
    if "j < length (ra_sets a')" "ss_in_use (ra_sets a' ! j)" for j
    using that I(5) [of j] i(1,2) a' by (cases "j = i") auto
  moreover have own: "owns a' l \<longleftrightarrow> l = lease \<or> owns (aw_arena w) l" for l
  proof (cases "unat (pl_slot_id l) = i")
    case True
    then have "\<not> owns (aw_arena w) l" using i(4) by (simp add: owns_def)
    then show ?thesis
      using True i(1-3) up(2) unfolding a' owns_update [OF i(1)] by (cases l; cases lease) (auto simp: word_unat_eq_iff)
  next
    case False
    then show ?thesis using i(1,2) unfolding a' owns_update [OF i(1)] by auto
  qed
  moreover have "lease \<notin> set (aw_held w)" using I(8) [of lease] i(2,4) by (simp add: owns_def)
  ultimately show ?thesis
    using I(1,3,7,8,9) new old i(1-3) a' up(2) by (auto simp: arena_inv_def Let_def issued_ok_def)
qed

text \<open>Operations that leave every generation alone.\<close>

lemma same_generation_inv:
  assumes inv: "arena_inv w" and l: "unat (pl_slot_id lease) = i" "matches_generation (aw_arena w) lease"
    and i: "\<not> ss_in_use st" "ss_generation st = ss_generation (ra_sets (aw_arena w) ! i)"
  shows "arena_inv (w\<lparr>aw_arena := aw_arena w\<lparr>ra_sets := (ra_sets (aw_arena w))[i := st]\<rparr>, aw_held := gives_back lease (aw_held w)\<rparr>)"
proof -
  note I = arena_invD [OF inv]
  have b: "i < length (ra_sets (aw_arena w))" using l by (auto simp: matches_generation_def)
  have gen: "ss_generation ((ra_sets (aw_arena w))[i := st] ! j) = ss_generation (ra_sets (aw_arena w) ! j)" for j
    using b i by (cases "j = i") auto
  have "list_all set_ok ((ra_sets (aw_arena w))[i := st])"
    using I(2) i b by (auto simp: list_all_length set_ok_def nth_list_update)
  moreover have "ss_in_use (ra_sets (aw_arena w) ! j)" if "ss_in_use ((ra_sets (aw_arena w))[i := st] ! j)" for j
    using that i b by (cases "j = i") auto
  moreover have "owns (aw_arena w\<lparr>ra_sets := (ra_sets (aw_arena w))[i := st]\<rparr>) k \<longleftrightarrow> owns (aw_arena w) k \<and> k \<noteq> lease" for k
  proof (cases "unat (pl_slot_id k) = i")
    case True
    have "k = lease" if "owns (aw_arena w) k"
    proof (rule owned_unique [OF that])
      show s: "pl_slot_id k = pl_slot_id lease" using True l(1) by (simp add: word_unat_eq_iff)
      show "owns (aw_arena w) lease" using that l(2) s by (simp add: owns_def)
    qed
    then show ?thesis using True i(1) unfolding owns_update [OF b] by auto
  next
    case False
    then show ?thesis using l(1) unfolding owns_update [OF b] by auto
  qed
  ultimately show ?thesis
    using I gen by (auto simp: arena_inv_def Let_def issued_ok_def list_all2_conv_all_nth gives_back_def)
qed

lemma not_held:
  assumes "arena_inv w" "\<not> owns (aw_arena w) lease"
  shows "gives_back lease (aw_held w) = aw_held w"
proof -
  have "lease \<notin> set (aw_held w)" using arena_invD(8) [OF assms(1)] assms(2) by blast
  then show ?thesis unfolding gives_back_def by (intro filter_True) auto
qed

lemma arena_release_inv:
  assumes inv: "arena_inv w"
  shows "arena_inv (w\<lparr>aw_arena := fst (arena_release (aw_arena w) lease), aw_held := gives_back lease (aw_held w)\<rparr>)"
proof (cases "matches_generation (aw_arena w) lease \<and> \<not> ss_quarantined (ra_sets (aw_arena w) ! unat (pl_slot_id lease))")
  case True
  then show ?thesis using same_generation_inv [OF inv refl] by (simp add: arena_release_def Let_def)
next
  case False
  have "\<not> owns (aw_arena w) lease"
    using False arena_invD(2) [OF inv] by (auto simp: owns_def matches_generation_def list_all_length set_ok_def)
  then show ?thesis using False inv not_held [OF inv] by (auto simp: arena_release_def Let_def)
qed

lemma arena_withdraw_inv:
  assumes inv: "arena_inv w"
  shows "arena_inv (w\<lparr>aw_arena := fst (quarantine (aw_arena w) lease), aw_held := gives_back lease (aw_held w)\<rparr>)"
proof (cases "matches_generation (aw_arena w) lease")
  case True
  then show ?thesis using same_generation_inv [OF inv refl] by (simp add: quarantine_def Let_def)
next
  case False
  then show ?thesis using inv not_held [OF inv] by (simp add: quarantine_def owns_def Let_def)
qed

lemma admit_marks:
  assumes m: "marks_ok newest admitted" and e: "admit newest lease = (newest', ok)"
  shows "marks_ok newest' (if ok then admitted @ [lease] else admitted)"
proof (cases ok)
  case False
  then show ?thesis using m e by (auto simp: admit_def Let_def split: if_splits)
next
  case True
  let ?i = "unat (pl_slot_id lease)"
  have n: "newest' = newest[?i := pl_generation lease]" "?i < length newest" "newest ! ?i \<le> pl_generation lease"
    using True e by (auto simp: admit_def Let_def split: if_splits)
  have "pl_generation l \<le> newest' ! unat (pl_slot_id l)" if "l \<in> set admitted" "unat (pl_slot_id l) < length newest" for l
  proof -
    have "pl_generation l \<le> newest ! unat (pl_slot_id l)" using m that by (simp add: marks_ok_def)
    then show ?thesis using n by (cases "unat (pl_slot_id l) = ?i") auto
  qed
  moreover have "newest' ! i = 0 \<or> (\<exists>l \<in> set (admitted @ [lease]). unat (pl_slot_id l) = i \<and> pl_generation l = newest' ! i)" if "i < length newest" for i
    using m n that by (cases "?i = i") (auto simp: marks_ok_def)
  ultimately show ?thesis using True n(1,2) by (auto simp: marks_ok_def)
qed

lemma present_inv:
  assumes inv: "arena_inv w" and l: "lease \<in> set (aw_issued w)" "admit (aw_newest w) lease = (newest, ok)"
  shows "arena_inv (w\<lparr>aw_newest := newest, aw_admitted := (if ok then aw_admitted w @ [lease] else aw_admitted w)\<rparr>)"
proof -
  note I = arena_invD [OF inv]
  have "list_all2 (\<lambda>n st. n \<le> ss_generation st) newest (ra_sets (aw_arena w))"
    using I(4) [OF l(1)] I(6) l(2) by (auto simp: admit_def Let_def issued_ok_def list_all2_conv_all_nth nth_list_update split: if_splits)
  then show ?thesis using inv admit_marks [OF I(9) l(2)] by (auto simp: arena_inv_def Let_def)
qed

lemma arena_step_inv:
  assumes "arena_inv w" "arena_step w w'"
  shows "arena_inv w'"
  using assms(2)
proof cases
  case (acquire d a' lease)
  then show ?thesis using acquire_inv assms(1) by blast
next
  case (release lease)
  then show ?thesis using arena_release_inv assms(1) by blast
next
  case (withdraw lease)
  then show ?thesis using arena_withdraw_inv assms(1) by blast
next
  case (present lease newest ok)
  then show ?thesis using present_inv assms(1) by blast
next
  case restart
  then show ?thesis
    using assms(1) by (auto simp: arena_inv_def Let_def filter_reset_def list_all2_conv_all_nth marks_ok_def)
qed

interpretation arena_sys: invariant_system arena_start arena_step arena_inv
  by unfold_locales (auto intro: arena_start_inv arena_step_inv)

section \<open>Ownership\<close>

lemma arena_held_count:
  assumes inv: "arena_inv w"
  shows "inj_on pl_slot_id (set (aw_held w))" "length (aw_held w) = live_set_count (aw_arena w)"
proof -
  let ?a = "aw_arena w" and ?f = "\<lambda>l. unat (pl_slot_id l)"
  let ?I = "{i. i < length (ra_sets ?a) \<and> ss_in_use (ra_sets ?a ! i)}"
  note I = arena_invD [OF inv]
  have live: "ss_in_use st \<and> \<not> ss_quarantined st \<longleftrightarrow> ss_in_use st" if "st \<in> set (ra_sets ?a)" for st
    using I(2) that by (auto simp: list_all_iff set_ok_def)
  show inj: "inj_on pl_slot_id (set (aw_held w))" using owned_unique I(8) by (auto simp: inj_on_def)
  then have "inj_on ?f (set (aw_held w))" by (auto simp: inj_on_def word_unat_eq_iff)
  moreover have "?f ` set (aw_held w) = ?I"
  proof
    show "?f ` set (aw_held w) \<subseteq> ?I" using I(8) by (auto simp: owns_def matches_generation_def)
    show "?I \<subseteq> ?f ` set (aw_held w)"
    proof
      fix i assume i: "i \<in> ?I"
      then obtain l where l: "l \<in> set (aw_issued w)" "unat (pl_slot_id l) = i"
        "pl_generation l = ss_generation (ra_sets ?a ! i)" using I(5) by blast
      then have "owns ?a l" using I(4) [of l] i by (auto simp: owns_def matches_generation_def issued_ok_def)
      then show "i \<in> ?f ` set (aw_held w)" using l(2) I(8) by force
    qed
  qed
  ultimately have "card (set (aw_held w)) = card ?I" using card_image by fastforce
  moreover have "card (set (aw_held w)) = length (aw_held w)" using I(7) by (rule distinct_card)
  moreover have "card ?I = live_set_count ?a"
    using live by (simp add: live_set_count_def length_filter_conv_card conj_commute cong: filter_cong)
  ultimately show "length (aw_held w) = live_set_count (aw_arena w)" by simp
qed

lemma counts_sum: "free_count a + live_set_count a + quarantined_count a = length (ra_sets a)"
proof -
  have "length (filter (\<lambda>st. \<not> ss_in_use st \<and> \<not> ss_quarantined st) sts) +
      length (filter (\<lambda>st. ss_in_use st \<and> \<not> ss_quarantined st) sts) + length (filter ss_quarantined sts) = length sts"
    for sts by (induction sts) auto
  then show ?thesis by (simp add: free_count_def live_set_count_def quarantined_count_def)
qed

text \<open>Quarantine and supersession are permanent.\<close>

lemma arena_step_permanent:
  assumes "arena_inv w" "arena_step w w'"
  shows "is_quarantined (aw_arena w) k \<Longrightarrow> is_quarantined (aw_arena w') k \<and>
      filter (\<lambda>l. pl_slot_id l = k) (aw_issued w') = filter (\<lambda>l. pl_slot_id l = k) (aw_issued w)"
    and "set (aw_issued w) \<subseteq> set (aw_issued w')"
proof -
  show "set (aw_issued w) \<subseteq> set (aw_issued w')" using assms(2) by cases auto
  assume q: "is_quarantined (aw_arena w) k"
  from assms(2) show "is_quarantined (aw_arena w') k \<and>
      filter (\<lambda>l. pl_slot_id l = k) (aw_issued w') = filter (\<lambda>l. pl_slot_id l = k) (aw_issued w)"
  proof cases
    case (acquire d a' lease)
    from try_acquire_Some [OF acquire(2) arena_invD(1) [OF assms(1)]]
    obtain i where "unat (pl_slot_id lease) = i" "\<not> ss_quarantined (ra_sets (aw_arena w) ! i)"
      "a' = aw_arena w\<lparr>ra_sets := (ra_sets (aw_arena w))
        [i := (ra_sets (aw_arena w) ! i)\<lparr>ss_generation := pl_generation lease, ss_in_use := True\<rparr>]\<rparr>" .
    then show ?thesis
      using q acquire(1) by (auto simp: is_quarantined_def nth_list_update word_unat_eq_iff)
  next
    case (release lease)
    then show ?thesis
      using q by (auto simp: is_quarantined_def arena_release_def matches_generation_def Let_def nth_list_update)
  next
    case (withdraw lease)
    then show ?thesis
      using q by (auto simp: is_quarantined_def quarantine_def matches_generation_def Let_def nth_list_update)
  qed (use q in auto)
qed

lemma quarantine_forever:
  assumes "arena_step\<^sup>*\<^sup>* w w'" "arena_inv w" "is_quarantined (aw_arena w) k"
  shows "is_quarantined (aw_arena w') k \<and>
    filter (\<lambda>l. pl_slot_id l = k) (aw_issued w') = filter (\<lambda>l. pl_slot_id l = k) (aw_issued w)"
  using assms(1)
proof (induction rule: rtranclp_induct)
  case (step y z)
  then show ?case using arena_step_permanent(1) [of y z k] arena_sys.steps_inv [OF step(1) assms(2)] by simp
qed (use assms(3) in simp)

section \<open>Properties\<close>

text \<open>An arena of two sets after set 0 was leased, released and leased again.\<close>

abbreviation sample_lease :: "u32 \<Rightarrow> u64 \<Rightarrow> PipelineSlotLease" where
  "sample_lease k g \<equiv> \<lparr>pl_slot_id = k, pl_reserved = 0, pl_generation = g\<rparr>"

abbreviation sample_arena :: "SetState list \<Rightarrow> RunResourceArena" where
  "sample_arena sts \<equiv> \<lparr>ra_granted = 2, ra_sets = sts\<rparr>"

abbreviation held :: "u64 \<Rightarrow> SetState" where
  "held g \<equiv> \<lparr>ss_generation = g, ss_in_use = True, ss_quarantined = False\<rparr>"

definition sample_arena_world :: arena_world where
  "sample_arena_world = \<lparr>aw_arena = sample_arena [held 2, fresh_set], aw_newest = [0, 0],
     aw_issued = [sample_lease 0 1, sample_lease 0 2], aw_held = [sample_lease 0 2], aw_admitted = []\<rparr>"

lemma replicate_two: "replicate 2 x = [x, x]"
  by (simp add: numeral_2_eq_2)

lemma sample_arena_reachable: "reachable arena_start arena_step sample_arena_world"
proof -
  let ?w = "\<lambda>sts ls held. \<lparr>aw_arena = sample_arena sts, aw_newest = [0, 0], aw_issued = ls, aw_held = held, aw_admitted = []\<rparr>"
  let ?released = "[\<lparr>ss_generation = 1, ss_in_use = False, ss_quarantined = False\<rparr>, fresh_set]"
  have "arena_start (?w [fresh_set, fresh_set] [] [])"
    by (auto simp: arena_start_def make_arena_def filter_resize_def replicate_two intro!: exI [of _ 2])
  then have 0: "reachable arena_start arena_step (?w [fresh_set, fresh_set] [] [])" by (rule reachable_start)
  have "try_acquire (sample_arena [fresh_set, fresh_set]) 2 = Inr (sample_arena [held 1, fresh_set], Some (sample_lease 0 1))"
    by (simp add: try_acquire_def Let_def)
  from arena_step.acquire [of "?w [fresh_set, fresh_set] [] []", simplified, OF this]
  have 1: "reachable arena_start arena_step (?w [held 1, fresh_set] [sample_lease 0 1] [sample_lease 0 1])"
    using reachable_step [OF 0] by blast
  have "arena_step (?w [held 1, fresh_set] [sample_lease 0 1] [sample_lease 0 1]) (?w ?released [sample_lease 0 1] [])"
    using arena_step.release [of "?w [held 1, fresh_set] [sample_lease 0 1] [sample_lease 0 1]" "sample_lease 0 1"]
    by (simp add: arena_release_def matches_generation_def gives_back_def)
  with 1 have 2: "reachable arena_start arena_step (?w ?released [sample_lease 0 1] [])"
    by (rule reachable_step)
  have "try_acquire (sample_arena ?released) 2 = Inr (sample_arena [held 2, fresh_set], Some (sample_lease 0 2))"
    by (simp add: try_acquire_def Let_def)
  from arena_step.acquire [of "?w ?released [sample_lease 0 1] []", simplified, OF this]
  show ?thesis using reachable_step [OF 2] by (simp add: sample_arena_world_def)
qed

text \<open>
  C11: a run-resource set has at most one holder. In every reachable state the leases that were handed out and not yet given
  back by a release or a quarantine are exactly those that own their set, and no two of them name the same set: an
  acquisition never hands out a set that a run still holds, and nobody else's release takes it away. They are as many as the sets
  in use, and the free, live and quarantined sets add up to the grant.
\<close>

theorem one_owner_per_set:
  assumes "reachable arena_start arena_step w"
  shows "(\<forall>l. l \<in> set (aw_held w) \<longleftrightarrow> owns (aw_arena w) l) \<and> distinct (map pl_slot_id (aw_held w)) \<and>
    length (aw_held w) = live_set_count (aw_arena w) \<and>
    free_count (aw_arena w) + live_set_count (aw_arena w) + quarantined_count (aw_arena w) = unat (ra_granted (aw_arena w))"
proof -
  have inv: "arena_inv w" using arena_sys.reachable_inv [OF assms] .
  have "distinct (map pl_slot_id (aw_held w))" using arena_held_count(1) [OF inv] arena_invD(7) [OF inv] by (simp add: distinct_map)
  then show ?thesis using arena_held_count(2) [OF inv] arena_invD(1,8) [OF inv] counts_sum [of "aw_arena w"] by simp
qed

theorem one_owner_per_set_witness:
  "owns (aw_arena sample_arena_world) (sample_lease 0 2) \<and> length (aw_held sample_arena_world) = live_set_count (aw_arena sample_arena_world)"
proof -
  have "sample_lease 0 2 \<in> set (aw_held sample_arena_world)" by (simp add: sample_arena_world_def)
  then show ?thesis using one_owner_per_set [OF sample_arena_reachable] by blast
qed

text \<open>
  C27: a superseded lease is dead. Once a later lease of the same set was handed out, the older one does not
  own the set, and releasing or quarantining with it changes nothing, in every state reachable afterwards.
\<close>

theorem superseded_lease_is_dead:
  assumes "reachable arena_start arena_step w" "l' \<in> set (aw_issued w)"
    and "pl_slot_id l = pl_slot_id l'" "pl_generation l < pl_generation l'"
  shows "\<not> owns (aw_arena w) l \<and> arena_release (aw_arena w) l = (aw_arena w, False) \<and>
    quarantine (aw_arena w) l = (aw_arena w, False)"
proof -
  have "issued_ok (aw_arena w) l'" using arena_invD(4) [OF arena_sys.reachable_inv [OF assms(1)] assms(2)] .
  then have "\<not> matches_generation (aw_arena w) l"
    using assms(3,4) by (auto simp: issued_ok_def matches_generation_def)
  then show ?thesis by (simp add: owns_def arena_release_def quarantine_def Let_def)
qed

theorem superseded_lease_is_dead_witness: "\<not> owns (aw_arena sample_arena_world) (sample_lease 0 1)"
  using superseded_lease_is_dead [OF sample_arena_reachable, of "sample_lease 0 2" "sample_lease 0 1"]
  by (simp add: sample_arena_world_def)

text \<open>
  A quarantined set stays withdrawn. Whatever happens afterwards, it remains quarantined and no further
  lease of it is ever handed out.
\<close>

theorem quarantine_is_permanent:
  assumes "reachable arena_start arena_step w" "is_quarantined (aw_arena w) k" "arena_step\<^sup>*\<^sup>* w w'"
  shows "is_quarantined (aw_arena w') k \<and>
    filter (\<lambda>l. pl_slot_id l = k) (aw_issued w') = filter (\<lambda>l. pl_slot_id l = k) (aw_issued w)"
  using quarantine_forever [OF assms(3) arena_sys.reachable_inv [OF assms(1)] assms(2)] .

text \<open>
  C30: the replay filter refuses exactly the leases that were superseded before its eyes. In every reachable state a lease
  passes the filter if and only if its set exists and since the last reset of the filter no newer lease of that set was admitted,
  whatever was admitted for other sets in between; \<open>admit\<close> gives the same verdict as the preview \<open>is_admissible\<close>; and a lease
  whose holder still owns its set is never refused.
\<close>

theorem filter_admits_owners_refuses_older:
  assumes "reachable arena_start arena_step w"
  shows "(is_admissible (aw_newest w) l \<longleftrightarrow>
      unat (pl_slot_id l) < length (ra_sets (aw_arena w)) \<and>
      (\<forall>l' \<in> set (aw_admitted w). pl_slot_id l' = pl_slot_id l \<longrightarrow> pl_generation l' \<le> pl_generation l)) \<and>
    (snd (admit (aw_newest w) l) \<longleftrightarrow> is_admissible (aw_newest w) l) \<and>
    (owns (aw_arena w) l \<longrightarrow> is_admissible (aw_newest w) l)"
proof -
  have inv: "arena_inv w" using arena_sys.reachable_inv [OF assms] .
  have len: "length (aw_newest w) = length (ra_sets (aw_arena w))" using arena_invD(6) [OF inv] by (rule list_all2_lengthD)
  have m: "marks_ok (aw_newest w) (aw_admitted w)" using arena_invD(9) [OF inv] .
  let ?i = "unat (pl_slot_id l)"
  have "aw_newest w ! ?i \<le> pl_generation l \<longleftrightarrow>
      (\<forall>l' \<in> set (aw_admitted w). pl_slot_id l' = pl_slot_id l \<longrightarrow> pl_generation l' \<le> pl_generation l)"
    if b: "?i < length (aw_newest w)"
  proof
    assume "aw_newest w ! ?i \<le> pl_generation l"
    then show "\<forall>l' \<in> set (aw_admitted w). pl_slot_id l' = pl_slot_id l \<longrightarrow> pl_generation l' \<le> pl_generation l"
      using m b by (auto simp: marks_ok_def intro: order_trans)
  next
    assume r: "\<forall>l' \<in> set (aw_admitted w). pl_slot_id l' = pl_slot_id l \<longrightarrow> pl_generation l' \<le> pl_generation l"
    have "aw_newest w ! ?i = 0 \<or> (\<exists>l' \<in> set (aw_admitted w). unat (pl_slot_id l') = ?i \<and> pl_generation l' = aw_newest w ! ?i)"
      using m b by (simp add: marks_ok_def)
    then show "aw_newest w ! ?i \<le> pl_generation l" using r by (metis word_unat_eq_iff word_zero_le)
  qed
  then have "is_admissible (aw_newest w) l \<longleftrightarrow> ?i < length (ra_sets (aw_arena w)) \<and>
      (\<forall>l' \<in> set (aw_admitted w). pl_slot_id l' = pl_slot_id l \<longrightarrow> pl_generation l' \<le> pl_generation l)"
    using len by (auto simp: is_admissible_def)
  moreover have "is_admissible (aw_newest w) l" if "owns (aw_arena w) l"
    using arena_invD(6) [OF inv] that
    by (auto simp: owns_def matches_generation_def is_admissible_def list_all2_conv_all_nth)
  moreover have "snd (admit (aw_newest w) l) \<longleftrightarrow> is_admissible (aw_newest w) l"
    by (auto simp: admit_def is_admissible_def Let_def)
  ultimately show ?thesis by blast
qed

definition sample_filtered :: arena_world where
  "sample_filtered = sample_arena_world\<lparr>aw_newest := [2, 0], aw_admitted := [sample_lease 0 2]\<rparr>"

theorem filter_admits_owners_refuses_older_witness:
  "is_admissible (aw_newest sample_filtered) (sample_lease 0 2) \<and> \<not> is_admissible (aw_newest sample_filtered) (sample_lease 0 1)"
proof -
  have "admit [0, 0] (sample_lease 0 2) = ([2, 0], True)" by (simp add: admit_def)
  then have r: "reachable arena_start arena_step sample_filtered"
    using reachable_step [OF sample_arena_reachable arena_step.present, of "sample_lease 0 2" "[2, 0]" True]
    by (simp add: sample_filtered_def sample_arena_world_def)
  show ?thesis
    using filter_admits_owners_refuses_older [OF r, of "sample_lease 0 2"] filter_admits_owners_refuses_older [OF r, of "sample_lease 0 1"]
    by (simp add: sample_filtered_def sample_arena_world_def word_le_nat_alt)
qed

end
