(* ===== verification/Pipeline_Contract.thy ===== *)
theory Pipeline_Contract
  imports Run_Arena "HOL-Library.Multiset"
begin

text \<open>
  The admission rules of \<open>common/worker/pipeline_contract.h\<close> for the resource declaration of a host runtime
  (the constants and structures are those of \<open>runtime_c_api.h\<close> and \<open>execution_mode.h\<close>). The C array
  of resources is a list; a declared count beyond its length is excluded by \<open>contract_wf\<close>.
\<close>

abbreviation PTO_PIPELINE_CONTRACT_ABI_VERSION :: u32 where "PTO_PIPELINE_CONTRACT_ABI_VERSION \<equiv> 1"
abbreviation PTO_PIPELINE_MAX_RESOURCES :: u32 where "PTO_PIPELINE_MAX_RESOURCES \<equiv> 8"

abbreviation PTO_PIPELINE_HOST_PER_RUN :: u32 where "PTO_PIPELINE_HOST_PER_RUN \<equiv> 0"
abbreviation PTO_PIPELINE_DEVICE_SCRATCH :: u32 where "PTO_PIPELINE_DEVICE_SCRATCH \<equiv> 1"
abbreviation PTO_PIPELINE_EXEC_HANDLE :: u32 where "PTO_PIPELINE_EXEC_HANDLE \<equiv> 2"

abbreviation PTO_PIPELINE_KIND_UNSPECIFIED :: u32 where "PTO_PIPELINE_KIND_UNSPECIFIED \<equiv> 0"
abbreviation PTO_PIPELINE_GM_HEAP :: u32 where "PTO_PIPELINE_GM_HEAP \<equiv> 1"
abbreviation PTO_PIPELINE_GM_SM :: u32 where "PTO_PIPELINE_GM_SM \<equiv> 2"
abbreviation PTO_PIPELINE_RUNTIME_IMAGE :: u32 where "PTO_PIPELINE_RUNTIME_IMAGE \<equiv> 3"
abbreviation PTO_PIPELINE_TASK_ARGS :: u32 where "PTO_PIPELINE_TASK_ARGS \<equiv> 4"
abbreviation PTO_PIPELINE_AICPU_STREAM :: u32 where "PTO_PIPELINE_AICPU_STREAM \<equiv> 5"
abbreviation PTO_PIPELINE_AICORE_STREAM :: u32 where "PTO_PIPELINE_AICORE_STREAM \<equiv> 6"

abbreviation SIMPLER_MODE_PROGRAM :: u32 where "SIMPLER_MODE_PROGRAM \<equiv> 0"
abbreviation SIMPLER_MODE_KERNEL :: u32 where "SIMPLER_MODE_KERNEL \<equiv> 1"

record PipelineResource =
  pr_kind :: u32
  pr_resource_class :: u32
  pr_bytes_per_copy :: u64

record PipelineContract =
  pc_abi_version :: u32
  pc_resource_count :: u32
  pc_pipeline_depth :: u32
  pc_resources :: "PipelineResource list"

definition contract_wf :: "PipelineContract \<Rightarrow> bool" where
  "contract_wf c \<longleftrightarrow> length (pc_resources c) = unat PTO_PIPELINE_MAX_RESOURCES"

text \<open>The entries the loops \<open>for (i = 0; i < resource_count; ++i)\<close> visit.\<close>

definition declared :: "PipelineContract \<Rightarrow> PipelineResource list" where
  "declared c = take (unat (pc_resource_count c)) (pc_resources c)"

definition valid_resource :: "u32 \<Rightarrow> PipelineResource \<Rightarrow> bool" where
  "valid_resource mode r \<longleftrightarrow>
     \<not> (pr_kind r = PTO_PIPELINE_KIND_UNSPECIFIED \<or> pr_kind r > PTO_PIPELINE_AICORE_STREAM \<or>
        pr_resource_class r > PTO_PIPELINE_EXEC_HANDLE) \<and>
     (if mode = SIMPLER_MODE_PROGRAM \<or> pr_resource_class r = PTO_PIPELINE_EXEC_HANDLE then pr_bytes_per_copy r = 0
      else \<not> (pr_resource_class r = PTO_PIPELINE_DEVICE_SCRATCH \<and> pr_bytes_per_copy r = 0))"

definition is_valid_pipeline_contract :: "PipelineContract option \<Rightarrow> u32 \<Rightarrow> bool" where
  "is_valid_pipeline_contract contract mode =
     (case contract of
        None \<Rightarrow> False
      | Some c \<Rightarrow>
          if mode \<noteq> SIMPLER_MODE_PROGRAM \<and> mode \<noteq> SIMPLER_MODE_KERNEL \<or>
             pc_abi_version c \<noteq> PTO_PIPELINE_CONTRACT_ABI_VERSION \<or>
             pc_resource_count c > PTO_PIPELINE_MAX_RESOURCES \<or> pc_pipeline_depth c = 0
          then False
          else list_all (valid_resource mode) (declared c))"

definition pipeline_resource_copy_count :: "PipelineContract \<Rightarrow> PipelineResource \<Rightarrow> u32" where
  "pipeline_resource_copy_count c r =
     (if pr_resource_class r = PTO_PIPELINE_HOST_PER_RUN then pc_pipeline_depth c else 1)"

definition pipeline_resource_slot :: "PipelineContract \<Rightarrow> PipelineResource \<Rightarrow> PipelineSlotLease \<Rightarrow> u32" where
  "pipeline_resource_slot c r lease = (if pipeline_resource_copy_count c r = 1 then 0 else pl_slot_id lease)"

definition find_pipeline_resource :: "PipelineContract \<Rightarrow> u32 \<Rightarrow> PipelineResource option" where
  "find_pipeline_resource c kind = find (\<lambda>r. pr_kind r = kind) (declared c)"

text \<open>The loop over the arena kinds carries the copy count seen so far.\<close>

fun arena_kinds_ok :: "PipelineContract \<Rightarrow> u32 list \<Rightarrow> u32 option \<Rightarrow> bool" where
  "arena_kinds_ok c [] shared = True"
| "arena_kinds_ok c (kind # kinds) shared =
     (let matching = filter (\<lambda>r. pr_kind r = kind) (declared c) in
      if length matching > 1 then False
      else if matching = [] then arena_kinds_ok c kinds shared
      else let copies = pipeline_resource_copy_count c (last matching) in
           if (case shared of Some s \<Rightarrow> copies \<noteq> s | None \<Rightarrow> False) then False
           else arena_kinds_ok c kinds (Some copies))"

definition has_serviceable_arena_topology :: "PipelineContract \<Rightarrow> bool" where
  "has_serviceable_arena_topology c =
     arena_kinds_ok c [PTO_PIPELINE_GM_HEAP, PTO_PIPELINE_GM_SM, PTO_PIPELINE_RUNTIME_IMAGE] None"

definition stream_kind_ok :: "PipelineContract \<Rightarrow> u32 \<Rightarrow> bool" where
  "stream_kind_ok c kind =
     (let matching = filter (\<lambda>r. pr_kind r = kind) (declared c) in
      if list_ex (\<lambda>r. pr_resource_class r \<noteq> PTO_PIPELINE_EXEC_HANDLE) matching then False
      else length matching = 1)"

definition has_serviceable_stream_topology :: "PipelineContract \<Rightarrow> bool" where
  "has_serviceable_stream_topology c =
     (if pc_resource_count c > PTO_PIPELINE_MAX_RESOURCES then False
      else list_all (stream_kind_ok c) [PTO_PIPELINE_AICPU_STREAM, PTO_PIPELINE_AICORE_STREAM])"

definition required_storage :: "(u32 \<times> u32) list" where
  "required_storage = [(PTO_PIPELINE_GM_HEAP, PTO_PIPELINE_DEVICE_SCRATCH), (PTO_PIPELINE_GM_SM, PTO_PIPELINE_DEVICE_SCRATCH),
     (PTO_PIPELINE_RUNTIME_IMAGE, PTO_PIPELINE_DEVICE_SCRATCH), (PTO_PIPELINE_TASK_ARGS, PTO_PIPELINE_HOST_PER_RUN)]"

definition is_valid_tmr_kernel_pipeline_contract :: "PipelineContract option \<Rightarrow> bool" where
  "is_valid_tmr_kernel_pipeline_contract contract =
     (case contract of
        None \<Rightarrow> False
      | Some c \<Rightarrow>
          if \<not> is_valid_pipeline_contract contract SIMPLER_MODE_KERNEL \<or> pc_resource_count c \<noteq> 6 \<or>
             \<not> has_serviceable_arena_topology c \<or> \<not> has_serviceable_stream_topology c
          then False
          else list_all (\<lambda>(kind, cls). case find_pipeline_resource c kind of
                 None \<Rightarrow> False
               | Some r \<Rightarrow> pr_resource_class r = cls \<and> pr_bytes_per_copy r \<noteq> 0) required_storage)"

section \<open>What an admitted contract declares\<close>

definition kind_count :: "PipelineContract \<Rightarrow> u32 \<Rightarrow> nat" where
  "kind_count c kind = length (filter (\<lambda>r. pr_kind r = kind) (declared c))"

lemma arena_kinds_once: "arena_kinds_ok c kinds shared \<Longrightarrow> k \<in> set kinds \<Longrightarrow> kind_count c k \<le> 1"
  by (induction c kinds shared rule: arena_kinds_ok.induct)
    (auto simp: kind_count_def Let_def not_less split: if_splits option.splits)

lemma arena_copies_equal:
  "arena_kinds_ok c kinds shared \<Longrightarrow> k \<in> set kinds \<Longrightarrow> r \<in> set (declared c) \<Longrightarrow> pr_kind r = k \<Longrightarrow>
   shared = Some s \<Longrightarrow> pipeline_resource_copy_count c r = s"
proof (induction c kinds shared rule: arena_kinds_ok.induct)
  case (2 c kind kinds shared)
  let ?m = "filter (\<lambda>r. pr_kind r = kind) (declared c)"
  show ?case
  proof (cases "?m = []")
    case True
    then have "k \<noteq> kind" using 2(5,6) by (auto simp: filter_empty_conv)
    then show ?thesis using 2 True by (simp add: Let_def)
  next
    case False
    then have len: "length ?m = 1" using 2(3) by (cases ?m) (auto simp: Let_def split: if_splits)
    have cont: "arena_kinds_ok c kinds (Some (pipeline_resource_copy_count c (last ?m)))"
      "pipeline_resource_copy_count c (last ?m) = s"
      using 2(3,7) False len by (auto simp: Let_def split: if_splits)
    show ?thesis
    proof (cases "k = kind")
      case True
      then have "r \<in> set ?m" using 2(5,6) by simp
      then have "last ?m = r" using len by (cases ?m) auto
      then show ?thesis using cont by simp
    next
      case False
      then show ?thesis
        using 2(2) [OF refl] len cont 2(4-7) \<open>?m \<noteq> []\<close> by auto
    qed
  qed
qed simp

lemma kinds_total:
  "length (declared c) = (\<Sum>k\<in>{1, 2, 3, 4, 5, 6}. kind_count c k)"
  if "list_all (\<lambda>r. pr_kind r \<in> {1, 2, 3, 4, 5, 6}) (declared c)" for c
proof -
  have "list_all (\<lambda>r. pr_kind r \<in> {1, 2, 3, 4, 5, 6}) rs \<Longrightarrow>
      length rs = (\<Sum>k\<in>{1, 2, 3, 4, 5, 6 :: u32}. length (filter (\<lambda>r. pr_kind r = k) rs))" for rs
    by (induction rs) auto
  then show ?thesis using that by (simp add: kind_count_def)
qed

lemma valid_kind: "valid_resource mode r \<Longrightarrow> pr_kind r \<in> {1, 2, 3, 4, 5, 6}"
proof -
  assume "valid_resource mode r"
  then have "unat (pr_kind r) \<noteq> 0" "unat (pr_kind r) \<le> 6"
    by (auto simp: valid_resource_def word_less_nat_alt unat_eq_0)
  then have "unat (pr_kind r) \<in> {1, 2, 3, 4, 5, 6}" by auto
  then show ?thesis by (auto simp: word_unat_eq_iff)
qed

lemma find_count: "find_pipeline_resource c k = Some r \<Longrightarrow> 1 \<le> kind_count c k"
  by (auto simp: find_pipeline_resource_def kind_count_def find_Some_iff Suc_le_eq filter_empty_conv
      dest: nth_mem)

lemma count_map_filter: "count (mset (map f xs)) k = length (filter (\<lambda>x. f x = k) xs)"
  by (induction xs) auto

lemma tmr_counts:
  assumes "is_valid_tmr_kernel_pipeline_contract (Some c)" "contract_wf c" "k \<in> {1, 2, 3, 4, 5, 6}"
  shows "kind_count c k = 1"
proof -
  have v: "is_valid_pipeline_contract (Some c) SIMPLER_MODE_KERNEL" "pc_resource_count c = 6"
    "has_serviceable_arena_topology c" "has_serviceable_stream_topology c"
    and req: "list_all (\<lambda>(kind, cls). case find_pipeline_resource c kind of
      None \<Rightarrow> False | Some r \<Rightarrow> pr_resource_class r = cls \<and> pr_bytes_per_copy r \<noteq> 0) required_storage"
    using assms(1) by (auto simp: is_valid_tmr_kernel_pipeline_contract_def split: if_splits)
  have "list_all (\<lambda>r. pr_kind r \<in> {1, 2, 3, 4, 5, 6}) (declared c)"
    using v(1) valid_kind by (auto simp: is_valid_pipeline_contract_def list_all_iff split: if_splits)
  moreover have "length (declared c) = 6" using v(2) assms(2) by (simp add: declared_def contract_wf_def)
  ultimately have total: "(\<Sum>k\<in>{1, 2, 3, 4, 5, 6}. kind_count c k) = 6" using kinds_total by metis
  have "kind_count c k \<le> 1" if "k \<in> {1, 2, 3}" for k
    using v(3) arena_kinds_once that unfolding has_serviceable_arena_topology_def by fastforce
  then have le: "kind_count c 1 \<le> 1" "kind_count c 2 \<le> 1" "kind_count c 3 \<le> 1" by auto
  have ge: "1 \<le> kind_count c k" if "k \<in> {1, 2, 3, 4}" for k
    using req that find_count [of c k] by (auto simp: required_storage_def split: option.splits)
  then have "1 \<le> kind_count c 1" "1 \<le> kind_count c 2" "1 \<le> kind_count c 3" "1 \<le> kind_count c 4" by auto
  moreover have "kind_count c 5 = 1" "kind_count c 6 = 1"
    using v(4) by (auto simp: has_serviceable_stream_topology_def stream_kind_ok_def kind_count_def Let_def split: if_splits)
  ultimately show ?thesis using le total assms(3) by auto
qed

lemma slot_below_copies:
  assumes "unat (pl_slot_id lease) < unat (pc_pipeline_depth c)"
  shows "pipeline_resource_slot c r lease < pipeline_resource_copy_count c r"
  using assms by (auto simp: pipeline_resource_slot_def pipeline_resource_copy_count_def word_less_nat_alt)

section \<open>Properties\<close>

text \<open>What a resource declares: its kind, its class, and whether it has a size.\<close>

definition declares :: "PipelineResource \<Rightarrow> u32 \<times> u32 \<times> bool" where
  "declares r = (pr_kind r, pr_resource_class r, pr_bytes_per_copy r \<noteq> 0)"

definition tmr_declaration :: "(u32 \<times> u32 \<times> bool) multiset" where
  "tmr_declaration = {#(PTO_PIPELINE_GM_HEAP, PTO_PIPELINE_DEVICE_SCRATCH, True), (PTO_PIPELINE_GM_SM, PTO_PIPELINE_DEVICE_SCRATCH, True),
     (PTO_PIPELINE_RUNTIME_IMAGE, PTO_PIPELINE_DEVICE_SCRATCH, True), (PTO_PIPELINE_TASK_ARGS, PTO_PIPELINE_HOST_PER_RUN, True),
     (PTO_PIPELINE_AICPU_STREAM, PTO_PIPELINE_EXEC_HANDLE, False), (PTO_PIPELINE_AICORE_STREAM, PTO_PIPELINE_EXEC_HANDLE, False)#}"

lemma declaration_by_kind:
  "list_all (\<lambda>r. pr_kind r \<in> {1, 2, 3, 4, 5, 6}) rs \<Longrightarrow>
    mset (map declares rs) = (\<Sum>k\<in>{1, 2, 3, 4, 5, 6}. mset (map declares (filter (\<lambda>r. pr_kind r = k) rs)))"
  by (induction rs) auto

lemma kind_once:
  assumes "kind_count c k = 1"
  obtains r where "filter (\<lambda>r. pr_kind r = k) (declared c) = [r]" "r \<in> set (declared c)" "pr_kind r = k"
proof -
  obtain r where r: "filter (\<lambda>r. pr_kind r = k) (declared c) = [r]" using assms by (auto simp: kind_count_def length_Suc_conv)
  then have "r \<in> set (filter (\<lambda>r. pr_kind r = k) (declared c))" by simp
  then show thesis using that [OF r] by simp
qed

lemma find_filter: "find P xs = (case filter P xs of [] \<Rightarrow> None | x # _ \<Rightarrow> Some x)"
  by (induction xs) auto

lemma tmr_storage:
  assumes v: "is_valid_tmr_kernel_pipeline_contract (Some c)" and once: "kind_count c k = 1" and k: "(k, cls) \<in> set required_storage"
  shows "mset (map declares (filter (\<lambda>r. pr_kind r = k) (declared c))) = {#(k, cls, True)#}"
proof -
  obtain r where r: "filter (\<lambda>r. pr_kind r = k) (declared c) = [r]" "pr_kind r = k" by (rule kind_once [OF once])
  have "list_all (\<lambda>(kind, cls). case find_pipeline_resource c kind of
      None \<Rightarrow> False | Some r \<Rightarrow> pr_resource_class r = cls \<and> pr_bytes_per_copy r \<noteq> 0) required_storage"
    using v by (auto simp: is_valid_tmr_kernel_pipeline_contract_def split: if_splits)
  then have "case find_pipeline_resource c k of None \<Rightarrow> False | Some r \<Rightarrow> pr_resource_class r = cls \<and> pr_bytes_per_copy r \<noteq> 0"
    using k by (auto simp: list_all_iff)
  then show ?thesis using r by (simp add: find_pipeline_resource_def find_filter declares_def)
qed

lemma tmr_stream:
  assumes v: "is_valid_tmr_kernel_pipeline_contract (Some c)" and once: "kind_count c k = 1"
    and k: "k \<in> {PTO_PIPELINE_AICPU_STREAM, PTO_PIPELINE_AICORE_STREAM}"
  shows "mset (map declares (filter (\<lambda>r. pr_kind r = k) (declared c))) = {#(k, PTO_PIPELINE_EXEC_HANDLE, False)#}"
proof -
  obtain r where r: "filter (\<lambda>r. pr_kind r = k) (declared c) = [r]" "r \<in> set (declared c)" "pr_kind r = k" by (rule kind_once [OF once])
  have s: "has_serviceable_stream_topology c" and "is_valid_pipeline_contract (Some c) SIMPLER_MODE_KERNEL"
    using v by (auto simp: is_valid_tmr_kernel_pipeline_contract_def split: if_splits)
  then have "valid_resource SIMPLER_MODE_KERNEL r" using r(2) by (auto simp: is_valid_pipeline_contract_def list_all_iff split: if_splits)
  moreover have "stream_kind_ok c k" using s k by (auto simp: has_serviceable_stream_topology_def split: if_splits)
  then have "pr_resource_class r = PTO_PIPELINE_EXEC_HANDLE" using r(1) by (simp add: stream_kind_ok_def Let_def split: if_splits)
  ultimately show ?thesis using r by (simp add: valid_resource_def declares_def)
qed

lemma tmr_declares:
  assumes v: "is_valid_tmr_kernel_pipeline_contract (Some c)" and wf: "contract_wf c"
  shows "mset (map declares (declared c)) = tmr_declaration"
proof -
  note once = tmr_counts [OF v wf]
  have "list_all (valid_resource SIMPLER_MODE_KERNEL) (declared c)"
    using v by (auto simp: is_valid_tmr_kernel_pipeline_contract_def is_valid_pipeline_contract_def split: if_splits)
  then have "list_all (\<lambda>r. pr_kind r \<in> {1, 2, 3, 4, 5, 6}) (declared c)" using valid_kind unfolding list_all_iff by blast
  then show ?thesis
    using tmr_storage [OF v once, of 1 1] tmr_storage [OF v once, of 2 1] tmr_storage [OF v once, of 3 1] tmr_storage [OF v once, of 4 0]
      tmr_stream [OF v once, of 5] tmr_stream [OF v once, of 6]
    by (subst declaration_by_kind) (simp_all add: tmr_declaration_def required_storage_def)
qed

lemma declared_once:
  assumes m: "mset (map declares (declared c)) = tmr_declaration" and t: "filter_mset (\<lambda>t. fst t = k) tmr_declaration = {#(k, cls, sized)#}"
  obtains r where "filter (\<lambda>r. pr_kind r = k) (declared c) = [r]" "declares r = (k, cls, sized)"
proof -
  have "mset (map declares (filter (\<lambda>r. pr_kind r = k) (declared c))) = filter_mset (\<lambda>t. fst t = k) (mset (map declares (declared c)))"
    by (simp add: declares_def filter_mset_image_mset)
  then have e: "mset (map declares (filter (\<lambda>r. pr_kind r = k) (declared c))) = {#(k, cls, sized)#}" using m t by simp
  then show thesis using that by (cases "filter (\<lambda>r. pr_kind r = k) (declared c)") auto
qed

lemma declaration_serviceable:
  assumes "mset (map declares (declared c)) = tmr_declaration" "pc_resource_count c = 6"
  shows "has_serviceable_arena_topology c" "has_serviceable_stream_topology c"
    "list_all (\<lambda>(kind, cls). case find_pipeline_resource c kind of
      None \<Rightarrow> False | Some r \<Rightarrow> pr_resource_class r = cls \<and> pr_bytes_per_copy r \<noteq> 0) required_storage"
proof -
  note once = declared_once [OF assms(1)]
  obtain r1 where r1: "filter (\<lambda>r. pr_kind r = 1) (declared c) = [r1]" "declares r1 = (1, 1, True)"
    by (rule once [of 1 1 True]) (simp_all add: tmr_declaration_def)
  obtain r2 where r2: "filter (\<lambda>r. pr_kind r = 2) (declared c) = [r2]" "declares r2 = (2, 1, True)"
    by (rule once [of 2 1 True]) (simp_all add: tmr_declaration_def)
  obtain r3 where r3: "filter (\<lambda>r. pr_kind r = 3) (declared c) = [r3]" "declares r3 = (3, 1, True)"
    by (rule once [of 3 1 True]) (simp_all add: tmr_declaration_def)
  obtain r4 where r4: "filter (\<lambda>r. pr_kind r = 4) (declared c) = [r4]" "declares r4 = (4, 0, True)"
    by (rule once [of 4 0 True]) (simp_all add: tmr_declaration_def)
  obtain r5 where r5: "filter (\<lambda>r. pr_kind r = 5) (declared c) = [r5]" "declares r5 = (5, 2, False)"
    by (rule once [of 5 2 False]) (simp_all add: tmr_declaration_def)
  obtain r6 where r6: "filter (\<lambda>r. pr_kind r = 6) (declared c) = [r6]" "declares r6 = (6, 2, False)"
    by (rule once [of 6 2 False]) (simp_all add: tmr_declaration_def)
  show "has_serviceable_arena_topology c"
    using r1 r2 r3 by (simp add: has_serviceable_arena_topology_def pipeline_resource_copy_count_def declares_def Let_def)
  show "has_serviceable_stream_topology c"
    using r5 r6 assms(2) by (simp add: has_serviceable_stream_topology_def stream_kind_ok_def declares_def Let_def)
  show "list_all (\<lambda>(kind, cls). case find_pipeline_resource c kind of
      None \<Rightarrow> False | Some r \<Rightarrow> pr_resource_class r = cls \<and> pr_bytes_per_copy r \<noteq> 0) required_storage"
    using r1 r2 r3 r4 by (simp add: required_storage_def find_pipeline_resource_def find_filter declares_def)
qed

lemma declaration_valid:
  assumes "mset (map declares (declared c)) = tmr_declaration"
  shows "list_all (valid_resource SIMPLER_MODE_KERNEL) (declared c)"
proof -
  have "set (map declares (declared c)) = set_mset tmr_declaration" using assms by (metis set_mset_mset)
  then have "declares r \<in> set_mset tmr_declaration" if "r \<in> set (declared c)" for r using that by auto
  then show ?thesis by (fastforce simp: list_all_iff valid_resource_def declares_def tmr_declaration_def word_less_nat_alt)
qed

text \<open>
  C31: which contracts are admitted for a tensormap-and-ringbuffer kernel. A contract is admitted exactly when its version is
  the supported one, its depth is not zero and its declared entries are, in any order, the six resource kinds once each:
  heap, shared memory and runtime image as device scratch and the task arguments per run, all with a size, and the two
  streams as execution handles without one. The code only checks a count of six, two topologies and the presence of four kinds.
\<close>

theorem tmr_contract_exact:
  assumes "contract_wf c"
  shows "is_valid_tmr_kernel_pipeline_contract (Some c) \<longleftrightarrow>
    pc_abi_version c = PTO_PIPELINE_CONTRACT_ABI_VERSION \<and> pc_resource_count c = 6 \<and> pc_pipeline_depth c \<noteq> 0 \<and>
    mset (map (\<lambda>r. (pr_kind r, pr_resource_class r, pr_bytes_per_copy r \<noteq> 0)) (declared c)) =
      {#(PTO_PIPELINE_GM_HEAP, PTO_PIPELINE_DEVICE_SCRATCH, True), (PTO_PIPELINE_GM_SM, PTO_PIPELINE_DEVICE_SCRATCH, True),
        (PTO_PIPELINE_RUNTIME_IMAGE, PTO_PIPELINE_DEVICE_SCRATCH, True), (PTO_PIPELINE_TASK_ARGS, PTO_PIPELINE_HOST_PER_RUN, True),
        (PTO_PIPELINE_AICPU_STREAM, PTO_PIPELINE_EXEC_HANDLE, False), (PTO_PIPELINE_AICORE_STREAM, PTO_PIPELINE_EXEC_HANDLE, False)#}"
proof -
  have "is_valid_tmr_kernel_pipeline_contract (Some c) \<longleftrightarrow>
    pc_abi_version c = PTO_PIPELINE_CONTRACT_ABI_VERSION \<and> pc_resource_count c = 6 \<and> pc_pipeline_depth c \<noteq> 0 \<and>
    mset (map declares (declared c)) = tmr_declaration" (is "?valid \<longleftrightarrow> ?spec")
  proof
    assume v: ?valid
    then show ?spec
      using tmr_declares [OF v assms]
      by (auto simp: is_valid_tmr_kernel_pipeline_contract_def is_valid_pipeline_contract_def split: if_splits)
  next
    assume ?spec
    then show ?valid
      using declaration_serviceable [of c] declaration_valid [of c]
      by (simp add: is_valid_tmr_kernel_pipeline_contract_def is_valid_pipeline_contract_def)
  qed
  then show ?thesis by (simp add: declares_def [abs_def] tmr_declaration_def)
qed

abbreviation sample_resource :: "u32 \<Rightarrow> u32 \<Rightarrow> u64 \<Rightarrow> PipelineResource" where
  "sample_resource k cls n \<equiv> \<lparr>pr_kind = k, pr_resource_class = cls, pr_bytes_per_copy = n\<rparr>"

definition sample_contract :: PipelineContract where
  "sample_contract = \<lparr>pc_abi_version = 1, pc_resource_count = 6, pc_pipeline_depth = 2,
     pc_resources = [sample_resource 1 1 4096, sample_resource 2 1 4096, sample_resource 3 1 512, sample_resource 4 0 64,
       sample_resource 5 2 0, sample_resource 6 2 0, sample_resource 0 0 0, sample_resource 0 0 0]\<rparr>"

theorem tmr_contract_exact_witness: "is_valid_tmr_kernel_pipeline_contract (Some sample_contract)"
proof -
  have "contract_wf sample_contract" by (simp add: contract_wf_def sample_contract_def)
  from tmr_contract_exact [OF this] show ?thesis by (simp add: sample_contract_def declared_def)
qed

text \<open>
  A lease below the pipeline depth always selects an existing copy of a resource, and two leases of
  different slots share a copy only of a resource that is not per-run. Execution handles have a single copy.
\<close>

theorem lease_selects_existing_copy:
  assumes "is_valid_pipeline_contract (Some c) mode"
    and "pl_slot_id l < pc_pipeline_depth c" "pl_slot_id l' < pc_pipeline_depth c" "pl_slot_id l \<noteq> pl_slot_id l'"
  shows "pipeline_resource_slot c r l < pipeline_resource_copy_count c r \<and>
    (pipeline_resource_slot c r l = pipeline_resource_slot c r l' \<longleftrightarrow> pr_resource_class r \<noteq> PTO_PIPELINE_HOST_PER_RUN)"
proof -
  have "pc_pipeline_depth c \<noteq> 1"
    using assms(2-4) by (auto simp: word_less_nat_alt unat_eq_0 [symmetric] word_unat_eq_iff)
  then show ?thesis
    using assms slot_below_copies [of l c r]
    by (auto simp: word_less_nat_alt pipeline_resource_slot_def pipeline_resource_copy_count_def)
qed

theorem lease_selects_existing_copy_witness:
  "pipeline_resource_slot sample_contract (sample_resource 4 0 64) \<lparr>pl_slot_id = 1, pl_reserved = 0, pl_generation = 3\<rparr> < 2"
proof -
  have "is_valid_pipeline_contract (Some sample_contract) 1"
    by (simp add: sample_contract_def is_valid_pipeline_contract_def valid_resource_def declared_def)
  from lease_selects_existing_copy [OF this, of "\<lparr>pl_slot_id = 1, pl_reserved = 0, pl_generation = 3\<rparr>"
      "\<lparr>pl_slot_id = 0, pl_reserved = 0, pl_generation = 1\<rparr>" "sample_resource 4 0 64"]
  show ?thesis by (simp add: sample_contract_def pipeline_resource_copy_count_def)
qed

end
