(* ===== verification/Task_Slot.thy ===== *)
theory Task_Slot
  imports Tensor_Map Run_Arena Ready_Queue
begin

text \<open>
  The per-task bookkeeping of \<open>common/hierarchical/types.h\<close> and \<open>types.cpp\<close>
  (\<open>TaskSlotState\<close>, the readiness and failure claims, the group marking) and the group
  aggregation of \<open>Scheduler::worker_done\<close> and its helpers in \<open>scheduler.cpp\<close>.

  Each operation is one critical section of the source (\<open>fanout_mu\<close> or \<open>group_mu\<close>), so it is one
  atomic function on the slot record here. The payload of a task (its callable, configuration, arguments,
  sidecars) is a parameter: no operation of this component reads it except the number of group members.
\<close>

section \<open>Data\<close>

datatype TaskState = FREE | PENDING | READY | RUNNING | COMPLETED | FAILED | CONSUMED | BUILDING

datatype EndpointOutcome = SUCCESS | TASK_FAILURE | ENDPOINT_FAILURE | SKIPPED

datatype GroupMemberState = GM_NOT_DISPATCHED | GM_RUNNING | GM_SUCCESS | GM_FAILED | GM_SKIPPED

datatype WorkerType = NEXT_LEVEL | SUB

abbreviation no_lease :: PipelineSlotLease where
  "no_lease \<equiv> \<lparr>pl_slot_id = 0, pl_reserved = 0, pl_generation = 0\<rparr>"

record TaskSlotState =
  ts_state :: TaskState
  ts_run_id :: RunId
  ts_pipeline_lease :: PipelineSlotLease
  ts_fanin_count :: int
  ts_fanin_released :: int
  ts_failure_propagation_pending :: bool
  ts_fanout_consumers :: "TaskSlot list"
  ts_fanout_total :: int
  ts_fanout_released :: int
  ts_output_keys :: "TensorKey list"
  ts_target_worker_ids :: "WorkerId list"
  ts_fanin_producers :: "TaskSlot list"
  ts_failure_message :: string
  ts_worker_type :: WorkerType
  ts_is_group :: bool
  ts_group_args :: nat
  ts_group_member_states :: "GroupMemberState list"
  ts_group_member_outcomes :: "EndpointOutcome list"
  ts_group_terminal_count :: int
  ts_group_failed :: bool
  ts_group_first_failure_index :: int
  ts_group_first_failure_message :: string

text \<open>\<open>ts_group_args\<close> is \<open>task_args_list.size()\<close>.\<close>

definition group_size :: "TaskSlotState \<Rightarrow> nat" where
  "group_size s = (if ts_is_group s then ts_group_args s else 1)"

definition fresh_slot :: TaskSlotState where
  "fresh_slot = \<lparr>ts_state = FREE, ts_run_id = INVALID_RUN_ID, ts_pipeline_lease = no_lease, ts_fanin_count = 0,
     ts_fanin_released = 0, ts_failure_propagation_pending = False, ts_fanout_consumers = [], ts_fanout_total = 0,
     ts_fanout_released = 0, ts_output_keys = [], ts_target_worker_ids = [], ts_fanin_producers = [],
     ts_failure_message = [], ts_worker_type = NEXT_LEVEL, ts_is_group = False, ts_group_args = 0,
     ts_group_member_states = [], ts_group_member_outcomes = [], ts_group_terminal_count = 0, ts_group_failed = False,
     ts_group_first_failure_index = -1, ts_group_first_failure_message = []\<rparr>"

section \<open>Readiness and failure claims\<close>

definition slot_reset :: "TaskSlotState \<Rightarrow> TaskSlotState" where
  "slot_reset s = s\<lparr>ts_state := FREE, ts_run_id := INVALID_RUN_ID, ts_pipeline_lease := no_lease,
     ts_fanin_count := 0, ts_fanin_released := 0, ts_failure_propagation_pending := False,
     ts_fanout_consumers := [], ts_fanout_total := 0, ts_fanout_released := 0, ts_output_keys := [],
     ts_fanin_producers := [], ts_failure_message := [], ts_worker_type := NEXT_LEVEL,
     ts_group_args := 0, ts_is_group := False, ts_target_worker_ids := [],
     ts_group_member_states := [], ts_group_member_outcomes := [], ts_group_failed := False,
     ts_group_first_failure_index := -1, ts_group_first_failure_message := [], ts_group_terminal_count := 0\<rparr>"

definition try_mark_ready :: "TaskSlotState \<Rightarrow> TaskSlotState \<times> bool" where
  "try_mark_ready s =
     (if ts_state s \<noteq> PENDING then (s, False)
      else if ts_fanin_released s < ts_fanin_count s then (s, False)
      else (s\<lparr>ts_state := READY\<rparr>, True))"

text \<open>
  The compare-exchange loop runs under \<open>fanout_mu\<close>, which every writer of a claimable state holds (the
  dispatch claim apart), so it succeeds in its first pass.
\<close>

definition claim_task_failure :: "TaskSlotState \<Rightarrow> string \<Rightarrow> TaskSlotState \<times> TaskState option" where
  "claim_task_failure s message =
     (let current = ts_state s in
      if current = PENDING \<or> current = READY \<or> current = BUILDING then
        (s\<lparr>ts_state := FAILED, ts_failure_message := message,
           ts_failure_propagation_pending := (current = BUILDING \<or> ts_failure_propagation_pending s)\<rparr>, Some current)
      else (s, None))"

definition commit_failure_propagation :: "TaskSlotState \<Rightarrow> TaskSlotState \<times> bool" where
  "commit_failure_propagation s = (s\<lparr>ts_failure_propagation_pending := False\<rparr>, ts_failure_propagation_pending s)"

definition claim_for_dispatch :: "TaskSlotState \<Rightarrow> TaskSlotState \<times> bool" where
  "claim_for_dispatch s = (if ts_state s = READY then (s\<lparr>ts_state := RUNNING\<rparr>, True) else (s, False))"

text \<open>
  Step 6 of \<open>submit_impl\<close>: the fan-in count and the transition out of \<open>BUILDING\<close>, under \<open>fanout_mu\<close>. The first
  flag says that the slot left \<open>BUILDING\<close>, the second that it left it ready.
\<close>

definition publish_slot :: "TaskSlotState \<Rightarrow> int \<Rightarrow> TaskSlotState \<times> bool \<times> bool" where
  "publish_slot s live_fanins =
     (let s = s\<lparr>ts_fanin_count := live_fanins\<rparr>;
          satisfied = (ts_fanin_released s \<ge> live_fanins)
      in if ts_state s = BUILDING then (s\<lparr>ts_state := (if satisfied then READY else PENDING)\<rparr>, True, satisfied)
         else (s, False, False))"

section \<open>Groups\<close>

definition is_failure :: "EndpointOutcome \<Rightarrow> bool" where
  "is_failure out \<longleftrightarrow> out = TASK_FAILURE \<or> out = ENDPOINT_FAILURE"

definition is_terminal_group_state :: "GroupMemberState \<Rightarrow> bool" where
  "is_terminal_group_state st \<longleftrightarrow> st = GM_SUCCESS \<or> st = GM_FAILED \<or> st = GM_SKIPPED"

text \<open>\<open>assign(size, fill)\<close> followed by \<open>copy_n\<close> of what exists.\<close>

definition resized :: "nat \<Rightarrow> 'a \<Rightarrow> 'a list \<Rightarrow> 'a list" where
  "resized n fill xs = take n xs @ replicate (n - length xs) fill"

fun skip_members ::
  "(GroupMemberState \<Rightarrow> bool) \<Rightarrow> GroupMemberState list \<Rightarrow> EndpointOutcome list \<Rightarrow>
   GroupMemberState list \<times> EndpointOutcome list \<times> int" where
  "skip_members skip (st # sts) (out # outs) =
     (let (sts', outs', n) = skip_members skip sts outs in
      if skip st then (GM_SKIPPED # sts', SKIPPED # outs', n + 1) else (st # sts', out # outs', n))"
| "skip_members skip sts outs = (sts, outs, 0)"

definition mark_group_members_skipped :: "TaskSlotState \<Rightarrow> string \<Rightarrow> TaskSlotState" where
  "mark_group_members_skipped s message =
     (if \<not> ts_is_group s then s
      else
        let n = group_size s;
            repair = (length (ts_group_member_states s) \<noteq> n \<or> length (ts_group_member_outcomes s) \<noteq> n);
            states = (if repair then resized n GM_NOT_DISPATCHED (ts_group_member_states s) else ts_group_member_states s);
            outcomes = (if repair then resized n SKIPPED (ts_group_member_outcomes s) else ts_group_member_outcomes s);
            (states', outcomes', skipped) = skip_members (\<lambda>st. \<not> is_terminal_group_state st) states outcomes
        in s\<lparr>ts_group_member_states := states', ts_group_member_outcomes := outcomes',
             ts_group_terminal_count := ts_group_terminal_count s + skipped,
             ts_group_first_failure_index := (if ts_group_failed s then ts_group_first_failure_index s else -1),
             ts_group_first_failure_message := (if ts_group_failed s then ts_group_first_failure_message s else message),
             ts_group_failed := True\<rparr>)"

text \<open>
  \<open>prepare_group_vectors_locked\<close> followed by \<open>commit_group_vectors_locked\<close>: \<open>None\<close> is the empty
  \<open>PreparedGroupVectors\<close>.
\<close>

definition prepare_group_vectors ::
  "TaskSlotState \<Rightarrow> GroupMemberState \<Rightarrow> (GroupMemberState list \<times> EndpointOutcome list \<times> int) option" where
  "prepare_group_vectors s init =
     (let n = group_size s in
      if length (ts_group_member_states s) = n \<and> length (ts_group_member_outcomes s) = n then None
      else
        let states = resized n init (ts_group_member_states s);
            outcomes = resized n SKIPPED (ts_group_member_outcomes s)
        in Some (states, outcomes, int (length (filter is_terminal_group_state states))))"

definition commit_group_vectors ::
  "TaskSlotState \<Rightarrow> (GroupMemberState list \<times> EndpointOutcome list \<times> int) option \<Rightarrow> TaskSlotState" where
  "commit_group_vectors s prepared =
     (case prepared of
        None \<Rightarrow> s
      | Some (states, outcomes, n) \<Rightarrow>
          if states = [] then s
          else s\<lparr>ts_group_member_states := states, ts_group_member_outcomes := outcomes, ts_group_terminal_count := n\<rparr>)"

definition reset_group_state :: "TaskSlotState \<Rightarrow> GroupMemberState \<Rightarrow> TaskSlotState" where
  "reset_group_state s init =
     s\<lparr>ts_group_member_states := map (\<lambda>_. init) (ts_group_member_states s),
       ts_group_member_outcomes := map (\<lambda>_. SKIPPED) (ts_group_member_outcomes s),
       ts_group_terminal_count := 0, ts_group_failed := False, ts_group_first_failure_index := -1,
       ts_group_first_failure_message := []\<rparr>"

record WorkerCompletion =
  wc_task_slot :: TaskSlot
  wc_group_index :: int
  wc_outcome :: EndpointOutcome
  wc_error_message :: string
  wc_worker_id :: WorkerId
  wc_admissible_run_resource_sets :: u32

text \<open>
  The group part of \<open>worker_done\<close> under \<open>group_mu\<close>: the updated slot and, once every member is terminal, the
  completion to queue for the group (\<open>None\<close> is the early return that only wakes the scheduler).
\<close>

definition out_of_range_message :: "int \<Rightarrow> int \<Rightarrow> string" where
  "out_of_range_message index n =
     ''Scheduler::worker_done: group_index '' @ to_string index @ '' out of range for group_size '' @ to_string n"

definition record_member :: "TaskSlotState \<Rightarrow> nat \<Rightarrow> EndpointOutcome \<Rightarrow> string \<Rightarrow> TaskSlotState" where
  "record_member s i out msg =
     (let s = (if out = SUCCESS then s\<lparr>ts_group_member_states := (ts_group_member_states s)[i := GM_SUCCESS]\<rparr>
               else s\<lparr>ts_group_member_states := (ts_group_member_states s)[i := GM_FAILED],
                      ts_group_first_failure_index := (if ts_group_failed s then ts_group_first_failure_index s else int i),
                      ts_group_first_failure_message := (if ts_group_failed s then ts_group_first_failure_message s else msg),
                      ts_group_failed := True\<rparr>)
      in s\<lparr>ts_group_member_outcomes := (ts_group_member_outcomes s)[i := out],
           ts_group_terminal_count := ts_group_terminal_count s + 1\<rparr>)"

definition skip_after_failure :: "TaskSlotState \<Rightarrow> bool \<Rightarrow> TaskSlotState" where
  "skip_after_failure s invalid =
     (if ts_group_failed s then
        let (states, outcomes, skipped) =
              skip_members (\<lambda>st. \<not> is_terminal_group_state st \<and> (invalid \<or> st = GM_NOT_DISPATCHED))
                (ts_group_member_states s) (ts_group_member_outcomes s)
        in s\<lparr>ts_group_member_states := states, ts_group_member_outcomes := outcomes,
             ts_group_terminal_count := ts_group_terminal_count s + skipped\<rparr>
      else s)"

definition group_verdict :: "TaskSlotState \<Rightarrow> WorkerCompletion \<Rightarrow> WorkerCompletion" where
  "group_verdict s c =
     (if ts_group_failed s then
        let k = ts_group_first_failure_index s;
            member = (if 0 \<le> k \<and> k < int (group_size s) then Some (ts_group_member_outcomes s ! nat k) else None)
        in c\<lparr>wc_group_index := k,
             wc_outcome := (case member of Some out \<Rightarrow> if is_failure out then out else TASK_FAILURE | None \<Rightarrow> TASK_FAILURE),
             wc_error_message := ts_group_first_failure_message s\<rparr>
      else c\<lparr>wc_outcome := SUCCESS, wc_error_message := []\<rparr>)"

definition group_member_done :: "TaskSlotState \<Rightarrow> WorkerCompletion \<Rightarrow> TaskSlotState \<times> WorkerCompletion option" where
  "group_member_done s c =
     (let n = group_size s;
          s = commit_group_vectors s (prepare_group_vectors s GM_NOT_DISPATCHED);
          invalid = (wc_group_index c < 0 \<or> wc_group_index c \<ge> int n);
          terminal = (if invalid then c\<lparr>wc_outcome := ENDPOINT_FAILURE, wc_error_message := out_of_range_message (wc_group_index c) (int n)\<rparr> else c)
      in if \<not> invalid \<and> is_terminal_group_state (ts_group_member_states s ! nat (wc_group_index c)) then (s, None)
         else
           let s = (if \<not> invalid then record_member s (nat (wc_group_index c)) (wc_outcome terminal) (wc_error_message terminal)
                    else s\<lparr>ts_group_first_failure_index := (if ts_group_failed s then ts_group_first_failure_index s else -1),
                           ts_group_first_failure_message :=
                             (if ts_group_failed s then ts_group_first_failure_message s else wc_error_message terminal),
                           ts_group_failed := True\<rparr>);
               s = skip_after_failure s invalid
           in if ts_group_terminal_count s < int n then (s, None)
              else (s, Some (group_verdict s terminal)))"

text \<open>
  The part of \<open>dispatch_sub_ready\<close> under \<open>group_mu\<close>: a member of a group that has not failed meanwhile is marked before it is
  dispatched; \<open>False\<close> is the \<open>continue\<close> of the loop.
\<close>

definition start_member :: "TaskSlotState \<Rightarrow> nat \<Rightarrow> TaskSlotState \<times> bool" where
  "start_member s i =
     (if ts_group_member_states s ! i \<noteq> GM_NOT_DISPATCHED \<or> ts_group_failed s then (s, False)
      else (s\<lparr>ts_group_member_states := (ts_group_member_states s)[i := GM_RUNNING]\<rparr>, True))"

section \<open>Groups: one verdict\<close>

lemma skip_members_none:
  "list_all (\<lambda>st. \<not> skip st) sts \<Longrightarrow> length sts = length outs \<Longrightarrow> skip_members skip sts outs = (sts, outs, 0)"
  by (induction skip sts outs rule: skip_members.induct) auto

lemma skip_members_map:
  "length sts = length outs \<Longrightarrow> skip_members skip sts outs = (sts', outs', n) \<Longrightarrow>
   sts' = map (\<lambda>st. if skip st then GM_SKIPPED else st) sts \<and>
   outs' = map2 (\<lambda>st out. if skip st then SKIPPED else out) sts outs \<and> n = int (length (filter skip sts))"
  by (induction skip sts outs arbitrary: sts' outs' n rule: skip_members.induct) (auto split: prod.splits if_splits)

text \<open>
  The history of a dispatched group: members are started, and the members that were started report. A report counts when it
  is the first of its member; after a report that fails no further member is started. \<open>group_history\<close> gives the
  members started and the reports that count, \<open>orderly\<close> says that only members that were started report. \<open>group_ran\<close> relates
  a group to its history, \<open>group_after\<close> to that of a group all of whose members run from the start.
\<close>

definition report_state :: "WorkerCompletion \<Rightarrow> GroupMemberState" where
  "report_state c = (if wc_outcome c = SUCCESS then GM_SUCCESS else GM_FAILED)"

definition first_bad :: "WorkerCompletion list \<Rightarrow> WorkerCompletion option" where
  "first_bad es = find (\<lambda>c. wc_outcome c \<noteq> SUCCESS) es"

definition valid_report :: "nat \<Rightarrow> WorkerCompletion \<Rightarrow> bool" where
  "valid_report n c \<longleftrightarrow> 0 \<le> wc_group_index c \<and> wc_group_index c < int n"

datatype group_event = MemberStarted nat | MemberReported WorkerCompletion

fun group_history :: "int set \<Rightarrow> WorkerCompletion list \<Rightarrow> group_event list \<Rightarrow> int set \<times> WorkerCompletion list" where
  "group_history started es [] = (started, es)"
| "group_history started es (MemberStarted i # evs) =
     group_history (if first_bad es = None then insert (int i) started else started) es evs"
| "group_history started es (MemberReported c # evs) =
     group_history started (if wc_group_index c \<in> wc_group_index ` set es then es else es @ [c]) evs"

fun orderly :: "nat \<Rightarrow> int set \<Rightarrow> WorkerCompletion list \<Rightarrow> group_event list \<Rightarrow> bool" where
  "orderly n started es [] \<longleftrightarrow> True"
| "orderly n started es (MemberStarted i # evs) \<longleftrightarrow>
     i < n \<and> orderly n (if first_bad es = None then insert (int i) started else started) es evs"
| "orderly n started es (MemberReported c # evs) \<longleftrightarrow>
     wc_group_index c \<in> started \<and> orderly n started (if wc_group_index c \<in> wc_group_index ` set es then es else es @ [c]) evs"

text \<open>The state of a member after a history.\<close>

definition member_after :: "int set \<Rightarrow> WorkerCompletion list \<Rightarrow> nat \<Rightarrow> GroupMemberState" where
  "member_after started es i =
     (case find (\<lambda>c. wc_group_index c = int i) es of
        Some c \<Rightarrow> report_state c
      | None \<Rightarrow> if int i \<in> started then GM_RUNNING else if first_bad es = None then GM_NOT_DISPATCHED else GM_SKIPPED)"

definition group_ran :: "nat \<Rightarrow> int set \<Rightarrow> WorkerCompletion list \<Rightarrow> TaskSlotState \<Rightarrow> bool" where
  "group_ran n started es s \<longleftrightarrow>
     ts_is_group s \<and> ts_group_args s = n \<and> length (ts_group_member_states s) = n \<and> length (ts_group_member_outcomes s) = n \<and>
     distinct (map wc_group_index es) \<and> wc_group_index ` set es \<subseteq> started \<and> started \<subseteq> {0..<int n} \<and>
     (\<forall>c \<in> set es. ts_group_member_outcomes s ! nat (wc_group_index c) = wc_outcome c) \<and>
     (\<forall>i < n. ts_group_member_states s ! i = member_after started es i) \<and>
     ts_group_terminal_count s = int (length es) + (if first_bad es = None then 0 else int n - int (card started)) \<and>
     (case first_bad es of
        None \<Rightarrow> \<not> ts_group_failed s
      | Some b \<Rightarrow> ts_group_failed s \<and> ts_group_first_failure_index s = wc_group_index b \<and>
          ts_group_first_failure_message s = wc_error_message b)"

definition group_after :: "nat \<Rightarrow> WorkerCompletion list \<Rightarrow> TaskSlotState \<Rightarrow> bool" where
  "group_after n es s \<longleftrightarrow> group_ran n {0..<int n} es s"

lemma report_terminal [simp]: "is_terminal_group_state (report_state c)" "report_state c \<noteq> GM_NOT_DISPATCHED" "report_state c \<noteq> GM_RUNNING"
  by (simp_all add: report_state_def is_terminal_group_state_def)

lemma first_bad_snoc:
  "first_bad (es @ [c]) = (case first_bad es of Some b \<Rightarrow> Some b | None \<Rightarrow> if wc_outcome c = SUCCESS then None else Some c)"
  by (induction es) (auto simp: first_bad_def)

lemma find_reported: "find (\<lambda>c. wc_group_index c = k) es = None \<longleftrightarrow> k \<notin> wc_group_index ` set es"
  by (auto simp: find_None_iff)

lemma member_after_snoc:
  "member_after started (es @ [c]) i =
     (if int i \<notin> wc_group_index ` set es \<and> wc_group_index c = int i then report_state c
      else if member_after started es i = GM_NOT_DISPATCHED \<and> wc_outcome c \<noteq> SUCCESS then GM_SKIPPED
      else member_after started es i)"
proof -
  have "find P (es @ [c]) = (case find P es of Some b \<Rightarrow> Some b | None \<Rightarrow> if P c then Some c else None)" for P
    by (induction es) auto
  then show ?thesis
    using find_reported [of "int i" es] by (auto simp: member_after_def first_bad_snoc split: option.splits)
qed

lemma member_after_cases:
  assumes "wc_group_index ` set es \<subseteq> started"
  shows "member_after started es i = GM_NOT_DISPATCHED \<longleftrightarrow> int i \<notin> started \<and> first_bad es = None"
    "int i \<in> started \<Longrightarrow> is_terminal_group_state (member_after started es i) \<longleftrightarrow> int i \<in> wc_group_index ` set es"
proof -
  have r: "is_terminal_group_state (report_state c)" for c by simp
  show "member_after started es i = GM_NOT_DISPATCHED \<longleftrightarrow> int i \<notin> started \<and> first_bad es = None"
    using find_reported [of "int i" es] assms by (auto simp: member_after_def split: option.splits)
  show "int i \<in> started \<Longrightarrow> is_terminal_group_state (member_after started es i) \<longleftrightarrow> int i \<in> wc_group_index ` set es"
    using find_reported [of "int i" es]
    by (cases "find (\<lambda>c. wc_group_index c = int i) es") (simp_all add: member_after_def r is_terminal_group_state_def [of GM_RUNNING])
qed

text \<open>What a failure skips.\<close>

lemma skip_after_failure_effect:
  assumes "length (ts_group_member_states s) = length (ts_group_member_outcomes s)"
  shows "\<exists>outs. skip_after_failure s False =
      s\<lparr>ts_group_member_states := map (\<lambda>st. if ts_group_failed s \<and> st = GM_NOT_DISPATCHED then GM_SKIPPED else st) (ts_group_member_states s),
        ts_group_member_outcomes := outs,
        ts_group_terminal_count := ts_group_terminal_count s +
          (if ts_group_failed s then int (length (filter (\<lambda>st. st = GM_NOT_DISPATCHED) (ts_group_member_states s))) else 0)\<rparr> \<and>
    length outs = length (ts_group_member_outcomes s) \<and>
    (\<forall>i < length outs. ts_group_member_states s ! i \<noteq> GM_NOT_DISPATCHED \<longrightarrow> outs ! i = ts_group_member_outcomes s ! i)"
proof (cases "ts_group_failed s")
  case True
  have skip: "(\<lambda>st. \<not> is_terminal_group_state st \<and> (False \<or> st = GM_NOT_DISPATCHED)) = (\<lambda>st. st = GM_NOT_DISPATCHED)"
    by (auto simp: is_terminal_group_state_def)
  obtain sts outs k where m: "skip_members (\<lambda>st. st = GM_NOT_DISPATCHED) (ts_group_member_states s) (ts_group_member_outcomes s) = (sts, outs, k)"
    by (cases "skip_members (\<lambda>st. st = GM_NOT_DISPATCHED) (ts_group_member_states s) (ts_group_member_outcomes s)")
  then show ?thesis
    using True skip_members_map [OF assms m] assms unfolding skip_after_failure_def skip by (intro exI [of _ outs]) auto
next
  case False
  then show ?thesis by (intro exI [of _ "ts_group_member_outcomes s"]) (simp add: skip_after_failure_def)
qed

lemma not_started_count:
  assumes "started \<subseteq> {0..<int n}"
  shows "card {i. i < n \<and> int i \<notin> started} = n - card started"
proof -
  have "int ` {i. i < n \<and> int i \<notin> started} = {0..<int n} - started"
  proof (intro set_eqI iffI)
    fix x
    assume "x \<in> {0..<int n} - started"
    then show "x \<in> int ` {i. i < n \<and> int i \<notin> started}" by (intro image_eqI [of _ _ "nat x"]) auto
  qed auto
  then have "card {i. i < n \<and> int i \<notin> started} = card ({0..<int n} - started)"
    using card_image [of int "{i. i < n \<and> int i \<notin> started}"] by simp
  then show ?thesis using assms by (simp add: card_Diff_subset finite_subset)
qed

lemma group_ran_count: "group_ran n started es s \<Longrightarrow> length es \<le> card started \<and> card started \<le> n \<and> finite started"
proof -
  assume "group_ran n started es s"
  then have s: "wc_group_index ` set es \<subseteq> started" "started \<subseteq> {0..<int n}" "distinct (map wc_group_index es)" by (auto simp: group_ran_def)
  moreover have "finite started" using finite_subset [OF s(2)] by simp
  ultimately show ?thesis
    using card_mono [OF _ s(2)] card_mono [OF _ s(1)] distinct_card [OF s(3)] by simp
qed

lemma record_ran:
  assumes ran: "group_ran n started es s" and c: "wc_group_index c = int i" "int i \<in> started" "int i \<notin> wc_group_index ` set es"
  shows "group_ran n started (es @ [c]) (skip_after_failure (record_member s i (wc_outcome c) (wc_error_message c)) False)"
proof -
  let ?s = "record_member s i (wc_outcome c) (wc_error_message c)" and ?nd = "\<lambda>st. st = GM_NOT_DISPATCHED"
  have sub: "wc_group_index ` set es \<subseteq> started" "started \<subseteq> {0..<int n}" using ran by (auto simp: group_ran_def)
  have i: "i < n" using c(2) sub(2) by auto
  have s: "ts_group_member_states ?s = (ts_group_member_states s)[i := report_state c]" "ts_group_member_outcomes ?s = (ts_group_member_outcomes s)[i := wc_outcome c]"
    "ts_group_terminal_count ?s = ts_group_terminal_count s + 1" "ts_group_failed ?s = (ts_group_failed s \<or> wc_outcome c \<noteq> SUCCESS)"
    "ts_is_group ?s = ts_is_group s" "ts_group_args ?s = ts_group_args s"
    by (auto simp: record_member_def report_state_def Let_def)
  have len: "length (ts_group_member_states ?s) = n" "length (ts_group_member_outcomes ?s) = n" using ran s(1,2) by (simp_all add: group_ran_def)
  have sts: "ts_group_member_states ?s ! j = (if j = i then report_state c else member_after started es j)" if "j < n" for j
    using ran that s(1) by (auto simp: group_ran_def nth_list_update)
  obtain outs where k: "skip_after_failure ?s False =
      ?s\<lparr>ts_group_member_states := map (\<lambda>st. if ts_group_failed ?s \<and> ?nd st then GM_SKIPPED else st) (ts_group_member_states ?s), ts_group_member_outcomes := outs,
        ts_group_terminal_count := ts_group_terminal_count ?s + (if ts_group_failed ?s then int (length (filter ?nd (ts_group_member_states ?s))) else 0)\<rparr>"
    and outs: "length outs = n" "\<And>j. j < n \<Longrightarrow> \<not> ?nd (ts_group_member_states ?s ! j) \<Longrightarrow> outs ! j = ts_group_member_outcomes ?s ! j"
    using skip_after_failure_effect [of ?s] len by auto
  have failed: "ts_group_failed s \<longleftrightarrow> first_bad es \<noteq> None" using ran by (auto simp: group_ran_def split: option.splits)
  have nd: "?nd (ts_group_member_states ?s ! j) \<longleftrightarrow> int j \<notin> started \<and> first_bad es = None" if "j < n" for j
    using sts [OF that] member_after_cases(1) [OF sub(1), of j] c(2) by (cases "j = i") simp_all
  have "length (filter ?nd (ts_group_member_states ?s)) = card {j. j < n \<and> ?nd (ts_group_member_states ?s ! j)}"
    using len by (simp add: length_filter_conv_card)
  also have "\<dots> = (if first_bad es = None then n - card started else 0)"
    using not_started_count [OF sub(2)] nd by (cases "first_bad es") (auto cong: conj_cong)
  finally have skipped: "length (filter ?nd (ts_group_member_states ?s)) = (if first_bad es = None then n - card started else 0)" .
  have st: "map (\<lambda>st. if ts_group_failed ?s \<and> ?nd st then GM_SKIPPED else st) (ts_group_member_states ?s) ! j = member_after started (es @ [c]) j"
    if "j < n" for j
    using that len sts [OF that] nd [OF that] c member_after_cases(1) [OF sub(1), of j] failed by (cases "j = i") (auto simp: member_after_snoc s(4))
  have count: "ts_group_terminal_count ?s + (if ts_group_failed ?s then int (length (filter ?nd (ts_group_member_states ?s))) else 0) =
      int (length (es @ [c])) + (if first_bad (es @ [c]) = None then 0 else int n - int (card started))"
    using ran group_ran_count [OF ran] unfolding skipped s(3,4) failed
    by (cases "first_bad es") (simp_all add: group_ran_def first_bad_snoc of_nat_diff)
  have bad: "case first_bad (es @ [c]) of
        None \<Rightarrow> \<not> ts_group_failed ?s
      | Some b \<Rightarrow> ts_group_failed ?s \<and> ts_group_first_failure_index ?s = wc_group_index b \<and> ts_group_first_failure_message ?s = wc_error_message b"
    using ran c(1) by (cases "first_bad es") (auto simp: group_ran_def first_bad_snoc record_member_def Let_def)
  have out: "outs ! nat (wc_group_index d) = wc_outcome d" if d: "d \<in> set (es @ [c])" for d
  proof (cases "d = c")
    case True
    then show ?thesis using outs(2) [OF i] nd [OF i] c i len by (simp add: s(2))
  next
    case False
    then have m: "d \<in> set es" "wc_group_index d \<in> started" using d sub(1) by auto
    then obtain j where j: "wc_group_index d = int j" "j < n" using sub(2) by (metis atLeastLessThan_iff nat_less_iff nonneg_int_cases nat_int subsetD)
    have "j \<noteq> i" using c(3) m(1) j(1) by (metis image_eqI)
    then show ?thesis using outs(2) [OF j(2)] nd [OF j(2)] m j ran by (auto simp: s(2) group_ran_def)
  qed
  let ?s' = "skip_after_failure ?s False"
  have f: "ts_is_group ?s'" "ts_group_args ?s' = n" "ts_group_member_outcomes ?s' = outs" "ts_group_failed ?s' = ts_group_failed ?s"
    "ts_group_member_states ?s' = map (\<lambda>st. if ts_group_failed ?s \<and> ?nd st then GM_SKIPPED else st) (ts_group_member_states ?s)"
    "ts_group_terminal_count ?s' = ts_group_terminal_count ?s + (if ts_group_failed ?s then int (length (filter ?nd (ts_group_member_states ?s))) else 0)"
    "ts_group_first_failure_index ?s' = ts_group_first_failure_index ?s" "ts_group_first_failure_message ?s' = ts_group_first_failure_message ?s"
    using ran s(5,6) unfolding k by (simp_all add: group_ran_def)
  have m: "distinct (map wc_group_index (es @ [c]))" "wc_group_index ` set (es @ [c]) \<subseteq> started"
    "length (map (\<lambda>st. if ts_group_failed ?s \<and> ?nd st then GM_SKIPPED else st) (ts_group_member_states ?s)) = n"
    using ran c sub(1) len(1) by (simp_all add: group_ran_def)
  show ?thesis
    unfolding group_ran_def f by (intro conjI ballI allI impI) (fact f(1) refl m sub(2) outs(1) count bad | erule out st)+
qed

lemma start_ran:
  assumes ran: "group_ran n started es s" and i: "i < n" and e: "start_member s i = (s', ok)"
  shows "ok \<longleftrightarrow> int i \<notin> started \<and> first_bad es = None"
    "group_ran n (if first_bad es = None then insert (int i) started else started) es s'"
proof -
  have sub: "wc_group_index ` set es \<subseteq> started" "started \<subseteq> {0..<int n}" using ran by (auto simp: group_ran_def)
  have st: "ts_group_member_states s ! i = GM_NOT_DISPATCHED \<longleftrightarrow> int i \<notin> started \<and> first_bad es = None"
    using ran i member_after_cases(1) [OF sub(1)] by (simp add: group_ran_def)
  have failed: "ts_group_failed s \<longleftrightarrow> first_bad es \<noteq> None" using ran by (auto simp: group_ran_def split: option.splits)
  show ok: "ok \<longleftrightarrow> int i \<notin> started \<and> first_bad es = None" using e st failed by (auto simp: start_member_def split: if_splits)
  show "group_ran n (if first_bad es = None then insert (int i) started else started) es s'"
  proof (cases ok)
    case False
    then have "s' = s" "(if first_bad es = None then insert (int i) started else started) = started"
      using e ok by (auto simp: start_member_def split: if_splits)
    then show ?thesis using ran by simp
  next
    case True
    then have s': "s' = s\<lparr>ts_group_member_states := (ts_group_member_states s)[i := GM_RUNNING]\<rparr>" and f: "int i \<notin> started" "first_bad es = None"
      using e ok by (auto simp: start_member_def split: if_splits)
    have "find (\<lambda>c. wc_group_index c = int i) es = None" using f(1) sub(1) by (auto simp: find_None_iff)
    then have m: "member_after (insert (int i) started) es j = (if j = i then GM_RUNNING else member_after started es j)" for j
      by (auto simp: member_after_def split: option.split)
    show ?thesis using ran i f by (auto simp: group_ran_def s' m nth_list_update)
  qed
qed

text \<open>A group has its verdict when all its members have reported, or after a failure all that were started.\<close>

definition verdict_of :: "WorkerCompletion list \<Rightarrow> WorkerCompletion \<Rightarrow> WorkerCompletion" where
  "verdict_of es c =
     (case first_bad es of
        None \<Rightarrow> c\<lparr>wc_outcome := SUCCESS, wc_error_message := []\<rparr>
      | Some b \<Rightarrow> c\<lparr>wc_group_index := wc_group_index b,
          wc_outcome := (if is_failure (wc_outcome b) then wc_outcome b else TASK_FAILURE),
          wc_error_message := wc_error_message b\<rparr>)"

definition all_reported :: "nat \<Rightarrow> int set \<Rightarrow> WorkerCompletion list \<Rightarrow> bool" where
  "all_reported n started es \<longleftrightarrow> wc_group_index ` set es = started \<and> (started = {0..<int n} \<or> first_bad es \<noteq> None)"

lemma all_reported_count:
  assumes "group_ran n started es s"
  shows "all_reported n started es \<longleftrightarrow> \<not> ts_group_terminal_count s < int n"
proof -
  have sub: "wc_group_index ` set es \<subseteq> started" "started \<subseteq> {0..<int n}" and d: "distinct (map wc_group_index es)"
    using assms by (auto simp: group_ran_def)
  note c = group_ran_count [OF assms]
  have "card (wc_group_index ` set es) = length es" using distinct_card [OF d] by simp
  then have e: "wc_group_index ` set es = started \<longleftrightarrow> length es = card started" using card_subset_eq [OF _ sub(1)] c by auto
  have f: "started = {0..<int n} \<longleftrightarrow> card started = n" using card_subset_eq [OF _ sub(2)] by auto
  show ?thesis using assms c unfolding all_reported_def e f by (cases "first_bad es") (auto simp: group_ran_def)
qed

lemma group_verdict_ran:
  assumes "group_ran n started es s"
  shows "group_verdict s c = verdict_of es c"
proof (cases "first_bad es")
  case None
  then show ?thesis using assms by (auto simp: group_verdict_def verdict_of_def group_ran_def)
next
  case (Some b)
  then have "b \<in> set es" by (auto simp: first_bad_def find_Some_iff)
  moreover from this have "wc_group_index b \<in> {0..<int n}" using assms unfolding group_ran_def by blast
  ultimately have "wc_group_index b \<in> {0..<int n}" "ts_group_member_outcomes s ! nat (wc_group_index b) = wc_outcome b"
    using assms by (auto simp: group_ran_def)
  then show ?thesis
    using assms Some by (auto simp: group_verdict_def verdict_of_def group_ran_def group_size_def Let_def)
qed

lemma group_member_done_ran:
  assumes ran: "group_ran n started es s" and c: "wc_group_index c \<in> started"
  shows "if wc_group_index c \<in> wc_group_index ` set es then group_member_done s c = (s, None)
    else \<exists>s'. group_ran n started (es @ [c]) s' \<and>
      group_member_done s c = (s', if all_reported n started (es @ [c]) then Some (verdict_of (es @ [c]) c) else None)"
proof -
  have sub: "wc_group_index ` set es \<subseteq> started" "started \<subseteq> {0..<int n}" using ran by (auto simp: group_ran_def)
  then have "0 \<le> wc_group_index c" "wc_group_index c < int n" using c by auto
  then obtain i where i: "wc_group_index c = int i" "i < n" by (metis nonneg_int_cases of_nat_less_iff)
  have prep: "commit_group_vectors s (prepare_group_vectors s GM_NOT_DISPATCHED) = s" and size: "group_size s = n"
    using ran by (simp_all add: prepare_group_vectors_def commit_group_vectors_def group_ran_def group_size_def)
  have tm: "is_terminal_group_state (ts_group_member_states s ! i) \<longleftrightarrow> int i \<in> wc_group_index ` set es"
    using ran i c member_after_cases(2) [OF sub(1), of i] by (simp add: group_ran_def)
  show ?thesis
  proof (cases "wc_group_index c \<in> wc_group_index ` set es")
    case True
    then show ?thesis using tm i by (simp add: group_member_done_def prep size Let_def)
  next
    case False
    let ?s = "skip_after_failure (record_member s i (wc_outcome c) (wc_error_message c)) False"
    have r: "group_ran n started (es @ [c]) ?s" using record_ran [OF ran i(1)] c False i(1) by simp
    have "group_member_done s c = (?s, if all_reported n started (es @ [c]) then Some (verdict_of (es @ [c]) c) else None)"
      using False tm i all_reported_count [OF r] group_verdict_ran [OF r] by (simp add: group_member_done_def prep size Let_def)
    then show ?thesis using False r by auto
  qed
qed

fun group_run :: "TaskSlotState \<Rightarrow> group_event list \<Rightarrow> TaskSlotState \<times> WorkerCompletion list" where
  "group_run s [] = (s, [])"
| "group_run s (MemberStarted i # evs) = group_run (fst (start_member s i)) evs"
| "group_run s (MemberReported c # evs) =
     (let (s', out) = group_member_done s c; (s'', outs) = group_run s' evs
      in (s'', (case out of None \<Rightarrow> outs | Some v \<Rightarrow> v # outs)))"

lemma all_reported_start:
  assumes "wc_group_index ` set es \<subseteq> started" "i < n"
  shows "all_reported n (if first_bad es = None then insert (int i) started else started) es \<longleftrightarrow> all_reported n started es"
  using assms by (auto simp: all_reported_def)

lemma history_ends:
  "all_reported n started es \<Longrightarrow> orderly n started es evs \<Longrightarrow> group_history started es evs = (started, es)"
proof (induction started es evs rule: group_history.induct)
  case (2 started es i evs)
  then have "(if first_bad es = None then insert (int i) started else started) = started" by (auto simp: all_reported_def)
  then show ?case using 2 by simp
next
  case (3 started es c evs)
  then have "wc_group_index c \<in> wc_group_index ` set es" by (simp add: all_reported_def)
  then show ?case using 3 by simp
qed simp

lemma group_run_ran:
  assumes "group_ran n started es s" "orderly n started es evs" "group_history started es evs = (started', es')"
  shows "group_ran n started' es' (fst (group_run s evs)) \<and>
    snd (group_run s evs) = (if \<not> all_reported n started es \<and> all_reported n started' es' then [verdict_of es' (last es')] else [])"
  using assms
proof (induction started es evs arbitrary: s rule: group_history.induct)
  case (2 started es i evs)
  let ?started = "if first_bad es = None then insert (int i) started else started"
  obtain s1 ok where e: "start_member s i = (s1, ok)" by (cases "start_member s i")
  have i: "i < n" and o: "orderly n ?started es evs" using "2.prems"(2) by simp_all
  have r: "group_ran n ?started es s1" by (rule start_ran(2) [OF "2.prems"(1) i e])
  have "wc_group_index ` set es \<subseteq> started" using "2.prems"(1) by (simp add: group_ran_def)
  then show ?case using "2.IH" [OF r o] "2.prems"(3) all_reported_start [OF _ i] e by simp
next
  case (3 started es c evs)
  have c: "wc_group_index c \<in> started" using "3.prems"(2) by simp
  note step = group_member_done_ran [OF "3.prems"(1) c]
  show ?case
  proof (cases "wc_group_index c \<in> wc_group_index ` set es")
    case True
    then have "group_member_done s c = (s, None)" using step by simp
    then show ?thesis using "3.IH" [of s] "3.prems" True by (simp add: case_prod_beta)
  next
    case False
    then obtain s1 where s1: "group_ran n started (es @ [c]) s1"
        "group_member_done s c = (s1, if all_reported n started (es @ [c]) then Some (verdict_of (es @ [c]) c) else None)"
      using step by auto
    have o: "orderly n started (es @ [c]) evs" and h: "group_history started (es @ [c]) evs = (started', es')"
      using "3.prems"(2,3) False by simp_all
    have n: "\<not> all_reported n started es" using c False by (auto simp: all_reported_def)
    note ih = "3.IH" [of s1, unfolded if_not_P [OF False], OF s1(1) o h]
    show ?thesis
    proof (cases "all_reported n started (es @ [c])")
      case True
      then have "started' = started" "es' = es @ [c]" using history_ends [OF True o] h by simp_all
      then show ?thesis using ih s1(2) n True by (simp add: case_prod_beta)
    next
      case False
      then show ?thesis using ih s1(2) n by (simp add: case_prod_beta)
    qed
  qed
qed simp

text \<open>A claim makes the vectors of the group fit its members and resets them.\<close>

definition claimed_group :: "TaskSlotState \<Rightarrow> GroupMemberState \<Rightarrow> TaskSlotState" where
  "claimed_group s init = reset_group_state (commit_group_vectors s (prepare_group_vectors s init)) init"

definition started_at_claim :: "nat \<Rightarrow> GroupMemberState \<Rightarrow> int set" where
  "started_at_claim n init = (if init = GM_RUNNING then {0..<int n} else {})"

lemma reset_group_ran:
  assumes "ts_is_group s" "length (ts_group_member_states s) = ts_group_args s" "length (ts_group_member_outcomes s) = ts_group_args s"
    "init = GM_RUNNING \<or> init = GM_NOT_DISPATCHED"
  shows "group_ran (ts_group_args s) (started_at_claim (ts_group_args s) init) [] (reset_group_state s init)"
  using assms by (auto simp: group_ran_def reset_group_state_def first_bad_def member_after_def started_at_claim_def)

lemma claimed_group_ran:
  assumes "ts_is_group s" "0 < ts_group_args s" "init = GM_RUNNING \<or> init = GM_NOT_DISPATCHED"
  shows "group_ran (ts_group_args s) (started_at_claim (ts_group_args s) init) [] (claimed_group s init)"
proof -
  let ?s = "commit_group_vectors s (prepare_group_vectors s init)"
  have "resized (ts_group_args s) x xs \<noteq> []" for x :: GroupMemberState and xs using assms(2) by (simp add: resized_def)
  then have "ts_is_group ?s" "length (ts_group_member_states ?s) = ts_group_args ?s" "length (ts_group_member_outcomes ?s) = ts_group_args ?s" "ts_group_args ?s = ts_group_args s"
    using assms(1) by (auto simp: commit_group_vectors_def prepare_group_vectors_def group_size_def Let_def resized_def)
  then show ?thesis using reset_group_ran [of ?s init] assms(3) by (simp add: claimed_group_def)
qed

text \<open>
  C10: A group completes exactly once. A group is claimed with all its members running, as on the next level, or with none
  dispatched, as for sub-workers, whose members are then started one by one and report in any order, possibly several times. Once a
  report fails, no further member is started and those not dispatched are skipped. The scheduler queues one completion for the
  group, when every member has reported or, after a failure, every member that was started; before that it queues none, and
  afterwards no second one. The completion is a success exactly when every first report is; otherwise it carries the member index,
  the outcome and the message of the earliest first report that fails. Each member ends in the state of its first report,
  and it is skipped exactly when it was not started before the failure.
\<close>

theorem group_completes_exactly_once:
  assumes "ts_is_group s" "0 < ts_group_args s" "init = GM_RUNNING \<or> init = GM_NOT_DISPATCHED"
    and "orderly (ts_group_args s) (started_at_claim (ts_group_args s) init) [] evs"
    and "group_history (started_at_claim (ts_group_args s) init) [] evs = (started, es)"
  shows "snd (group_run (claimed_group s init) evs) =
      (if wc_group_index ` set es = started \<and> (started = {0..<int (ts_group_args s)} \<or> first_bad es \<noteq> None)
       then [verdict_of es (last es)] else []) \<and>
    ts_group_member_states (fst (group_run (claimed_group s init) evs)) = map (member_after started es) [0 ..< ts_group_args s]"
proof -
  let ?n = "ts_group_args s" and ?s = "fst (group_run (claimed_group s init) evs)"
  note run = group_run_ran [OF claimed_group_ran [OF assms(1-3)] assms(4,5)]
  have "\<not> all_reported ?n (started_at_claim ?n init) []"
    using assms(2) by (auto simp: all_reported_def started_at_claim_def first_bad_def)
  moreover have "ts_group_member_states ?s = map (member_after started es) [0 ..< ?n]"
    using run by (auto simp: group_ran_def intro!: nth_equalityI)
  ultimately show ?thesis using run unfolding all_reported_def by simp
qed

definition sample_group :: TaskSlotState where
  "sample_group = fresh_slot\<lparr>ts_is_group := True, ts_group_args := 3\<rparr>"

definition sample_report :: "int \<Rightarrow> EndpointOutcome \<Rightarrow> WorkerCompletion" where
  "sample_report i out = \<lparr>wc_task_slot = 0, wc_group_index = i, wc_outcome = out, wc_error_message = ''boom'',
     wc_worker_id = i, wc_admissible_run_resource_sets = 0\<rparr>"

definition sample_events :: "group_event list" where
  "sample_events = [MemberStarted 0, MemberStarted 1, MemberReported (sample_report 1 TASK_FAILURE), MemberStarted 2,
     MemberReported (sample_report 1 SUCCESS), MemberReported (sample_report 0 SUCCESS)]"

theorem group_completes_exactly_once_witness:
  "snd (group_run (claimed_group sample_group GM_NOT_DISPATCHED) sample_events) = [(sample_report 1 TASK_FAILURE)\<lparr>wc_worker_id := 0\<rparr>] \<and>
   ts_group_member_states (fst (group_run (claimed_group sample_group GM_NOT_DISPATCHED) sample_events)) = [GM_SUCCESS, GM_FAILED, GM_SKIPPED]"
proof -
  have "group_history {} [] sample_events = ({0, 1}, [sample_report 1 TASK_FAILURE, sample_report 0 SUCCESS])" "orderly 3 {} [] sample_events"
    "first_bad [sample_report 1 TASK_FAILURE, sample_report 0 SUCCESS] = Some (sample_report 1 TASK_FAILURE)"
    by (auto simp: sample_events_def sample_report_def first_bad_def)
  then show ?thesis
    using group_completes_exactly_once [of sample_group GM_NOT_DISPATCHED sample_events "{0, 1}" "[sample_report 1 TASK_FAILURE, sample_report 0 SUCCESS]"]
    by (simp add: sample_group_def started_at_claim_def sample_report_def verdict_of_def is_failure_def member_after_def report_state_def upt_rec insert_commute)
qed

text \<open>The same for a group whose members all run from the start.\<close>

lemma group_after_length:
  assumes "group_after n es s"
  shows "length es \<le> n" "length es = n \<longleftrightarrow> {0..<int n} \<subseteq> wc_group_index ` set es"
proof -
  have ran: "group_ran n {0..<int n} es s" using assms by (simp add: group_after_def)
  then show "length es \<le> n" using group_ran_count by fastforce
  have sub: "wc_group_index ` set es \<subseteq> {0..<int n}" and d: "distinct (map wc_group_index es)" using ran by (auto simp: group_ran_def)
  then show "length es = n \<longleftrightarrow> {0..<int n} \<subseteq> wc_group_index ` set es"
    using distinct_card [OF d] card_subset_eq [OF _ sub] by (auto simp: subset_antisym)
qed

lemma group_member_done_after:
  assumes ga: "group_after n es s" and v: "valid_report n c"
  shows "if wc_group_index c \<in> wc_group_index ` set es then group_member_done s c = (s, None)
    else \<exists>s'. group_after n (es @ [c]) s' \<and>
      group_member_done s c = (s', if length es + 1 < n then None else Some (verdict_of (es @ [c]) c))"
proof -
  have "all_reported n {0..<int n} (es @ [c]) \<longleftrightarrow> \<not> length es + 1 < n" if "group_after n (es @ [c]) s'" for s'
    using group_after_length [OF that] that by (auto simp: all_reported_def group_after_def group_ran_def)
  then show ?thesis
    using group_member_done_ran [of n "{0..<int n}" es s c] assms by (auto simp: group_after_def valid_report_def split: if_splits)
qed

lemma reset_group_after:
  assumes "ts_is_group s" "length (ts_group_member_states s) = ts_group_args s"
    "length (ts_group_member_outcomes s) = ts_group_args s"
  shows "group_after (ts_group_args s) [] (reset_group_state s GM_RUNNING)"
  using reset_group_ran [OF assms, of GM_RUNNING] by (simp add: group_after_def started_at_claim_def)

section \<open>Claims on one slot, in any interleaving\<close>

text \<open>
  The atomic accesses different threads make to one slot between its reservation and its dispatch: the
  submitting thread publishes it, a completing producer first bumps \<open>fanin_released\<close> and then tries to mark it
  ready, a failing producer or a cancellation claims it, the scheduler claims it for dispatch.
\<close>

datatype slot_op = OpPublish int | OpArrive | OpMark | OpClaim string | OpDispatch

datatype slot_event = EvReady | EvFailed TaskState | EvRunning

fun slot_exec :: "slot_op \<Rightarrow> TaskSlotState \<Rightarrow> TaskSlotState \<times> slot_event list" where
  "slot_exec (OpPublish n) s = (let (s', published, ready) = publish_slot s n in (s', if ready then [EvReady] else []))"
| "slot_exec OpArrive s = (s\<lparr>ts_fanin_released := ts_fanin_released s + 1\<rparr>, [])"
| "slot_exec OpMark s = (let (s', ready) = try_mark_ready s in (s', if ready then [EvReady] else []))"
| "slot_exec (OpClaim msg) s =
     (let (s', claimed) = claim_task_failure s msg in (s', case claimed of None \<Rightarrow> [] | Some st \<Rightarrow> [EvFailed st]))"
| "slot_exec OpDispatch s = (let (s', ok) = claim_for_dispatch s in (s', if ok then [EvRunning] else []))"

fun slot_run :: "slot_op list \<Rightarrow> TaskSlotState \<Rightarrow> TaskSlotState \<times> slot_event list" where
  "slot_run [] s = (s, [])"
| "slot_run (op # ops) s = (let (s', es) = slot_exec op s; (s'', es') = slot_run ops s' in (s'', es @ es'))"

definition is_claim :: "slot_event \<Rightarrow> bool" where
  "is_claim e \<longleftrightarrow> e \<noteq> EvReady"

text \<open>What may still happen to a slot, by its state: how many ready events, how many claims.\<close>

definition readies_left :: "TaskState \<Rightarrow> nat" where
  "readies_left st = (if st = BUILDING \<or> st = PENDING then 1 else 0)"

definition claims_left :: "TaskState \<Rightarrow> nat" where
  "claims_left st = (if st = BUILDING \<or> st = PENDING \<or> st = READY then 1 else 0)"

lemmas slot_op_defs = publish_slot_def try_mark_ready_def claim_task_failure_def claim_for_dispatch_def is_claim_def
  readies_left_def claims_left_def Let_def

lemma slot_exec_budget:
  "slot_exec op s = (s', es) \<Longrightarrow>
   length (filter (\<lambda>e. e = EvReady) es) + readies_left (ts_state s') \<le> readies_left (ts_state s) \<and>
   length (filter is_claim es) + claims_left (ts_state s') \<le> claims_left (ts_state s)"
  by (cases op) (auto simp: slot_op_defs split: if_splits prod.splits)

lemma slot_run_budget:
  "slot_run ops s = (s', es) \<Longrightarrow>
   length (filter (\<lambda>e. e = EvReady) es) + readies_left (ts_state s') \<le> readies_left (ts_state s) \<and>
   length (filter is_claim es) + claims_left (ts_state s') \<le> claims_left (ts_state s)"
proof (induction ops arbitrary: s s' es)
  case (Cons op ops)
  obtain t es1 where t: "slot_exec op s = (t, es1)" by fastforce
  obtain es2 where u: "slot_run ops t = (s', es2)" "es = es1 @ es2"
    using Cons.prems t by (auto split: prod.splits)
  from slot_exec_budget [OF t] Cons.IH [OF u(1)] u(2) show ?case by simp
qed simp

lemma slot_run_running_ready:
  "slot_run ops s = (s', es) \<Longrightarrow> EvRunning \<in> set es \<Longrightarrow> ts_state s \<noteq> READY \<Longrightarrow> EvReady \<in> set es"
proof (induction ops arbitrary: s s' es)
  case (Cons op ops)
  obtain t es1 where t: "slot_exec op s = (t, es1)" by fastforce
  obtain es2 where u: "slot_run ops t = (s', es2)" "es = es1 @ es2"
    using Cons.prems(1) t by (auto split: prod.splits)
  have "EvRunning \<notin> set es1 \<and> (ts_state t = READY \<longrightarrow> EvReady \<in> set es1)"
    using t Cons.prems(3) by (cases op) (auto simp: slot_op_defs split: if_splits prod.splits)
  then show ?case using Cons.IH [OF u(1)] Cons.prems(2) u(2) by auto
qed simp

text \<open>
  C6: A slot is claimed at most once. In every interleaving of publication, producer completions, failure claims
  and dispatch claims on a slot that a submission has reserved, at most one of the claims succeeds, so a task is
  never both dispatched and failed, and never dispatched twice; it becomes ready at most once, so the ready queues
  receive it at most once; and it is dispatched only if it became ready.
\<close>

theorem slot_claims_exclusive:
  assumes "ts_state s = BUILDING" "slot_run ops s = (s', es)"
  shows "length (filter is_claim es) \<le> 1 \<and> length (filter (\<lambda>e. e = EvReady) es) \<le> 1 \<and>
    (EvRunning \<in> set es \<longrightarrow> EvReady \<in> set es)"
  using slot_run_budget [OF assms(2)] slot_run_running_ready [OF assms(2)] assms(1)
  by (simp add: readies_left_def claims_left_def)

definition sample_building :: TaskSlotState where
  "sample_building = fresh_slot\<lparr>ts_state := BUILDING\<rparr>"

theorem slot_claims_exclusive_witness:
  "let es = snd (slot_run [OpArrive, OpMark, OpPublish 1, OpMark, OpDispatch, OpClaim ''late'', OpDispatch] sample_building)
   in es = [EvReady, EvRunning] \<and> length (filter is_claim es) \<le> 1"
  using slot_claims_exclusive [of sample_building "[OpArrive, OpMark, OpPublish 1, OpMark, OpDispatch, OpClaim ''late'', OpDispatch]"]
  by (simp add: sample_building_def fresh_slot_def slot_op_defs)

fun settled :: "slot_op list \<Rightarrow> bool" where
  "settled [] = True"
| "settled (op # ops) = ((op = OpArrive \<longrightarrow> OpMark \<in> set ops) \<and> settled ops)"

definition arrivals :: "slot_op list \<Rightarrow> int" where
  "arrivals ops = int (length (filter (\<lambda>op. op = OpArrive) ops))"

definition unclaimed :: "slot_op list \<Rightarrow> bool" where
  "unclaimed ops \<longleftrightarrow> list_all (\<lambda>op. op = OpArrive \<or> op = OpMark \<or> op = OpDispatch) ops"

lemma settled_append: "settled (xs @ ys) \<Longrightarrow> settled ys"
  by (induction xs) auto

lemma building_run:
  "ts_state s = BUILDING \<Longrightarrow> unclaimed ops \<Longrightarrow>
   slot_run ops s = (s\<lparr>ts_fanin_released := ts_fanin_released s + arrivals ops\<rparr>, [])"
proof (induction ops arbitrary: s)
  case (Cons op ops)
  then show ?case by (auto simp: unclaimed_def arrivals_def slot_op_defs)
qed (simp add: arrivals_def)

lemma ready_run:
  "readies_left (ts_state s) = 0 \<Longrightarrow> filter (\<lambda>e. e = EvReady) (snd (slot_run ops s)) = []"
  using slot_run_budget [of ops s] by (cases "slot_run ops s") auto

lemma pending_run:
  "ts_state s = PENDING \<Longrightarrow> unclaimed ops \<Longrightarrow> settled ops \<Longrightarrow>
   ts_fanin_released s < ts_fanin_count s \<or> OpMark \<in> set ops \<Longrightarrow>
   length (filter (\<lambda>e. e = EvReady) (snd (slot_run ops s))) =
     (if ts_fanin_count s \<le> ts_fanin_released s + arrivals ops then 1 else 0)"
proof (induction ops arbitrary: s)
  case Nil
  then show ?case by (simp add: arrivals_def)
next
  case (Cons op ops)
  have ops: "unclaimed ops" "settled ops" using Cons.prems by (auto simp: unclaimed_def)
  consider "op = OpArrive" | "op = OpMark" | "op = OpDispatch" using Cons.prems(2) by (auto simp: unclaimed_def)
  then show ?case
  proof cases
    case 1
    then show ?thesis
      using Cons.IH [of "s\<lparr>ts_fanin_released := ts_fanin_released s + 1\<rparr>"] Cons.prems ops
      by (simp add: case_prod_beta arrivals_def algebra_simps)
  next
    case 2
    show ?thesis
    proof (cases "ts_fanin_released s < ts_fanin_count s")
      case True
      then show ?thesis
        using 2 Cons.IH [OF Cons.prems(1) ops] Cons.prems by (simp add: case_prod_beta try_mark_ready_def arrivals_def)
    next
      case False
      then show ?thesis
        using 2 Cons.prems(1) ready_run [of "s\<lparr>ts_state := READY\<rparr>" ops]
        by (simp add: case_prod_beta try_mark_ready_def arrivals_def readies_left_def)
    qed
  next
    case 3
    then show ?thesis
      using Cons.IH [OF Cons.prems(1) ops] Cons.prems by (simp add: case_prod_beta claim_for_dispatch_def arrivals_def)
  qed
qed

text \<open>
  C5: No producer completion is lost. A submission that publishes a slot with \<open>n\<close> live producers races with those
  producers completing; as long as every completion tries to mark the slot after it has counted itself and no
  failure claims the slot, the slot becomes ready exactly once if \<open>n\<close> completions arrive, before or after the
  publication, and never before.
\<close>

theorem readiness_never_lost:
  assumes "ts_state s = BUILDING" "ts_fanin_released s = 0"
    and "unclaimed before" "unclaimed afterwards" "settled (before @ OpPublish n # afterwards)"
  shows "length (filter (\<lambda>e. e = EvReady) (snd (slot_run (before @ OpPublish n # afterwards) s))) =
    (if n \<le> arrivals (before @ afterwards) then 1 else 0)"
proof -
  have split: "slot_run (xs @ ys) t = (let (t', es) = slot_run xs t; (t'', es') = slot_run ys t' in (t'', es @ es'))"
    for xs ys t by (induction xs arbitrary: t) (simp_all add: case_prod_beta)
  have later: "settled afterwards" using settled_append [OF assms(5)] by simp
  let ?t = "s\<lparr>ts_fanin_released := arrivals before, ts_fanin_count := n\<rparr>"
  have pre: "slot_run before s = (s\<lparr>ts_fanin_released := arrivals before\<rparr>, [])"
    using building_run [OF assms(1,3)] assms(2) by simp
  have cat: "arrivals (before @ afterwards) = arrivals before + arrivals afterwards" "0 \<le> arrivals afterwards"
    by (simp_all add: arrivals_def)
  show ?thesis
  proof (cases "n \<le> arrivals before")
    case True
    then show ?thesis
      using pre cat assms(1) ready_run [of "?t\<lparr>ts_state := READY\<rparr>" afterwards]
      by (simp add: split case_prod_beta publish_slot_def readies_left_def)
  next
    case False
    then show ?thesis
      using pre cat assms(1) pending_run [of "?t\<lparr>ts_state := PENDING\<rparr>" afterwards] assms(4) later
      by (simp add: split case_prod_beta publish_slot_def)
  qed
qed

theorem readiness_never_lost_witness:
  "length (filter (\<lambda>e. e = EvReady)
     (snd (slot_run ([OpArrive, OpMark] @ OpPublish 2 # [OpArrive, OpMark, OpDispatch]) sample_building))) = 1"
  using readiness_never_lost [of sample_building "[OpArrive, OpMark]" "[OpArrive, OpMark, OpDispatch]" 2]
  by (simp add: sample_building_def fresh_slot_def unclaimed_def arrivals_def)

definition group_counted :: "TaskSlotState \<Rightarrow> bool" where
  "group_counted s \<longleftrightarrow> ts_is_group s \<and> length (ts_group_member_states s) = ts_group_args s \<and>
     length (ts_group_member_outcomes s) = ts_group_args s \<and>
     ts_group_terminal_count s = int (length (filter is_terminal_group_state (ts_group_member_states s)))"

abbreviation skip_open :: "GroupMemberState \<Rightarrow> GroupMemberState" where
  "skip_open st \<equiv> (if \<not> is_terminal_group_state st then GM_SKIPPED else st)"

lemma skip_open_terminal [simp]: "is_terminal_group_state (skip_open st)"
  by (simp add: is_terminal_group_state_def)

lemma mark_skipped_eq:
  assumes "group_counted s"
  shows "mark_group_members_skipped s msg =
    s\<lparr>ts_group_member_states := map skip_open (ts_group_member_states s),
      ts_group_member_outcomes :=
        map2 (\<lambda>st out. if \<not> is_terminal_group_state st then SKIPPED else out) (ts_group_member_states s) (ts_group_member_outcomes s),
      ts_group_terminal_count := int (ts_group_args s),
      ts_group_first_failure_index := (if ts_group_failed s then ts_group_first_failure_index s else -1),
      ts_group_first_failure_message := (if ts_group_failed s then ts_group_first_failure_message s else msg),
      ts_group_failed := True\<rparr>"
proof -
  obtain sts outs k where sk:
    "skip_members (\<lambda>st. \<not> is_terminal_group_state st) (ts_group_member_states s) (ts_group_member_outcomes s) = (sts, outs, k)"
    using prod_cases3 by blast
  have "sts = map skip_open (ts_group_member_states s)"
    "outs = map2 (\<lambda>st out. if \<not> is_terminal_group_state st then SKIPPED else out) (ts_group_member_states s) (ts_group_member_outcomes s)"
    "k = int (length (filter (\<lambda>st. \<not> is_terminal_group_state st) (ts_group_member_states s)))"
    using skip_members_map [OF _ sk] assms by (simp_all add: group_counted_def)
  moreover have "length (filter is_terminal_group_state (ts_group_member_states s)) +
      length (filter (\<lambda>st. \<not> is_terminal_group_state st) (ts_group_member_states s)) = ts_group_args s"
    using assms by (simp add: group_counted_def sum_length_filter_compl)
  ultimately show ?thesis
    using assms sk by (simp add: mark_group_members_skipped_def group_counted_def group_size_def Let_def flip: of_nat_add)
qed

lemma map2_terminal:
  "list_all is_terminal_group_state sts \<Longrightarrow> length sts = length outs \<Longrightarrow>
   map2 (\<lambda>st out. if \<not> is_terminal_group_state st then SKIPPED else out) sts outs = outs"
  by (induction sts outs rule: list_induct2') auto

text \<open>
  Skipping a failed group leaves no member open. Whatever its members had reported, afterwards every member is
  terminal and the terminal count says so, members that had already ended keep their state and outcome, and a second
  call changes nothing, which is what lets an interrupted cancellation resume from the top.
\<close>

theorem skip_closes_group:
  fixes s :: TaskSlotState and msg msg' :: string
  assumes "group_counted s"
  defines "s' \<equiv> mark_group_members_skipped s msg"
  shows "group_counted s' \<and> list_all is_terminal_group_state (ts_group_member_states s') \<and>
    (\<forall>i < ts_group_args s. is_terminal_group_state (ts_group_member_states s ! i) \<longrightarrow>
       ts_group_member_states s' ! i = ts_group_member_states s ! i \<and>
       ts_group_member_outcomes s' ! i = ts_group_member_outcomes s ! i) \<and>
    mark_group_members_skipped s' msg' = s'"
proof -
  have all: "list_all is_terminal_group_state (ts_group_member_states s')"
    by (auto simp: s'_def mark_skipped_eq [OF assms(1)] list_all_iff is_terminal_group_state_def)
  have all_map: "filter is_terminal_group_state (map skip_open xs) = map skip_open xs" for xs
    by (induction xs) simp_all
  have counted: "group_counted s'"
    using assms(1) by (simp add: s'_def mark_skipped_eq group_counted_def all_map)
  have "map skip_open (ts_group_member_states s') = ts_group_member_states s'"
    using all by (intro map_idI) (auto simp: list_all_iff)
  moreover have "length (ts_group_member_states s') = length (ts_group_member_outcomes s')"
    using counted by (simp add: group_counted_def)
  ultimately have "mark_group_members_skipped s' msg' = s'"
    using mark_skipped_eq [OF counted, of msg'] map2_terminal [OF all]
    by (simp add: s'_def mark_skipped_eq [OF assms(1)])
  moreover have "\<forall>i < ts_group_args s. is_terminal_group_state (ts_group_member_states s ! i) \<longrightarrow>
       ts_group_member_states s' ! i = ts_group_member_states s ! i \<and>
       ts_group_member_outcomes s' ! i = ts_group_member_outcomes s ! i"
    using assms(1) by (auto simp: s'_def mark_skipped_eq group_counted_def)
  ultimately show ?thesis using counted all by blast
qed

end
