(* ===== verification/Task_Args.thy ===== *)
theory Task_Args
  imports Overlap_Soundness
begin

text \<open>
  The arguments of one task as the user builds them: \<open>TaskArgs\<close> of \<open>task_args_wire.h\<close> over the vector-backed
  template of \<open>task_args.h\<close>, the transfer requests of \<open>data_type.h\<close>, and the checks a submission makes on its
  whole argument set (\<open>validate_submit_args\<close>). The call configuration (\<open>call_config.h\<close>) and the
  communication-domain identities (\<open>comm_domain_use.h\<close>, validated in \<open>comm_domain_use_wire.h\<close>) that travel with a
  submission are here too.
\<close>

section \<open>Tags and transfers\<close>

datatype TensorArgType = INPUT | OUTPUT | INOUT | OUTPUT_EXISTING | NO_DEP

text \<open>A transfer request is one byte of the wire format; the source casts unknown values to the enum.\<close>

type_synonym TensorTransfer = u8

abbreviation TensorTransfer_NONE :: TensorTransfer where "TensorTransfer_NONE \<equiv> 0"
abbreviation TensorTransfer_H2D :: TensorTransfer where "TensorTransfer_H2D \<equiv> 1"
abbreviation TensorTransfer_D2H :: TensorTransfer where "TensorTransfer_D2H \<equiv> 2"

definition legacy_tensor_transfer :: "u8 \<Rightarrow> TensorTransfer" where
  "legacy_tensor_transfer space = (if space = AddressSpace_HOST then TensorTransfer_H2D else TensorTransfer_NONE)"

definition tensor_transfer_error :: "u8 \<Rightarrow> TensorTransfer \<Rightarrow> string option" where
  "tensor_transfer_error space transfer =
     (if space \<noteq> AddressSpace_HOST \<and> space \<noteq> AddressSpace_DEVICE then Some ''unknown address space''
      else if transfer = TensorTransfer_NONE then None
      else if transfer = TensorTransfer_H2D then
        (if space = AddressSpace_HOST then None else Some ''H2D requires HOST backing'')
      else if transfer = TensorTransfer_D2H then Some ''automatic D2H parameters are unsupported; use explicit copy_from''
      else Some ''unknown tensor transfer'')"

section \<open>TaskArgs\<close>

record TaskHandle =
  th_run_id :: RunId
  th_task_slot :: TaskSlot

record ExplicitTaskDependency =
  ed_task :: TaskHandle
  ed_retain :: bool

record TaskArgs =
  ta_tensors :: "Tensor list"
  ta_tags :: "TensorArgType list"
  ta_transfers :: "TensorTransfer list"
  ta_scalars :: "u64 list"
  ta_explicit_deps :: "ExplicitTaskDependency list"

definition empty_args :: TaskArgs where
  "empty_args = \<lparr>ta_tensors = [], ta_tags = [], ta_transfers = [], ta_scalars = [], ta_explicit_deps = []\<rparr>"

definition tensor_count :: "TaskArgs \<Rightarrow> nat" where
  "tensor_count a = length (ta_tensors a)"

definition add_tensor_transfer :: "TaskArgs \<Rightarrow> Tensor \<Rightarrow> TensorArgType \<Rightarrow> TensorTransfer \<Rightarrow> exn + TaskArgs" where
  "add_tensor_transfer a t tag transfer =
     (case tensor_transfer_error (bd_address_space (t_buffer t)) transfer of
        Some err \<Rightarrow> Inl (InvalidArgument err)
      | None \<Rightarrow>
          if ta_scalars a \<noteq> [] then Inl (LogicError ''TaskArgs: cannot add tensor after scalar'')
          else Inr (a\<lparr>ta_tensors := ta_tensors a @ [t], ta_tags := ta_tags a @ [tag],
                      ta_transfers := ta_transfers a @ [transfer]\<rparr>))"

definition add_tensor :: "TaskArgs \<Rightarrow> Tensor \<Rightarrow> TensorArgType \<Rightarrow> exn + TaskArgs" where
  "add_tensor a t tag = add_tensor_transfer a t tag (legacy_tensor_transfer (bd_address_space (t_buffer t)))"

definition add_scalar :: "TaskArgs \<Rightarrow> u64 \<Rightarrow> TaskArgs" where
  "add_scalar a x = a\<lparr>ta_scalars := ta_scalars a @ [x]\<rparr>"

definition add_dep :: "TaskArgs \<Rightarrow> TaskHandle \<Rightarrow> TaskArgs" where
  "add_dep a task = a\<lparr>ta_explicit_deps := ta_explicit_deps a @ [\<lparr>ed_task = task, ed_retain = True\<rparr>]\<rparr>"

definition add_dep_wait :: "TaskArgs \<Rightarrow> TaskHandle \<Rightarrow> TaskArgs" where
  "add_dep_wait a task = a\<lparr>ta_explicit_deps := ta_explicit_deps a @ [\<lparr>ed_task = task, ed_retain = False\<rparr>]\<rparr>"

definition ta_transfer :: "TaskArgs \<Rightarrow> nat \<Rightarrow> exn + TensorTransfer" where
  "ta_transfer a i =
     (if i \<ge> length (ta_transfers a) then Inl (OutOfRange ''vector::_M_range_check'')
      else
        let request = ta_transfers a ! i in
        case tensor_transfer_error (bd_address_space (t_buffer (ta_tensors a ! i))) request of
          Some err \<Rightarrow> Inl (InvalidArgument err)
        | None \<Rightarrow> Inr request)"

definition args_clear :: "TaskArgs \<Rightarrow> TaskArgs" where
  "args_clear a = a\<lparr>ta_tensors := [], ta_scalars := [], ta_explicit_deps := [], ta_tags := [], ta_transfers := []\<rparr>"

text \<open>What the builder keeps: one tag and one transfer per tensor.\<close>

definition args_wf :: "TaskArgs \<Rightarrow> bool" where
  "args_wf a \<longleftrightarrow> length (ta_tags a) = tensor_count a \<and> length (ta_transfers a) = tensor_count a"

lemma empty_args_wf [inv_intros]: "args_wf empty_args"
  by (simp add: args_wf_def empty_args_def tensor_count_def)

lemma add_tensor_transfer_wf [inv_intros]:
  "args_wf a \<Longrightarrow> add_tensor_transfer a t tag transfer = Inr a' \<Longrightarrow> args_wf a'"
  by (auto simp: args_wf_def add_tensor_transfer_def tensor_count_def split: option.splits if_splits)

lemma args_clear_empty: "args_clear a = empty_args"
  by (cases a) (simp add: args_clear_def empty_args_def)

section \<open>Submit-time validation\<close>

definition granted_has :: "u8 \<Rightarrow> u8 \<Rightarrow> bool" where
  "granted_has granted need \<longleftrightarrow> granted = AccessMode_READWRITE \<or> granted = need"

fun access_permits :: "u8 \<Rightarrow> TensorArgType \<Rightarrow> bool" where
  "access_permits granted INPUT = granted_has granted AccessMode_READ"
| "access_permits granted OUTPUT_EXISTING = granted_has granted AccessMode_WRITE"
| "access_permits granted INOUT = (granted = AccessMode_READWRITE)"
| "access_permits granted _ = True"

definition tag_writes :: "TensorArgType \<Rightarrow> bool" where
  "tag_writes tag \<longleftrightarrow> tag = OUTPUT \<or> tag = OUTPUT_EXISTING \<or> tag = INOUT"

definition check_access :: "TaskArgs \<Rightarrow> nat \<Rightarrow> exn + unit" where
  "check_access a i =
     (case ta_transfer a i of Inl e \<Rightarrow> Inl e | Inr _ \<Rightarrow>
      reject_if (\<not> access_permits (bd_access (t_buffer (ta_tensors a ! i))) (ta_tags a ! i))
        ''submit: an argument's TensorArgType requests access the backing does not grant'' (Inr ()))"

definition check_writes :: "TaskArgs \<Rightarrow> nat \<Rightarrow> exn + unit" where
  "check_writes a i =
     (if \<not> tag_writes (ta_tags a ! i) then Inr ()
      else for_each (\<lambda>j. reject_if (tensors_overlap (ta_tensors a ! i) (ta_tensors a ! j))
             ''submit: two arguments of one task write overlapping bytes of the same buffer; give them disjoint ranges, or order them as separate tasks''
             (Inr ())) [i + 1 ..< tensor_count a])"

definition validate_submit_args :: "TaskArgs list \<Rightarrow> exn + unit" where
  "validate_submit_args args_list =
     (case for_each (\<lambda>a. for_each (check_access a) [0 ..< tensor_count a]) args_list of
        Inl e \<Rightarrow> Inl e
      | Inr _ \<Rightarrow> for_each (\<lambda>a. for_each (check_writes a) [0 ..< tensor_count a]) args_list)"

section \<open>Call configuration\<close>

record RuntimeEnv =
  re_ring_task_window :: "u64 list"
  re_ring_heap :: "u64 list"
  re_ring_dep_pool :: "u64 list"

record CallConfig =
  cc_aicpu_thread_num :: int
  cc_enable_chip_swimlane :: int
  cc_enable_dump_args :: int
  cc_enable_pmu :: int
  cc_enable_dep_gen :: int
  cc_enable_scope_stats :: int
  cc_runtime_env :: RuntimeEnv
  cc_output_prefix :: string

abbreviation INT32_MAX_u64 :: u64 where "INT32_MAX_u64 \<equiv> 2147483647"

definition pow2 :: "u64 \<Rightarrow> bool" where
  "pow2 v \<longleftrightarrow> and v (v - 1) = 0"

definition env_entry_ok :: "u64 \<Rightarrow> u64 \<Rightarrow> u64 \<Rightarrow> exn + unit" where
  "env_entry_ok window heap pool =
     reject_if (window \<noteq> 0 \<and> (window < 4 \<or> window > INT32_MAX_u64 \<or> \<not> pow2 window))
       ''RuntimeEnv: ring_task_window must be a power of 2 in [4, INT32_MAX]''
     (reject_if (heap \<noteq> 0 \<and> heap < 1024) ''RuntimeEnv: ring_heap must be >= 1024 (bytes per ring)''
     (reject_if (pool \<noteq> 0 \<and> (pool < 4 \<or> pool > INT32_MAX_u64)) ''RuntimeEnv: ring_dep_pool must be in [4, INT32_MAX]''
     (Inr ())))"

definition runtime_env_validate :: "RuntimeEnv \<Rightarrow> exn + unit" where
  "runtime_env_validate env =
     for_each (\<lambda>i. env_entry_ok (re_ring_task_window env ! i) (re_ring_heap env ! i) (re_ring_dep_pool env ! i)) [0 ..< 4]"

definition diagnostics_any :: "CallConfig \<Rightarrow> bool" where
  "diagnostics_any c \<longleftrightarrow> cc_enable_chip_swimlane c \<noteq> 0 \<or> cc_enable_dump_args c \<noteq> 0 \<or> cc_enable_pmu c \<noteq> 0 \<or>
     cc_enable_dep_gen c \<noteq> 0 \<or> cc_enable_scope_stats c \<noteq> 0"

definition output_prefix_set :: "CallConfig \<Rightarrow> bool" where
  "output_prefix_set c \<longleftrightarrow> cc_output_prefix c \<noteq> []"

definition call_config_validate :: "CallConfig \<Rightarrow> exn + unit" where
  "call_config_validate c =
     reject_if (diagnostics_any c \<and> \<not> output_prefix_set c)
       ''CallConfig: output_prefix must be set whenever any of enable_chip_swimlane / enable_dump_args / enable_pmu / enable_dep_gen / enable_scope_stats is enabled''
     (runtime_env_validate (cc_runtime_env c))"

definition default_config :: CallConfig where
  "default_config = \<lparr>cc_aicpu_thread_num = 0, cc_enable_chip_swimlane = 0, cc_enable_dump_args = 0, cc_enable_pmu = 0,
     cc_enable_dep_gen = 0, cc_enable_scope_stats = 0,
     cc_runtime_env = \<lparr>re_ring_task_window = [0, 0, 0, 0], re_ring_heap = [0, 0, 0, 0], re_ring_dep_pool = [0, 0, 0, 0]\<rparr>,
     cc_output_prefix = []\<rparr>"

section \<open>Communication domains\<close>

text \<open>The kind is kept as the 32-bit value that crosses the wire.\<close>

abbreviation CommDomainKind_LOCAL :: u32 where "CommDomainKind_LOCAL \<equiv> 1"
abbreviation CommDomainKind_GLOBAL :: u32 where "CommDomainKind_GLOBAL \<equiv> 2"

record CommDomainUse =
  cu_kind :: u32
  cu_reserved :: u32
  cu_id :: u64
  cu_device_context :: u64

definition use_clash :: "CommDomainUse \<Rightarrow> CommDomainUse \<Rightarrow> bool" where
  "use_clash a b \<longleftrightarrow> (cu_kind a = cu_kind b \<and> cu_id a = cu_id b) \<or> cu_device_context a = cu_device_context b"

definition validate_comm_domain_uses :: "CommDomainUse list \<Rightarrow> exn + unit" where
  "validate_comm_domain_uses uses =
     for_each (\<lambda>i. let use = uses ! i in
       reject_if ((cu_kind use \<noteq> CommDomainKind_LOCAL \<and> cu_kind use \<noteq> CommDomainKind_GLOBAL) \<or> cu_reserved use \<noteq> 0 \<or>
           (cu_kind use = CommDomainKind_GLOBAL \<and> cu_id use = 0) \<or> cu_device_context use = 0)
         ''invalid communication-domain use identity''
       (for_each (\<lambda>j. reject_if (use_clash (uses ! j) use) ''duplicate communication-domain use identity'' (Inr ()))
          [0 ..< i])) [0 ..< length uses]"

section \<open>What an accepted submission promises\<close>

lemma validate_submit_args_Inr:
  "validate_submit_args args_list = Inr u \<longleftrightarrow>
     (\<forall>a \<in> set args_list. \<forall>i < tensor_count a. check_access a i = Inr () \<and> check_writes a i = Inr ())"
  by (auto simp: validate_submit_args_def bind_Inr)

lemma check_writes_disjoint:
  "check_writes a i = Inr u \<Longrightarrow> tag_writes (ta_tags a ! i) \<Longrightarrow> i < j \<Longrightarrow> j < tensor_count a \<Longrightarrow>
   \<not> tensors_overlap (ta_tensors a ! i) (ta_tensors a ! j)"
  by (simp add: check_writes_def)

lemma not_overlap_disjoint:
  assumes "tensor_wf a" "tensor_wf b" "validate_tensor a = Inr ()" "validate_tensor b = Inr ()"
    and "identity_eq (bd_identity (t_buffer a)) (bd_identity (t_buffer b))" "\<not> tensors_overlap a b"
  shows "view_bytes (tensor_footprint a) \<inter> view_bytes (tensor_footprint b) = {}"
  using assms tensor_overlap_none_sound validated_footprint_ok by (auto simp: tensors_overlap_def)

text \<open>
  C40: an accepted argument set writes no byte twice. If \<open>validate_submit_args\<close> accepts a submission, then within
  each task two arguments that both declare a write to one buffer touch no common byte, and every argument asks
  only for access its buffer grants; the check never mistakes overlapping strided views for disjoint ones.
\<close>

theorem accepted_writes_disjoint:
  assumes "validate_submit_args args_list = Inr ()" "a \<in> set args_list" "i < j" "j < tensor_count a"
    and "tag_writes (ta_tags a ! i)" "tag_writes (ta_tags a ! j)"
    and "\<forall>t \<in> set (ta_tensors a). tensor_wf t \<and> validate_tensor t = Inr ()"
    and "identity_eq (bd_identity (t_buffer (ta_tensors a ! i))) (bd_identity (t_buffer (ta_tensors a ! j)))"
  shows "view_bytes (tensor_footprint (ta_tensors a ! i)) \<inter> view_bytes (tensor_footprint (ta_tensors a ! j)) = {} \<and>
    access_permits (bd_access (t_buffer (ta_tensors a ! i))) (ta_tags a ! i)"
proof -
  have checks: "check_access a i = Inr ()" "check_writes a i = Inr ()"
    using assms(1-4) by (simp_all add: validate_submit_args_Inr)
  have "\<not> tensors_overlap (ta_tensors a ! i) (ta_tensors a ! j)"
    using check_writes_disjoint [OF checks(2)] assms(3-5) by simp
  then show ?thesis
    using not_overlap_disjoint assms(3,4,7,8) checks(1) by (auto simp: tensor_count_def check_access_def bind_Inr)
qed

definition sample_args :: "(Tensor \<times> TensorArgType) list \<Rightarrow> TaskArgs" where
  "sample_args ts = empty_args\<lparr>ta_tensors := map fst ts, ta_tags := map snd ts, ta_transfers := map (\<lambda>_. 1) ts\<rparr>"

lemmas args_eval = sample_args_def empty_args_def validate_submit_args_def check_access_def check_writes_def
  tensor_count_def ta_transfer_def tensor_transfer_error_def tag_writes_def granted_has_def

lemma upt_small [simp]: "[0..<Suc 0] = [0]" "[0..<2] = [0, 1::nat]" "[Suc 0..<2] = [1::nat]"
  by (simp_all add: numeral_2_eq_2)

theorem accepted_writes_disjoint_witness:
  "view_bytes (tensor_footprint (sample_block 0 4 4)) \<inter> view_bytes (tensor_footprint (sample_block 16 4 4)) = {}"
proof -
  let ?a = "sample_args [(sample_block 0 4 4, INOUT), (sample_block 16 4 4, OUTPUT_EXISTING)]"
  have "validate_submit_args [?a] = Inr ()" by (simp add: args_eval view_eval)
  from accepted_writes_disjoint [OF this, of ?a 0 1] show ?thesis
    by (simp add: sample_args_def empty_args_def tensor_count_def tag_writes_def) (simp add: view_eval)
qed

text \<open>
  The verdict on a read and a write of the same bytes depends on their order. A task whose first argument
  reads a view and whose second writes it is accepted; the same two arguments the other way round are refused,
  with a message about two writes.
\<close>

theorem submit_check_depends_on_order:
  "validate_submit_args [sample_args [(sample_block 0 4 4, INPUT), (sample_block 0 4 4, INOUT)]] = Inr () \<and>
   validate_submit_args [sample_args [(sample_block 0 4 4, INOUT), (sample_block 0 4 4, INPUT)]] =
     Inl (InvalidArgument ''submit: two arguments of one task write overlapping bytes of the same buffer; give them disjoint ranges, or order them as separate tasks'')"
  by (simp add: args_eval view_eval)

lemma power_of_two_nat:
  assumes "0 < n" "and n (n - 1 :: nat) = 0"
  shows "\<exists>k. n = 2 ^ k"
proof -
  obtain k where k: "2 ^ k \<le> n" "n < 2 ^ (k + 1)" using ex_power_ivl1 [of 2 n] assms(1) by auto
  have top: "bit m k" if "2 ^ k \<le> m" "m < 2 ^ (k + 1)" for m :: nat
  proof -
    have "m div 2 ^ k = 1" using that by (simp add: div_nat_eqI)
    then show ?thesis by (simp add: bit_iff_odd)
  qed
  have "n = 2 ^ k"
  proof (rule ccontr)
    assume "n \<noteq> 2 ^ k"
    then have "bit (n - 1) k" using k by (intro top) auto
    then have "bit (and n (n - 1)) k" using top [OF k] by (simp add: bit_and_iff)
    then show False using assms(2) by simp
  qed
  then show ?thesis ..
qed

lemma pow2_window:
  assumes "pow2 w" "4 \<le> w" "w \<le> INT32_MAX_u64"
  shows "\<exists>k. 2 \<le> k \<and> k \<le> 30 \<and> unat w = 2 ^ k"
proof -
  have w: "4 \<le> unat w" "unat w \<le> 2147483647" using assms(2,3) by (simp_all add: word_le_nat_alt)
  have "and (unat w) (unat w - 1) = unat (and w (w - 1))"
    using w(1) by (simp add: unsigned_and_eq unat_sub_no_wrap word_le_nat_alt)
  also have "\<dots> = 0" using assms(1) by (simp add: pow2_def)
  finally obtain k where k: "unat w = 2 ^ k" using power_of_two_nat [of "unat w"] w(1) by auto
  have "2 ^ 2 \<le> (2::nat) ^ k" "(2::nat) ^ k < 2 ^ 31" using w k by simp_all
  then have "2 \<le> k" "k < 31"
    using power_le_imp_le_exp [of 2 2 k] power_less_imp_less_exp [of 2 k 31] by simp_all
  then show ?thesis using k by auto
qed

text \<open>
  An accepted configuration only asks for ring sizes the rings support: every task-window override is zero
  (unset) or a power of two between 4 and 2^30, every heap override is zero or at least 1024 bytes, every
  dependency-pool override is zero or between 4 and 2^31 - 1; and a run with diagnostics has an output directory.
\<close>

theorem accepted_config_sizes:
  assumes "call_config_validate c = Inr ()" "i < 4"
  shows "(re_ring_task_window (cc_runtime_env c) ! i = 0 \<or>
      (\<exists>k. 2 \<le> k \<and> k \<le> 30 \<and> unat (re_ring_task_window (cc_runtime_env c) ! i) = 2 ^ k)) \<and>
    (re_ring_heap (cc_runtime_env c) ! i = 0 \<or> 1024 \<le> unat (re_ring_heap (cc_runtime_env c) ! i)) \<and>
    (re_ring_dep_pool (cc_runtime_env c) ! i = 0 \<or>
      4 \<le> unat (re_ring_dep_pool (cc_runtime_env c) ! i) \<and> unat (re_ring_dep_pool (cc_runtime_env c) ! i) < 2 ^ 31) \<and>
    (diagnostics_any c \<longrightarrow> output_prefix_set c)"
proof -
  have entry: "env_entry_ok (re_ring_task_window (cc_runtime_env c) ! i) (re_ring_heap (cc_runtime_env c) ! i)
      (re_ring_dep_pool (cc_runtime_env c) ! i) = Inr ()"
    using assms by (simp add: call_config_validate_def runtime_env_validate_def)
  then show ?thesis
    using assms(1) pow2_window [of "re_ring_task_window (cc_runtime_env c) ! i"]
    by (auto simp: env_entry_ok_def call_config_validate_def word_less_nat_alt word_le_nat_alt)
qed

theorem accepted_config_sizes_witness:
  "call_config_validate (default_config\<lparr>cc_runtime_env := \<lparr>re_ring_task_window = [16, 0, 0, 0],
      re_ring_heap = [1024, 0, 0, 0], re_ring_dep_pool = [4, 0, 0, 0]\<rparr>\<rparr>) = Inr () \<and>
   (\<exists>k. 2 \<le> k \<and> k \<le> 30 \<and> unat (16 :: u64) = 2 ^ k)"
proof -
  let ?c = "default_config\<lparr>cc_runtime_env := \<lparr>re_ring_task_window = [16, 0, 0, 0],
      re_ring_heap = [1024, 0, 0, 0], re_ring_dep_pool = [4, 0, 0, 0]\<rparr>\<rparr>"
  have ok: "call_config_validate ?c = Inr ()" by code_simp
  from accepted_config_sizes [OF this, of 0] ok show ?thesis by (simp add: default_config_def)
qed

end
