(* ===== verification/Task_Blob.thy ===== *)
theory Task_Blob
  imports Task_Args
begin

text \<open>
  The wire formats of one dispatch: the length-prefixed argument blob of \<open>task_args_wire.h\<close> (\<open>write_blob\<close>,
  \<open>read_blob\<close>, \<open>TaskArgsView\<close>) and the communication-domain trailer of \<open>comm_domain_use_wire.h\<close>. A struct that
  crosses by \<open>memcpy\<close> is the list of its bytes, little-endian as on every supported host, at the offsets the
  source asserts; padding bytes that the model's records leave out are parameters of the writer, and every
  statement holds for all of them.
\<close>

section \<open>Bytes\<close>

fun le_bytes :: "nat \<Rightarrow> nat \<Rightarrow> u8 list" where
  "le_bytes 0 n = []"
| "le_bytes (Suc k) n = of_nat n # le_bytes k (n div 256)"

lemma length_le_bytes [simp]: "length (le_bytes k n) = k"
  by (induction k arbitrary: n) simp_all

lemma le_nat_le_bytes: "le_nat (le_bytes k n) = n mod 256 ^ k"
proof (induction k arbitrary: n)
  case (Suc k)
  have "n mod 256 ^ Suc k = n mod 256 + 256 * (n div 256 mod 256 ^ k)"
    using mod_mult2_eq [of n 256 "256 ^ k"] by simp
  then show ?case using Suc by (simp add: unsigned_of_nat take_bit_eq_mod)
qed simp

definition u16_bytes :: "u16 \<Rightarrow> u8 list" where "u16_bytes w = le_bytes 2 (unat w)"
definition u32_bytes :: "u32 \<Rightarrow> u8 list" where "u32_bytes w = le_bytes 4 (unat w)"
definition u64_bytes :: "u64 \<Rightarrow> u8 list" where "u64_bytes w = le_bytes 8 (unat w)"

definition body_u16 :: "u8 list \<Rightarrow> nat \<Rightarrow> u16" where
  "body_u16 bs off = of_nat (le_nat (take 2 (drop off bs)))"

lemma length_word_bytes [simp]:
  "length (u16_bytes a) = 2" "length (u32_bytes b) = 4" "length (u64_bytes c) = 8"
  by (simp_all add: u16_bytes_def u32_bytes_def u64_bytes_def)

lemma le_nat_word_bytes [simp]:
  "of_nat (le_nat (u16_bytes a)) = a" "of_nat (le_nat (u32_bytes b)) = b" "of_nat (le_nat (u64_bytes c)) = c"
proof -
  have "unat a < 256 ^ 2" using unsigned_less [of a, where ?'a = nat] by simp
  then show "of_nat (le_nat (u16_bytes a)) = a" by (simp add: u16_bytes_def le_nat_le_bytes)
  have "unat b < 256 ^ 4" using unat_u32_bound [of b] by (simp del: unat_u32_bound)
  then show "of_nat (le_nat (u32_bytes b)) = b" by (simp add: u32_bytes_def le_nat_le_bytes)
  have "unat c < 256 ^ 8" using unat_u64_bound [of c] by (simp del: unat_u64_bound)
  then show "of_nat (le_nat (u64_bytes c)) = c" by (simp add: u64_bytes_def le_nat_le_bytes)
qed

lemma body_u32_at: "take 4 (drop off bs) = u32_bytes w \<Longrightarrow> body_u32 bs off = w"
  by (simp add: body_u32_def)

lemma body_u64_at: "take 8 (drop off bs) = u64_bytes w \<Longrightarrow> body_u64 bs off = w"
  by (simp add: body_u64_def)

text \<open>Arrays: the \<open>i\<close>-th row of fixed-size rows laid out one after the other.\<close>

lemma nth_row:
  assumes "\<And>x. x \<in> set xs \<Longrightarrow> length (f x) = k" "i < length xs"
  shows "take k (drop (k * i) (concat (map f xs) @ rest)) = f (xs ! i)"
  using assms
proof (induction xs arbitrary: i)
  case (Cons x xs)
  show ?case
  proof (cases i)
    case 0
    then show ?thesis using Cons.prems by simp
  next
    case (Suc j)
    then show ?thesis using Cons.IH [of j] Cons.prems by (simp add: drop_append)
  qed
qed simp

lemma length_rows: "(\<And>x. x \<in> set xs \<Longrightarrow> length (f x) = k) \<Longrightarrow> length (concat (map f xs)) = k * length xs"
  by (induction xs) (simp_all add: algebra_simps)

lemma nth_of_row: "take k (drop off xs) = ys \<Longrightarrow> j < k \<Longrightarrow> off \<le> length xs \<Longrightarrow> xs ! (off + j) = ys ! j"
  by (drule sym) (simp add: nth_drop)

section \<open>Tensors\<close>

text \<open>The padding of the descriptor and of the tensor; the identity's own padding is in its record.\<close>

record TensorPads =
  pad0 :: "u8 list"
  pad1 :: "u8 list"
  pad_tail :: "u8 list"

definition pads_wf :: "TensorPads \<Rightarrow> bool" where
  "pads_wf p \<longleftrightarrow> length (pad0 p) = 3 \<and> length (pad1 p) = 2 \<and> length (pad_tail p) = 3"

definition tensor_layout :: "Tensor \<Rightarrow> bool" where
  "tensor_layout t \<longleftrightarrow> tensor_wf t \<and> length (bd_body (t_buffer t)) = DESC_MAX_BYTES \<and>
     length (owner_instance_id (bd_identity (t_buffer t))) = OWNER_INSTANCE_ID_BYTES \<and>
     length (ci_pad (bd_identity (t_buffer t))) = 12"

definition identity_bytes :: "CanonicalIdentity \<Rightarrow> u8 list" where
  "identity_bytes k = owner_instance_id k @ u64_bytes (ci_buffer_id k) @ u32_bytes (ci_generation k) @ ci_pad k"

definition descriptor_bytes :: "TensorPads \<Rightarrow> BufferDescriptor \<Rightarrow> u8 list" where
  "descriptor_bytes p h =
     u16_bytes (bd_magic h) @ [bd_address_space h, bd_access h, bd_backend_kind h] @ pad0 p @
     identity_bytes (bd_identity h) @ u64_bytes (bd_nbytes h) @ u32_bytes (bd_owner_worker_path_id h) @
     u16_bytes (bd_body_len h) @ pad1 p @ bd_body h"

definition tensor_bytes :: "TensorPads \<Rightarrow> Tensor \<Rightarrow> u8 list" where
  "tensor_bytes p t =
     descriptor_bytes p (t_buffer t) @ u64_bytes (t_byte_offset t) @ u32_bytes (t_ndims t) @
     concat (map u32_bytes (t_shapes t)) @ concat (map u32_bytes (t_strides t)) @ [t_dtype t] @ pad_tail p"

definition identity_of_bytes :: "u8 list \<Rightarrow> CanonicalIdentity" where
  "identity_of_bytes bs = \<lparr>owner_instance_id = take 8 bs, ci_buffer_id = body_u64 bs 8, ci_generation = body_u32 bs 16,
     ci_pad = take 12 (drop 20 bs)\<rparr>"

definition descriptor_of_bytes :: "u8 list \<Rightarrow> BufferDescriptor" where
  "descriptor_of_bytes bs = \<lparr>bd_magic = body_u16 bs 0, bd_address_space = bs ! 2, bd_access = bs ! 3,
     bd_backend_kind = bs ! 4, bd_identity = identity_of_bytes (take 32 (drop 8 bs)), bd_nbytes = body_u64 bs 40,
     bd_owner_worker_path_id = body_u32 bs 48, bd_body_len = body_u16 bs 52, bd_body = take 32 (drop 56 bs)\<rparr>"

definition tensor_of_bytes :: "u8 list \<Rightarrow> Tensor" where
  "tensor_of_bytes bs = \<lparr>t_buffer = descriptor_of_bytes (take 88 bs), t_byte_offset = body_u64 bs 88,
     t_ndims = body_u32 bs 96, t_shapes = map (\<lambda>i. body_u32 bs (100 + 4 * i)) [0 ..< 5],
     t_strides = map (\<lambda>i. body_u32 bs (120 + 4 * i)) [0 ..< 5], t_dtype = bs ! 140\<rparr>"

lemma identity_of_identity_bytes:
  "length (owner_instance_id k) = 8 \<Longrightarrow> length (ci_pad k) = 12 \<Longrightarrow> identity_of_bytes (identity_bytes k) = k"
  by (cases k) (simp add: identity_of_bytes_def identity_bytes_def body_u64_def body_u32_def)

lemma length_identity_bytes [simp]:
  "length (owner_instance_id k) = 8 \<Longrightarrow> length (ci_pad k) = 12 \<Longrightarrow> length (identity_bytes k) = 32"
  by (simp add: identity_bytes_def)

lemma length_descriptor_bytes:
  "pads_wf p \<Longrightarrow> tensor_layout t \<Longrightarrow> length (descriptor_bytes p (t_buffer t)) = 88"
  by (simp add: pads_wf_def tensor_layout_def descriptor_bytes_def)

lemma descriptor_of_descriptor_bytes:
  assumes "pads_wf p" "tensor_layout t"
  shows "descriptor_of_bytes (descriptor_bytes p (t_buffer t)) = t_buffer t"
proof -
  let ?h = "t_buffer t"
  obtain a b c where p0: "pad0 p = [a, b, c]"
    using assms(1) by (auto simp: pads_wf_def numeral_eq_Suc length_Suc_conv)
  have idl: "length (identity_bytes (bd_identity ?h)) = 32" using assms(2) by (simp add: tensor_layout_def)
  obtain m n where mn: "u16_bytes (bd_magic ?h) = [m, n]"
    by (simp add: u16_bytes_def numeral_2_eq_2)
  have mag: "of_nat (le_nat [m, n]) = bd_magic ?h" using le_nat_word_bytes(1) [of "bd_magic ?h"] mn by simp
  show ?thesis
    using assms idl identity_of_identity_bytes [of "bd_identity ?h"] mag
    by (simp add: descriptor_of_bytes_def descriptor_bytes_def body_u64_def body_u32_def body_u16_def p0 mn
        pads_wf_def tensor_layout_def del: le_nat.simps)
qed

lemma length_tensor_bytes: "pads_wf p \<Longrightarrow> tensor_layout t \<Longrightarrow> length (tensor_bytes p t) = 144"
  by (simp add: tensor_bytes_def length_descriptor_bytes length_rows [where k = 4])
    (simp add: pads_wf_def tensor_layout_def tensor_wf_def MAX_TENSOR_DIMS_def)

lemma tensor_of_tensor_bytes:
  assumes p: "pads_wf p" and t: "tensor_layout t"
  shows "tensor_of_bytes (tensor_bytes p t) = t"
proof -
  let ?D = "descriptor_bytes p (t_buffer t)" and ?S = "concat (map u32_bytes (t_shapes t))"
    and ?R = "concat (map u32_bytes (t_strides t))"
  have len: "length (t_shapes t) = 5" "length (t_strides t) = 5"
    using t by (simp_all add: tensor_layout_def tensor_wf_def MAX_TENSOR_DIMS_def)
  have lens: "length ?D = 88" "length ?S = 20" "length ?R = 20"
    using length_descriptor_bytes [OF p t] length_rows [of "t_shapes t" u32_bytes 4]
      length_rows [of "t_strides t" u32_bytes 4] len by simp_all
  have shape: "body_u32 (tensor_bytes p t) (100 + 4 * i) = t_shapes t ! i" if "i < 5" for i
    using nth_row [of "t_shapes t" u32_bytes 4 i "?R @ [t_dtype t] @ pad_tail p"] that lens len
    by (intro body_u32_at) (simp add: tensor_bytes_def flip: drop_drop)
  have stride: "body_u32 (tensor_bytes p t) (120 + 4 * i) = t_strides t ! i" if "i < 5" for i
    using nth_row [of "t_strides t" u32_bytes 4 i "[t_dtype t] @ pad_tail p"] that lens len
    by (intro body_u32_at) (simp add: tensor_bytes_def flip: drop_drop)
  have "map (\<lambda>i. body_u32 (tensor_bytes p t) (100 + 4 * i)) [0 ..< 5] = t_shapes t"
    "map (\<lambda>i. body_u32 (tensor_bytes p t) (120 + 4 * i)) [0 ..< 5] = t_strides t"
    using shape stride len by (auto intro: nth_equalityI)
  moreover have "take 88 (tensor_bytes p t) = ?D" "tensor_bytes p t ! 140 = t_dtype t"
    using lens by (simp_all add: tensor_bytes_def nth_append)
  moreover have "body_u64 (tensor_bytes p t) 88 = t_byte_offset t" "body_u32 (tensor_bytes p t) 96 = t_ndims t"
    using lens by (simp_all add: tensor_bytes_def body_u64_def body_u32_def)
  ultimately show ?thesis
    using descriptor_of_descriptor_bytes [OF p t] by (simp add: tensor_of_bytes_def)
qed

section \<open>The argument blob\<close>

abbreviation TASK_ARGS_BLOB_HEADER_SIZE :: nat where "TASK_ARGS_BLOB_HEADER_SIZE \<equiv> 8"
abbreviation TASK_ARG_TRANSFER_OFFSET :: nat where "TASK_ARG_TRANSFER_OFFSET \<equiv> 141"
abbreviation sizeof_Tensor :: nat where "sizeof_Tensor \<equiv> 144"

definition task_args_blob_size :: "TaskArgs \<Rightarrow> nat" where
  "task_args_blob_size a = TASK_ARGS_BLOB_HEADER_SIZE + tensor_count a * sizeof_Tensor + length (ta_scalars a) * 8"

definition arg_slot :: "(nat \<Rightarrow> TensorPads) \<Rightarrow> TaskArgs \<Rightarrow> nat \<Rightarrow> u8 list" where
  "arg_slot pads a i = (tensor_bytes (pads i) (ta_tensors a ! i))[TASK_ARG_TRANSFER_OFFSET := ta_transfers a ! i]"

definition write_blob :: "(nat \<Rightarrow> TensorPads) \<Rightarrow> TaskArgs \<Rightarrow> exn + u8 list" where
  "write_blob pads a =
     (case for_each (\<lambda>i. case ta_transfer a i of Inl e \<Rightarrow> Inl e | Inr _ \<Rightarrow> Inr ()) [0 ..< tensor_count a] of
        Inl e \<Rightarrow> Inl e
      | Inr _ \<Rightarrow> Inr (u32_bytes (of_nat (tensor_count a)) @ u32_bytes (of_nat (length (ta_scalars a))) @
          concat (map (arg_slot pads a) [0 ..< tensor_count a]) @ concat (map u64_bytes (ta_scalars a))))"

record TaskArgsView =
  tv_tensor_count :: int
  tv_scalar_count :: int
  tv_tensor_bytes :: "u8 list"
  tv_scalars :: "u8 list"

text \<open>
  \<open>src\<close> is the memory from the blob's start on. The sum \<open>needed\<close> stays far below the range of \<open>size_t\<close>: each
  count is below \<open>2 ^ 31\<close>. The dash in two of the messages is ASCII here.
\<close>

definition read_blob :: "u8 list \<Rightarrow> nat \<Rightarrow> exn + TaskArgsView" where
  "read_blob src capacity =
     (if capacity < TASK_ARGS_BLOB_HEADER_SIZE then
        Inl (RuntimeError (''read_blob: capacity '' @ to_string (int capacity) @ '' < header size '' @
          to_string (int TASK_ARGS_BLOB_HEADER_SIZE)))
      else
        let T = sint (body_u32 src 0); S = sint (body_u32 src 4) in
        if T < 0 \<or> S < 0 then
          Inl (RuntimeError (''read_blob: negative counts - tensors='' @ to_string T @ '', scalars='' @ to_string S))
        else
          let needed = TASK_ARGS_BLOB_HEADER_SIZE + nat T * sizeof_Tensor + nat S * 8 in
          if needed > capacity then
            Inl (RuntimeError (''read_blob: header reports '' @ to_string (int needed) @ '' bytes (T='' @ to_string T @
              '', S='' @ to_string S @ '') but capacity is '' @ to_string (int capacity) @
              '' - likely shm corruption or a writer-side bug''))
          else Inr \<lparr>tv_tensor_count = T, tv_scalar_count = S, tv_tensor_bytes = drop TASK_ARGS_BLOB_HEADER_SIZE src,
                 tv_scalars = drop (TASK_ARGS_BLOB_HEADER_SIZE + nat T * sizeof_Tensor) src\<rparr>)"

definition view_tensors :: "TaskArgsView \<Rightarrow> int \<Rightarrow> exn + Tensor" where
  "view_tensors v i =
     (if i < 0 \<or> i \<ge> tv_tensor_count v then Inl (OutOfRange ''TaskArgsView::tensors: index out of range'')
      else
        let t = tensor_of_bytes (take sizeof_Tensor (drop (nat i * sizeof_Tensor) (tv_tensor_bytes v)))
        in case validate_tensor t of Inl e \<Rightarrow> Inl e | Inr _ \<Rightarrow> Inr t)"

definition view_transfer :: "TaskArgsView \<Rightarrow> int \<Rightarrow> exn + TensorTransfer" where
  "view_transfer v i =
     (case view_tensors v i of
        Inl e \<Rightarrow> Inl e
      | Inr t \<Rightarrow>
          let request = tv_tensor_bytes v ! (nat i * sizeof_Tensor + TASK_ARG_TRANSFER_OFFSET) in
          case tensor_transfer_error (bd_address_space (t_buffer t)) request of
            Some err \<Rightarrow> Inl (InvalidArgument err)
          | None \<Rightarrow> Inr request)"

definition view_scalar :: "TaskArgsView \<Rightarrow> nat \<Rightarrow> u64" where
  "view_scalar v i = body_u64 (tv_scalars v) (8 * i)"

lemma arg_slot_tail:
  assumes "pads_wf (pads i)" "tensor_layout (ta_tensors a ! i)"
  shows "\<exists>p. pads_wf p \<and> arg_slot pads a i = tensor_bytes p (ta_tensors a ! i)"
    and "length (arg_slot pads a i) = 144" "arg_slot pads a i ! 141 = ta_transfers a ! i"
proof -
  let ?t = "ta_tensors a ! i"
  obtain x y z where tail: "pad_tail (pads i) = [x, y, z]"
    using assms(1) by (auto simp: pads_wf_def numeral_eq_Suc length_Suc_conv)
  let ?p = "(pads i)\<lparr>pad_tail := [ta_transfers a ! i, y, z]\<rparr>"
  have body: "length (descriptor_bytes (pads i) (t_buffer ?t)) = 88" "length (t_shapes ?t) = 5" "length (t_strides ?t) = 5"
    using length_descriptor_bytes [OF assms] assms(2)
    by (simp_all add: tensor_layout_def tensor_wf_def MAX_TENSOR_DIMS_def)
  have same: "descriptor_bytes ?p (t_buffer ?t) = descriptor_bytes (pads i) (t_buffer ?t)"
    by (simp add: descriptor_bytes_def)
  have "arg_slot pads a i = tensor_bytes ?p ?t"
    using body same tail length_rows [of "t_shapes ?t" u32_bytes 4] length_rows [of "t_strides ?t" u32_bytes 4]
    by (simp add: arg_slot_def tensor_bytes_def list_update_append)
  moreover have "pads_wf ?p" using assms(1) by (simp add: pads_wf_def)
  ultimately show "\<exists>p. pads_wf p \<and> arg_slot pads a i = tensor_bytes p ?t" by blast
  show "length (arg_slot pads a i) = 144" "arg_slot pads a i ! 141 = ta_transfers a ! i"
    using length_tensor_bytes [OF assms] by (simp_all add: arg_slot_def)
qed

text \<open>A submission whose arguments can be serialised: layouts of the wire structs, requests the reader will accept.\<close>

definition sendable :: "TaskArgs \<Rightarrow> bool" where
  "sendable a \<longleftrightarrow> args_wf a \<and> tensor_count a < 2 ^ 31 \<and> length (ta_scalars a) < 2 ^ 31 \<and>
     (\<forall>t \<in> set (ta_tensors a). tensor_layout t \<and> validate_tensor t = Inr ()) \<and>
     (\<forall>i < tensor_count a. ta_transfer a i = Inr (ta_transfers a ! i))"

definition blob_body :: "(nat \<Rightarrow> TensorPads) \<Rightarrow> TaskArgs \<Rightarrow> u8 list" where
  "blob_body pads a = concat (map (arg_slot pads a) [0 ..< tensor_count a]) @ concat (map u64_bytes (ta_scalars a))"

lemma write_blob_sendable:
  "sendable a \<Longrightarrow> write_blob pads a =
     Inr (u32_bytes (of_nat (tensor_count a)) @ u32_bytes (of_nat (length (ta_scalars a))) @ blob_body pads a)"
proof -
  assume a: "sendable a"
  have "for_each (\<lambda>i. case ta_transfer a i of Inl e \<Rightarrow> Inl e | Inr _ \<Rightarrow> Inr ()) [0 ..< tensor_count a] = Inr ()"
    using a by (auto simp: sendable_def)
  then show ?thesis by (simp add: write_blob_def blob_body_def del: for_each_Inr)
qed

lemma slots_length:
  assumes "sendable a" "\<And>i. pads_wf (pads i)"
  shows "length (concat (map (arg_slot pads a) [0 ..< tensor_count a])) = 144 * tensor_count a"
    and "i < tensor_count a \<Longrightarrow> length (arg_slot pads a i) = 144"
proof -
  have each: "length (arg_slot pads a i) = 144" if "i < tensor_count a" for i
    using arg_slot_tail(2) assms that by (auto simp: sendable_def tensor_count_def)
  then show "i < tensor_count a \<Longrightarrow> length (arg_slot pads a i) = 144" .
  show "length (concat (map (arg_slot pads a) [0 ..< tensor_count a])) = 144 * tensor_count a"
    using length_rows [of "[0 ..< tensor_count a]" "arg_slot pads a" 144] each by simp
qed

lemma read_written_blob:
  assumes a: "sendable a" and p: "\<And>i. pads_wf (pads i)" and "write_blob pads a = Inr bs" "length bs \<le> capacity"
  shows "read_blob (bs @ rest) capacity = Inr \<lparr>tv_tensor_count = int (tensor_count a),
    tv_scalar_count = int (length (ta_scalars a)), tv_tensor_bytes = blob_body pads a @ rest,
    tv_scalars = concat (map u64_bytes (ta_scalars a)) @ rest\<rparr>"
proof -
  let ?n = "tensor_count a" and ?m = "length (ta_scalars a)"
  have bs: "bs = u32_bytes (of_nat ?n) @ u32_bytes (of_nat ?m) @ blob_body pads a"
    using assms(3) write_blob_sendable [OF a] by simp
  have len: "length bs = 8 + 144 * ?n + 8 * ?m"
    using bs slots_length(1) [OF a p] by (simp add: blob_body_def length_rows [where k = 8])
  have counts: "sint (body_u32 (bs @ rest) 0) = int ?n" "sint (body_u32 (bs @ rest) 4) = int ?m"
    using a by (simp_all add: bs body_u32_def sendable_def sint_of_nat_u32)
  have body: "drop 8 (bs @ rest) = blob_body pads a @ rest" by (simp add: bs)
  have "drop (8 + ?n * 144) (bs @ rest) = drop (144 * ?n) (drop 8 (bs @ rest))"
    by (simp only: drop_drop add.commute mult.commute)
  also have "\<dots> = concat (map u64_bytes (ta_scalars a)) @ rest"
    using slots_length(1) [OF a p] by (simp only: body blob_body_def append_assoc) simp
  finally have scalars: "drop (8 + ?n * 144) (bs @ rest) = concat (map u64_bytes (ta_scalars a)) @ rest" .
  have "8 + ?n * 144 + ?m * 8 \<le> capacity" using len assms(4) by simp
  then show ?thesis using counts body scalars by (simp only: read_blob_def Let_def counts) simp
qed

text \<open>
  C38: the argument blob is a faithful copy. What a child reads back from a blob, out of a mailbox of any larger
  capacity and whatever the padding bytes of the structs held, is the number of tensors and scalars, every tensor,
  every transfer request and every scalar of the arguments the parent wrote.
\<close>

theorem blob_roundtrip:
  assumes "sendable a" "\<forall>i. pads_wf (pads i)" "write_blob pads a = Inr bs" "length bs \<le> capacity"
  shows "\<exists>v. read_blob (bs @ rest) capacity = Inr v \<and>
    tv_tensor_count v = int (tensor_count a) \<and> tv_scalar_count v = int (length (ta_scalars a)) \<and>
    (\<forall>i < tensor_count a. view_tensors v (int i) = Inr (ta_tensors a ! i) \<and>
       view_transfer v (int i) = Inr (ta_transfers a ! i)) \<and>
    (\<forall>i < length (ta_scalars a). view_scalar v i = ta_scalars a ! i)"
proof -
  have p: "pads_wf (pads i)" for i using assms(2) by simp
  obtain v where v: "read_blob (bs @ rest) capacity = Inr v" "tv_tensor_count v = int (tensor_count a)"
    "tv_scalar_count v = int (length (ta_scalars a))" "tv_tensor_bytes v = blob_body pads a @ rest"
    "tv_scalars v = concat (map u64_bytes (ta_scalars a)) @ rest"
    by (rule that [OF read_written_blob [OF assms(1) p assms(3,4)]]) simp_all
  have slot: "take 144 (drop (i * 144) (tv_tensor_bytes v)) = arg_slot pads a i" if "i < tensor_count a" for i
  proof -
    have "take 144 (drop (144 * i) (concat (map (arg_slot pads a) [0 ..< tensor_count a]) @
        concat (map u64_bytes (ta_scalars a)) @ rest)) = arg_slot pads a ([0 ..< tensor_count a] ! i)"
      by (rule nth_row) (use slots_length(2) [OF assms(1) p] that in simp_all)
    then show ?thesis
      using that by (simp only: blob_body_def append_assoc v(4) mult.commute [of i 144] nth_upt add_0)
  qed
  have tensors: "view_tensors v (int i) = Inr (ta_tensors a ! i)" if i: "i < tensor_count a" for i
  proof -
    have t: "tensor_layout (ta_tensors a ! i)" "validate_tensor (ta_tensors a ! i) = Inr ()"
      using assms(1) i by (auto simp: sendable_def tensor_count_def)
    obtain q where "pads_wf q" "arg_slot pads a i = tensor_bytes q (ta_tensors a ! i)"
      using arg_slot_tail(1) [of pads i a, OF p t(1)] by (elim exE conjE)
    then have "tensor_of_bytes (arg_slot pads a i) = ta_tensors a ! i" by (simp add: tensor_of_tensor_bytes t(1))
    then show ?thesis using slot [OF i] i t(2) v(2) by (simp add: view_tensors_def Let_def)
  qed
  have transfers: "view_transfer v (int i) = Inr (ta_transfers a ! i)" if i: "i < tensor_count a" for i
  proof -
    have t: "tensor_layout (ta_tensors a ! i)" using assms(1) i by (auto simp: sendable_def tensor_count_def)
    have "i * 144 \<le> length (tv_tensor_bytes v)"
      using slots_length(1) [OF assms(1) p] i by (simp add: v(4) blob_body_def)
    then have byte: "tv_tensor_bytes v ! (i * 144 + 141) = ta_transfers a ! i"
      using nth_of_row [OF slot [OF i], of 141] arg_slot_tail(3) [of pads i a, OF p t] by simp
    have "ta_transfer a i = Inr (ta_transfers a ! i)" using assms(1) i by (simp add: sendable_def)
    then have "tensor_transfer_error (bd_address_space (t_buffer (ta_tensors a ! i))) (ta_transfers a ! i) = None"
      by (auto simp: ta_transfer_def Let_def split: if_splits option.splits)
    then show ?thesis using tensors [OF i] byte by (simp add: view_transfer_def Let_def)
  qed
  have scalars: "view_scalar v i = ta_scalars a ! i" if "i < length (ta_scalars a)" for i
    using nth_row [of "ta_scalars a" u64_bytes 8 i rest] that by (simp only: view_scalar_def v(5)) (simp add: body_u64_def)
  show ?thesis
    by (rule exI [of _ v]) (use v(1-3) tensors transfers scalars in simp)
qed

definition sample_pads :: TensorPads where
  "sample_pads = \<lparr>pad0 = [1, 2, 3], pad1 = [4, 5], pad_tail = [6, 7, 8]\<rparr>"

theorem blob_roundtrip_witness:
  "\<exists>bs v. write_blob (\<lambda>_. sample_pads) ((sample_args [(sample_block 0 4 4, INPUT)])\<lparr>ta_scalars := [7]\<rparr>) = Inr bs \<and>
     read_blob (bs @ [9]) 4096 = Inr v \<and> view_tensors v 0 = Inr (sample_block 0 4 4) \<and> view_transfer v 0 = Inr 1 \<and>
     view_scalar v 0 = 7"
proof -
  let ?a = "(sample_args [(sample_block 0 4 4, INPUT)])\<lparr>ta_scalars := [7]\<rparr>"
  have block: "tensor_layout (sample_block 0 4 4)" "validate_tensor (sample_block 0 4 4) = Inr ()"
    by (simp_all add: tensor_layout_def view_eval)
  have args: "sendable ?a"
    using block by (simp add: sendable_def args_wf_def args_eval) (simp add: view_eval)
  have pads: "\<forall>i. pads_wf sample_pads" by (simp add: pads_wf_def sample_pads_def)
  obtain bs where bs: "write_blob (\<lambda>_. sample_pads) ?a = Inr bs" "length bs = 160"
    using write_blob_sendable [OF args] slots_length(1) [OF args, of "\<lambda>_. sample_pads"] pads
    by (simp add: blob_body_def length_rows [where k = 8] tensor_count_def sample_args_def)
  obtain v where v: "read_blob (bs @ [9]) 4096 = Inr v" "\<forall>i < tensor_count ?a. view_tensors v (int i) = Inr (ta_tensors ?a ! i) \<and>
       view_transfer v (int i) = Inr (ta_transfers ?a ! i)" "\<forall>i < length (ta_scalars ?a). view_scalar v i = ta_scalars ?a ! i"
    using blob_roundtrip [of ?a "\<lambda>_. sample_pads" bs 4096 "[9]", OF args pads bs(1)] bs(2) by auto
  then show ?thesis using bs(1) by (intro exI [of _ bs] exI [of _ v]) (simp add: sample_args_def tensor_count_def)
qed

section \<open>The communication-domain trailer\<close>

abbreviation COMM_DOMAIN_USES_MAGIC :: u32 where "COMM_DOMAIN_USES_MAGIC \<equiv> 0x53554443"
abbreviation COMM_DOMAIN_USES_VERSION :: u32 where "COMM_DOMAIN_USES_VERSION \<equiv> 1"

abbreviation sizeof_uses_header :: nat where "sizeof_uses_header \<equiv> 16"
abbreviation sizeof_use :: nat where "sizeof_use \<equiv> 24"

definition use_bytes :: "CommDomainUse \<Rightarrow> u8 list" where
  "use_bytes u = u32_bytes (cu_kind u) @ u32_bytes (cu_reserved u) @ u64_bytes (cu_id u) @ u64_bytes (cu_device_context u)"

definition use_of_bytes :: "u8 list \<Rightarrow> CommDomainUse" where
  "use_of_bytes bs = \<lparr>cu_kind = body_u32 bs 0, cu_reserved = body_u32 bs 4, cu_id = body_u64 bs 8,
     cu_device_context = body_u64 bs 16\<rparr>"

definition comm_domain_uses_wire_size :: "CommDomainUse list \<Rightarrow> exn + nat" where
  "comm_domain_uses_wire_size uses =
     (if length uses > unat UINT32_MAX \<or> length uses > (unat UINT64_MAX - sizeof_uses_header) div sizeof_use
      then Inl (LengthError ''communication-domain use sidecar is too large'')
      else Inr (sizeof_uses_header + length uses * sizeof_use))"

text \<open>The destination is not null; what is returned are the bytes written from its start on.\<close>

definition write_comm_domain_uses :: "nat \<Rightarrow> CommDomainUse list \<Rightarrow> exn + u8 list" where
  "write_comm_domain_uses capacity uses =
     (case validate_comm_domain_uses uses of Inl e \<Rightarrow> Inl e | Inr _ \<Rightarrow>
      case comm_domain_uses_wire_size uses of Inl e \<Rightarrow> Inl e | Inr n \<Rightarrow>
      if n > capacity then Inl (LengthError ''communication-domain use sidecar exceeds frame capacity'')
      else Inr (u32_bytes COMM_DOMAIN_USES_MAGIC @ u32_bytes COMM_DOMAIN_USES_VERSION @ u32_bytes (of_nat (length uses)) @
        u32_bytes (of_nat sizeof_use) @ concat (map use_bytes uses)))"

definition read_comm_domain_uses :: "u8 list \<Rightarrow> nat \<Rightarrow> exn + CommDomainUse list" where
  "read_comm_domain_uses src capacity =
     (if capacity < sizeof_uses_header then
        Inl (LengthError ''communication-domain use sidecar header is missing or truncated'')
      else if body_u32 src 0 \<noteq> COMM_DOMAIN_USES_MAGIC \<or> body_u32 src 4 \<noteq> COMM_DOMAIN_USES_VERSION \<or>
          body_u32 src 12 \<noteq> of_nat sizeof_use then
        Inl (InvalidArgument ''unsupported communication-domain use sidecar format'')
      else if unat (body_u32 src 8) > (capacity - sizeof_uses_header) div sizeof_use then
        Inl (LengthError ''communication-domain use sidecar rows exceed frame capacity'')
      else
        let uses = map (\<lambda>i. use_of_bytes (take sizeof_use (drop (sizeof_use * i) (drop sizeof_uses_header src))))
              [0 ..< unat (body_u32 src 8)]
        in case validate_comm_domain_uses uses of Inl e \<Rightarrow> Inl e | Inr _ \<Rightarrow> Inr uses)"

lemma length_use_bytes [simp]: "length (use_bytes u) = 24"
  by (simp add: use_bytes_def)

lemma use_of_use_bytes: "use_of_bytes (use_bytes u) = u"
  by (cases u) (simp add: use_of_bytes_def use_bytes_def body_u32_def body_u64_def)

lemma validate_uses_distinct:
  "validate_comm_domain_uses uses = Inr u \<Longrightarrow> j < i \<Longrightarrow> i < length uses \<Longrightarrow> \<not> use_clash (uses ! j) (uses ! i)"
  by (auto simp: validate_comm_domain_uses_def Let_def)

text \<open>
  C39: the communication-domain trailer is a faithful copy, and nothing invalid gets through. Reading back what was
  written gives the same uses in the same order, and any list a reader accepts, from whatever bytes, names each
  domain identity and each device context once.
\<close>

theorem comm_domain_roundtrip:
  "(write_comm_domain_uses capacity uses = Inr bs \<longrightarrow> capacity \<le> capacity' \<longrightarrow>
      read_comm_domain_uses (bs @ rest) capacity' = Inr uses) \<and>
   (read_comm_domain_uses src n = Inr uses' \<longrightarrow>
      (\<forall>i < length uses'. \<forall>j < i. \<not> use_clash (uses' ! j) (uses' ! i)))"
proof (intro conjI impI)
  assume w: "write_comm_domain_uses capacity uses = Inr bs" and cap: "capacity \<le> capacity'"
  let ?rows = "concat (map use_bytes uses)"
  have ok: "validate_comm_domain_uses uses = Inr ()" "length uses \<le> 4294967295" "16 + length uses * 24 \<le> capacity"
    and bs: "bs = u32_bytes COMM_DOMAIN_USES_MAGIC @ u32_bytes COMM_DOMAIN_USES_VERSION @
      u32_bytes (of_nat (length uses)) @ u32_bytes (of_nat sizeof_use) @ ?rows"
    using w by (auto simp: write_comm_domain_uses_def comm_domain_uses_wire_size_def bind_Inr split: if_splits)
  have hdr: "body_u32 (bs @ rest) 0 = COMM_DOMAIN_USES_MAGIC" "body_u32 (bs @ rest) 4 = COMM_DOMAIN_USES_VERSION"
    "body_u32 (bs @ rest) 8 = of_nat (length uses)" "body_u32 (bs @ rest) 12 = of_nat sizeof_use"
    "drop 16 (bs @ rest) = ?rows @ rest"
    by (simp_all add: bs body_u32_def del: of_nat_numeral)
  have count: "unat (of_nat (length uses) :: u32) = length uses"
    using ok(2) by (simp add: unsigned_of_nat take_bit_nat_eq_self)
  have "map (\<lambda>i. use_of_bytes (take 24 (drop (24 * i) (?rows @ rest)))) [0 ..< length uses] = uses"
    by (rule nth_equalityI) (simp_all only: nth_map length_map length_upt diff_zero nth_upt add_0
        nth_row [OF length_use_bytes] use_of_use_bytes)
  moreover have "length uses \<le> (capacity' - 16) div 24" using ok(3) cap by (simp add: less_eq_div_iff_mult_less_eq)
  ultimately show "read_comm_domain_uses (bs @ rest) capacity' = Inr uses"
    using ok(1,3) cap by (simp only: read_comm_domain_uses_def hdr count Let_def) simp
next
  assume "read_comm_domain_uses src n = Inr uses'"
  then have "validate_comm_domain_uses uses' = Inr ()"
    by (auto simp: read_comm_domain_uses_def Let_def bind_Inr split: if_splits)
  then show "\<forall>i < length uses'. \<forall>j < i. \<not> use_clash (uses' ! j) (uses' ! i)"
    using validate_uses_distinct by blast
qed

definition sample_use :: CommDomainUse where
  "sample_use = \<lparr>cu_kind = 2, cu_reserved = 0, cu_id = 5, cu_device_context = 4096\<rparr>"

theorem comm_domain_roundtrip_witness:
  "\<exists>bs. write_comm_domain_uses 64 [sample_use] = Inr bs \<and> read_comm_domain_uses (bs @ [0]) 64 = Inr [sample_use]"
proof -
  obtain bs where bs: "write_comm_domain_uses 64 [sample_use] = Inr bs"
    by (simp add: write_comm_domain_uses_def comm_domain_uses_wire_size_def validate_comm_domain_uses_def sample_use_def)
  then have "read_comm_domain_uses (bs @ [0]) 64 = Inr [sample_use]"
    using comm_domain_roundtrip [of 64 "[sample_use]" bs 64 "[0]"] by simp
  then show ?thesis using bs by blast
qed

end
