(* ===== verification/Dep_Infer.thy ===== *)
theory Dep_Infer
  imports Task_Args Tensor_Map Task_Slot
begin

text \<open>
  Dependency inference and the argument checks of a submission, from \<open>orchestrator.cpp\<close>:
  \<open>validate_worker_eligibility\<close>, \<open>validate_remote_sidecars\<close>, \<open>validate_explicit_deps\<close> and \<open>infer_deps\<close>, with the
  remote sidecars of \<open>types.h\<close>. \<open>infer_deps\<close> is a pure function here: it takes the tensor map and returns it
  updated, together with the producers of the new task and the keys it has written under.
\<close>

section \<open>Remote sidecars\<close>

datatype RemoteAddressSpace = RAS_HOST_INLINE | RAS_REMOTE_DEVICE | RAS_REMOTE_WINDOW | RAS_UB_LDST

record RemoteTensorDesc =
  rd_address_space :: RemoteAddressSpace
  rd_owner_worker_id :: WorkerId
  rd_buffer_id :: u64
  rd_offset :: u64
  rd_nbytes :: u64
  rd_remote_addr :: u64
  rd_rkey_or_token :: u64
  rd_generation :: u64
  rd_inline_payload_offset :: u64
  rd_inline_payload_len :: u64
  rd_flags :: u64

record RemoteTensorSidecar =
  rs_present :: bool
  rs_desc :: RemoteTensorDesc

record RemoteTaskArgsSidecar =
  sc_tensors :: "RemoteTensorSidecar list"
  sc_inline_payload :: "u8 list"

definition sidecar_empty :: "RemoteTaskArgsSidecar \<Rightarrow> bool" where
  "sidecar_empty s \<longleftrightarrow> sc_inline_payload s = [] \<and> \<not> list_ex rs_present (sc_tensors s)"

text \<open>
  What the orchestrator asks the worker manager: the NEXT_LEVEL workers in registration order, each with the
  \<open>remote\<close> flag of its capabilities. A null manager is \<open>None\<close>.
\<close>

type_synonym WorkerTable = "(WorkerId \<times> bool) list"

definition get_worker_by_id :: "WorkerTable \<Rightarrow> WorkerId \<Rightarrow> bool option" where
  "get_worker_by_id table worker_id = map_of table worker_id"

section \<open>Argument checks\<close>

definition check_targets :: "WorkerId list \<Rightarrow> exn + unit" where
  "check_targets targets =
     for_each (\<lambda>i. let worker_id = targets ! i in
       reject_if (worker_id < 0) ''Orchestrator: NEXT_LEVEL worker id must be non-negative''
       (reject_if (worker_id \<in> set (take i targets)) (''Orchestrator: duplicate NEXT_LEVEL worker id '' @ to_string worker_id)
       (Inr ()))) [0 ..< length targets]"

definition check_registered :: "WorkerTable option \<Rightarrow> WorkerId list \<Rightarrow> WorkerId \<Rightarrow> exn + unit" where
  "check_registered manager eligible target =
     (case manager of
        None \<Rightarrow> Inr ()
      | Some table \<Rightarrow>
          case for_each (\<lambda>w. reject_if (get_worker_by_id table w = None)
                 (''Orchestrator: eligible worker-id '' @ to_string w @ '' is not a registered worker'') (Inr ())) eligible of
            Inl e \<Rightarrow> Inl e
          | Inr _ \<Rightarrow> reject_if (get_worker_by_id table target = None)
              (''Orchestrator: target worker '' @ to_string target @ '' is not a registered worker'') (Inr ()))"

definition validate_worker_eligibility ::
  "WorkerTable option \<Rightarrow> WorkerType \<Rightarrow> nat \<Rightarrow> WorkerId list \<Rightarrow> WorkerId list list \<Rightarrow> exn + unit" where
  "validate_worker_eligibility manager worker_type args_count targets eligible_ids =
     (if worker_type = SUB then
        reject_if (targets \<noteq> [] \<or> eligible_ids \<noteq> [])
          ''Orchestrator: SUB tasks do not accept worker-selection metadata'' (Inr ())
      else
        reject_if (length targets \<noteq> args_count)
          (''Orchestrator: NEXT_LEVEL target count '' @ to_string (int (length targets)) @ '' does not match args length '' @
           to_string (int args_count))
        (reject_if (eligible_ids \<noteq> [] \<and> length eligible_ids \<noteq> args_count)
          (''Orchestrator: eligible worker-id set length '' @ to_string (int (length eligible_ids)) @
           '' does not match args length '' @ to_string (int args_count))
        (case check_targets targets of Inl e \<Rightarrow> Inl e | Inr _ \<Rightarrow>
         for_each (\<lambda>i.
           let eligible = (if eligible_ids = [] then [] else eligible_ids ! i) in
           reject_if (eligible_ids \<noteq> [] \<and> eligible = [])
             (''Orchestrator: final eligible worker-id set is empty for member '' @ to_string (int i))
           (case check_registered manager eligible (targets ! i) of Inl e \<Rightarrow> Inl e | Inr _ \<Rightarrow>
            reject_if (eligible_ids \<noteq> [] \<and> targets ! i \<notin> set eligible)
              (''Orchestrator: target worker '' @ to_string (targets ! i) @
               '' is not in the slot's final eligible worker-id set'') (Inr ()))) [0 ..< args_count])))"

definition check_remote_workers :: "WorkerTable option \<Rightarrow> WorkerId list \<Rightarrow> exn + unit" where
  "check_remote_workers manager eligible =
     for_each (\<lambda>w. case manager of
        None \<Rightarrow> Inr ()
      | Some table \<Rightarrow>
          (case get_worker_by_id table w of
             None \<Rightarrow> Inl (InvalidArgument (''Orchestrator: remote sidecar names an unknown worker '' @ to_string w))
           | Some remote \<Rightarrow> reject_if (\<not> remote)
               (''Orchestrator: remote sidecar cannot be submitted to local worker '' @ to_string w) (Inr ()))) eligible"

definition check_remote_tensor :: "WorkerId list \<Rightarrow> Tensor \<Rightarrow> TensorArgType \<Rightarrow> RemoteTensorSidecar \<Rightarrow> exn + unit" where
  "check_remote_tensor eligible ref tag sc =
     (let has_local_backing = (bd_nbytes (t_buffer ref) \<noteq> 0 \<and> bd_backend_kind (t_buffer ref) \<noteq> BackendKind_REMOTE_SIDECAR) in
      reject_if (rs_present sc \<and> has_local_backing) ''Orchestrator: remote tensor metadata must not carry a local backing''
      (reject_if (\<not> rs_present sc \<and> has_local_backing) ''Orchestrator: remote tensor uses a local backing without sidecar''
      (reject_if (tag = OUTPUT \<and> \<not> has_local_backing \<and> \<not> rs_present sc)
         ''Orchestrator: remote OUTPUT tensor requires a RemoteTensorRef sidecar''
      (reject_if (bd_address_space (t_buffer ref) = AddressSpace_DEVICE \<and> \<not> rs_present sc)
         ''Orchestrator: remote device-memory tensor requires a sidecar''
      (if rs_present sc \<and> rd_address_space (rs_desc sc) \<noteq> RAS_HOST_INLINE then
         reject_if (rd_owner_worker_id (rs_desc sc) < 0) ''Orchestrator: remote tensor sidecar has invalid owner worker''
         (case for_each (\<lambda>w. reject_if (rd_address_space (rs_desc sc) = RAS_REMOTE_DEVICE \<and> w \<noteq> rd_owner_worker_id (rs_desc sc))
                (''Orchestrator: remote tensor sidecar requires IMPORT_BUFFER before submitting to worker '' @ to_string w)
                (Inr ())) eligible of
            Inl e \<Rightarrow> Inl e
          | Inr _ \<Rightarrow> reject_if (eligible = []) ''Orchestrator: remote tensor has no final eligible worker'' (Inr ()))
       else Inr ())))))"

definition validate_remote_sidecars ::
  "WorkerTable option \<Rightarrow> TaskArgs list \<Rightarrow> RemoteTaskArgsSidecar list \<Rightarrow> WorkerId list list \<Rightarrow> exn + unit" where
  "validate_remote_sidecars manager args_list sidecars eligible_ids =
     (if sidecars = [] then Inr ()
      else
        reject_if (length sidecars \<noteq> length args_list)
          (''Orchestrator: remote sidecar length '' @ to_string (int (length sidecars)) @ '' does not match args length '' @
           to_string (int (length args_list)))
        (reject_if (eligible_ids = []) ''Orchestrator: remote sidecars require an explicit eligible worker-id set''
        (for_each (\<lambda>g.
           let args = args_list ! g; sidecar = sidecars ! g in
           if sidecar_empty sidecar \<and> tensor_count args = 0 then Inr ()
           else
             reject_if (length (sc_tensors sidecar) \<noteq> tensor_count args)
               ''Orchestrator: remote sidecar tensor count does not match TaskArgs''
             (case check_remote_workers manager (eligible_ids ! g) of Inl e \<Rightarrow> Inl e | Inr _ \<Rightarrow>
              for_each (\<lambda>i. check_remote_tensor (eligible_ids ! g) (ta_tensors args ! i) (ta_tags args ! i)
                (sc_tensors sidecar ! i)) [0 ..< tensor_count args])) [0 ..< length args_list])))"

text \<open>The run a slot belongs to, if the slot exists, is all the check reads of the allocator.\<close>

definition validate_explicit_deps :: "(TaskSlot \<Rightarrow> RunId option) \<Rightarrow> RunId \<Rightarrow> TaskArgs list \<Rightarrow> exn + unit" where
  "validate_explicit_deps run_of run_id args_list =
     for_each (\<lambda>args. for_each (\<lambda>dep.
       reject_if (th_run_id (ed_task dep) \<noteq> run_id) ''Orchestrator: explicit dependency belongs to another run''
       (reject_if (run_of (th_task_slot (ed_task dep)) \<noteq> Some run_id)
          ''Orchestrator: explicit dependency names an unknown task'' (Inr ()))) (ta_explicit_deps args)) args_list"

section \<open>Inference\<close>

record ProducerDependency =
  pd_slot :: TaskSlot
  pd_retain :: bool

text \<open>The index map of the source finds the one entry of a producer.\<close>

definition mark_retained :: "TaskSlot \<Rightarrow> ProducerDependency \<Rightarrow> ProducerDependency" where
  "mark_retained p d = (if pd_slot d = p then d\<lparr>pd_retain := True\<rparr> else d)"

definition add_unique_producer :: "TaskSlot \<Rightarrow> TaskSlot \<Rightarrow> bool \<Rightarrow> ProducerDependency list \<Rightarrow> ProducerDependency list" where
  "add_unique_producer slot p retain producers =
     (if p = slot then producers
      else if p \<in> pd_slot ` set producers then
        (if retain then map (mark_retained p) producers else producers)
      else producers @ [\<lparr>pd_slot = p, pd_retain = retain\<rparr>])"

definition explicit_producers :: "TaskSlot \<Rightarrow> TaskArgs list \<Rightarrow> ProducerDependency list" where
  "explicit_producers slot args_list =
     fold (\<lambda>d. add_unique_producer slot (th_task_slot (ed_task d)) (ed_retain d)) (concat (map ta_explicit_deps args_list)) []"

definition sidecar_of :: "RemoteTaskArgsSidecar list \<Rightarrow> nat \<Rightarrow> nat \<Rightarrow> RemoteTensorDesc option" where
  "sidecar_of sidecars g i =
     (if sidecars = [] then None
      else
        let tensors = sc_tensors (sidecars ! g) in
        if i < length tensors \<and> rs_present (tensors ! i) then Some (rs_desc (tensors ! i)) else None)"

definition arg_key :: "WorkerId \<Rightarrow> RemoteTensorDesc option \<Rightarrow> Tensor \<Rightarrow> (TensorKey \<times> TensorFootprint) option" where
  "arg_key worker_id sidecar r =
     (case sidecar of
        Some desc \<Rightarrow>
          let inline_payload = (rd_address_space desc = RAS_HOST_INLINE);
              kind = (if inline_payload then HOST_INLINE else REMOTE_BUFFER);
              key = remote_buffer kind (rd_owner_worker_id desc) (rd_buffer_id desc) (rd_generation desc)
                (if inline_payload then rd_offset desc else 0);
              view = (if inline_payload then whole_footprint
                      else (tensor_footprint r)\<lparr>f_byte_offset := rd_offset desc,
                             f_backing_nbytes := tensor_add_sat (rd_offset desc) (rd_nbytes desc)\<rparr>)
          in Some (key, view)
      | None \<Rightarrow>
          if bd_nbytes (t_buffer r) = 0 then None
          else
            let k = CanonicalIdentityHash (bd_identity (t_buffer r))
            in Some (if bd_address_space (t_buffer r) = AddressSpace_DEVICE then local_child k worker_id else local_host k,
                 tensor_footprint r))"

record InferState =
  is_map :: TensorMap
  is_producers :: "ProducerDependency list"
  is_output_keys :: "TensorKey list"

definition take_producers :: "TaskSlot \<Rightarrow> RunId \<Rightarrow> TensorKey \<Rightarrow> TensorFootprint \<Rightarrow> InferState \<Rightarrow> InferState" where
  "take_producers slot run_id key view st =
     st\<lparr>is_producers := fold (\<lambda>p. add_unique_producer slot p True) (lookup_overlapping (is_map st) run_id key view [])
          (is_producers st)\<rparr>"

definition publish_output :: "TaskSlot \<Rightarrow> RunId \<Rightarrow> TensorKey \<Rightarrow> TensorFootprint \<Rightarrow> InferState \<Rightarrow> InferState" where
  "publish_output slot run_id key view st =
     st\<lparr>is_output_keys := is_output_keys st @ [key], is_map := tm_insert (is_map st) run_id key view slot\<rparr>"

fun infer_tagged :: "TaskSlot \<Rightarrow> RunId \<Rightarrow> TensorArgType \<Rightarrow> TensorKey \<times> TensorFootprint \<Rightarrow> InferState \<Rightarrow> InferState" where
  "infer_tagged slot run_id INPUT (key, view) st = take_producers slot run_id key view st"
| "infer_tagged slot run_id INOUT (key, view) st = publish_output slot run_id key view (take_producers slot run_id key view st)"
| "infer_tagged slot run_id OUTPUT (key, view) st = publish_output slot run_id key view st"
| "infer_tagged slot run_id OUTPUT_EXISTING (key, view) st = publish_output slot run_id key view st"
| "infer_tagged slot run_id NO_DEP (key, view) st = st"

text \<open>The tracked arguments of a submission in the order the two loops visit them.\<close>

definition tracked_args ::
  "TaskArgs list \<Rightarrow> WorkerId list \<Rightarrow> RemoteTaskArgsSidecar list \<Rightarrow> (TensorArgType \<times> TensorKey \<times> TensorFootprint) list" where
  "tracked_args args_list targets sidecars =
     concat (map (\<lambda>g.
       let worker_id = (if g < length targets then targets ! g else -1); a = args_list ! g in
       List.map_filter (\<lambda>i. map_option (\<lambda>kv. (ta_tags a ! i, kv)) (arg_key worker_id (sidecar_of sidecars g i) (ta_tensors a ! i)))
         [0 ..< tensor_count a]) [0 ..< length args_list])"

definition infer_deps ::
  "TensorMap \<Rightarrow> RunId \<Rightarrow> TaskSlot \<Rightarrow> TaskArgs list \<Rightarrow> WorkerId list \<Rightarrow> RemoteTaskArgsSidecar list \<Rightarrow> InferState" where
  "infer_deps m run_id slot args_list targets sidecars =
     fold (\<lambda>(tag, kv). infer_tagged slot run_id tag kv) (tracked_args args_list targets sidecars)
       \<lparr>is_map = m, is_producers = explicit_producers slot args_list, is_output_keys = []\<rparr>"

section \<open>The producer list\<close>

definition retained :: "ProducerDependency list \<Rightarrow> TaskSlot set" where
  "retained ps = pd_slot ` {d \<in> set ps. pd_retain d}"

definition producers_ok :: "TaskSlot \<Rightarrow> ProducerDependency list \<Rightarrow> bool" where
  "producers_ok slot ps \<longleftrightarrow> distinct (map pd_slot ps) \<and> slot \<notin> pd_slot ` set ps"

lemma mark_retained_fields [simp]:
  "pd_slot (mark_retained p d) = pd_slot d" "pd_retain (mark_retained p d) \<longleftrightarrow> pd_retain d \<or> pd_slot d = p"
  by (simp_all add: mark_retained_def)

lemma retained_map_mark: "retained (map (mark_retained p) ps) = retained ps \<union> ({p} \<inter> pd_slot ` set ps)"
proof -
  have "x \<in> retained qs \<longleftrightarrow> (\<exists>d \<in> set qs. pd_retain d \<and> pd_slot d = x)" for x qs by (auto simp: retained_def)
  then show ?thesis by auto
qed

lemma retained_append [simp]: "retained (ps @ qs) = retained ps \<union> retained qs"
  by (auto simp: retained_def)

lemma add_unique_slots [simp]:
  "pd_slot ` set (add_unique_producer slot p r ps) = pd_slot ` set ps \<union> (if p = slot then {} else {p})"
  by (auto simp: add_unique_producer_def image_image)

lemma add_unique_retained [simp]:
  "retained (add_unique_producer slot p r ps) = retained ps \<union> (if r \<and> p \<noteq> slot then {p} else {})"
  by (auto simp: add_unique_producer_def retained_map_mark) (auto simp: retained_def)

lemma add_unique_ok [inv_intros]: "producers_ok slot ps \<Longrightarrow> producers_ok slot (add_unique_producer slot p r ps)"
  by (auto simp: producers_ok_def add_unique_producer_def comp_def)

lemma fold_unique_slots:
  "pd_slot ` set (fold (\<lambda>x. add_unique_producer slot (f x) (g x)) xs ps) = pd_slot ` set ps \<union> (f ` set xs - {slot})"
  by (induction xs arbitrary: ps) auto

lemma fold_unique_retained:
  "retained (fold (\<lambda>x. add_unique_producer slot (f x) (g x)) xs ps) =
     retained ps \<union> (f ` {x \<in> set xs. g x} - {slot})"
  by (induction xs arbitrary: ps) auto

lemma fold_unique_ok [inv_intros]:
  "producers_ok slot ps \<Longrightarrow> producers_ok slot (fold (\<lambda>x. add_unique_producer slot (f x) (g x)) xs ps)"
  by (induction xs arbitrary: ps) (auto intro: inv_intros)

section \<open>The walk over the arguments\<close>

type_synonym tracked = "TensorArgType \<times> TensorKey \<times> TensorFootprint"

abbreviation infer_walk :: "TaskSlot \<Rightarrow> RunId \<Rightarrow> tracked list \<Rightarrow> InferState \<Rightarrow> InferState" where
  "infer_walk slot run_id \<equiv> fold (\<lambda>(tag, kv). infer_tagged slot run_id tag kv)"


definition tag_reads :: "TensorArgType \<Rightarrow> bool" where
  "tag_reads tag \<longleftrightarrow> tag = INPUT \<or> tag = INOUT"

lemma infer_tagged_map:
  "is_map (infer_tagged slot run_id tag (key, view) st) =
     (if tag_writes tag then tm_insert (is_map st) run_id key view slot else is_map st)"
  by (cases tag) (simp_all add: take_producers_def publish_output_def tag_writes_def)

lemma infer_tagged_keys:
  "is_output_keys (infer_tagged slot run_id tag (key, view) st) =
     is_output_keys st @ (if tag_writes tag then [key] else [])"
  by (cases tag) (simp_all add: take_producers_def publish_output_def tag_writes_def)

lemma infer_tagged_producers:
  "is_producers (infer_tagged slot run_id tag (key, view) st) =
     (if tag_reads tag
      then fold (\<lambda>p. add_unique_producer slot p True) (lookup_overlapping (is_map st) run_id key view []) (is_producers st)
      else is_producers st)"
  by (cases tag) (simp_all add: take_producers_def publish_output_def tag_reads_def)


lemma infer_walk_retained: "retained (is_producers st) \<subseteq> retained (is_producers (infer_walk slot run_id items st))"
proof (induction items arbitrary: st)
  case (Cons item items)
  obtain tag key view where "item = (tag, key, view)" by (cases item)
  then show ?case
    using Cons [of "infer_tagged slot run_id tag (key, view) st"]
    by (auto simp: infer_tagged_producers fold_unique_retained split: if_splits)
qed simp

lemma infer_walk_ok [inv_intros]:
  "producers_ok slot (is_producers st) \<Longrightarrow> producers_ok slot (is_producers (infer_walk slot run_id items st))"
proof (induction items arbitrary: st)
  case (Cons item items)
  obtain tag key view where item: "item = (tag, key, view)" by (cases item)
  have "producers_ok slot (is_producers (infer_tagged slot run_id tag (key, view) st))"
    using Cons.prems by (simp add: infer_tagged_producers fold_unique_ok)
  then show ?case using Cons.IH item by simp
qed simp




section \<open>Properties\<close>

















definition run_writers :: "TensorMap \<Rightarrow> RunId \<Rightarrow> TaskSlot set" where
  "run_writers m run_id = {e_producer e | e key. e \<in> set (bucket m (run_id, key))}"

lemma run_writers_insert: "run_writers (tm_insert m run_id key view slot) run_id \<subseteq> insert slot (run_writers m run_id)"
  by (auto simp: run_writers_def bucket_insert split: if_splits)

lemma lookup_run_writers: "set (lookup_overlapping m run_id key view []) \<subseteq> run_writers m run_id"
  by (auto simp: run_writers_def lookup_bucket)

lemma infer_walk_slots: "pd_slot ` set (is_producers st) \<subseteq> pd_slot ` set (is_producers (infer_walk slot run_id items st))"
proof (induction items arbitrary: st)
  case (Cons item items)
  obtain tag key view where "item = (tag, key, view)" by (cases item)
  then show ?case
    using Cons [of "infer_tagged slot run_id tag (key, view) st"]
    by (auto simp: infer_tagged_producers fold_unique_slots split: if_splits)
qed simp

lemma infer_walk_sound:
  assumes "run_writers (is_map st) run_id \<subseteq> insert slot W"
  shows "pd_slot ` set (is_producers (infer_walk slot run_id items st)) \<subseteq>
    pd_slot ` set (is_producers st) \<union> (retained (is_producers (infer_walk slot run_id items st)) \<inter> W)"
  using assms
proof (induction items arbitrary: st)
  case (Cons item items)
  obtain tag key view where item: "item = (tag, key, view)" by (cases item)
  let ?st = "infer_tagged slot run_id tag (key, view) st"
  have m: "run_writers (is_map ?st) run_id \<subseteq> insert slot W"
    using Cons.prems run_writers_insert [of "is_map st" run_id key view slot] by (auto simp: infer_tagged_map)
  have "pd_slot ` set (is_producers ?st) \<subseteq> pd_slot ` set (is_producers st) \<union> (retained (is_producers ?st) \<inter> W)"
    using Cons.prems lookup_run_writers [of "is_map st" run_id key view] fold_unique_slots [of slot "\<lambda>x. x"]
      fold_unique_retained [of slot "\<lambda>x. x" "\<lambda>_. True"]
    by (auto simp: infer_tagged_producers)
  then show ?case
    using Cons.IH [OF m] infer_walk_retained [of ?st slot run_id items] by (simp add: item) blast
qed simp

text \<open>
  C35: the producer list of a new task is well formed. It names no task twice and never the task itself, contains
  every explicit dependency (retained where one of its mentions asked for it), and invents nothing: every other
  producer is recorded in the map as the writer of some view of the same run, and is retained.
\<close>

theorem producers_well_formed:
  "let ps = is_producers (infer_deps m run_id slot args_list targets sidecars);
       deps = concat (map ta_explicit_deps args_list)
   in distinct (map pd_slot ps) \<and> slot \<notin> pd_slot ` set ps \<and>
      (\<lambda>d. th_task_slot (ed_task d)) ` set deps - {slot} \<subseteq> pd_slot ` set ps \<and>
      (\<lambda>d. th_task_slot (ed_task d)) ` {d \<in> set deps. ed_retain d} - {slot} \<subseteq> retained ps \<and>
      pd_slot ` set ps - (\<lambda>d. th_task_slot (ed_task d)) ` set deps \<subseteq> retained ps \<inter> run_writers m run_id"
proof -
  let ?st = "\<lparr>is_map = m, is_producers = explicit_producers slot args_list, is_output_keys = []\<rparr>"
  let ?items = "tracked_args args_list targets sidecars"
  have slots: "pd_slot ` set (explicit_producers slot args_list) =
      (\<lambda>d. th_task_slot (ed_task d)) ` set (concat (map ta_explicit_deps args_list)) - {slot}"
    by (simp add: explicit_producers_def fold_unique_slots)
  have kept: "retained (explicit_producers slot args_list) =
      (\<lambda>d. th_task_slot (ed_task d)) ` {d \<in> set (concat (map ta_explicit_deps args_list)). ed_retain d} - {slot}"
    by (simp add: explicit_producers_def fold_unique_retained) (simp add: retained_def)
  have "producers_ok slot (explicit_producers slot args_list)"
    unfolding explicit_producers_def by (rule fold_unique_ok) (simp add: producers_ok_def)
  then have "producers_ok slot (is_producers (infer_walk slot run_id ?items ?st))" by (simp add: infer_walk_ok)
  moreover have "pd_slot ` set (is_producers (infer_walk slot run_id ?items ?st)) \<subseteq>
      pd_slot ` set (explicit_producers slot args_list) \<union>
      (retained (is_producers (infer_walk slot run_id ?items ?st)) \<inter> run_writers m run_id)"
    using infer_walk_sound [of ?st run_id slot "run_writers m run_id" ?items] by auto
  ultimately show ?thesis
    using slots kept infer_walk_slots [of ?st slot run_id ?items] infer_walk_retained [of ?st slot run_id ?items]
    by (auto simp: infer_deps_def Let_def producers_ok_def)
qed

lemma infer_walk_keys:
  assumes "\<And>key e. e \<in> set (bucket (is_map st) (run_id, key)) \<Longrightarrow> e_producer e = slot \<Longrightarrow> key \<in> set (is_output_keys st)"
  shows "e \<in> set (bucket (is_map (infer_walk slot run_id items st)) (run_id, key)) \<Longrightarrow> e_producer e = slot \<Longrightarrow>
    key \<in> set (is_output_keys (infer_walk slot run_id items st))"
  using assms
proof (induction items arbitrary: st)
  case (Cons item items)
  obtain tag k view where item: "item = (tag, k, view)" by (cases item)
  have step: "key' \<in> set (is_output_keys (infer_tagged slot run_id tag (k, view) st))"
    if "e' \<in> set (bucket (is_map (infer_tagged slot run_id tag (k, view) st)) (run_id, key'))" "e_producer e' = slot"
    for key' e'
    using that Cons.prems(3) by (auto simp: infer_tagged_map infer_tagged_keys bucket_insert split: if_splits)
  show ?case using Cons.IH [of "infer_tagged slot run_id tag (k, view) st"] step Cons.prems(1,2) item by auto
qed simp

text \<open>
  C36: the cleanup journal is complete. A task that had no entry before its submission leaves none behind once it is
  consumed: erasing it under exactly the keys that inference recorded removes every entry the inference made, while
  the writes it superseded stay superseded.
\<close>

theorem consumed_task_leaves_no_entry:
  assumes "slot \<notin> run_writers m run_id"
  shows "let st = infer_deps m run_id slot args_list targets sidecars
    in slot \<notin> run_writers (erase_task_outputs (is_map st) run_id slot (is_output_keys st)) run_id"
proof -
  let ?st = "infer_deps m run_id slot args_list targets sidecars"
  have "key \<in> set (is_output_keys ?st)"
    if "e \<in> set (bucket (is_map ?st) (run_id, key))" "e_producer e = slot" for e key
    using that assms unfolding infer_deps_def
    by (rule_tac infer_walk_keys [rotated]) (auto simp: run_writers_def)
  then show ?thesis by (auto simp: Let_def run_writers_def bucket_erase split: if_splits)
qed

theorem consumed_task_leaves_no_entry_witness:
  "9 \<notin> run_writers (let st = infer_deps [] 1 9 [sample_args [(sample_block 0 2 8, INOUT)]] [2] []
     in erase_task_outputs (is_map st) 1 9 (is_output_keys st)) 1"
  using consumed_task_leaves_no_entry [of 9 "[]" 1 "[sample_args [(sample_block 0 2 8, INOUT)]]" "[2]" "[]"]
  by (simp add: Let_def run_writers_def)

definition collide :: "u64 \<Rightarrow> u32 \<Rightarrow> Tensor" where
  "collide bid gen = (sample_block 0 4 8)\<lparr>t_buffer := sample_buffer\<lparr>bd_identity :=
     \<lparr>owner_instance_id = [137, 2, 196, 66, 105, 218, 28, 246], ci_buffer_id = bid, ci_generation = gen,
      ci_pad = [0, 0, 0, 0, 0, 0, 0, 0, 0, 0, 0, 0]\<rparr>\<rparr>\<rparr>"

lemma collide_hash: "CanonicalIdentityHash (bd_identity (t_buffer (collide 0 64))) =
    CanonicalIdentityHash (bd_identity (t_buffer (collide 1 1)))"
  by (simp add: collide_def CanonicalIdentityHash_def hash_mix_def)

lemma collide_key:
  "arg_key w None (collide 0 64) = Some (local_host (CanonicalIdentityHash (bd_identity (t_buffer (collide 1 1)))),
     tensor_footprint (sample_block 0 4 8))"
  "arg_key w None (collide 1 1) = Some (local_host (CanonicalIdentityHash (bd_identity (t_buffer (collide 1 1)))),
     tensor_footprint (sample_block 0 4 8))"
  by (simp_all add: arg_key_def flip: collide_hash)
    (simp_all add: collide_def sample_block_def sample_buffer_def tensor_footprint_def)

lemma tracked_one: "arg_key (-1) None t = Some kv \<Longrightarrow> tracked_args [sample_args [(t, tag)]] [] [] = [(tag, kv)]"
  by (simp add: tracked_args_def sample_args_def sidecar_of_def tensor_count_def List.map_filter_def)

lemma whole_covered: "tensor_overlap (tensor_footprint (sample_block 0 4 8)) (tensor_footprint (sample_block 0 4 8)) = OV_COVERED"
  by (simp add: view_eval)

text \<open>
  C37: a collision of identity hashes loses a real dependency. Two different buffers can share a key, because the key
  is the 64-bit hash of the identity and the identities are never compared. In this run task 3 wrote the first
  buffer and task 5 then overwrote the second one; a task that reads the first buffer is made to wait for task 5 and
  not for task 3.
\<close>

theorem collision_loses_dependency:
  "let A = collide 0 64; B = collide 1 1;
       m1 = is_map (infer_deps [] 1 3 [sample_args [(A, OUTPUT_EXISTING)]] [] []);
       m2 = is_map (infer_deps m1 1 5 [sample_args [(B, OUTPUT_EXISTING)]] [] [])
   in \<not> identity_eq (bd_identity (t_buffer A)) (bd_identity (t_buffer B)) \<and>
      map pd_slot (is_producers (infer_deps m1 1 7 [sample_args [(A, INPUT)]] [] [])) = [3] \<and>
      map pd_slot (is_producers (infer_deps m2 1 7 [sample_args [(A, INPUT)]] [] [])) = [5]"
proof -
  have "\<not> identity_eq (bd_identity (t_buffer (collide 0 64))) (bd_identity (t_buffer (collide 1 1)))"
    by (simp add: collide_def identity_eq_def)
  moreover have "explicit_producers s [sample_args ts] = []" for s ts
    by (simp add: explicit_producers_def sample_args_def empty_args_def)
  ultimately show ?thesis
    by (simp add: infer_deps_def tracked_one [OF collide_key(1)] tracked_one [OF collide_key(2)] publish_output_def
        take_producers_def tm_insert_def lookup_overlapping_def bucket_def compact_filter add_unique_producer_def
        whole_covered Let_def)
qed

end
