(* ===== verification/Orch_State.thy ===== *)
theory Orch_State
  imports Task_Slot Dep_Infer Ready_Queue Heap_Ring Run_Arena
begin

text \<open>
  The state of one node: what \<open>Orchestrator\<close> (\<open>common/hierarchical/orchestrator.h\<close>) owns and shares with
  the scheduler, the run records of \<open>types.h\<close>, the scope stack of \<open>scope.h\<close>, and the operations of
  \<open>orchestrator.cpp\<close> that only read that state or hand out leases. An operation that may throw is a function
  from the state to a result and the state it leaves: an exception keeps what was written before it.
\<close>

section \<open>Operations that may throw\<close>

type_synonym ('s, 'a) action = "'s \<Rightarrow> (exn + 'a) \<times> 's"

definition ok :: "'a \<Rightarrow> ('s, 'a) action" where
  "ok x s = (Inr x, s)"

definition throw :: "exn \<Rightarrow> ('s, 'a) action" where
  "throw e s = (Inl e, s)"

definition bind_act :: "('s, 'a) action \<Rightarrow> ('a \<Rightarrow> ('s, 'b) action) \<Rightarrow> ('s, 'b) action" where
  "bind_act m k s = (case m s of (Inl e, s') \<Rightarrow> (Inl e, s') | (Inr x, s') \<Rightarrow> k x s')"

definition seq_act :: "('s, 'a) action \<Rightarrow> ('s, 'b) action \<Rightarrow> ('s, 'b) action" where
  "seq_act m n = bind_act m (\<lambda>_. n)"

definition modify :: "('s \<Rightarrow> 's) \<Rightarrow> ('s, unit) action" where
  "modify f s = (Inr (), f s)"

definition lift_act :: "exn + 'a \<Rightarrow> ('s, 'a) action" where
  "lift_act r s = (r, s)"

fun each_act :: "('x \<Rightarrow> ('s, unit) action) \<Rightarrow> 'x list \<Rightarrow> ('s, unit) action" where
  "each_act f [] = ok ()"
| "each_act f (x # xs) = seq_act (f x) (each_act f xs)"

definition overflow :: "exn + 'a \<Rightarrow> bool" where
  "overflow res \<longleftrightarrow> (case res of Inl (OverflowError _) \<Rightarrow> True | _ \<Rightarrow> False)"

lemma overflow_simps [simp]:
  "\<not> overflow (Inr x)" "overflow (Inl e) \<longleftrightarrow> (\<exists>m. e = OverflowError m)"
  by (auto simp: overflow_def split: exn.splits)

text \<open>
  An invariant is kept by every exit of an operation, exceptions included, except the overflow of a 64-bit
  counter of runs or leases.
\<close>

definition keeps :: "('s \<Rightarrow> bool) \<Rightarrow> ('s, 'a) action \<Rightarrow> bool" where
  "keeps I m \<longleftrightarrow> (\<forall>s res s'. I s \<and> m s = (res, s') \<and> \<not> overflow res \<longrightarrow> I s')"

lemma keepsD: "keeps I m \<Longrightarrow> I s \<Longrightarrow> m s = (res, s') \<Longrightarrow> \<not> overflow res \<Longrightarrow> I s'"
  by (auto simp: keeps_def)

definition exits :: "('s \<Rightarrow> bool) \<Rightarrow> (exn + 'a) \<times> 's \<Rightarrow> bool" where
  "exits I p \<longleftrightarrow> overflow (fst p) \<or> I (snd p)"

lemma keeps_exits: "keeps I m \<longleftrightarrow> (\<forall>s. I s \<longrightarrow> exits I (m s))"
  by (auto simp: keeps_def exits_def) (metis prod.collapse)

lemma exits_keeps: "keeps I m \<Longrightarrow> I s \<Longrightarrow> exits I (m s)"
  by (simp add: keeps_exits)

lemma exits_simp [simp]: "I s \<Longrightarrow> exits I (res, s)"
  by (simp add: exits_def)

lemma keeps_ok [intro, simp]: "keeps I (ok x)"
  by (simp add: keeps_def ok_def)

lemma keeps_throw [intro, simp]: "keeps I (throw e)"
  by (simp add: keeps_def throw_def)

lemma keeps_lift [intro, simp]: "keeps I (lift_act r)"
  by (simp add: keeps_def lift_act_def)

lemma keeps_bind [intro]:
  assumes "keeps I m" "\<And>x. keeps I (k x)"
  shows "keeps I (bind_act m k)"
  unfolding keeps_def
proof (intro allI impI)
  fix s res s'
  assume a: "I s \<and> bind_act m k s = (res, s') \<and> \<not> overflow res"
  obtain q t where m: "m s = (q, t)" by (cases "m s")
  show "I s'"
  proof (cases q)
    case (Inl e)
    then show ?thesis using a m keepsD [OF assms(1) _ m] by (auto simp: bind_act_def)
  next
    case (Inr x)
    then show ?thesis using a m keepsD [OF assms(1) _ m] keepsD [OF assms(2)] by (auto simp: bind_act_def)
  qed
qed

lemma keeps_seq [intro]: "keeps I m \<Longrightarrow> keeps I n \<Longrightarrow> keeps I (seq_act m n)"
  by (auto simp: seq_act_def)

lemma keeps_modify: "(\<And>s. I s \<Longrightarrow> I (f s)) \<Longrightarrow> keeps I (modify f)"
  by (simp add: keeps_def modify_def)

lemma keeps_each [intro]: "(\<And>x. x \<in> set xs \<Longrightarrow> keeps I (f x)) \<Longrightarrow> keeps I (each_act f xs)"
  by (induction xs) auto

text \<open>What an operation never changes, on any exit.\<close>

definition unchanged :: "('s \<Rightarrow> 'v) \<Rightarrow> ('s, 'a) action \<Rightarrow> bool" where
  "unchanged view m \<longleftrightarrow> (\<forall>s. view (snd (m s)) = view s)"

lemma unchangedD: "unchanged view m \<Longrightarrow> m s = (res, s') \<Longrightarrow> view s' = view s"
  by (metis unchanged_def snd_conv)

lemma unchanged_ok [intro, simp]: "unchanged view (ok x)"
  by (simp add: unchanged_def ok_def)

lemma unchanged_bind [intro]: "unchanged view m \<Longrightarrow> (\<And>x. unchanged view (k x)) \<Longrightarrow> unchanged view (bind_act m k)"
  unfolding unchanged_def bind_act_def
  by (auto split: prod.splits sum.splits) (metis snd_conv)+

lemma unchanged_seq [intro]: "unchanged view m \<Longrightarrow> unchanged view n \<Longrightarrow> unchanged view (seq_act m n)"
  by (auto simp: seq_act_def)

lemma unchanged_modify: "(\<And>s. view (f s) = view s) \<Longrightarrow> unchanged view (modify f)"
  by (simp add: unchanged_def modify_def)

section \<open>Data\<close>

datatype RunPhase = RP_RESERVED | RP_BUILDING | RP_PREPARED | RP_EXECUTING | RP_COMPLETED | RP_FAILED

record PhysicalTask =
  pt_slot :: TaskSlot
  pt_ended_members :: "u8 list"

text \<open>The time stamp of the trace is not kept. An \<open>exception_ptr\<close> that may be null is an option.\<close>

record RunState =
  rn_id :: RunId
  rn_lease :: PipelineSlotLease
  rn_phase :: RunPhase
  rn_active_tasks :: int
  rn_pending_accepts :: int
  rn_observation_requested :: bool
  rn_first_error :: "exn option"
  rn_task_slots :: "TaskSlot list"
  rn_submission_closed :: bool
  rn_submission_failed :: bool
  rn_lease_released :: bool
  rn_physical_tasks :: "PhysicalTask list"

definition new_run :: "RunId \<Rightarrow> PipelineSlotLease \<Rightarrow> RunState" where
  "new_run run_id slot_lease = \<lparr>rn_id = run_id, rn_lease = slot_lease, rn_phase = RP_RESERVED, rn_active_tasks = 0,
     rn_pending_accepts = 0, rn_observation_requested = False, rn_first_error = None, rn_task_slots = [],
     rn_submission_closed = False, rn_submission_failed = False, rn_lease_released = False, rn_physical_tasks = []\<rparr>"

text \<open>
  \<open>o_slots\<close> is the task state behind \<open>Ring::slot_state\<close>, which hands out a pointer for the slots the allocator
  has parked (\<open>ring_slot_state\<close>) and null otherwise. The queue pointers are those \<open>Worker::init\<close> passes; the
  NEXT\_LEVEL one may be null. \<open>o_wake_generation\<close> and \<open>o_completion_queue\<close> belong to the scheduler, and
  \<open>o_observations\<close> lists the runs for which \<open>WorkerManager::request_observation\<close> was called.
\<close>

record Orch =
  o_tensormap :: TensorMap
  o_ring :: Ring
  o_slots :: "TaskSlot \<Rightarrow> TaskSlotState"
  o_scope :: "TaskSlot list list"
  o_ready_sub_queue :: ReadyQueue
  o_ready_next_level_queues :: "NextLevelReadyQueues option"
  o_manager :: "WorkerTable option"
  o_runs :: "(RunId \<times> RunState) list"
  o_run_fifo :: "RunId list"
  o_run_resources :: RunResourceArena
  o_admission_depth :: u32
  o_pending_run_limit :: u32
  o_pending_run_limit_configured :: bool
  o_endpoint_capacity :: "(WorkerId \<times> u32) list"
  o_launch_depth :: u32
  o_early_launch_authorized :: "RunId list"
  o_next_run_id :: RunId
  o_building_run_id :: RunId
  o_active_run_id :: RunId
  o_wake_generation :: u64
  o_completion_queue :: "WorkerCompletion list"
  o_observations :: "RunId list"

definition kDefaultRunResourceSets :: u32 where
  "kDefaultRunResourceSets = 2"

text \<open>An orchestrator nobody configured, over a given allocator, ready queues and worker table.\<close>

definition new_orch :: "Ring \<Rightarrow> NextLevelReadyQueues option \<Rightarrow> WorkerTable option \<Rightarrow> Orch" where
  "new_orch ring queues manager = \<lparr>o_tensormap = [], o_ring = ring, o_slots = (\<lambda>_. fresh_slot), o_scope = [],
     o_ready_sub_queue = empty_queue, o_ready_next_level_queues = queues, o_manager = manager, o_runs = [],
     o_run_fifo = [],
     o_run_resources = \<lparr>ra_granted = kDefaultRunResourceSets,
       ra_sets = replicate (unat kDefaultRunResourceSets) fresh_set\<rparr>,
     o_admission_depth = kDefaultRunResourceSets, o_pending_run_limit = kDefaultRunResourceSets,
     o_pending_run_limit_configured = False, o_endpoint_capacity = [], o_launch_depth = 1,
     o_early_launch_authorized = [], o_next_run_id = 1, o_building_run_id = INVALID_RUN_ID,
     o_active_run_id = INVALID_RUN_ID, o_wake_generation = 0, o_completion_queue = [], o_observations = []\<rparr>"

section \<open>Access\<close>

definition find_run :: "Orch \<Rightarrow> RunId \<Rightarrow> RunState option" where
  "find_run st run_id = map_of (o_runs st) run_id"

text \<open>A write through a \<open>shared_ptr\<close> to the run: every holder of the pointer sees it.\<close>

definition upd_run :: "RunId \<Rightarrow> (RunState \<Rightarrow> RunState) \<Rightarrow> Orch \<Rightarrow> Orch" where
  "upd_run run_id f st = st\<lparr>o_runs := AList.map_entry run_id f (o_runs st)\<rparr>"

definition upd_slot :: "TaskSlot \<Rightarrow> (TaskSlotState \<Rightarrow> TaskSlotState) \<Rightarrow> Orch \<Rightarrow> Orch" where
  "upd_slot slot f st = st\<lparr>o_slots := (o_slots st)(slot := f (o_slots st slot))\<rparr>"

definition is_terminal :: "RunPhase \<Rightarrow> bool" where
  "is_terminal phase \<longleftrightarrow> phase = RP_COMPLETED \<or> phase = RP_FAILED"

definition acceptance_ready :: "RunState \<Rightarrow> bool" where
  "acceptance_ready run \<longleftrightarrow> rn_submission_closed run \<and> (rn_pending_accepts run = 0 \<or> is_terminal (rn_phase run))"

definition get_run :: "Orch \<Rightarrow> RunId \<Rightarrow> exn + RunState" where
  "get_run st run_id =
     (case find_run st run_id of None \<Rightarrow> Inl (InvalidArgument ''Orchestrator: unknown run id'') | Some run \<Rightarrow> Inr run)"

definition current_building_run :: "Orch \<Rightarrow> exn + RunState" where
  "current_building_run st =
     (case find_run st (o_building_run_id st) of
        None \<Rightarrow> Inl (LogicError ''Orchestrator: task submission requires an active run'')
      | Some run \<Rightarrow>
          if o_building_run_id st = INVALID_RUN_ID
          then Inl (LogicError ''Orchestrator: task submission requires an active run'') else Inr run)"

text \<open>\<open>Ring::slot_state\<close> and the accessor that throws on its null.\<close>

definition peek_slot :: "Orch \<Rightarrow> TaskSlot \<Rightarrow> TaskSlotState option" where
  "peek_slot st slot = (if ring_slot_state (o_ring st) slot = None then None else Some (o_slots st slot))"

definition slot_state :: "TaskSlot \<Rightarrow> (Orch, TaskSlotState) action" where
  "slot_state slot st =
     (case peek_slot st slot of
        None \<Rightarrow> (Inl (RuntimeError ''Orchestrator::slot_state: invalid slot id''), st)
      | Some s \<Rightarrow> (Inr s, st))"

definition notify_ready :: "Orch \<Rightarrow> Orch" where
  "notify_ready st = st\<lparr>o_wake_generation := o_wake_generation st + 1\<rparr>"

section \<open>The scope stack\<close>

text \<open>The innermost scope is the last frame.\<close>

definition MAX_SCOPE_DEPTH :: int where "MAX_SCOPE_DEPTH = 64"

definition scope_depth :: "TaskSlot list list \<Rightarrow> int" where
  "scope_depth stack = int (length stack)"

definition current_depth :: "TaskSlot list list \<Rightarrow> int" where
  "current_depth stack = (let d = scope_depth stack in if d > 0 then d - 1 else 0)"

definition push_scope :: "TaskSlot list list \<Rightarrow> exn + TaskSlot list list" where
  "push_scope stack =
     (if scope_depth stack \<ge> MAX_SCOPE_DEPTH then Inl (RuntimeError ''Scope: maximum nesting depth exceeded'')
      else Inr (stack @ [[]]))"

definition register_task :: "TaskSlot \<Rightarrow> TaskSlot list list \<Rightarrow> TaskSlot list list" where
  "register_task slot stack = (if stack = [] then stack else butlast stack @ [last stack @ [slot]])"

section \<open>Leases\<close>

definition note_endpoint_capacity :: "WorkerId \<Rightarrow> u32 \<Rightarrow> Orch \<Rightarrow> Orch" where
  "note_endpoint_capacity worker_id sets st =
     (if sets = 0 then st else st\<lparr>o_endpoint_capacity := AList.update worker_id sets (o_endpoint_capacity st)\<rparr>)"

definition folded_endpoint_capacity :: "Orch \<Rightarrow> u32" where
  "folded_endpoint_capacity st =
     fold (\<lambda>(_, sets) folded. if folded = 0 \<or> sets < folded then sets else folded) (o_endpoint_capacity st) 0"

definition apply_admissible_depth :: "u32 \<Rightarrow> Orch \<Rightarrow> bool \<times> Orch" where
  "apply_admissible_depth sets st =
     (let grant = ra_granted (o_run_resources st) in
      if grant = 0 then (False, st)
      else
        let clamped = (if sets = 0 then 1 else if sets > grant then grant else sets);
            widened = (clamped > o_admission_depth st);
            st = st\<lparr>o_admission_depth := clamped\<rparr>
        in (widened, if \<not> o_pending_run_limit_configured st then st\<lparr>o_pending_run_limit := clamped\<rparr> else st))"

text \<open>The slots already registered under the run take the lease in the same step.\<close>

definition publish_lease :: "RunState \<Rightarrow> PipelineSlotLease \<Rightarrow> Orch \<Rightarrow> Orch" where
  "publish_lease run lease st =
     fold (\<lambda>slot st. if peek_slot st slot = None then st else upd_slot slot (\<lambda>s. s\<lparr>ts_pipeline_lease := lease\<rparr>) st)
       (rn_task_slots run) (upd_run (rn_id run) (\<lambda>r. r\<lparr>rn_lease := lease\<rparr>) st)"

text \<open>The results are whether the run holds a lease on return, and \<open>*assigned\<close>.\<close>

definition acquire_lease :: "RunState \<Rightarrow> (Orch, bool \<times> bool) action" where
  "acquire_lease run st =
     (if owns (o_run_resources st) (rn_lease run) then (Inr (True, False), st)
      else case try_acquire (o_run_resources st) (o_admission_depth st) of
             Inl e \<Rightarrow> (Inl e, st)
           | Inr (arena, None) \<Rightarrow> (Inr (False, False), st\<lparr>o_run_resources := arena\<rparr>)
           | Inr (arena, Some lease) \<Rightarrow> (Inr (True, True), publish_lease run lease (st\<lparr>o_run_resources := arena\<rparr>)))"

fun lease_successors :: "RunId list \<Rightarrow> bool \<Rightarrow> (Orch, bool) action" where
  "lease_successors [] assigned st = (Inr assigned, st)"
| "lease_successors (r # rs) assigned st =
     (case find_run st r of
        None \<Rightarrow> (Inr assigned, st)
      | Some successor \<Rightarrow>
          if rn_phase successor \<noteq> RP_PREPARED then (Inr assigned, st)
          else (case acquire_lease successor st of
                  (Inl e, st') \<Rightarrow> (Inl e, st')
                | (Inr (holds, new), st') \<Rightarrow>
                    if holds then lease_successors rs (assigned \<or> new) st' else (Inr assigned, st')))"

definition refresh_leases :: "(Orch, bool) action" where
  "refresh_leases st =
     (case o_run_fifo st of
        [] \<Rightarrow> (Inr False, st)
      | h # rs \<Rightarrow>
          (case find_run st h of
             None \<Rightarrow> (Inr False, st)
           | Some head \<Rightarrow>
               if is_terminal (rn_phase head) then (Inr False, st)
               else (case acquire_lease head st of
                       (Inl e, st') \<Rightarrow> (Inl e, st')
                     | (Inr (holds, new), st') \<Rightarrow> if holds then lease_successors rs new st' else (Inr False, st'))))"

section \<open>Queries\<close>

definition run_accepted :: "Orch \<Rightarrow> RunId \<Rightarrow> exn + bool" where
  "run_accepted st run_id = (case get_run st run_id of Inl e \<Rightarrow> Inl e | Inr run \<Rightarrow> Inr (acceptance_ready run))"

definition run_done :: "Orch \<Rightarrow> RunId \<Rightarrow> exn + bool" where
  "run_done st run_id = (case get_run st run_id of Inl e \<Rightarrow> Inl e | Inr run \<Rightarrow> Inr (is_terminal (rn_phase run)))"

definition run_observation_requested :: "Orch \<Rightarrow> RunId \<Rightarrow> bool" where
  "run_observation_requested st run_id \<longleftrightarrow>
     (case find_run st run_id of None \<Rightarrow> False | Some run \<Rightarrow> rn_observation_requested run)"

definition run_failed :: "Orch \<Rightarrow> RunId \<Rightarrow> exn + bool" where
  "run_failed st run_id =
     (case get_run st run_id of
        Inl e \<Rightarrow> Inl e
      | Inr run \<Rightarrow> Inr (rn_submission_failed run \<or> rn_first_error run \<noteq> None))"

definition dispatchable :: "Orch \<Rightarrow> RunId \<Rightarrow> bool" where
  "dispatchable st run_id \<longleftrightarrow> o_active_run_id st = run_id \<and>
     (case find_run st run_id of
        None \<Rightarrow> False
      | Some run \<Rightarrow> rn_phase run = RP_EXECUTING \<and> owns (o_run_resources st) (rn_lease run))"

definition dispatchable_run_id :: "Orch \<Rightarrow> RunId" where
  "dispatchable_run_id st = (if dispatchable st (o_active_run_id st) then o_active_run_id st else INVALID_RUN_ID)"

text \<open>The guard shared by the queries about runs behind the executing one.\<close>

definition no_successor_role :: "Orch \<Rightarrow> bool" where
  "no_successor_role st \<longleftrightarrow>
     \<not> dispatchable st (o_active_run_id st) \<or> length (o_run_fifo st) < 2 \<or> hd (o_run_fifo st) \<noteq> o_active_run_id st"

definition prepared_with_lease :: "Orch \<Rightarrow> RunId \<Rightarrow> bool" where
  "prepared_with_lease st run_id \<longleftrightarrow>
     (case find_run st run_id of
        None \<Rightarrow> False
      | Some run \<Rightarrow> rn_phase run = RP_PREPARED \<and> owns (o_run_resources st) (rn_lease run))"

fun preparable_walk :: "Orch \<Rightarrow> RunId list \<Rightarrow> RunId list" where
  "preparable_walk st [] = []"
| "preparable_walk st (r # rs) = (if prepared_with_lease st r then r # preparable_walk st rs else [])"

definition preparable_run_ids :: "Orch \<Rightarrow> RunId list" where
  "preparable_run_ids st = (if no_successor_role st then [] else preparable_walk st (tl (o_run_fifo st)))"

definition preparable_run_id :: "Orch \<Rightarrow> RunId" where
  "preparable_run_id st =
     (if no_successor_role st then INVALID_RUN_ID
      else if prepared_with_lease st (o_run_fifo st ! 1) then o_run_fifo st ! 1 else INVALID_RUN_ID)"

text \<open>A task of an earlier run that has not started yet and names the worker.\<close>

definition wants_worker :: "Orch \<Rightarrow> WorkerId \<Rightarrow> TaskSlot \<Rightarrow> bool" where
  "wants_worker st worker_id slot \<longleftrightarrow>
     (case peek_slot st slot of
        None \<Rightarrow> False
      | Some task \<Rightarrow>
          (ts_state task = PENDING \<or> ts_state task = READY \<or> ts_state task = BUILDING) \<and>
          ts_worker_type task = NEXT_LEVEL \<and> worker_id \<in> set (ts_target_worker_ids task))"

fun stage_walk :: "Orch \<Rightarrow> RunId \<Rightarrow> WorkerId \<Rightarrow> RunId list \<Rightarrow> exn + bool" where
  "stage_walk st run_id worker_id [] = Inr False"
| "stage_walk st run_id worker_id (p # ps) =
     (if p = run_id then Inr True
      else case find_run st p of
             None \<Rightarrow> Inl (OutOfRange ''unordered_map::at'')
           | Some predecessor \<Rightarrow>
               if \<not> rn_submission_closed predecessor then Inr False
               else if list_ex (wants_worker st worker_id) (rn_task_slots predecessor) then Inr False
               else stage_walk st run_id worker_id ps)"

definition can_stage_run_on_worker :: "Orch \<Rightarrow> RunId \<Rightarrow> WorkerId \<Rightarrow> exn + bool" where
  "can_stage_run_on_worker st run_id worker_id =
     (if \<not> prepared_with_lease st run_id then Inr False else stage_walk st run_id worker_id (o_run_fifo st))"

definition all_dispatches_accepted :: "RunState \<Rightarrow> bool" where
  "all_dispatches_accepted run \<longleftrightarrow>
     \<not> is_terminal (rn_phase run) \<and> rn_first_error run = None \<and> rn_submission_closed run \<and> rn_pending_accepts run = 0"

definition early_launch_successor :: "Orch \<Rightarrow> nat \<Rightarrow> RunId" where
  "early_launch_successor st i =
     (if i + 1 \<ge> length (o_run_fifo st) then INVALID_RUN_ID
      else case find_run st (o_run_fifo st ! i) of
             None \<Rightarrow> INVALID_RUN_ID
           | Some predecessor \<Rightarrow>
               if \<not> all_dispatches_accepted predecessor then INVALID_RUN_ID
               else (case find_run st (o_run_fifo st ! (i + 1)) of
                       None \<Rightarrow> INVALID_RUN_ID
                     | Some successor \<Rightarrow>
                         if rn_phase successor \<noteq> RP_PREPARED \<or> \<not> owns (o_run_resources st) (rn_lease successor)
                         then INVALID_RUN_ID else rn_id successor))"

text \<open>The loop condition \<open>index + 1 < run_fifo_.size()\<close> is the length of the index list.\<close>

fun early_launch_walk :: "Orch \<Rightarrow> nat list \<Rightarrow> RunId list \<Rightarrow> RunId list" where
  "early_launch_walk st [] ids = ids"
| "early_launch_walk st (i # is) ids =
     (if length ids + 1 < unat (o_launch_depth st) then
        let successor = early_launch_successor st i in
        if successor = INVALID_RUN_ID then ids else early_launch_walk st is (ids @ [successor])
      else ids)"

definition early_launch_prefix :: "Orch \<Rightarrow> RunId list" where
  "early_launch_prefix st =
     (if o_launch_depth st < 2 \<or> no_successor_role st then []
      else early_launch_walk st [0 ..< length (o_run_fifo st) - 1] [])"

fun authorized_walk :: "Orch \<Rightarrow> RunId \<Rightarrow> nat list \<Rightarrow> bool" where
  "authorized_walk st run_id [] = False"
| "authorized_walk st run_id (i # is) =
     (if i + 1 < unat (o_launch_depth st) then
        let candidate = early_launch_successor st i in
        if candidate = INVALID_RUN_ID then False else candidate = run_id \<or> authorized_walk st run_id is
      else False)"

definition run_activation_authorized :: "Orch \<Rightarrow> RunId \<Rightarrow> bool" where
  "run_activation_authorized st run_id \<longleftrightarrow>
     dispatchable st run_id \<or>
     \<not> (o_launch_depth st < 2 \<or> no_successor_role st) \<and> authorized_walk st run_id [0 ..< length (o_run_fifo st) - 1]"

definition early_launch_run_id :: "Orch \<Rightarrow> RunId" where
  "early_launch_run_id st =
     (if o_launch_depth st < 2 \<or> no_successor_role st then INVALID_RUN_ID else early_launch_successor st 0)"

text \<open>The result says that someone new is authorized and the scheduler is owed a wake.\<close>

definition refresh_early_launch :: "Orch \<Rightarrow> bool \<times> Orch" where
  "refresh_early_launch st =
     (let authorized = early_launch_prefix st in
      (list_ex (\<lambda>r. r \<notin> set (o_early_launch_authorized st)) authorized, st\<lparr>o_early_launch_authorized := authorized\<rparr>))"

definition quiescent :: "Orch \<Rightarrow> bool" where
  "quiescent st \<longleftrightarrow> o_runs st = [] \<and> o_building_run_id st = INVALID_RUN_ID"

end
