(* ===== verification/Orch_Runs.thy ===== *)
theory Orch_Runs
  imports Orch_State
begin

text \<open>
  The life of a run in \<open>common/hierarchical/orchestrator.cpp\<close>: admission into the FIFO, activation of its head,
  closing or failing the submission, the two ways a run retires, and what retirement sets off. Retiring a run
  activates the next head, which may already be finished and retire at once; the recursion through
  \<open>activate_fifo_head\<close>, \<open>retire_execution_if_ready\<close>, \<open>finish_run_if_ready\<close> and \<open>retire_terminal_run\<close> is one
  function here, whose termination measure is the number of runs still waiting for activation.

  One call is one step. The blocking waits are split: \<open>begin_run\<close> reports that it waits, and
  \<open>begin_run_admit\<close> is what it does once the wait is over.
\<close>

section \<open>Retirement and activation\<close>

definition clear_run_ready_queues :: "RunId \<Rightarrow> Orch \<Rightarrow> Orch" where
  "clear_run_ready_queues run_id st =
     st\<lparr>o_ready_sub_queue := rq_erase_run (o_ready_sub_queue st) run_id,
        o_ready_next_level_queues := map_option (\<lambda>q. nl_erase_run q run_id) (o_ready_next_level_queues st)\<rparr>"

definition return_lease :: "RunId \<Rightarrow> Orch \<Rightarrow> Orch" where
  "return_lease run_id st =
     (case find_run st run_id of
        None \<Rightarrow> st
      | Some run \<Rightarrow>
          if rn_lease_released run then st
          else
            let st = upd_run run_id (\<lambda>r. r\<lparr>rn_lease_released := True\<rparr>) st in
            if pl_generation (rn_lease run) \<noteq> 0
            then st\<lparr>o_run_resources := fst (arena_release (o_run_resources st) (rn_lease run))\<rparr> else st)"

definition leave_fifo :: "RunId \<Rightarrow> Orch \<Rightarrow> Orch" where
  "leave_fifo run_id st =
     st\<lparr>o_active_run_id := (if o_active_run_id st = run_id then INVALID_RUN_ID else o_active_run_id st),
        o_run_fifo := remove1 run_id (o_run_fifo st)\<rparr>"

definition apply_folded_capacity :: "Orch \<Rightarrow> Orch" where
  "apply_folded_capacity st =
     (let folded = folded_endpoint_capacity st in
      if folded \<noteq> 0 then snd (apply_admissible_depth folded st) else st)"

text \<open>\<open>retire_terminal_run\<close> up to its last statement, the activation of the new head.\<close>

definition retire_locked :: "RunId \<Rightarrow> (Orch, unit) action" where
  "retire_locked run_id st =
     (case refresh_leases (apply_folded_capacity (return_lease run_id (leave_fifo run_id st))) of
        (Inl e, st1) \<Rightarrow> (Inl e, st1)
      | (Inr leased_a_successor, st1) \<Rightarrow>
          let (authorized_early_launch, st2) = refresh_early_launch st1;
              st3 = clear_run_ready_queues run_id st2
          in (Inr (), if leased_a_successor \<or> authorized_early_launch then notify_ready st3 else st3))"

text \<open>\<open>activate_fifo_head\<close> up to the two calls about the run it promoted; \<open>None\<close> when it promoted none.\<close>

definition promote_head :: "(Orch, RunId option) action" where
  "promote_head st =
     (if o_active_run_id st \<noteq> INVALID_RUN_ID \<or> o_run_fifo st = [] then (Inr None, st)
      else let head = hd (o_run_fifo st) in
           case find_run st head of
             None \<Rightarrow> (Inr None, st)
           | Some run \<Rightarrow>
               if rn_phase run \<noteq> RP_BUILDING \<and> rn_phase run \<noteq> RP_PREPARED then (Inr None, st)
               else (case acquire_lease run st of
                       (Inl e, st1) \<Rightarrow> (Inl e, st1)
                     | (Inr (holds, _), st1) \<Rightarrow>
                         if \<not> holds then (Inr None, st1)
                         else
                           (case refresh_leases (upd_run head (\<lambda>r. r\<lparr>rn_phase := RP_EXECUTING\<rparr>)
                                   (st1\<lparr>o_active_run_id := rn_id run\<rparr>)) of
                              (Inl e, st2) \<Rightarrow> (Inl e, st2)
                            | (Inr _, st2) \<Rightarrow> (Inr (Some head), notify_ready (snd (refresh_early_launch st2))))))"

definition execution_ended :: "RunState \<Rightarrow> bool" where
  "execution_ended run \<longleftrightarrow>
     rn_submission_closed run \<and> list_all (\<lambda>task. list_all (\<lambda>ended. ended \<noteq> 0) (pt_ended_members task)) (rn_physical_tasks run)"

definition execution_retires :: "Orch \<Rightarrow> RunId \<Rightarrow> bool" where
  "execution_retires st run_id \<longleftrightarrow>
     (case find_run st run_id of
        None \<Rightarrow> False
      | Some run \<Rightarrow> execution_ended run \<and> (rn_phase run = RP_EXECUTING \<or> rn_submission_failed run))"

definition run_finishes :: "Orch \<Rightarrow> RunId \<Rightarrow> bool" where
  "run_finishes st run_id \<longleftrightarrow>
     (case find_run st run_id of
        None \<Rightarrow> False
      | Some run \<Rightarrow>
          rn_submission_closed run \<and> rn_active_tasks run = 0 \<and> \<not> is_terminal (rn_phase run) \<and>
          (rn_phase run = RP_EXECUTING \<or> rn_submission_failed run))"

definition set_terminal_phase :: "RunId \<Rightarrow> Orch \<Rightarrow> Orch" where
  "set_terminal_phase run_id =
     upd_run run_id (\<lambda>r. r\<lparr>rn_phase := (if rn_submission_failed r \<or> rn_first_error r \<noteq> None then RP_FAILED else RP_COMPLETED)\<rparr>)"

function activate_fifo_head :: "Orch \<Rightarrow> (exn + unit) \<times> Orch" where
  "activate_fifo_head st =
     (case promote_head st of
        (Inl e, st1) \<Rightarrow> (Inl e, st1)
      | (Inr None, st1) \<Rightarrow> (Inr (), st1)
      | (Inr (Some run_id), st1) \<Rightarrow>
          (case (if execution_retires st1 run_id then
                   (case retire_locked run_id st1 of
                      (Inl e, st2) \<Rightarrow> (Inl e, st2)
                    | (Inr _, st2) \<Rightarrow> activate_fifo_head st2)
                 else (Inr (), st1)) of
             (Inl e, st3) \<Rightarrow> (Inl e, st3)
           | (Inr _, st3) \<Rightarrow>
               if run_finishes st3 run_id then
                 (case retire_locked run_id (set_terminal_phase run_id st3) of
                    (Inl e, st4) \<Rightarrow> (Inl e, st4)
                  | (Inr _, st4) \<Rightarrow> activate_fifo_head st4)
               else (Inr (), st3)))"
  by auto

subsection \<open>Termination\<close>

definition waits_for_activation :: "RunState \<Rightarrow> bool" where
  "waits_for_activation run \<longleftrightarrow> rn_phase run = RP_BUILDING \<or> rn_phase run = RP_PREPARED"

definition waiting_runs :: "Orch \<Rightarrow> nat" where
  "waiting_runs st = length (filter (\<lambda>(_, run). waits_for_activation run) (o_runs st))"

lemma count_map_entry:
  assumes "\<And>v. P (f v) = P v"
  shows "length (filter (\<lambda>(_, v). P v) (AList.map_entry k f xs)) = length (filter (\<lambda>(_, v). P v) xs)"
  by (induction xs) (auto simp: assms)

lemma count_map_entry_le:
  "(\<And>v. P (f v) \<Longrightarrow> P v) \<Longrightarrow> length (filter (\<lambda>(_, v). P v) (AList.map_entry k f xs)) \<le> length (filter (\<lambda>(_, v). P v) xs)"
  by (induction xs) auto

lemma count_map_entry_less:
  "map_of xs k = Some v \<Longrightarrow> P v \<Longrightarrow> \<not> P (f v) \<Longrightarrow>
   length (filter (\<lambda>(_, v). P v) (AList.map_entry k f xs)) < length (filter (\<lambda>(_, v). P v) xs)"
  by (induction xs) auto

lemma waits_lease [simp]:
  "waits_for_activation (run\<lparr>rn_lease := l\<rparr>) = waits_for_activation run"
  "waits_for_activation (run\<lparr>rn_lease_released := b\<rparr>) = waits_for_activation run"
  by (simp_all add: waits_for_activation_def)

text \<open>
  What the lease operations leave alone: \<open>unleased\<close> forgets the arena and the leases of runs and slots, and
  handing out leases does not change the rest.
\<close>

definition unleased :: "Orch \<Rightarrow> Orch" where
  "unleased st = st\<lparr>o_run_resources := \<lparr>ra_granted = 0, ra_sets = []\<rparr>,
     o_runs := map (apsnd (\<lambda>r. r\<lparr>rn_lease := no_lease\<rparr>)) (o_runs st),
     o_slots := (\<lambda>slot. (o_slots st slot)\<lparr>ts_pipeline_lease := no_lease\<rparr>)\<rparr>"

lemma map_of_apsnd: "map_of (map (apsnd f) xs) k = map_option f (map_of xs k)"
  by (induction xs) auto

lemma map_entry_lease:
  "map (apsnd (\<lambda>r. r\<lparr>rn_lease := no_lease\<rparr>)) (AList.map_entry k (\<lambda>r. r\<lparr>rn_lease := l\<rparr>) xs) =
   map (apsnd (\<lambda>r. r\<lparr>rn_lease := no_lease\<rparr>)) xs"
  by (induction xs) auto

lemma unleased_arena [simp]: "unleased (st\<lparr>o_run_resources := a\<rparr>) = unleased st"
  by (simp add: unleased_def)

lemma unleased_upd_run [simp]: "unleased (upd_run r (\<lambda>r. r\<lparr>rn_lease := l\<rparr>) st) = unleased st"
  by (simp add: unleased_def upd_run_def map_entry_lease)

lemma unleased_upd_slot [simp]: "unleased (upd_slot slot (\<lambda>s. s\<lparr>ts_pipeline_lease := l\<rparr>) st) = unleased st"
  by (auto simp: unleased_def upd_slot_def fun_eq_iff)

lemma unleased_publish [simp]: "unleased (publish_lease run l st) = unleased st"
proof -
  have "unleased (fold (\<lambda>slot st. if peek_slot st slot = None then st
      else upd_slot slot (\<lambda>s. s\<lparr>ts_pipeline_lease := l\<rparr>) st) slots st') = unleased st'" for slots st'
    by (induction slots arbitrary: st') auto
  then show ?thesis by (simp add: publish_lease_def)
qed

lemma unleased_acquire: "acquire_lease run st = (res, st') \<Longrightarrow> unleased st' = unleased st"
  by (auto simp: acquire_lease_def split: sum.splits option.splits if_splits)

lemma unleased_successors: "lease_successors rs b st = (res, st') \<Longrightarrow> unleased st' = unleased st"
  by (induction rs b st arbitrary: res st' rule: lease_successors.induct)
    (auto split: option.splits sum.splits prod.splits if_splits dest!: unleased_acquire)

lemma unleased_refresh: "refresh_leases st = (res, st') \<Longrightarrow> unleased st' = unleased st"
  by (auto simp: refresh_leases_def split: list.splits option.splits sum.splits prod.splits if_splits
      dest!: unleased_acquire unleased_successors)

lemma unleased_fields [simp]:
  "o_run_fifo (unleased st) = o_run_fifo st" "o_active_run_id (unleased st) = o_active_run_id st"
  "o_building_run_id (unleased st) = o_building_run_id st" "o_next_run_id (unleased st) = o_next_run_id st"
  "o_admission_depth (unleased st) = o_admission_depth st" "waiting_runs (unleased st) = waiting_runs st"
  "find_run (unleased st) r = map_option (\<lambda>run. run\<lparr>rn_lease := no_lease\<rparr>) (find_run st r)"
  by (simp_all add: unleased_def waiting_runs_def filter_map o_def case_prod_unfold find_run_def map_of_apsnd)

lemma unleased_eqD:
  assumes "unleased st' = unleased st"
  shows "o_run_fifo st' = o_run_fifo st" "o_active_run_id st' = o_active_run_id st" "o_building_run_id st' = o_building_run_id st"
    "o_next_run_id st' = o_next_run_id st" "o_admission_depth st' = o_admission_depth st" "waiting_runs st' = waiting_runs st"
    "map_option (\<lambda>run. run\<lparr>rn_lease := no_lease\<rparr>) (find_run st' r) = map_option (\<lambda>run. run\<lparr>rn_lease := no_lease\<rparr>) (find_run st r)"
  using arg_cong [OF assms, of o_run_fifo] arg_cong [OF assms, of o_active_run_id]
    arg_cong [OF assms, of o_building_run_id] arg_cong [OF assms, of o_next_run_id]
    arg_cong [OF assms, of o_admission_depth] arg_cong [OF assms, of waiting_runs]
    arg_cong [OF assms, of "\<lambda>st. find_run st r"] by simp_all

lemmas waiting_runs_frame = unleased_eqD(6) [OF unleased_acquire] unleased_eqD(6) [OF unleased_refresh]

lemma waiting_runs_upd: 
  "(\<And>run. waits_for_activation (f run) = waits_for_activation run) \<Longrightarrow> waiting_runs (upd_run r f st) = waiting_runs st"
  by (simp add: waiting_runs_def upd_run_def count_map_entry)

lemma waiting_runs_retire_parts [simp]:
  "waiting_runs (leave_fifo r st) = waiting_runs st"
  "waiting_runs (return_lease r st) = waiting_runs st"
  "waiting_runs (apply_folded_capacity st) = waiting_runs st"
  "waiting_runs (snd (refresh_early_launch st)) = waiting_runs st"
  "waiting_runs (clear_run_ready_queues r st) = waiting_runs st"
  "waiting_runs (notify_ready st) = waiting_runs st"
proof -
  show "waiting_runs (return_lease r st) = waiting_runs st"
    using waiting_runs_upd [of "\<lambda>r. r\<lparr>rn_lease_released := True\<rparr>" r st]
    by (auto simp: return_lease_def Let_def waiting_runs_def split: option.splits)
qed (simp_all add: leave_fifo_def apply_folded_capacity_def apply_admissible_depth_def refresh_early_launch_def
      clear_run_ready_queues_def notify_ready_def waiting_runs_def Let_def)

lemma waiting_runs_retire: "retire_locked r st = (res, st') \<Longrightarrow> waiting_runs st' = waiting_runs st"
  by (auto simp: retire_locked_def Let_def split: sum.splits prod.splits if_splits dest!: waiting_runs_frame(2)
      dest: arg_cong [of _ _ "waiting_runs \<circ> snd"])

lemma waiting_runs_terminal: "waiting_runs (set_terminal_phase r st) \<le> waiting_runs st"
  unfolding set_terminal_phase_def waiting_runs_def upd_run_def
  by simp (rule count_map_entry_le, simp add: waits_for_activation_def split: if_splits)

lemma find_run_upd_run: "find_run (upd_run r f st) q = (if q = r then map_option f (find_run st r) else find_run st q)"
  by (simp add: find_run_def upd_run_def map_of_map_entry split: option.splits)

lemma find_run_fields [simp]:
  "find_run (st\<lparr>o_run_resources := a\<rparr>) r = find_run st r" "find_run (st\<lparr>o_active_run_id := b\<rparr>) r = find_run st r"
  "find_run (st\<lparr>o_run_fifo := c\<rparr>) r = find_run st r" "find_run (st\<lparr>o_slots := d\<rparr>) r = find_run st r"
  by (simp_all add: find_run_def)

lemma waiting_runs_promoted:
  "find_run st r = Some run \<Longrightarrow> waits_for_activation run \<Longrightarrow>
   waiting_runs (upd_run r (\<lambda>r. r\<lparr>rn_phase := RP_EXECUTING\<rparr>) (st\<lparr>o_active_run_id := a\<rparr>)) < waiting_runs st"
  by (simp add: waiting_runs_def upd_run_def find_run_def) (erule count_map_entry_less, simp_all add: waits_for_activation_def)

lemma unleased_find:
  "unleased st' = unleased st \<Longrightarrow> find_run st r = Some run \<Longrightarrow> \<exists>l. find_run st' r = Some (run\<lparr>rn_lease := l\<rparr>)"
  using unleased_eqD(7) [of st' st r] by (auto simp: map_option_case split: option.splits) (metis RunState.surjective RunState.update_convs(2))

lemma promote_head_waiting:
  assumes "promote_head st = (res, st1)"
  shows "waiting_runs st1 \<le> waiting_runs st \<and> (\<forall>r. res = Inr (Some r) \<longrightarrow> waiting_runs st1 < waiting_runs st)"
proof -
  let ?h = "hd (o_run_fifo st)"
  consider "waiting_runs st1 = waiting_runs st" "\<forall>r. res \<noteq> Inr (Some r)"
    | run st2 st3 q where "find_run st ?h = Some run" "waits_for_activation run" "unleased st2 = unleased st"
      "refresh_leases (upd_run ?h (\<lambda>r. r\<lparr>rn_phase := RP_EXECUTING\<rparr>) (st2\<lparr>o_active_run_id := rn_id run\<rparr>)) = (q, st3)"
      "waiting_runs st1 = waiting_runs st3"
    using assms
    by (auto simp: promote_head_def Let_def waits_for_activation_def split: if_splits option.splits sum.splits prod.splits
        dest: unleased_acquire intro: waiting_runs_frame)
  then show ?thesis
  proof cases
    case 2
    from unleased_find [OF 2(3,1)] obtain l where "find_run st2 ?h = Some (run\<lparr>rn_lease := l\<rparr>)" by blast
    then have "waiting_runs st3 < waiting_runs st2"
      using waiting_runs_promoted [of st2 ?h "run\<lparr>rn_lease := l\<rparr>" "rn_id run"] 2(2) waiting_runs_frame(2) [OF 2(4)] by simp
    then show ?thesis using 2(5) unleased_eqD(6) [OF 2(3)] by simp
  qed simp
qed

lemma activate_waiting_dom:
  "activate_fifo_head_dom st \<Longrightarrow> activate_fifo_head st = (res, st') \<Longrightarrow> waiting_runs st' \<le> waiting_runs st"
proof (induction st arbitrary: res st' rule: activate_fifo_head.pinduct)
  case (1 st)
  obtain q st1 where p: "promote_head st = (q, st1)" by (cases "promote_head st")
  note w = promote_head_waiting [OF p]
  show ?case
  proof (cases "\<exists>r. q = Inr (Some r)")
    case False
    then show ?thesis using 1(4) w p by (auto simp: activate_fifo_head.psimps [OF 1(1)] split: sum.splits option.splits)
  next
    case True
    then obtain r where q: "q = Inr (Some r)" by blast
    define mid where "mid = (if execution_retires st1 r then
        (case retire_locked r st1 of (Inl e, st2) \<Rightarrow> (Inl e, st2) | (Inr _, st2) \<Rightarrow> activate_fifo_head st2) else (Inr (), st1))"
    have m: "waiting_runs st3 \<le> waiting_runs st1" if "mid = (q3, st3)" for q3 st3
      using that 1(2) p q unfolding mid_def
      by (auto split: if_splits sum.splits prod.splits dest!: waiting_runs_retire)
    obtain q3 st3 where mid: "mid = (q3, st3)" by (cases mid)
    have eq: "activate_fifo_head st = (case mid of (Inl e, st3) \<Rightarrow> (Inl e, st3) | (Inr _, st3) \<Rightarrow>
        if run_finishes st3 r then (case retire_locked r (set_terminal_phase r st3) of
          (Inl e, st4) \<Rightarrow> (Inl e, st4) | (Inr _, st4) \<Rightarrow> activate_fifo_head st4) else (Inr (), st3))"
      using activate_fifo_head.psimps [OF 1(1)] p q by (simp add: mid_def)
    have t: "waiting_runs (set_terminal_phase r st3) \<le> waiting_runs st" using m [OF mid] w waiting_runs_terminal [of r st3] by simp
    show ?thesis
    proof (cases "\<exists>u. q3 = Inr u \<and> run_finishes st3 r")
      case False
      then show ?thesis using 1(4) eq mid m [OF mid] w by (auto split: sum.splits)
    next
      case fin: True
      then obtain q4 st4 where rt: "retire_locked r (set_terminal_phase r st3) = (q4, st4)" by fastforce
      note w4 = waiting_runs_retire [OF rt]
      show ?thesis
      proof (cases q4)
        case (Inl e)
        then show ?thesis using 1(4) eq mid fin rt w4 t by auto
      next
        case (Inr v)
        have "activate_fifo_head st4 = (res, st')" using 1(4) eq mid fin rt Inr by auto
        moreover have "mid = (Inr (), st3)" using mid fin by simp
        ultimately have "waiting_runs st' \<le> waiting_runs st4"
          using 1(3) [OF p [unfolded q, symmetric] refl refl] fin rt Inr
          by (simp add: mid_def)
        then show ?thesis using w4 t by simp
      qed
    qed
  qed
qed

termination activate_fifo_head
proof (relation "measure waiting_runs", goal_cases)
  case (2 st x st1 b r x1 st2 b1)
  then show ?case using promote_head_waiting [of st x st1] waiting_runs_retire [of r st1 x1 st2] by simp
next
  case (3 st x st1 b r x3 st3 b3 x4 st4 b4)
  then have p: "promote_head st = (x, st1)" "x = Inr (Some r)" by simp_all
  have "waiting_runs st3 \<le> waiting_runs st1"
    using 3(4) [symmetric] 3(9) by (auto split: if_splits sum.splits prod.splits dest!: waiting_runs_retire dest: activate_waiting_dom)
  moreover have "waiting_runs st4 = waiting_runs (set_terminal_phase r st3)" using 3(7) waiting_runs_retire by metis
  ultimately show ?case using promote_head_waiting [OF p(1)] p(2) waiting_runs_terminal [of r st3] by simp
qed simp

declare activate_fifo_head.simps [simp del]

text \<open>The functions of the source, and the equation of the source for \<open>activate_fifo_head\<close>.\<close>

definition retire_terminal_run :: "RunId \<Rightarrow> (Orch, unit) action" where
  "retire_terminal_run run_id = seq_act (retire_locked run_id) activate_fifo_head"

definition retire_execution_if_ready :: "RunId \<Rightarrow> (Orch, unit) action" where
  "retire_execution_if_ready run_id st =
     (if execution_retires st run_id then retire_terminal_run run_id st else (Inr (), st))"

definition finish_run_if_ready :: "RunId \<Rightarrow> (Orch, unit) action" where
  "finish_run_if_ready run_id st =
     (if run_finishes st run_id then retire_terminal_run run_id (set_terminal_phase run_id st) else (Inr (), st))"

lemma activate_fifo_head_eq:
  "activate_fifo_head =
     bind_act promote_head (\<lambda>promoted. case promoted of
       None \<Rightarrow> ok ()
     | Some run_id \<Rightarrow> seq_act (retire_execution_if_ready run_id) (finish_run_if_ready run_id))"
  by (rule ext, subst activate_fifo_head.simps)
    (auto simp: bind_act_def seq_act_def ok_def retire_execution_if_ready_def finish_run_if_ready_def retire_terminal_run_def
      split: sum.splits option.splits prod.splits)

section \<open>Admission\<close>

text \<open>
  \<open>begin_run\<close> returns \<open>None\<close> while the FIFO is full. \<open>begin_run_admit\<close> is the rest of the function, which runs
  when the predicate of the wait holds; by then another caller may have published a builder.
\<close>

definition begin_run_admit :: "(Orch, RunId) action" where
  "begin_run_admit st =
     (if o_building_run_id st \<noteq> INVALID_RUN_ID
      then (Inl (LogicError ''Orchestrator::begin_run: another run is still building''), st)
      else if o_next_run_id st = INVALID_RUN_ID \<or> o_next_run_id st = UINT64_MAX
      then (Inl (OverflowError ''Orchestrator::begin_run: run id space exhausted''), st)
      else
        let run_id = o_next_run_id st; st = st\<lparr>o_next_run_id := run_id + 1\<rparr> in
        if find_run st run_id \<noteq> None then (Inl (LogicError ''Orchestrator::begin_run: duplicate run id''), st)
        else
          let run = (new_run run_id no_lease)\<lparr>rn_phase := RP_BUILDING\<rparr>;
              st = st\<lparr>o_runs := AList.update run_id run (o_runs st), o_run_fifo := o_run_fifo st @ [run_id],
                      o_building_run_id := run_id\<rparr>
          in seq_act activate_fifo_head (ok run_id) st)"

definition fifo_has_room :: "Orch \<Rightarrow> bool" where
  "fifo_has_room st \<longleftrightarrow> length (o_run_fifo st) < unat (o_pending_run_limit st)"

definition begin_run :: "(Orch, RunId option) action" where
  "begin_run st =
     (if o_building_run_id st \<noteq> INVALID_RUN_ID
      then (Inl (LogicError ''Orchestrator::begin_run: another run is still building''), st)
      else if fifo_has_room st then bind_act begin_run_admit (\<lambda>r. ok (Some r)) st
      else (Inr None, st))"

definition configure_pipeline_depth :: "u32 \<Rightarrow> u32 \<Rightarrow> u32 \<Rightarrow> u32 \<Rightarrow> (Orch, unit) action" where
  "configure_pipeline_depth depth pending_depth launch_depth initial_admission_depth st =
     (if depth = 0 then (Inl (InvalidArgument ''Orchestrator: pipeline depth is outside the supported range''), st)
      else if initial_admission_depth > depth
      then (Inl (InvalidArgument ''Orchestrator: initial admission exceeds the directory''), st)
      else if launch_depth = 0 \<or> launch_depth > depth
      then (Inl (InvalidArgument ''Orchestrator: launch depth must be between one and the pipeline depth''), st)
      else if o_runs st \<noteq> [] \<or> o_building_run_id st \<noteq> INVALID_RUN_ID \<or> o_active_run_id st \<noteq> INVALID_RUN_ID
      then (Inl (LogicError ''Orchestrator: pipeline depth cannot change after admission starts''), st)
      else case regrant (o_run_resources st) depth of
             Inl e \<Rightarrow> (Inl e, st)
           | Inr arena \<Rightarrow>
               let admission = (if initial_admission_depth = 0 then depth else initial_admission_depth) in
               (Inr (), st\<lparr>o_run_resources := arena, o_admission_depth := admission,
                  o_pending_run_limit := (if pending_depth = 0 then admission else pending_depth),
                  o_pending_run_limit_configured := (pending_depth \<noteq> 0), o_launch_depth := launch_depth\<rparr>))"

definition update_admissible_depth :: "u32 \<Rightarrow> (Orch, unit) action" where
  "update_admissible_depth sets st =
     (let (widened, st1) = apply_admissible_depth sets st in
      if \<not> widened then (Inr (), st1)
      else bind_act refresh_leases
             (\<lambda>leased. seq_act (modify (\<lambda>st. if leased then notify_ready st else st)) activate_fifo_head) st1)"

section \<open>Errors, counters and the end of a run\<close>

definition record_run_error :: "RunId \<Rightarrow> exn \<Rightarrow> Orch \<Rightarrow> Orch" where
  "record_run_error run_id error =
     upd_run run_id (\<lambda>r. r\<lparr>rn_first_error := (if rn_first_error r = None then Some error else rn_first_error r)\<rparr>)"

definition report_task_error :: "TaskSlot \<Rightarrow> string \<Rightarrow> (Orch, unit) action" where
  "report_task_error slot message =
     bind_act (slot_state slot) (\<lambda>task. modify (record_run_error (ts_run_id task) (RuntimeError message)))"

definition close_run_submission :: "RunId \<Rightarrow> (Orch, unit) action" where
  "close_run_submission run_id st =
     (case get_run st run_id of
        Inl e \<Rightarrow> (Inl e, st)
      | Inr run \<Rightarrow>
          if o_building_run_id st \<noteq> run_id
          then (Inl (LogicError ''Orchestrator::close_run_submission: run is not building''), st)
          else
            let st = st\<lparr>o_building_run_id := INVALID_RUN_ID\<rparr> in
            if rn_submission_closed run
            then (Inl (LogicError ''Orchestrator::close_run_submission: submission already closed''), st)
            else
              let st = upd_run run_id (\<lambda>r. r\<lparr>rn_submission_closed := True,
                         rn_phase := (if rn_phase r = RP_BUILDING then RP_PREPARED else rn_phase r)\<rparr>) st
              in seq_act refresh_leases
                   (seq_act (modify (\<lambda>st. notify_ready (snd (refresh_early_launch st))))
                   (seq_act activate_fifo_head
                   (seq_act (retire_execution_if_ready run_id) (finish_run_if_ready run_id)))) st)"

definition decrement_run_tasks :: "RunId \<Rightarrow> (Orch, unit) action" where
  "decrement_run_tasks run_id st =
     (case find_run st run_id of
        None \<Rightarrow> (Inr (), st)
      | Some run \<Rightarrow>
          let remaining = rn_active_tasks run - 1;
              st = upd_run run_id (\<lambda>r. r\<lparr>rn_active_tasks := remaining\<rparr>) st;
              st = (if remaining < 0
                    then record_run_error run_id (LogicError ''Orchestrator: run task count underflow'')
                           (upd_run run_id (\<lambda>r. r\<lparr>rn_active_tasks := 0\<rparr>) st)
                    else st)
          in if remaining \<le> 0 then finish_run_if_ready run_id st else (Inr (), st))"

definition announce_early_launch :: "Orch \<Rightarrow> Orch" where
  "announce_early_launch st =
     (let (authorized, st) = refresh_early_launch st in if authorized then notify_ready st else st)"

definition decrement_run_accepts :: "RunId \<Rightarrow> Orch \<Rightarrow> Orch" where
  "decrement_run_accepts run_id st =
     (case find_run st run_id of
        None \<Rightarrow> st
      | Some run \<Rightarrow>
          let remaining = rn_pending_accepts run - 1; underflow = (remaining < 0);
              remaining = (if underflow then 0 else remaining);
              st = upd_run run_id (\<lambda>r. r\<lparr>rn_pending_accepts := remaining\<rparr>) st;
              st = (if underflow
                    then record_run_error run_id (LogicError ''Orchestrator: run acceptance count underflow'') st else st)
          in if remaining \<noteq> 0 then st else announce_early_launch st)"

definition notify_run_staged :: "RunId \<Rightarrow> Orch \<Rightarrow> Orch" where
  "notify_run_staged run_id st = (if run_id = INVALID_RUN_ID then st else announce_early_launch st)"

definition mark_task_accepted :: "TaskSlot \<Rightarrow> Orch \<Rightarrow> Orch" where
  "mark_task_accepted slot st =
     (case peek_slot st slot of None \<Rightarrow> st | Some task \<Rightarrow> decrement_run_accepts (ts_run_id task) st)"

text \<open>The first entry of the slot, as \<open>std::find_if\<close> finds it; a negative index marks all members.\<close>

definition mark_ended :: "int \<Rightarrow> PhysicalTask \<Rightarrow> PhysicalTask" where
  "mark_ended group_index task =
     (if group_index < 0 then task\<lparr>pt_ended_members := map (\<lambda>_. 1) (pt_ended_members task)\<rparr>
      else task\<lparr>pt_ended_members := (pt_ended_members task)[nat group_index := 1]\<rparr>)"

fun mark_first :: "TaskSlot \<Rightarrow> int \<Rightarrow> PhysicalTask list \<Rightarrow> PhysicalTask list option" where
  "mark_first slot group_index [] = None"
| "mark_first slot group_index (task # tasks) =
     (if pt_slot task = slot then
        if group_index \<ge> int (length (pt_ended_members task)) then None else Some (mark_ended group_index task # tasks)
      else map_option (Cons task) (mark_first slot group_index tasks))"

definition mark_task_ended :: "TaskSlot \<Rightarrow> int \<Rightarrow> (Orch, unit) action" where
  "mark_task_ended slot group_index st =
     (case peek_slot st slot of
        None \<Rightarrow> (Inr (), st)
      | Some task \<Rightarrow>
          (case find_run st (ts_run_id task) of
             None \<Rightarrow> (Inr (), st)
           | Some run \<Rightarrow>
               (case mark_first slot group_index (rn_physical_tasks run) of
                  None \<Rightarrow> (Inr (), st)
                | Some tasks \<Rightarrow>
                    retire_execution_if_ready (ts_run_id task)
                      (upd_run (ts_run_id task) (\<lambda>r. r\<lparr>rn_physical_tasks := tasks\<rparr>) st))))"

definition compact_if_quiescent :: "(Orch, unit) action" where
  "compact_if_quiescent st =
     (if quiescent st \<and> active_count (o_ring st) = 0 then
        (case reset_to_empty (o_ring st) of
           Inl e \<Rightarrow> (Inl e, st)
         | Inr ring \<Rightarrow> (Inr (), st\<lparr>o_ring := ring\<rparr>))
      else (Inr (), st))"

definition release_run :: "RunId \<Rightarrow> (Orch, unit) action" where
  "release_run run_id st =
     (case find_run st run_id of
        None \<Rightarrow> (Inl (InvalidArgument ''Orchestrator::release_run: unknown run id''), st)
      | Some run \<Rightarrow>
          if \<not> is_terminal (rn_phase run)
          then (Inl (LogicError ''Orchestrator::release_run: run is not terminal''), st)
          else compact_if_quiescent (st\<lparr>o_runs := AList.delete run_id (o_runs st)\<rparr>))"

section \<open>Waiting\<close>

text \<open>
  The waits return \<open>False\<close> where the source blocks on its condition variable; the caller is resumed when the
  predicate holds. \<open>wait_run_for\<close> is told whether the deadline had passed on entry.
\<close>

definition request_run_observation :: "RunId \<Rightarrow> Orch \<Rightarrow> Orch" where
  "request_run_observation run_id st =
     (if run_observation_requested st run_id then st
      else
        let st = upd_run run_id (\<lambda>r. r\<lparr>rn_observation_requested := True\<rparr>) st in
        if o_manager st = None then st
        else notify_ready (st\<lparr>o_observations := o_observations st @ [run_id]\<rparr>))"

definition wait_run_accepted :: "RunId \<Rightarrow> Orch \<Rightarrow> bool" where
  "wait_run_accepted run_id st = (case find_run st run_id of None \<Rightarrow> True | Some run \<Rightarrow> acceptance_ready run)"

definition rethrow_first_error :: "RunState \<Rightarrow> 'a \<Rightarrow> exn + 'a" where
  "rethrow_first_error run x = (case rn_first_error run of Some error \<Rightarrow> Inl error | None \<Rightarrow> Inr x)"

definition wait_run :: "RunId \<Rightarrow> (Orch, bool) action" where
  "wait_run run_id st =
     (case get_run st run_id of
        Inl e \<Rightarrow> (Inl e, st)
      | Inr run \<Rightarrow>
          if is_terminal (rn_phase run) then (rethrow_first_error run True, st)
          else (Inr False, request_run_observation run_id st))"

definition wait_run_for :: "RunId \<Rightarrow> bool \<Rightarrow> (Orch, bool) action" where
  "wait_run_for run_id expired st =
     (case get_run st run_id of
        Inl e \<Rightarrow> (Inl e, st)
      | Inr run \<Rightarrow>
          if is_terminal (rn_phase run) then (rethrow_first_error run True, st)
          else (Inr False, if expired then st else request_run_observation run_id st))"

definition await_run_admission :: "RunId \<Rightarrow> Orch \<Rightarrow> bool" where
  "await_run_admission run_id st \<longleftrightarrow>
     run_id = INVALID_RUN_ID \<or> o_active_run_id st = run_id \<or>
     (case find_run st run_id of None \<Rightarrow> True | Some run \<Rightarrow> is_terminal (rn_phase run))"

end
