(* ===== verification/Orch_Tasks.thy ===== *)
theory Orch_Tasks
  imports Orch_Runs
begin

text \<open>
  The operations of \<open>common/hierarchical/orchestrator.cpp\<close> on tasks: claiming a slot and registering it with its
  run, \<open>alloc\<close>, the whole of \<open>submit_impl\<close>, the hand-over to the ready queues, the release of references and
  what consuming a slot sets off, the scopes, and the cancellation of a failed submission. A slot claim that has
  to wait for heap space returns \<open>None\<close> and leaves the state as it was; the call is then repeated.
\<close>

section \<open>Slots\<close>

definition register_run_slot :: "RunId \<Rightarrow> TaskSlot \<Rightarrow> nat \<Rightarrow> Orch \<Rightarrow> Orch" where
  "register_run_slot run_id slot members st =
     (case find_run st run_id of
        None \<Rightarrow> st
      | Some run \<Rightarrow>
          let st = (if peek_slot st slot = None then st
                    else upd_slot slot (\<lambda>s. s\<lparr>ts_pipeline_lease := rn_lease run\<rparr>) st)
          in upd_run run_id (\<lambda>r. r\<lparr>
               rn_physical_tasks := rn_physical_tasks r @ [\<lparr>pt_slot = slot, pt_ended_members = replicate members 0\<rparr>],
               rn_task_slots := rn_task_slots r @ [slot], rn_active_tasks := rn_active_tasks r + 1\<rparr>) st)"

text \<open>
  \<open>Ring::alloc\<close> as its callers use it: the task state behind the new slot is freshly constructed, reset, given to
  the run and left \<open>BUILDING\<close>. \<open>timed_out\<close> says that the wait for heap space ends by the deadline.
\<close>

definition claim_slot :: "RunId \<Rightarrow> u64 \<Rightarrow> nat \<Rightarrow> bool \<Rightarrow> string \<Rightarrow> (Orch, AllocResult option) action" where
  "claim_slot run_id bytes members timed_out shutdown_message st =
     (case ring_alloc (o_ring st) bytes (current_depth (o_scope st)) (if timed_out then [TimedOut] else []) of
        None \<Rightarrow> (Inr None, st)
      | Some (Inl e) \<Rightarrow> (Inl e, st)
      | Some (Inr (ring, ar)) \<Rightarrow>
          let st = st\<lparr>o_ring := ring\<rparr> in
          if ar_slot ar = INVALID_SLOT then (Inl (RuntimeError shutdown_message), st)
          else
            let st = upd_slot (ar_slot ar) (\<lambda>_. (slot_reset fresh_slot)\<lparr>ts_run_id := run_id, ts_state := BUILDING\<rparr>) st
            in (Inr (Some ar), register_run_slot run_id (ar_slot ar) members st))"

definition charge_scope :: "TaskSlot \<Rightarrow> Orch \<Rightarrow> Orch" where
  "charge_scope slot st =
     (let scope_ref = (if scope_depth (o_scope st) > 0 then 1 else 0);
          st = (if scope_ref > 0 then st\<lparr>o_scope := register_task slot (o_scope st)\<rparr> else st)
      in upd_slot slot (\<lambda>s. s\<lparr>ts_fanout_total := scope_ref\<rparr>) st)"

section \<open>Allocation\<close>

definition numel_bytes :: "u32 list \<Rightarrow> u8 \<Rightarrow> u64" where
  "numel_bytes shape dtype = fold (\<lambda>d numel. numel * ucast d) shape 1 * get_element_size dtype"

text \<open>The pointer handed back; null is 0.\<close>

definition orch_alloc :: "u32 list \<Rightarrow> u8 \<Rightarrow> CanonicalIdentity \<Rightarrow> bool \<Rightarrow> (Orch, u64 option) action" where
  "orch_alloc shape dtype identity timed_out st =
     (case current_building_run st of
        Inl e \<Rightarrow> (Inl e, st)
      | Inr run \<Rightarrow>
          if shape = [] then (Inl (InvalidArgument ''Orchestrator::alloc: shape must have at least one dimension''), st)
          else if length shape > MAX_TENSOR_DIMS
          then (Inl (InvalidArgument ''Orchestrator::alloc: shape exceeds MAX_TENSOR_DIMS''), st)
          else
            (case claim_slot (rn_id run) (align_up (numel_bytes shape dtype) HEAP_ALIGN) 1 timed_out
                    ''Orchestrator::alloc: allocator shutdown'' st of
               (Inl e, st) \<Rightarrow> (Inl e, st)
             | (Inr None, st) \<Rightarrow> (Inr None, st)
             | (Inr (Some ar), st) \<Rightarrow>
                 let slot = ar_slot ar;
                     st = charge_scope slot (upd_slot slot (\<lambda>s. s\<lparr>ts_fanin_count := 0, ts_fanin_released := 0\<rparr>) st);
                     ptr = (case ar_heap_ptr ar of None \<Rightarrow> 0 | Some p \<Rightarrow> p);
                     key = local_host (CanonicalIdentityHash identity);
                     st = (if ptr \<noteq> 0
                           then (upd_slot slot (\<lambda>s. s\<lparr>ts_output_keys := ts_output_keys s @ [key]\<rparr>) st)
                                  \<lparr>o_tensormap := tm_insert (o_tensormap st) (rn_id run) key whole_footprint slot\<rparr>
                           else st);
                     st = upd_slot slot (\<lambda>s. s\<lparr>ts_fanout_released := 1, ts_state := COMPLETED\<rparr>) st
                 in (Inr (Some ptr), st)))"

section \<open>Ready tasks\<close>

definition target_worker_id :: "TaskSlotState \<Rightarrow> nat \<Rightarrow> exn + WorkerId" where
  "target_worker_id s i =
     (if i < length (ts_target_worker_ids s) then Inr (ts_target_worker_ids s ! i) else Inl (OutOfRange ''vector::at''))"

definition push_ready :: "TaskSlotState \<Rightarrow> TaskSlot \<Rightarrow> NextLevelReadyQueues \<Rightarrow> exn + NextLevelReadyQueues" where
  "push_ready s slot queues =
     (if ts_is_group s then Inr (push_group queues (ts_run_id s) slot)
      else case target_worker_id s 0 of Inl e \<Rightarrow> Inl e | Inr w \<Rightarrow> push_single queues w (ts_run_id s) slot)"

definition run_is_live :: "Orch \<Rightarrow> RunId \<Rightarrow> bool" where
  "run_is_live st run_id \<longleftrightarrow> (case find_run st run_id of None \<Rightarrow> False | Some run \<Rightarrow> \<not> is_terminal (rn_phase run))"

definition enqueue_ready :: "TaskSlot \<Rightarrow> (Orch, unit) action" where
  "enqueue_ready slot = bind_act (slot_state slot) (\<lambda>s st.
     if ts_worker_type s = NEXT_LEVEL then
       (case o_ready_next_level_queues st of
          None \<Rightarrow> (Inl (RuntimeError ''Orchestrator::enqueue_ready: NEXT_LEVEL queues are not initialized''), st)
        | Some queues \<Rightarrow>
            if \<not> run_is_live st (ts_run_id s) then (Inr (), st)
            else (case push_ready s slot queues of
                    Inl e \<Rightarrow> (Inl e, st)
                  | Inr queues' \<Rightarrow> (Inr (), st\<lparr>o_ready_next_level_queues := Some queues'\<rparr>)))
     else if \<not> run_is_live st (ts_run_id s) then (Inr (), st)
     else (Inr (), st\<lparr>o_ready_sub_queue := rq_push (o_ready_sub_queue st) (ts_run_id s) slot\<rparr>))"

section \<open>References\<close>

text \<open>The two compare-exchanges, and what follows when one of them wins.\<close>

definition on_consumed :: "TaskSlot \<Rightarrow> (Orch, bool) action" where
  "on_consumed slot = bind_act (slot_state slot) (\<lambda>s.
     if ts_state s = COMPLETED \<or> ts_state s = FAILED then
       seq_act (modify (upd_slot slot (\<lambda>s. s\<lparr>ts_state := CONSUMED\<rparr>)))
       (seq_act (mark_task_ended slot (-1))
       (seq_act (modify (\<lambda>st. st\<lparr>
           o_tensormap := erase_task_outputs (o_tensormap st) (ts_run_id s) slot (ts_output_keys s),
           o_ring := ring_release (o_ring st) slot\<rparr>))
       (seq_act (decrement_run_tasks (ts_run_id s)) (ok True))))
     else ok False)"

definition try_consume :: "TaskSlot \<Rightarrow> (Orch, unit) action" where
  "try_consume slot = bind_act (slot_state slot) (\<lambda>s.
     let released = ts_fanout_released s + 1 in
     seq_act (modify (upd_slot slot (\<lambda>s. s\<lparr>ts_fanout_released := released\<rparr>)))
       (if released \<ge> ts_fanout_total s + 1 \<and> (ts_state s = COMPLETED \<or> ts_state s = FAILED)
        then seq_act (on_consumed slot) (ok ()) else ok ()))"

definition release_ref :: "TaskSlot \<Rightarrow> (Orch, unit) action" where
  "release_ref slot = try_consume slot"

definition scope_begin :: "(Orch, unit) action" where
  "scope_begin st =
     (case current_building_run st of
        Inl e \<Rightarrow> (Inl e, st)
      | Inr _ \<Rightarrow>
          (case push_scope (o_scope st) of Inl e \<Rightarrow> (Inl e, st) | Inr stack \<Rightarrow> (Inr (), st\<lparr>o_scope := stack\<rparr>)))"

definition scope_end :: "(Orch, unit) action" where
  "scope_end st =
     (if o_scope st = [] then (Inl (RuntimeError ''Scope: scope_end without scope_begin''), st)
      else seq_act (each_act release_ref (last (o_scope st))) (modify (\<lambda>st. st\<lparr>o_scope := butlast (o_scope st)\<rparr>)) st)"

section \<open>Submission\<close>

datatype TargetNamespace = LOCAL_CHIP | LOCAL_PYTHON | REMOTE_TASK_DISPATCHER

record SubmitRequest =
  sr_worker_type :: WorkerType
  sr_target_namespace :: TargetNamespace
  sr_config :: CallConfig
  sr_args_list :: "TaskArgs list"
  sr_target_worker_ids :: "WorkerId list"
  sr_eligible_worker_ids :: "WorkerId list list"
  sr_remote_sidecars :: "RemoteTaskArgsSidecar list"
  sr_domain_uses :: "CommDomainUse list list"

definition check_domain_uses :: "SubmitRequest \<Rightarrow> exn + unit" where
  "check_domain_uses q =
     reject_if (sr_domain_uses q \<noteq> [] \<and> length (sr_domain_uses q) \<noteq> length (sr_args_list q))
       ''communication-domain sidecar group size mismatch''
     (for_each (\<lambda>uses.
        case validate_comm_domain_uses uses of
          Inl e \<Rightarrow> Inl e
        | Inr _ \<Rightarrow> reject_if (uses \<noteq> [] \<and> (sr_worker_type q \<noteq> NEXT_LEVEL \<or> sr_target_namespace q \<noteq> LOCAL_CHIP))
            ''communication-domain sidecars require a local chip dispatch'' (Inr ())) (sr_domain_uses q))"

text \<open>Everything \<open>submit_impl\<close> checks before it claims a slot, in the order of the source.\<close>

definition check_submit :: "Orch \<Rightarrow> RunState \<Rightarrow> SubmitRequest \<Rightarrow> exn + unit" where
  "check_submit st run q =
     reject_if (sr_args_list q = []) ''Orchestrator: args_list must not be empty''
     (case call_config_validate (sr_config q) of Inl e \<Rightarrow> Inl e | Inr _ \<Rightarrow>
     (case validate_worker_eligibility (o_manager st) (sr_worker_type q) (length (sr_args_list q))
             (sr_target_worker_ids q) (sr_eligible_worker_ids q) of Inl e \<Rightarrow> Inl e | Inr _ \<Rightarrow>
     (case validate_remote_sidecars (o_manager st) (sr_args_list q) (sr_remote_sidecars q) (sr_eligible_worker_ids q) of
        Inl e \<Rightarrow> Inl e | Inr _ \<Rightarrow>
     (case check_domain_uses q of Inl e \<Rightarrow> Inl e | Inr _ \<Rightarrow>
     (case validate_explicit_deps (\<lambda>slot. map_option ts_run_id (peek_slot st slot)) (rn_id run) (sr_args_list q) of
        Inl e \<Rightarrow> Inl e | Inr _ \<Rightarrow>
     (case validate_submit_args (sr_args_list q) of Inl e \<Rightarrow> Inl e | Inr _ \<Rightarrow>
     (case rn_first_error run of Some e \<Rightarrow> Inl e | None \<Rightarrow> Inr ())))))))"

text \<open>Step 2: dependencies and outputs, and step 3: the task's own fields.\<close>

definition infer_step :: "RunId \<Rightarrow> TaskSlot \<Rightarrow> SubmitRequest \<Rightarrow> Orch \<Rightarrow> ProducerDependency list \<times> Orch" where
  "infer_step run_id slot q st =
     (let inf = infer_deps (o_tensormap st) run_id slot (sr_args_list q) (sr_target_worker_ids q) (sr_remote_sidecars q)
      in (is_producers inf,
          upd_slot slot (\<lambda>s. s\<lparr>ts_output_keys := ts_output_keys s @ is_output_keys inf\<rparr>) (st\<lparr>o_tensormap := is_map inf\<rparr>)))"

definition store_args :: "TaskSlot \<Rightarrow> SubmitRequest \<Rightarrow> Orch \<Rightarrow> Orch" where
  "store_args slot q =
     (let n = length (sr_args_list q) in
      upd_slot slot (\<lambda>s.
        let s = (if n = 1 then s\<lparr>ts_is_group := False\<rparr>
                 else s\<lparr>ts_is_group := True, ts_group_args := n,
                        ts_group_member_states := (if n > 1 then replicate n GM_NOT_DISPATCHED else []),
                        ts_group_member_outcomes := (if n > 1 then replicate n SKIPPED else [])\<rparr>)
        in s\<lparr>ts_target_worker_ids := sr_target_worker_ids q\<rparr>))"

text \<open>Step 5. The accumulator holds \<open>live_fanins\<close>, \<open>poisoned_by_failed_producer\<close> and \<open>poison_message\<close>.\<close>

type_synonym wiring = "int \<times> bool \<times> string"

definition poisoned_by :: "TaskSlotState \<Rightarrow> wiring \<Rightarrow> wiring" where
  "poisoned_by ps acc =
     (case acc of (live, _, message) \<Rightarrow> (live, True, if message = [] then ts_failure_message ps else message))"

definition wire_producer :: "TaskSlot \<Rightarrow> ProducerDependency \<Rightarrow> wiring \<Rightarrow> (Orch, wiring) action" where
  "wire_producer slot dependency acc = bind_act (slot_state (pd_slot dependency)) (\<lambda>ps st.
     let prod = pd_slot dependency; state = ts_state ps in
     if state = CONSUMED then (Inr acc, st)
     else if \<not> pd_retain dependency \<and> (state = COMPLETED \<or> state = FAILED) then
       (Inr (if state = FAILED then poisoned_by ps acc else acc), st)
     else
       let st = upd_slot prod (\<lambda>p. p\<lparr>ts_fanout_consumers := ts_fanout_consumers p @ [slot]\<rparr>) st;
           st = (if pd_retain dependency
                 then upd_slot slot (\<lambda>s. s\<lparr>ts_fanin_producers := ts_fanin_producers s @ [prod]\<rparr>)
                        (upd_slot prod (\<lambda>p. p\<lparr>ts_fanout_total := ts_fanout_total p + 1\<rparr>) st)
                 else st)
       in (Inr (if state = FAILED then poisoned_by ps acc
                else if state \<noteq> COMPLETED then (case acc of (live, rest) \<Rightarrow> (live + 1, rest)) else acc), st))"

fun wire_producers :: "TaskSlot \<Rightarrow> ProducerDependency list \<Rightarrow> wiring \<Rightarrow> (Orch, wiring) action" where
  "wire_producers slot [] acc = ok acc"
| "wire_producers slot (d # ds) acc = bind_act (wire_producer slot d acc) (wire_producers slot ds)"

definition non_empty_or :: "string \<Rightarrow> string \<Rightarrow> string" where
  "non_empty_or message fallback = (if message = [] then fallback else message)"

text \<open>The branch taken when a producer had already failed, or failed while the slot was being wired.\<close>

definition propagate_failure :: "RunId \<Rightarrow> TaskSlot \<Rightarrow> string \<Rightarrow> (Orch, unit) action" where
  "propagate_failure run_id slot poison_message st =
     (let st = upd_slot slot (\<lambda>s. fst (claim_task_failure s (non_empty_or poison_message ''producer task failed''))) st;
          message = non_empty_or (ts_failure_message (o_slots st slot)) ''producer task failed'';
          st = upd_slot slot (\<lambda>s. mark_group_members_skipped s message) st;
          st = record_run_error run_id (RuntimeError message) st;
          fanin_producers = ts_fanin_producers (o_slots st slot);
          owed = snd (commit_failure_propagation (o_slots st slot));
          st = upd_slot slot (\<lambda>s. fst (commit_failure_propagation s)) st
      in if owed then seq_act (try_consume slot) (each_act try_consume fanin_producers) st else (Inr (), st))"

text \<open>Step 6 and the end of \<open>submit_impl\<close>.\<close>

definition publish_task :: "RunId \<Rightarrow> TaskSlot \<Rightarrow> wiring \<Rightarrow> (Orch, unit) action" where
  "publish_task run_id slot acc st =
     (case acc of (live_fanins, poisoned, poison_message) \<Rightarrow>
        if poisoned then propagate_failure run_id slot poison_message st
        else
          (case publish_slot (o_slots st slot) live_fanins of
             (s, published, ready_now) \<Rightarrow>
               let st = upd_slot slot (\<lambda>_. s) st in
               if \<not> published then propagate_failure run_id slot poison_message st
               else
                 let st = upd_run run_id (\<lambda>r. r\<lparr>rn_pending_accepts := rn_pending_accepts r + int (group_size s)\<rparr>) st in
                 if ready_now then seq_act (enqueue_ready slot) (modify notify_ready) st else (Inr (), st)))"

type_synonym SubmitResult = TaskHandle

definition submit_impl :: "SubmitRequest \<Rightarrow> bool \<Rightarrow> (Orch, SubmitResult option) action" where
  "submit_impl q timed_out st =
     (case current_building_run st of
        Inl e \<Rightarrow> (Inl e, st)
      | Inr run \<Rightarrow>
          (case check_submit st run q of
             Inl e \<Rightarrow> (Inl e, st)
           | Inr _ \<Rightarrow>
               (case claim_slot (rn_id run) 0 (length (sr_args_list q)) timed_out ''Orchestrator: allocator shutdown'' st of
                  (Inl e, st) \<Rightarrow> (Inl e, st)
                | (Inr None, st) \<Rightarrow> (Inr None, st)
                | (Inr (Some ar), st) \<Rightarrow>
                    let slot = ar_slot ar;
                        st = upd_slot slot (\<lambda>s. s\<lparr>ts_worker_type := sr_worker_type q\<rparr>) (charge_scope slot st);
                        (producers, st) = infer_step (rn_id run) slot q st;
                        st = store_args slot q st
                    in bind_act (wire_producers slot producers (0, False, []))
                         (\<lambda>acc. seq_act (publish_task (rn_id run) slot acc)
                            (ok (Some \<lparr>th_run_id = rn_id run, th_task_slot = slot\<rparr>))) st)))"

definition submit_next_level ::
  "TargetNamespace \<Rightarrow> TaskArgs \<Rightarrow> CallConfig \<Rightarrow> WorkerId \<Rightarrow> WorkerId list \<Rightarrow> RemoteTaskArgsSidecar \<Rightarrow> CommDomainUse list \<Rightarrow>
   bool \<Rightarrow> (Orch, SubmitResult option) action" where
  "submit_next_level namespace args config worker_id eligible_worker_ids remote_sidecar domain_uses =
     submit_impl \<lparr>sr_worker_type = NEXT_LEVEL, sr_target_namespace = namespace, sr_config = config, sr_args_list = [args],
       sr_target_worker_ids = [worker_id],
       sr_eligible_worker_ids = (if eligible_worker_ids \<noteq> [] then [eligible_worker_ids] else []),
       sr_remote_sidecars = (if sc_tensors remote_sidecar \<noteq> [] \<or> sc_inline_payload remote_sidecar \<noteq> []
                             then [remote_sidecar] else []),
       sr_domain_uses = [domain_uses]\<rparr>"

definition submit_next_level_group ::
  "TargetNamespace \<Rightarrow> TaskArgs list \<Rightarrow> CallConfig \<Rightarrow> WorkerId list \<Rightarrow> WorkerId list list \<Rightarrow> RemoteTaskArgsSidecar list \<Rightarrow>
   CommDomainUse list list \<Rightarrow> bool \<Rightarrow> (Orch, SubmitResult option) action" where
  "submit_next_level_group namespace args_list config worker_ids eligible_worker_ids remote_sidecars domain_uses =
     submit_impl \<lparr>sr_worker_type = NEXT_LEVEL, sr_target_namespace = namespace, sr_config = config,
       sr_args_list = args_list, sr_target_worker_ids = worker_ids, sr_eligible_worker_ids = eligible_worker_ids,
       sr_remote_sidecars = remote_sidecars, sr_domain_uses = domain_uses\<rparr>"

definition submit_sub_group :: "TargetNamespace \<Rightarrow> TaskArgs list \<Rightarrow> bool \<Rightarrow> (Orch, SubmitResult option) action" where
  "submit_sub_group namespace args_list =
     submit_impl \<lparr>sr_worker_type = SUB, sr_target_namespace = namespace, sr_config = default_config,
       sr_args_list = args_list, sr_target_worker_ids = [], sr_eligible_worker_ids = [], sr_remote_sidecars = [],
       sr_domain_uses = []\<rparr>"

definition submit_sub :: "TargetNamespace \<Rightarrow> TaskArgs \<Rightarrow> bool \<Rightarrow> (Orch, SubmitResult option) action" where
  "submit_sub namespace args = submit_sub_group namespace [args]"

section \<open>Failing a submission\<close>

fun what :: "exn \<Rightarrow> string" where
  "what (InvalidArgument m) = m" | "what (LogicError m) = m" | "what (RuntimeError m) = m"
| "what (OverflowError m) = m" | "what (OutOfRange m) = m" | "what (LengthError m) = m"

text \<open>The first loop of \<open>cancel_unstarted_run\<close>: the slots it has to propagate, with a copy of their producers.\<close>

definition cancel_slot :: "string \<Rightarrow> TaskSlot \<Rightarrow> (Orch, (TaskSlot \<times> TaskSlot list) list) action" where
  "cancel_slot message slot = bind_act (slot_state slot) (\<lambda>state st.
     let (state1, claimed) = claim_task_failure state message;
         state2 = (if claimed \<noteq> None \<and> claimed \<noteq> Some BUILDING
                   then state1\<lparr>ts_failure_propagation_pending := True\<rparr> else state1)
     in if claimed = None \<and> \<not> ts_failure_propagation_pending state2 then (Inr [], upd_slot slot (\<lambda>_. state2) st)
        else
          let state3 = mark_group_members_skipped state2 message
          in (Inr [(slot, ts_fanin_producers state3)], upd_slot slot (\<lambda>_. state3) st))"

fun cancel_slots :: "string \<Rightarrow> TaskSlot list \<Rightarrow> (Orch, (TaskSlot \<times> TaskSlot list) list) action" where
  "cancel_slots message [] = ok []"
| "cancel_slots message (slot # slots) =
     bind_act (cancel_slot message slot) (\<lambda>a. bind_act (cancel_slots message slots) (\<lambda>b. ok (a @ b)))"

text \<open>The second loop settles the debts; only the entries whose debt was still open stay.\<close>

fun commit_debts :: "(TaskSlot \<times> TaskSlot list) list \<Rightarrow> (Orch, (TaskSlot \<times> TaskSlot list) list) action" where
  "commit_debts [] = ok []"
| "commit_debts ((slot, producers) # rest) =
     bind_act (slot_state slot) (\<lambda>s. seq_act (modify (upd_slot slot (\<lambda>s. fst (commit_failure_propagation s))))
       (bind_act (commit_debts rest) (\<lambda>owned. ok (if snd (commit_failure_propagation s) then (slot, producers) # owned else owned))))"

definition cancel_unstarted_run :: "RunId \<Rightarrow> string \<Rightarrow> (Orch, unit) action" where
  "cancel_unstarted_run run_id message st =
     (case find_run st run_id of
        None \<Rightarrow> (Inr (), st)
      | Some run \<Rightarrow>
          bind_act (cancel_slots message (rn_task_slots run)) (\<lambda>cancelled.
          bind_act (commit_debts cancelled) (\<lambda>owned.
          seq_act (each_act (\<lambda>(slot, _). try_consume slot) owned)
                  (each_act (\<lambda>(_, producers). each_act try_consume producers) owned))) st)"

definition fail_run_submission :: "RunId \<Rightarrow> exn option \<Rightarrow> (Orch, unit) action" where
  "fail_run_submission run_id error st =
     (case get_run st run_id of
        Inl e \<Rightarrow> (Inl e, st)
      | Inr run \<Rightarrow>
          let message = (case error of None \<Rightarrow> ''graph construction failed'' | Some e \<Rightarrow> what e);
              st = (case error of None \<Rightarrow> st | Some e \<Rightarrow> record_run_error run_id e st);
              st = (if o_building_run_id st = run_id then st\<lparr>o_building_run_id := INVALID_RUN_ID\<rparr> else st);
              st = upd_run run_id (\<lambda>r. r\<lparr>rn_submission_failed := True, rn_submission_closed := True\<rparr>) st
          in seq_act (cancel_unstarted_run run_id message) (finish_run_if_ready run_id) st)"

section \<open>What run bookkeeping leaves alone\<close>

text \<open>The tasks as they are without the leases stamped on them, the allocator, the dependency map and the scopes.\<close>

definition task_view :: "Orch \<Rightarrow> (TaskSlot \<Rightarrow> TaskSlotState) \<times> Ring \<times> TensorMap \<times> TaskSlot list list" where
  "task_view st = (o_slots (unleased st), o_ring st, o_tensormap st, o_scope st)"

lemma task_view_unleased: "unleased st' = unleased st \<Longrightarrow> task_view st' = task_view st"
proof -
  have "task_view (unleased s) = task_view s" for s by (simp add: task_view_def unleased_def)
  then show "unleased st' = unleased st \<Longrightarrow> task_view st' = task_view st" by metis
qed

lemma task_view_upd_run [simp]: "task_view (upd_run r f st) = task_view st"
  by (simp add: task_view_def upd_run_def unleased_def)

lemma task_view_fields [simp]:
  "task_view (st\<lparr>o_active_run_id := a\<rparr>) = task_view st" "task_view (st\<lparr>o_run_resources := b\<rparr>) = task_view st"
  "task_view (st\<lparr>o_building_run_id := c\<rparr>) = task_view st"
  by (simp_all add: task_view_def unleased_def)

lemma task_view_run_ops [simp]:
  "task_view (notify_ready st) = task_view st" "task_view (clear_run_ready_queues r st) = task_view st"
  "task_view (snd (refresh_early_launch st)) = task_view st" "task_view (leave_fifo r st) = task_view st"
  "task_view (return_lease r st) = task_view st" "task_view (apply_folded_capacity st) = task_view st"
  "task_view (set_terminal_phase r st) = task_view st" "task_view (record_run_error r e st) = task_view st"
  by (simp_all add: notify_ready_def clear_run_ready_queues_def refresh_early_launch_def leave_fifo_def return_lease_def
      apply_folded_capacity_def apply_admissible_depth_def set_terminal_phase_def record_run_error_def task_view_def
      unleased_def upd_run_def Let_def split: option.splits)

lemma unchanged_refresh [intro]: "unchanged task_view refresh_leases"
  unfolding unchanged_def by (metis prod.collapse task_view_unleased unleased_refresh)

lemma unchanged_retire_locked [intro]: "unchanged task_view (retire_locked r)"
  using unchanged_refresh
  by (auto simp: unchanged_def retire_locked_def case_prod_unfold Let_def split: sum.splits)

lemma unchanged_promote [intro]: "unchanged task_view promote_head"
  using unchangedD [OF unchanged_refresh] task_view_unleased [OF unleased_acquire]
  by (auto simp: unchanged_def promote_head_def Let_def split: sum.splits prod.splits option.splits)

lemma unchanged_activate [intro]: "unchanged task_view activate_fifo_head"
proof -
  have "task_view (snd (activate_fifo_head st)) = task_view st" for st
  proof (induction st rule: activate_fifo_head.induct)
    case (1 st)
    note s = unchangedD [OF unchanged_promote] unchangedD [OF unchanged_retire_locked]
    show ?case
      by (subst activate_fifo_head.simps) (use 1 s in \<open>auto split: sum.splits prod.splits option.splits\<close>)
  qed
  then show ?thesis by (simp add: unchanged_def)
qed

lemma unchanged_finish [intro]:
  "unchanged task_view (retire_terminal_run r)" "unchanged task_view (retire_execution_if_ready r)"
  "unchanged task_view (finish_run_if_ready r)"
proof -
  show t: "unchanged task_view (retire_terminal_run r)" by (auto simp: retire_terminal_run_def)
  show "unchanged task_view (retire_execution_if_ready r)" "unchanged task_view (finish_run_if_ready r)"
    using t by (auto simp: unchanged_def retire_execution_if_ready_def finish_run_if_ready_def)
qed

lemma unchanged_mark_ended [intro]: "unchanged task_view (mark_task_ended slot i)"
  using unchanged_finish(2) by (auto simp: unchanged_def mark_task_ended_def split: option.splits)

lemma unchanged_decrement [intro]: "unchanged task_view (decrement_run_tasks r)"
  using unchanged_finish(3) by (auto simp: unchanged_def decrement_run_tasks_def Let_def split: option.splits)

end
