(* ===== verification/Sched.thy ===== *)
theory Sched
  imports Orch_Tasks
begin

text \<open>
  The completion side of \<open>common/hierarchical/scheduler.cpp\<close>: what an endpoint's report does
  (\<open>worker_done\<close>, with the callbacks of \<open>worker.cpp\<close> around it), what the scheduler does with a queued completion
  (\<open>on_task_complete\<close>), and how a failure spreads to the tasks behind it (\<open>poison_task\<close>). The recursion of
  \<open>poison_task\<close> over the consumers is the function \<open>poison_tasks\<close> on a list of slots; it ends because each level
  of it turns a task that could still be claimed into a failed one.

  Where the scheduler dereferences \<open>Ring::slot_state\<close> without a check, an unknown slot is the exception of
  \<open>slot_state\<close>.
\<close>

section \<open>Releasing a reference\<close>

text \<open>The scheduler's copy of \<open>try_consume\<close>, which reads the state only once the threshold is reached.\<close>

definition sched_try_consume :: "TaskSlot \<Rightarrow> (Orch, unit) action" where
  "sched_try_consume slot = bind_act (slot_state slot) (\<lambda>s.
     let released = ts_fanout_released s + 1 in
     seq_act (modify (upd_slot slot (\<lambda>s. s\<lparr>ts_fanout_released := released\<rparr>)))
       (if released \<ge> ts_fanout_total s + 1 then
          if ts_state s = COMPLETED \<or> ts_state s = FAILED then seq_act (on_consumed slot) (ok ()) else ok ()
        else ok ()))"

lemma sched_try_consume_eq: "sched_try_consume = try_consume"
proof (rule ext)
  fix slot
  show "sched_try_consume slot = try_consume slot"
    unfolding sched_try_consume_def try_consume_def by (rule arg_cong [where f = "bind_act (slot_state slot)"]) (auto simp: Let_def)
qed

section \<open>Poisoning\<close>

function poison_tasks :: "string \<Rightarrow> TaskSlot list \<Rightarrow> Orch \<Rightarrow> (exn + unit) \<times> Orch" where
  "poison_tasks message [] st = (Inr (), st)"
| "poison_tasks message (slot # slots) st =
     (case slot_state slot st of
        (Inl e, st) \<Rightarrow> (Inl e, st)
      | (Inr s, st) \<Rightarrow>
          let (s1, claimed) = claim_task_failure s message; st1 = upd_slot slot (\<lambda>_. s1) st in
          if claimed = None \<or> claimed = Some BUILDING then poison_tasks message slots st1
          else
            let s2 = mark_group_members_skipped s1 message; st2 = upd_slot slot (\<lambda>_. s2) st1 in
            (case poison_tasks message (ts_fanout_consumers s2) st2 of
               (Inl e, st3) \<Rightarrow> (Inl e, st3)
             | (Inr _, st3) \<Rightarrow>
                 (case seq_act (sched_try_consume slot) (each_act sched_try_consume (ts_fanin_producers s2)) st3 of
                    (Inl e, st4) \<Rightarrow> (Inl e, st4)
                  | (Inr _, st4) \<Rightarrow> poison_tasks message slots st4)))"
  by pat_completeness auto

subsection \<open>Termination\<close>

definition is_claimable :: "TaskState \<Rightarrow> bool" where
  "is_claimable state \<longleftrightarrow> state = PENDING \<or> state = READY \<or> state = BUILDING"

definition claimable_slots :: "Orch \<Rightarrow> nat" where
  "claimable_slots st =
     length (filter (\<lambda>i. is_claimable (ts_state (o_slots st (int i)))) [0 ..< length (rg_slot_states (o_ring st))])"

definition lowers :: "('s \<Rightarrow> nat) \<Rightarrow> ('s, 'a) action \<Rightarrow> bool" where
  "lowers f m \<longleftrightarrow> (\<forall>s. f (snd (m s)) \<le> f s)"

lemma lowersD: "lowers f m \<Longrightarrow> m s = (res, s') \<Longrightarrow> f s' \<le> f s"
  by (metis lowers_def snd_conv)

lemma lowers_ok [intro]: "lowers f (ok x)"
  by (simp add: lowers_def ok_def)

lemma lowers_bind [intro]:
  assumes "lowers f m" "\<And>x. lowers f (k x)"
  shows "lowers f (bind_act m k)"
  unfolding lowers_def
proof
  fix s
  obtain q t where m: "m s = (q, t)" by (cases "m s")
  show "f (snd (bind_act m k s)) \<le> f s"
    using lowersD [OF assms(1) m] assms(2) m by (cases q) (auto simp: bind_act_def lowers_def intro: le_trans)
qed

lemma lowers_seq [intro]: "lowers f m \<Longrightarrow> lowers f n \<Longrightarrow> lowers f (seq_act m n)"
  by (auto simp: seq_act_def)

lemma lowers_each [intro]: "(\<And>x. lowers f (g x)) \<Longrightarrow> lowers f (each_act g xs)"
  by (induction xs) auto

lemma lowers_modify: "(\<And>s. f (g s) \<le> f s) \<Longrightarrow> lowers f (modify g)"
  by (simp add: lowers_def modify_def)

lemma lowers_slot_state [intro]: "lowers f (slot_state slot)"
  by (simp add: lowers_def slot_state_def split: option.splits)

lemma claimable_view: "task_view st' = task_view st \<Longrightarrow> claimable_slots st' = claimable_slots st"
proof -
  assume v: "task_view st' = task_view st"
  have "ts_state (o_slots s slot) = ts_state (fst (task_view s) slot)" for s slot by (simp add: task_view_def unleased_def)
  moreover have "o_ring st' = o_ring st" using v by (simp add: task_view_def)
  ultimately show ?thesis using v by (simp add: claimable_slots_def)
qed

lemma lowers_unchanged: "unchanged task_view m \<Longrightarrow> lowers claimable_slots m"
  unfolding lowers_def unchanged_def by (blast intro: eq_imp_le claimable_view)

lemma filter_count_le:
  assumes "\<And>x. x \<in> set xs \<Longrightarrow> P x \<Longrightarrow> Q x"
  shows "length (filter P xs) \<le> length (filter Q xs)"
proof -
  have "filter P xs = filter P (filter Q xs)" using assms by (auto intro: filter_cong)
  then show ?thesis by (metis length_filter_le)
qed

lemma filter_count_less:
  assumes "\<And>x. x \<in> set xs \<Longrightarrow> P x \<Longrightarrow> Q x" "y \<in> set xs" "Q y" "\<not> P y"
  shows "length (filter P xs) < length (filter Q xs)"
proof -
  obtain us vs where xs: "xs = us @ y # vs" using assms(2) by (meson split_list)
  have "length (filter P us) \<le> length (filter Q us)" "length (filter P vs) \<le> length (filter Q vs)"
    using assms(1) xs by (auto intro: filter_count_le)
  then show ?thesis using xs assms(3,4) by simp
qed

lemma claimable_upd:
  "(is_claimable (ts_state (f (o_slots st slot))) \<Longrightarrow> is_claimable (ts_state (o_slots st slot))) \<Longrightarrow>
     claimable_slots (upd_slot slot f st) \<le> claimable_slots st"
  by (auto simp: claimable_slots_def upd_slot_def intro: filter_count_le)

lemma claimable_claimed:
  assumes "peek_slot st slot \<noteq> None" "is_claimable (ts_state (o_slots st slot))" "\<not> is_claimable (ts_state s)"
  shows "claimable_slots (upd_slot slot (\<lambda>_. s) st) < claimable_slots st"
proof -
  have "0 \<le> slot" "nat slot < length (rg_slot_states (o_ring st))"
    using assms(1) by (auto simp: peek_slot_def ring_slot_state_def split: if_splits)
  then have "length (filter (\<lambda>i. is_claimable (ts_state (((o_slots st)(slot := s)) (int i)))) [0 ..< length (rg_slot_states (o_ring st))])
      < length (filter (\<lambda>i. is_claimable (ts_state (o_slots st (int i)))) [0 ..< length (rg_slot_states (o_ring st))])"
    by (intro filter_count_less [where y = "nat slot"]) (use assms(2,3) in \<open>auto split: if_splits\<close>)
  then show ?thesis by (simp add: claimable_slots_def upd_slot_def)
qed

lemmas lowers_run_ops [intro] = lowers_unchanged [OF unchanged_mark_ended] lowers_unchanged [OF unchanged_decrement]

lemma lowers_try_consume [intro]: "lowers claimable_slots (try_consume slot)"
proof -
  have "rg_slot_states (ring_release rg slot) = rg_slot_states rg" for rg by (simp add: ring_release_eq Let_def)
  then have r: "claimable_slots (st\<lparr>o_tensormap := m, o_ring := ring_release (o_ring st) slot\<rparr>) = claimable_slots st" for st m
    by (simp add: claimable_slots_def)
  have "lowers claimable_slots (on_consumed slot)"
    unfolding on_consumed_def
    by (intro lowers_bind lowers_slot_state)
      (auto intro!: lowers_seq lowers_modify lowers_ok claimable_upd simp: r is_claimable_def)
  then show ?thesis
    unfolding try_consume_def Let_def
    by (intro lowers_bind lowers_slot_state) (auto intro!: lowers_seq lowers_modify lowers_ok claimable_upd)
qed

lemma lowers_release_all: "lowers claimable_slots (seq_act (sched_try_consume slot) (each_act sched_try_consume ps))"
  unfolding sched_try_consume_eq by auto

lemma ts_state_skipped [simp]: "ts_state (mark_group_members_skipped s m) = ts_state s"
  by (simp add: mark_group_members_skipped_def Let_def case_prod_unfold)

text \<open>A claim that is carried on, and one that is not.\<close>

lemma claim_drop:
  assumes "peek_slot st slot = Some s" "claim_task_failure s message = (s1, claimed)"
  shows "claimable_slots (upd_slot slot (\<lambda>_. s1) st) \<le> claimable_slots st"
    "\<not> (claimed = None \<or> claimed = Some BUILDING) \<Longrightarrow>
     claimable_slots (upd_slot slot (\<lambda>_. mark_group_members_skipped s1 message) (upd_slot slot (\<lambda>_. s1) st)) < claimable_slots st"
proof -
  have s: "s = o_slots st slot" using assms(1) by (simp add: peek_slot_def split: if_splits)
  have c: "s1 = s \<and> claimed = None \<or> is_claimable (ts_state s) \<and> ts_state s1 = FAILED"
    using assms(2) by (auto simp: claim_task_failure_def is_claimable_def Let_def split: if_splits)
  then show "claimable_slots (upd_slot slot (\<lambda>_. s1) st) \<le> claimable_slots st"
    using s by (intro claimable_upd) (auto simp: is_claimable_def)
  assume "\<not> (claimed = None \<or> claimed = Some BUILDING)"
  then have f: "is_claimable (ts_state s)" "ts_state s1 = FAILED" using c by auto
  have "upd_slot slot (\<lambda>_. mark_group_members_skipped s1 message) (upd_slot slot (\<lambda>_. s1) st) =
      upd_slot slot (\<lambda>_. mark_group_members_skipped s1 message) st" by (simp add: upd_slot_def)
  moreover have "claimable_slots (upd_slot slot (\<lambda>_. mark_group_members_skipped s1 message) st) < claimable_slots st"
    using f s assms(1) by (intro claimable_claimed) (auto simp: is_claimable_def)
  ultimately show "claimable_slots (upd_slot slot (\<lambda>_. mark_group_members_skipped s1 message) (upd_slot slot (\<lambda>_. s1) st)) < claimable_slots st"
    by simp
qed

lemma poison_tasks_dom:
  "poison_tasks_dom (message, slots, st) \<Longrightarrow> poison_tasks message slots st = (res, st') \<Longrightarrow> claimable_slots st' \<le> claimable_slots st"
proof (induction arbitrary: res st' rule: poison_tasks.pinduct)
  case (1 message st)
  then show ?case by (simp add: poison_tasks.psimps)
next
  case (2 message slot slots st)
  note eq = poison_tasks.psimps(2) [OF 2(1)]
  show ?case
  proof (cases "peek_slot st slot")
    case None
    then show ?thesis using 2(5) by (simp add: eq slot_state_def)
  next
    case (Some s)
    obtain s1 claimed where c: "claim_task_failure s message = (s1, claimed)" by (cases "claim_task_failure s message")
    have sl: "slot_state slot st = (Inr s, st)" using Some by (simp add: slot_state_def)
    define st1 where "st1 = upd_slot slot (\<lambda>_. s1) st"
    define s2 where "s2 = mark_group_members_skipped s1 message"
    define st2 where "st2 = upd_slot slot (\<lambda>_. s2) st1"
    note drop = claim_drop [OF Some c, folded st1_def s2_def, folded st2_def]
    show ?thesis
    proof (cases "claimed = None \<or> claimed = Some BUILDING")
      case True
      then have "poison_tasks message slots st1 = (res, st')" using 2(5) by (simp add: eq sl c st1_def Let_def)
      from 2(2) [OF sl [symmetric] refl refl c [symmetric] st1_def True this] drop(1) show ?thesis by simp
    next
      case False
      obtain q3 st3 where p3: "poison_tasks message (ts_fanout_consumers s2) st2 = (q3, st3)"
        by (cases "poison_tasks message (ts_fanout_consumers s2) st2")
      have w3: "claimable_slots st3 \<le> claimable_slots st2"
        using 2(3) [OF sl [symmetric] refl refl c [symmetric] st1_def False s2_def st2_def p3] .
      obtain q4 st4 where p4: "seq_act (sched_try_consume slot) (each_act sched_try_consume (ts_fanin_producers s2)) st3 = (q4, st4)"
        by (cases "seq_act (sched_try_consume slot) (each_act sched_try_consume (ts_fanin_producers s2)) st3")
      have w4: "claimable_slots st4 \<le> claimable_slots st3" using lowersD [OF lowers_release_all p4] .
      have step: "(res, st') = (case q3 of Inl e \<Rightarrow> (Inl e, st3) | Inr _ \<Rightarrow> (case q4 of Inl e \<Rightarrow> (Inl e, st4) | Inr _ \<Rightarrow> poison_tasks message slots st4))"
        using 2(5) False p3 p4 by (simp add: eq sl c st1_def [symmetric] s2_def [symmetric] st2_def [symmetric] Let_def) (cases q3; cases q4; auto)
      have "claimable_slots st' \<le> claimable_slots st4" if "q3 = Inr u" "q4 = Inr v" for u v
        using 2(4) [OF sl [symmetric] refl refl c [symmetric] st1_def False s2_def st2_def p3 [symmetric] that(1) p4 [symmetric] that(2)] step [symmetric] that
        by simp
      then show ?thesis using step w3 w4 drop(2) [OF False] by (cases q3; cases q4) auto
    qed
  qed
qed

termination poison_tasks
proof (relation "measures [\<lambda>(_, _, st). claimable_slots st, \<lambda>(_, slots, _). length slots]", goal_cases)
  case (2 message slot slots st x y s c s1 claimed st1)
  then have p: "peek_slot st slot = Some s" "y = st" by (auto simp: slot_state_def split: option.splits)
  show ?case using claim_drop(1) [OF p(1), of message s1 claimed] 2 p by auto
next
  case (3 message slot slots st x y s c s1 claimed st1 s2 st2)
  then have p: "peek_slot st slot = Some s" "y = st" by (auto simp: slot_state_def split: option.splits)
  show ?case using claim_drop(2) [OF p(1), of message s1 claimed] 3 p by auto
next
  case (4 message slot slots st x y s c s1 claimed st1 s2 st2 q3 st3 b3 q4 st4 b4)
  then have p: "peek_slot st slot = Some s" "y = st" by (auto simp: slot_state_def split: option.splits)
  have "claimable_slots st2 < claimable_slots st" using claim_drop(2) [OF p(1), of message s1 claimed] 4 p by auto
  moreover have "claimable_slots st3 \<le> claimable_slots st2" using poison_tasks_dom [of message _ st2 q3 st3] 4 by metis
  moreover have "claimable_slots st4 \<le> claimable_slots st3" using lowersD [OF lowers_release_all] 4 by metis
  ultimately show ?case by auto
qed simp

declare poison_tasks.simps [simp del]

definition poison_task :: "TaskSlot \<Rightarrow> string \<Rightarrow> (Orch, unit) action" where
  "poison_task slot message = poison_tasks message [slot]"

text \<open>The loop over the consumers, as the source has it.\<close>

lemma poison_tasks_each: "poison_tasks message slots = each_act (\<lambda>slot. poison_task slot message) slots"
proof (induction slots)
  case Nil
  show ?case by (simp add: fun_eq_iff ok_def poison_tasks.simps)
next
  case (Cons slot slots)
  have "poison_tasks message (slot # slots) st = seq_act (poison_task slot message) (poison_tasks message slots) st" for st
    by (simp add: poison_task_def poison_tasks.simps(2) [of message slot _ st] seq_act_def bind_act_def slot_state_def Let_def poison_tasks.simps(1)
        split: option.splits prod.splits sum.splits)
  then show ?case using Cons by (simp add: fun_eq_iff)
qed

section \<open>Completions\<close>

definition release_consumer :: "bool \<Rightarrow> string \<Rightarrow> TaskSlot \<Rightarrow> (Orch, unit) action" where
  "release_consumer failed message consumer =
     (if failed then poison_task consumer message
      else bind_act (slot_state consumer) (\<lambda>cs.
        let (cs', ready) = try_mark_ready (cs\<lparr>ts_fanin_released := ts_fanin_released cs + 1\<rparr>) in
        seq_act (modify (upd_slot consumer (\<lambda>_. cs'))) (if ready then enqueue_ready consumer else ok ())))"

definition on_task_complete :: "WorkerCompletion \<Rightarrow> (Orch, unit) action" where
  "on_task_complete completion =
     (let slot = wc_task_slot completion; failed = is_failure (wc_outcome completion); message = wc_error_message completion in
      bind_act (slot_state slot) (\<lambda>s.
        seq_act (modify (upd_slot slot (\<lambda>s. s\<lparr>ts_failure_message := (if failed then message else ts_failure_message s),
                                               ts_state := (if failed then FAILED else COMPLETED)\<rparr>)))
        (seq_act (each_act (release_consumer failed message) (ts_fanout_consumers s))
        (seq_act (sched_try_consume slot)
                 (each_act sched_try_consume (ts_fanin_producers s))))))"

section \<open>Endpoint reports\<close>

definition queue_completion :: "WorkerCompletion \<Rightarrow> Orch \<Rightarrow> Orch" where
  "queue_completion completion st = st\<lparr>o_completion_queue := o_completion_queue st @ [completion]\<rparr>"

definition report_if :: "bool \<Rightarrow> WorkerCompletion \<Rightarrow> (Orch, unit) action" where
  "report_if b completion = (if b then report_task_error (wc_task_slot completion) (wc_error_message completion) else ok ())"

definition worker_done :: "WorkerCompletion \<Rightarrow> (Orch, unit) action" where
  "worker_done completion =
     (let slot = wc_task_slot completion; failure_reported = is_failure (wc_outcome completion) in
      bind_act (slot_state slot) (\<lambda>s.
        seq_act (modify (note_endpoint_capacity (wc_worker_id completion) (wc_admissible_run_resource_sets completion)))
        (seq_act (report_if failure_reported completion)
        (if ts_is_group s then
           (case group_member_done s completion of
              (s', None) \<Rightarrow> modify (\<lambda>st. notify_ready (upd_slot slot (\<lambda>_. s') st))
            | (s', Some terminal) \<Rightarrow>
                seq_act (modify (upd_slot slot (\<lambda>_. s')))
                (seq_act (report_if (\<not> failure_reported \<and> is_failure (wc_outcome terminal)) terminal)
                         (modify (queue_completion terminal))))
         else modify (queue_completion completion)))))"

text \<open>The callbacks \<open>Worker::init\<close> gives the worker manager.\<close>

definition endpoint_complete :: "WorkerCompletion \<Rightarrow> (Orch, unit) action" where
  "endpoint_complete completion =
     seq_act (modify (note_endpoint_capacity (wc_worker_id completion) (wc_admissible_run_resource_sets completion)))
     (seq_act (mark_task_ended (wc_task_slot completion) (wc_group_index completion)) (worker_done completion))"

definition endpoint_ended :: "WorkerCompletion \<Rightarrow> (Orch, unit) action" where
  "endpoint_ended ended =
     seq_act (modify (note_endpoint_capacity (wc_worker_id ended) (wc_admissible_run_resource_sets ended)))
       (mark_task_ended (wc_task_slot ended) (wc_group_index ended))"

definition endpoint_staged :: "TaskSlot \<Rightarrow> Orch \<Rightarrow> Orch" where
  "endpoint_staged slot st = (case peek_slot st slot of None \<Rightarrow> st | Some s \<Rightarrow> notify_run_staged (ts_run_id s) st)"

text \<open>One pass of the drain loop of \<open>Scheduler::run\<close>.\<close>

definition drain_one :: "(Orch, unit) action" where
  "drain_one st =
     (case o_completion_queue st of
        [] \<Rightarrow> (Inr (), st)
      | completion # rest \<Rightarrow> on_task_complete completion (st\<lparr>o_completion_queue := rest\<rparr>))"

end
