(* ===== verification/Run_Inv.thy ===== *)
theory Run_Inv
  imports Orch_Tasks
begin

text \<open>
  What holds of the runs between any two calls. The leases: a resource set is in use exactly when a run of the
  FIFO holds it, no two runs hold the same lease, and the holders are a prefix of the FIFO. The phases: only the
  head executes, a run is terminal only after its submission closed and its last task was consumed, and a run
  that left the FIFO has given its lease back. And nothing is left undone: the head of a non-empty FIFO is
  active, and no run that could take a lease is without one.
\<close>

section \<open>Leases\<close>

definition leased :: "(RunId \<Rightarrow> PipelineSlotLease option) \<Rightarrow> RunId \<Rightarrow> bool" where
  "leased L r \<longleftrightarrow> (\<exists>l. L r = Some l \<and> pl_generation l \<noteq> 0)"

definition lease_issued :: "RunResourceArena \<Rightarrow> PipelineSlotLease \<Rightarrow> bool" where
  "lease_issued a l \<longleftrightarrow> pl_reserved l = 0 \<and> unat (pl_slot_id l) < length (ra_sets a) \<and>
     pl_generation l \<le> ss_generation (ra_sets a ! unat (pl_slot_id l))"

definition leases_ok :: "RunResourceArena \<Rightarrow> RunId list \<Rightarrow> (RunId \<Rightarrow> PipelineSlotLease option) \<Rightarrow> bool" where
  "leases_ok a F L \<longleftrightarrow>
     length (ra_sets a) = unat (ra_granted a) \<and> (\<forall>s \<in> set (ra_sets a). \<not> ss_quarantined s) \<and>
     (\<forall>r l. L r = Some l \<and> pl_generation l \<noteq> 0 \<longrightarrow> lease_issued a l) \<and>
     (\<forall>r r' l. L r = Some l \<and> L r' = Some l \<and> pl_generation l \<noteq> 0 \<longrightarrow> r = r') \<and>
     (\<forall>r \<in> set F. \<forall>l. L r = Some l \<and> pl_generation l \<noteq> 0 \<longrightarrow> owns a l) \<and>
     (\<forall>i < length (ra_sets a). ss_in_use (ra_sets a ! i) \<longrightarrow>
        (\<exists>r \<in> set F. \<exists>l. L r = Some l \<and> pl_generation l \<noteq> 0 \<and> unat (pl_slot_id l) = i))"

lemma leases_okD:
  assumes "leases_ok a F L"
  shows "length (ra_sets a) = unat (ra_granted a)" "s \<in> set (ra_sets a) \<Longrightarrow> \<not> ss_quarantined s"
    "L r = Some l \<Longrightarrow> pl_generation l \<noteq> 0 \<Longrightarrow> lease_issued a l"
    "L r = Some l \<Longrightarrow> L r' = Some l \<Longrightarrow> pl_generation l \<noteq> 0 \<Longrightarrow> r = r'"
    "r \<in> set F \<Longrightarrow> L r = Some l \<Longrightarrow> pl_generation l \<noteq> 0 \<Longrightarrow> owns a l"
    "i < length (ra_sets a) \<Longrightarrow> ss_in_use (ra_sets a ! i) \<Longrightarrow>
       \<exists>r \<in> set F. \<exists>l. L r = Some l \<and> pl_generation l \<noteq> 0 \<and> unat (pl_slot_id l) = i"
  using assms unfolding leases_ok_def by blast+

lemma owns_generation: "owns a l \<Longrightarrow> pl_generation l \<noteq> 0"
  by (simp add: owns_def matches_generation_def)

lemma owns_slot_inj:
  "owns a l \<Longrightarrow> owns a l' \<Longrightarrow> pl_slot_id l = pl_slot_id l' \<Longrightarrow> l = l'"
  by (simp add: owns_def matches_generation_def PipelineSlotLease.equality)

text \<open>Only a run of the FIFO can own its lease.\<close>

lemma owner_in_fifo:
  assumes "leases_ok a F L" "L r = Some l" "owns a l"
  shows "r \<in> set F"
proof -
  have "unat (pl_slot_id l) < length (ra_sets a)" "ss_in_use (ra_sets a ! unat (pl_slot_id l))"
    using assms(3) by (simp_all add: owns_def matches_generation_def)
  from leases_okD(6) [OF assms(1) this] obtain r' l' where r': "r' \<in> set F" "L r' = Some l'" "pl_generation l' \<noteq> 0"
    "pl_slot_id l' = pl_slot_id l" by (auto dest: unsigned_word_eqI)
  then have "l' = l" using owns_slot_inj leases_okD(5) [OF assms(1) r'(1-3)] assms(3) by metis
  then show ?thesis using leases_okD(4) [OF assms(1,2)] r' assms(2) by blast
qed

lemma lease_acquired:
  assumes ok: "leases_ok a F L" and r: "r \<in> set F" "L r = Some l0" "pl_generation l0 = 0"
    and acq: "try_acquire a d = Inr (a', Some l)"
  shows "leases_ok a' F (L(r \<mapsto> l))" "pl_generation l \<noteq> 0" "ra_granted a' = ra_granted a"
proof -
  let ?sets = "ra_sets a"
  from try_acquire_Some [OF acq leases_okD(1) [OF ok]] obtain i where i: "i < length ?sets"
    "unat (pl_slot_id l) = i" "pl_reserved l = 0" "\<not> ss_in_use (?sets ! i)"
    "ss_generation (?sets ! i) \<noteq> UINT64_MAX" "pl_generation l = ss_generation (?sets ! i) + 1"
    and a': "a' = a\<lparr>ra_sets := ?sets[i := (?sets ! i)\<lparr>ss_generation := pl_generation l, ss_in_use := True\<rparr>]\<rparr>" .
  have up: "ss_generation (?sets ! i) < pl_generation l" "pl_generation l \<noteq> 0" using inc_gt [OF i(5)] i(6) by auto
  show "pl_generation l \<noteq> 0" by (fact up)
  show "ra_granted a' = ra_granted a" using a' by simp
  have new: "L q \<noteq> Some l" for q
    using leases_okD(3) [OF ok, of q l] up i(2) by (auto simp: lease_issued_def)
  have issued: "lease_issued a' k" if "(L(r \<mapsto> l)) q = Some k" "pl_generation k \<noteq> 0" for q k
    using that leases_okD(3) [OF ok, of q k] a' i up
    by (auto simp: lease_issued_def nth_list_update split: if_splits)
  have owns: "owns a' k" if "q \<in> set F" "(L(r \<mapsto> l)) q = Some k" "pl_generation k \<noteq> 0" for q k
  proof (cases "q = r")
    case True
    then show ?thesis using that a' i up by (simp add: owns_def matches_generation_def)
  next
    case False
    then have k: "owns a k" using that leases_okD(5) [OF ok] by simp
    then have "unat (pl_slot_id k) \<noteq> i" using i(4) by (auto simp: owns_def)
    then show ?thesis using k a' by (auto simp: owns_def matches_generation_def)
  qed
  have used: "\<exists>q \<in> set F. \<exists>k. (L(r \<mapsto> l)) q = Some k \<and> pl_generation k \<noteq> 0 \<and> unat (pl_slot_id k) = j"
    if "j < length (ra_sets a')" "ss_in_use (ra_sets a' ! j)" for j
  proof (cases "j = i")
    case True
    then show ?thesis using r(1) i(2) up(2) by (intro bexI [of _ r] exI [of _ l]) auto
  next
    case False
    then have "j < length ?sets" "ss_in_use (?sets ! j)" using that a' by auto
    from leases_okD(6) [OF ok this] obtain q k
      where "q \<in> set F" "L q = Some k" "pl_generation k \<noteq> 0" "unat (pl_slot_id k) = j" by blast
    then show ?thesis using r by (intro bexI [of _ q] exI [of _ k]) auto
  qed
  have inj: "q = q'" if "(L(r \<mapsto> l)) q = Some k" "(L(r \<mapsto> l)) q' = Some k" "pl_generation k \<noteq> 0" for q q' k
    using that new leases_okD(4) [OF ok] by (auto split: if_splits)
  have "\<not> ss_quarantined s" if "s \<in> set (ra_sets a')" for s
    using that leases_okD(2) [OF ok] nth_mem [OF i(1)] a' by (auto dest!: subsetD [OF set_update_subset_insert])
  moreover have "length (ra_sets a') = unat (ra_granted a')" using leases_okD(1) [OF ok] a' by simp
  ultimately show "leases_ok a' F (L(r \<mapsto> l))"
    unfolding leases_ok_def using issued inj owns used by blast
qed

lemma lease_returned:
  assumes ok: "leases_ok a F L" and F: "distinct F" "r \<in> set F" and l: "L r = Some l" "pl_generation l \<noteq> 0"
  shows "leases_ok (fst (arena_release a l)) (remove1 r F) L"
    "ra_granted (fst (arena_release a l)) = ra_granted a"
proof -
  let ?i = "unat (pl_slot_id l)"
  have own: "owns a l" using leases_okD(5) [OF ok F(2) l] .
  then have i: "?i < length (ra_sets a)" by (simp add: owns_def matches_generation_def)
  have a': "fst (arena_release a l) = a\<lparr>ra_sets := (ra_sets a)[?i := (ra_sets a ! ?i)\<lparr>ss_in_use := False\<rparr>]\<rparr>"
    using own leases_okD(2) [OF ok, of "ra_sets a ! ?i"] i by (simp add: arena_release_def Let_def owns_def)
  show "ra_granted (fst (arena_release a l)) = ra_granted a" by (simp add: a')
  let ?a = "a\<lparr>ra_sets := (ra_sets a)[?i := (ra_sets a ! ?i)\<lparr>ss_in_use := False\<rparr>]\<rparr>"
  have owns: "owns ?a k" if "q \<in> set (remove1 r F)" "L q = Some k" "pl_generation k \<noteq> 0" for q k
  proof -
    have q: "q \<in> set F" "q \<noteq> r" using that F by auto
    have k: "owns a k" using leases_okD(5) [OF ok q(1) that(2,3)] .
    have "unat (pl_slot_id k) \<noteq> ?i"
      using owns_slot_inj [OF k own] leases_okD(4) [OF ok that(2)] l q(2) that(3) by (metis unsigned_word_eqI)
    then show ?thesis using k by (auto simp: owns_def matches_generation_def)
  qed
  have used: "\<exists>q \<in> set (remove1 r F). \<exists>k. L q = Some k \<and> pl_generation k \<noteq> 0 \<and> unat (pl_slot_id k) = j"
    if "j < length (ra_sets ?a)" "ss_in_use (ra_sets ?a ! j)" for j
  proof -
    have "j \<noteq> ?i" using that i by auto
    then have "j < length (ra_sets a)" "ss_in_use (ra_sets a ! j)" using that by auto
    from leases_okD(6) [OF ok this] obtain q k
      where q: "q \<in> set F" "L q = Some k" "pl_generation k \<noteq> 0" "unat (pl_slot_id k) = j" by blast
    then have "q \<noteq> r" using \<open>j \<noteq> ?i\<close> l by auto
    then show ?thesis using q F by (intro bexI [of _ q]) auto
  qed
  have "\<not> ss_quarantined s" if "s \<in> set (ra_sets ?a)" for s
    using that leases_okD(2) [OF ok] nth_mem [OF i] by (auto dest!: subsetD [OF set_update_subset_insert])
  moreover have "lease_issued ?a k" if "L q = Some k" "pl_generation k \<noteq> 0" for q k
    using leases_okD(3) [OF ok that] i by (auto simp: lease_issued_def nth_list_update)
  ultimately show "leases_ok (fst (arena_release a l)) (remove1 r F) L"
    unfolding leases_ok_def a' using owns used leases_okD(1,4) [OF ok] by (simp) blast
qed

lemma lease_left:
  assumes ok: "leases_ok a F L" and F: "distinct F" and r: "\<not> leased L r"
  shows "leases_ok a (remove1 r F) L"
proof -
  have "q \<in> set (remove1 r F) \<longleftrightarrow> q \<in> set F" if "L q = Some l" "pl_generation l \<noteq> 0" for q l
    using r F that by (auto simp: leased_def)
  then show ?thesis using ok unfolding leases_ok_def by blast
qed

lemma lease_run_added:
  "leases_ok a F L \<Longrightarrow> L r = None \<Longrightarrow> r \<notin> set F \<Longrightarrow> pl_generation l = 0 \<Longrightarrow> leases_ok a (F @ [r]) (L(r \<mapsto> l))"
  unfolding leases_ok_def by (auto split: if_splits) (metis option.distinct(1))

lemma lease_run_removed:
  "leases_ok a F L \<Longrightarrow> r \<notin> set F \<Longrightarrow> leases_ok a F (L(r := None))"
  unfolding leases_ok_def by (auto split: if_splits) metis

text \<open>A free set below the admission depth, and when acquisition succeeds.\<close>

definition set_free :: "RunResourceArena \<Rightarrow> u32 \<Rightarrow> bool" where
  "set_free a d \<longleftrightarrow> list_ex (\<lambda>s. \<not> ss_in_use s) (take (unat d) (ra_sets a))"

lemma acquire_result:
  assumes "leases_ok a F L" "d \<noteq> 0" "d \<le> ra_granted a"
  shows "(\<exists>m. try_acquire a d = Inl (OverflowError m)) \<or>
    (if set_free a d then \<exists>a' l. try_acquire a d = Inr (a', Some l) else try_acquire a d = Inr (a, None))"
proof -
  have nq: "list_all (\<lambda>s. ss_in_use s \<or> ss_quarantined s) (take (unat d) (ra_sets a)) \<longleftrightarrow> \<not> set_free a d"
    using leases_okD(2) [OF assms(1)] by (auto simp: set_free_def list_all_iff list_ex_iff dest: in_set_takeD)
  have scan: "(\<exists>m. acquire_scan sts k = Inl (OverflowError m)) \<or> acquire_scan sts k = Inr None \<or>
      (\<exists>sts' slot gen. acquire_scan sts k = Inr (Some (sts', slot, gen)))" for sts k
    by (induction sts k rule: acquire_scan.induct) (auto split: sum.splits option.splits)
  show ?thesis
    using scan [of "take (unat d) (ra_sets a)" 0] nq assms(2,3)
      acquire_scan_None [of "take (unat d) (ra_sets a)" 0]
    by (auto simp: try_acquire_def Let_def reject_if_def)
qed

section \<open>Handing out leases\<close>

definition run_leases :: "Orch \<Rightarrow> RunId \<Rightarrow> PipelineSlotLease option" where
  "run_leases st r = map_option rn_lease (find_run st r)"

abbreviation is_leased :: "Orch \<Rightarrow> RunId \<Rightarrow> bool" where
  "is_leased st \<equiv> leased (run_leases st)"

definition run_prepared :: "Orch \<Rightarrow> RunId \<Rightarrow> bool" where
  "run_prepared st r \<longleftrightarrow> (\<exists>run. find_run st r = Some run \<and> rn_phase run = RP_PREPARED)"

text \<open>
  The part of the invariant about leases, for a FIFO whose head may be a run that still has to be promoted: the
  holders are a prefix, and a run behind the head holds a lease only if it is prepared.
\<close>

definition leases_inv :: "Orch \<Rightarrow> bool" where
  "leases_inv st \<longleftrightarrow>
     leases_ok (o_run_resources st) (o_run_fifo st) (run_leases st) \<and>
     o_admission_depth st \<noteq> 0 \<and> o_admission_depth st \<le> ra_granted (o_run_resources st) \<and>
     sorted_wrt (\<lambda>r q. is_leased st q \<longrightarrow> is_leased st r) (o_run_fifo st) \<and>
     (\<forall>q \<in> set (tl (o_run_fifo st)). is_leased st q \<longrightarrow> run_prepared st q)"

definition free_lease :: "Orch \<Rightarrow> bool" where
  "free_lease st \<longleftrightarrow> set_free (o_run_resources st) (o_admission_depth st)"

lemma run_leases_publish:
  "find_run st r = Some run \<Longrightarrow> rn_id run = r \<Longrightarrow> run_leases (publish_lease run l st) = (run_leases st)(r \<mapsto> l)"
  "o_run_resources (publish_lease run l st) = o_run_resources st"
proof -
  have fold: "o_runs (fold (\<lambda>slot st. if peek_slot st slot = None then st
      else upd_slot slot (\<lambda>s. s\<lparr>ts_pipeline_lease := l\<rparr>) st) slots st') = o_runs st' \<and>
    o_run_resources (fold (\<lambda>slot st. if peek_slot st slot = None then st
      else upd_slot slot (\<lambda>s. s\<lparr>ts_pipeline_lease := l\<rparr>) st) slots st') = o_run_resources st'" for slots st'
    by (induction slots arbitrary: st') (auto simp: upd_slot_def)
  show "o_run_resources (publish_lease run l st) = o_run_resources st"
    using fold by (simp add: publish_lease_def upd_run_def)
  assume "find_run st r = Some run" "rn_id run = r"
  then show "run_leases (publish_lease run l st) = (run_leases st)(r \<mapsto> l)"
    using fold by (auto simp: publish_lease_def run_leases_def find_run_def upd_run_def map_of_map_entry fun_eq_iff split: option.splits)
qed

lemma owns_iff_leased:
  assumes "leases_inv st" "r \<in> set (o_run_fifo st)" "find_run st r = Some run"
  shows "owns (o_run_resources st) (rn_lease run) \<longleftrightarrow> is_leased st r"
  using assms leases_okD(5) [of "o_run_resources st" "o_run_fifo st" "run_leases st" r "rn_lease run"]
  by (auto simp: leases_inv_def leased_def run_leases_def owns_generation)

lemma acquire_lease_effect:
  assumes inv: "leases_inv st" and r: "r \<in> set (o_run_fifo st)" "find_run st r = Some run" "rn_id run = r"
    and acq: "acquire_lease run st = (res, st')" "\<not> overflow res"
  obtains (held) "is_leased st r" "res = Inr (True, False)" "st' = st"
  | (full) "\<not> is_leased st r" "\<not> free_lease st" "res = Inr (False, False)" "st' = st"
  | (fresh) l where "\<not> is_leased st r" "res = Inr (True, True)" "pl_generation l \<noteq> 0"
      "run_leases st' = (run_leases st)(r \<mapsto> l)" "unleased st' = unleased st"
      "leases_ok (o_run_resources st') (o_run_fifo st) (run_leases st')"
      "ra_granted (o_run_resources st') = ra_granted (o_run_resources st)"
proof -
  note ok = inv [unfolded leases_inv_def, THEN conjunct1]
  note own = owns_iff_leased [OF inv r(1,2)]
  note u = unleased_acquire [OF acq(1)]
  show thesis
  proof (cases "is_leased st r")
    case True
    then have "res = Inr (True, False) \<and> st' = st" using own acq(1) by (simp add: acquire_lease_def)
    then show thesis using True held by blast
  next
    case False
    have L: "run_leases st r = Some (rn_lease run)" using r(2) by (simp add: run_leases_def)
    have g: "pl_generation (rn_lease run) = 0" using False L by (auto simp: leased_def)
    have d: "o_admission_depth st \<noteq> 0" "o_admission_depth st \<le> ra_granted (o_run_resources st)"
      using inv by (auto simp: leases_inv_def)
    show thesis
    proof (cases "set_free (o_run_resources st) (o_admission_depth st)")
      case nofree: False
      then have "res = Inr (False, False) \<and> st' = st"
        using acquire_result [OF ok d] acq False own by (auto simp: acquire_lease_def)
      then show thesis using False nofree full unfolding free_lease_def by blast
    next
      case True
      then obtain a' l where t: "try_acquire (o_run_resources st) (o_admission_depth st) = Inr (a', Some l)"
        using acquire_result [OF ok d] acq False own by (auto simp: acquire_lease_def)
      then have res: "res = Inr (True, True)" "st' = publish_lease run l (st\<lparr>o_run_resources := a'\<rparr>)"
        using acq False own by (auto simp: acquire_lease_def)
      have L': "run_leases st' = (run_leases st)(r \<mapsto> l)"
        using run_leases_publish(1) [of "st\<lparr>o_run_resources := a'\<rparr>" r run l] r(2,3) res(2) by (simp add: run_leases_def fun_eq_iff)
      have a: "o_run_resources st' = a'" using res(2) by (simp add: run_leases_publish(2))
      show thesis
        using lease_acquired [OF ok r(1) L g t] by (intro fresh [OF False res(1) _ L' u]) (simp_all add: a L')
    qed
  qed
qed

text \<open>What the walk needs of the runs, none of which a lease changes.\<close>

definition fifo_known :: "Orch \<Rightarrow> bool" where
  "fifo_known st \<longleftrightarrow> distinct (o_run_fifo st) \<and>
     (\<forall>r \<in> set (o_run_fifo st). \<exists>run. find_run st r = Some run \<and> rn_id run = r)"

lemma run_prepared_unleased: "run_prepared st r = run_prepared (unleased st) r"
  by (auto simp: run_prepared_def)

lemma fifo_known_unleased: "fifo_known st = fifo_known (unleased st)"
  by (fastforce simp: fifo_known_def)

lemma unleased_known:
  assumes "unleased st' = unleased st"
  shows "fifo_known st' = fifo_known st" "run_prepared st' = run_prepared st"
proof -
  show "fifo_known st' = fifo_known st" using assms fifo_known_unleased by metis
  show "run_prepared st' = run_prepared st" by (rule ext) (metis assms run_prepared_unleased)
qed

lemma sorted_prefixI:
  assumes "\<And>u. u \<in> set us \<Longrightarrow> P u" "\<And>v. v \<in> set vs \<Longrightarrow> \<not> P v"
  shows "sorted_wrt (\<lambda>a b. P b \<longrightarrow> P a) (us @ vs)"
proof -
  have "sorted_wrt (\<lambda>a b. P b \<longrightarrow> P a) us" using assms(1) by (induction us) auto
  moreover have "sorted_wrt (\<lambda>a b. P b \<longrightarrow> P a) vs" using assms(2) by (induction vs) auto
  ultimately show ?thesis using assms by (auto simp: sorted_wrt_append)
qed

text \<open>No run whose turn it is and that may take a lease is without one.\<close>

definition lease_complete :: "Orch \<Rightarrow> bool" where
  "lease_complete st \<longleftrightarrow>
     (\<forall>q. find (\<lambda>r. \<not> is_leased st r) (o_run_fifo st) = Some q \<and> run_prepared st q \<longrightarrow> \<not> free_lease st)"

lemma find_append: "find P (xs @ ys) = (case find P xs of None \<Rightarrow> find P ys | Some x \<Rightarrow> Some x)"
  by (induction xs) auto

lemma fresh_lease_inv:
  assumes inv: "leases_inv st" and F: "o_run_fifo st = us @ r # rs" "\<And>u. u \<in> set us \<Longrightarrow> is_leased st u"
    "distinct (o_run_fifo st)"
    and r: "us = [] \<or> run_prepared st r"
    and new: "\<not> is_leased st r" "pl_generation l \<noteq> 0" "run_leases st' = (run_leases st)(r \<mapsto> l)" "unleased st' = unleased st"
      "leases_ok (o_run_resources st') (o_run_fifo st) (run_leases st')"
      "ra_granted (o_run_resources st') = ra_granted (o_run_resources st)"
  shows "leases_inv st'" "is_leased st' q \<longleftrightarrow> is_leased st q \<or> q = r"
proof -
  show L: "is_leased st' q \<longleftrightarrow> is_leased st q \<or> q = r" for q using new(1-3) by (auto simp: leased_def)
  note u = unleased_eqD [OF new(4)] unleased_known [OF new(4)]
  have "\<not> is_leased st v" if "v \<in> set rs" for v
    using inv F(1) new(1) that by (auto simp: leases_inv_def sorted_wrt_append)
  then have "sorted_wrt (\<lambda>a b. is_leased st' b \<longrightarrow> is_leased st' a) ((us @ [r]) @ rs)"
    using F L by (intro sorted_prefixI) auto
  moreover have "run_prepared st' b" if "b \<in> set (tl (us @ r # rs))" "is_leased st' b" for b
    using inv that F r L unfolding leases_inv_def u by (cases us) auto
  ultimately show "leases_inv st'"
    using inv new(5,6) F(1) unfolding leases_inv_def u by simp
qed

lemma lease_successors_inv:
  assumes "leases_inv st" "fifo_known st" "o_run_fifo st = us @ rs" "us \<noteq> []" "\<And>u. u \<in> set us \<Longrightarrow> is_leased st u"
    and "lease_successors rs b st = (res, st')" "\<not> overflow res"
  shows "leases_inv st' \<and> lease_complete st' \<and> (\<forall>q. is_leased st q \<longrightarrow> is_leased st' q) \<and> (\<exists>c. res = Inr c)"
  using assms
proof (induction rs b st arbitrary: us res st' rule: lease_successors.induct)
  case (1 b st)
  then have "find (\<lambda>r. \<not> is_leased st r) (o_run_fifo st) = None" by (auto simp: find_None_iff)
  then show ?case using 1 by (auto simp: lease_complete_def)
next
  case (2 r rs b st)
  note F = 2(4) and us = 2(6)
  have find: "find (\<lambda>r. \<not> is_leased st r) (o_run_fifo st) = Some r" if "\<not> is_leased st r"
  proof -
    have "find (\<lambda>r. \<not> is_leased st r) us = None" using us by (simp add: find_None_iff)
    then show ?thesis using F that by (simp add: find_append)
  qed
  have "r \<in> set (o_run_fifo st)" using F by simp
  then obtain run where run: "find_run st r = Some run" "rn_id run = r" using 2(3) by (auto simp: fifo_known_def)
  have prep: "run_prepared st r \<longleftrightarrow> rn_phase run = RP_PREPARED" using run by (simp add: run_prepared_def)
  show ?case
  proof (cases "rn_phase run = RP_PREPARED")
    case False
    then have "st' = st \<and> res = Inr b" using 2(7) run by simp
    moreover have "r \<in> set (tl (o_run_fifo st))" using F 2(5) by (cases us) auto
    then have "\<not> is_leased st r" using 2(2) False prep by (auto simp: leases_inv_def)
    then have "lease_complete st" using find False prep by (simp add: lease_complete_def)
    ultimately show ?thesis using 2(2) by simp
  next
    case True
    obtain res1 st1 where acq: "acquire_lease run st = (res1, st1)" by (cases "acquire_lease run st")
    have nov: "\<not> overflow res1" using 2(7,8) run True acq by (auto split: sum.splits)
    show ?thesis
    proof (rule acquire_lease_effect [OF 2(2) \<open>r \<in> set (o_run_fifo st)\<close> run acq nov])
      assume a: "is_leased st r" "res1 = Inr (True, False)" "st1 = st"
      have "lease_successors rs b st = (res, st')" using 2(7) run True acq a by simp
      then show ?thesis
        using 2(1) [OF run(1) _ acq [symmetric], of "(True, False)" True False "us @ [r]" res st'] True a 2(2-4,6,8) by auto
    next
      assume a: "\<not> is_leased st r" "\<not> free_lease st" "res1 = Inr (False, False)" "st1 = st"
      then have "st' = st \<and> res = Inr b" using 2(7) run True acq by simp
      then show ?thesis using a 2(2) by (simp add: lease_complete_def)
    next
      fix l
      assume a: "\<not> is_leased st r" "res1 = Inr (True, True)" "pl_generation l \<noteq> 0"
        "run_leases st1 = (run_leases st)(r \<mapsto> l)" "unleased st1 = unleased st"
        "leases_ok (o_run_resources st1) (o_run_fifo st) (run_leases st1)"
        "ra_granted (o_run_resources st1) = ra_granted (o_run_resources st)"
      have d: "distinct (o_run_fifo st)" using 2(3) by (simp add: fifo_known_def)
      note inv1 = fresh_lease_inv [OF 2(2) F us d _ a(1,3-7)]
      have i1: "leases_inv st1" and l1: "\<And>q. is_leased st1 q \<longleftrightarrow> is_leased st q \<or> q = r"
        using inv1 True prep by blast+
      have "lease_successors rs True st1 = (res, st')" using 2(7) run True acq a by simp
      then show ?thesis
        using 2(1) [OF run(1) _ acq [symmetric], of "(True, True)" True True "us @ [r]" res st'] True a(2) i1 2(3,4,6,8)
          l1 unleased_eqD(1) [OF a(5)] unleased_known(1) [OF a(5)] by auto
    qed
  qed
qed

lemma unleased_head_free:
  assumes inv: "leases_inv st" and F: "o_run_fifo st = h # rs" "\<not> is_leased st h"
  shows "free_lease st"
proof -
  let ?a = "o_run_resources st"
  have none: "\<not> is_leased st q" if "q \<in> set (o_run_fifo st)" for q
    using inv F that by (auto simp: leases_inv_def)
  have ok: "leases_ok ?a (o_run_fifo st) (run_leases st)" using inv by (simp add: leases_inv_def)
  have idle: "\<not> ss_in_use (ra_sets ?a ! i)" if "i < length (ra_sets ?a)" for i
    using leases_okD(6) [OF ok that] none by (auto simp: leased_def)
  have "0 < unat (o_admission_depth st)" "unat (o_admission_depth st) \<le> unat (ra_granted ?a)"
    using inv by (auto simp: leases_inv_def word_le_nat_alt unat_gt_0)
  then have "0 < length (take (unat (o_admission_depth st)) (ra_sets ?a))" "0 < length (ra_sets ?a)"
    using leases_okD(1) [OF ok] by auto
  then show ?thesis
    using idle [of 0] by (auto simp: free_lease_def set_free_def list_ex_length intro!: exI [of _ 0])
qed

lemma refresh_leases_inv:
  assumes inv: "leases_inv st" "fifo_known st"
    and live: "\<And>run. o_run_fifo st \<noteq> [] \<Longrightarrow> find_run st (hd (o_run_fifo st)) = Some run \<Longrightarrow> \<not> is_terminal (rn_phase run)"
    and r: "refresh_leases st = (res, st')" "\<not> overflow res"
  shows "leases_inv st' \<and> lease_complete st' \<and> (\<forall>q. is_leased st q \<longrightarrow> is_leased st' q) \<and>
    (o_run_fifo st \<noteq> [] \<longrightarrow> is_leased st' (hd (o_run_fifo st))) \<and> (\<exists>c. res = Inr c)"
proof (cases "o_run_fifo st")
  case Nil
  then show ?thesis using r inv by (auto simp: refresh_leases_def lease_complete_def)
next
  case (Cons h rs)
  then obtain run where run: "find_run st h = Some run" "rn_id run = h" using inv(2) by (auto simp: fifo_known_def)
  have h: "h \<in> set (o_run_fifo st)" "\<not> is_terminal (rn_phase run)" using Cons live run by auto
  obtain res1 st1 where acq: "acquire_lease run st = (res1, st1)" by (cases "acquire_lease run st")
  have nov: "\<not> overflow res1" using r run h Cons acq by (auto simp: refresh_leases_def split: sum.splits)
  show ?thesis
  proof (rule acquire_lease_effect [OF inv(1) h(1) run acq nov])
    assume a: "is_leased st h" "res1 = Inr (True, False)" "st1 = st"
    have "lease_successors rs False st = (res, st')" using r run h Cons acq a by (simp add: refresh_leases_def)
    then show ?thesis using lease_successors_inv [OF inv, of "[h]" rs] a Cons r(2) by auto
  next
    assume "\<not> is_leased st h" "\<not> free_lease st"
    then show ?thesis using unleased_head_free [OF inv(1) Cons] by simp
  next
    fix l
    assume a: "\<not> is_leased st h" "res1 = Inr (True, True)" "pl_generation l \<noteq> 0"
      "run_leases st1 = (run_leases st)(h \<mapsto> l)" "unleased st1 = unleased st"
      "leases_ok (o_run_resources st1) (o_run_fifo st) (run_leases st1)"
      "ra_granted (o_run_resources st1) = ra_granted (o_run_resources st)"
    have d: "distinct (o_run_fifo st)" using inv(2) by (simp add: fifo_known_def)
    have i1: "leases_inv st1" and l1: "\<And>q. is_leased st1 q \<longleftrightarrow> is_leased st q \<or> q = h"
      using fresh_lease_inv [OF inv(1) _ _ d _ a(1,3-7), of "[]"] Cons by auto
    have "lease_successors rs True st1 = (res, st')" using r run h Cons acq a by (simp add: refresh_leases_def)
    then show ?thesis
      using lease_successors_inv [OF i1, of "[h]" rs True res st'] l1 r(2) unleased_eqD(1) [OF a(5)]
        unleased_known(1) [OF a(5)] inv(2) Cons by auto
  qed
qed

section \<open>Phases\<close>

definition run_ok :: "Orch \<Rightarrow> RunId \<Rightarrow> RunState \<Rightarrow> bool" where
  "run_ok st r run \<longleftrightarrow>
     rn_id run = r \<and> r \<noteq> INVALID_RUN_ID \<and> r < o_next_run_id st \<and> rn_phase run \<noteq> RP_RESERVED \<and>
     (\<not> rn_submission_closed run \<longleftrightarrow> o_building_run_id st = r) \<and>
     (rn_phase run = RP_PREPARED \<longrightarrow> rn_submission_closed run) \<and>
     (is_terminal (rn_phase run) \<longrightarrow> rn_active_tasks run = 0) \<and>
     (if r \<in> set (o_run_fifo st)
      then \<not> rn_lease_released run \<and> \<not> is_terminal (rn_phase run) \<and> (rn_phase run = RP_EXECUTING \<longleftrightarrow> o_active_run_id st = r)
      else rn_submission_closed run \<and> rn_lease_released run \<and> \<not> (waits_for_activation run \<and> \<not> rn_submission_failed run))"

definition phases_ok :: "Orch \<Rightarrow> bool" where
  "phases_ok st \<longleftrightarrow>
     sorted_wrt (<) (o_run_fifo st) \<and> (\<forall>r \<in> set (o_run_fifo st). find_run st r \<noteq> None) \<and>
     (\<forall>r run. find_run st r = Some run \<longrightarrow> run_ok st r run) \<and>
     (o_active_run_id st \<noteq> INVALID_RUN_ID \<longrightarrow> o_run_fifo st \<noteq> [] \<and> hd (o_run_fifo st) = o_active_run_id st) \<and>
     (o_building_run_id st \<noteq> INVALID_RUN_ID \<longrightarrow> find_run st (o_building_run_id st) \<noteq> None) \<and>
     o_next_run_id st \<noteq> INVALID_RUN_ID"

definition runs_ok :: "Orch \<Rightarrow> bool" where
  "runs_ok st \<longleftrightarrow> phases_ok st \<and> leases_inv st \<and> (o_active_run_id st \<noteq> INVALID_RUN_ID \<longrightarrow> is_leased st (o_active_run_id st))"

text \<open>Nothing is left undone: the head is active and the leases are handed out.\<close>

definition caught_up :: "Orch \<Rightarrow> bool" where
  "caught_up st \<longleftrightarrow> (o_run_fifo st \<noteq> [] \<longrightarrow> o_active_run_id st = hd (o_run_fifo st)) \<and> lease_complete st"

lemma run_ok_unleased: "run_ok (unleased st) r (run\<lparr>rn_lease := l\<rparr>) = run_ok st r run"
  by (simp add: run_ok_def waits_for_activation_def)

lemma phases_ok_unleased: "phases_ok (unleased st) = phases_ok st"
proof -
  have "(\<forall>r run. find_run (unleased st) r = Some run \<longrightarrow> run_ok (unleased st) r run) =
      (\<forall>r run. find_run st r = Some run \<longrightarrow> run_ok st r run)"
    by (auto simp: run_ok_unleased) (metis run_ok_unleased)
  then show ?thesis by (simp add: phases_ok_def)
qed

lemma phases_known:
  assumes "phases_ok st"
  shows "fifo_known st"
  using assms by (auto simp: phases_ok_def fifo_known_def strict_sorted_iff) (auto simp: run_ok_def)

lemma phases_okD:
  assumes "phases_ok st"
  shows "sorted_wrt (<) (o_run_fifo st)" "distinct (o_run_fifo st)" "r \<in> set (o_run_fifo st) \<Longrightarrow> \<exists>run. find_run st r = Some run"
    "find_run st r = Some run \<Longrightarrow> run_ok st r run"
    "o_active_run_id st \<noteq> INVALID_RUN_ID \<Longrightarrow> o_run_fifo st \<noteq> [] \<and> hd (o_run_fifo st) = o_active_run_id st"
    "o_building_run_id st \<noteq> INVALID_RUN_ID \<Longrightarrow> find_run st (o_building_run_id st) \<noteq> None"
    "o_next_run_id st \<noteq> INVALID_RUN_ID"
  using assms unfolding phases_ok_def by (auto simp: strict_sorted_iff)

lemma refresh_leases_ok:
  assumes ok: "runs_ok st" and r: "refresh_leases st = (res, st')" "\<not> overflow res"
  shows "runs_ok st'" "lease_complete st'" "o_run_fifo st \<noteq> [] \<Longrightarrow> is_leased st' (hd (o_run_fifo st))" "\<exists>c. res = Inr c"
proof -
  note P = phases_okD [OF ok [unfolded runs_ok_def, THEN conjunct1]]
  note u = unleased_refresh [OF r(1)]
  have "phases_ok st'" using ok u phases_ok_unleased unfolding runs_ok_def by metis
  moreover have "\<not> is_terminal (rn_phase run)" if "o_run_fifo st \<noteq> []" "find_run st (hd (o_run_fifo st)) = Some run" for run
    using P(4) [OF that(2)] that(1) by (simp add: run_ok_def)
  then have "leases_inv st' \<and> lease_complete st' \<and> (\<forall>q. is_leased st q \<longrightarrow> is_leased st' q) \<and>
    (o_run_fifo st \<noteq> [] \<longrightarrow> is_leased st' (hd (o_run_fifo st))) \<and> (\<exists>c. res = Inr c)"
    using refresh_leases_inv [OF _ _ _ r] ok phases_known unfolding runs_ok_def by blast
  ultimately show "runs_ok st'" "lease_complete st'" "o_run_fifo st \<noteq> [] \<Longrightarrow> is_leased st' (hd (o_run_fifo st))" "\<exists>c. res = Inr c"
    using ok unleased_eqD [OF u] by (auto simp: runs_ok_def)
qed

subsection \<open>Leaving the FIFO\<close>

lemma sorted_wrt_remove1: "sorted_wrt P xs \<Longrightarrow> sorted_wrt P (remove1 x xs)"
  by (induction xs) (auto dest: in_set_remove1 [THEN iffD1, rotated] notin_set_remove1)

lemma tl_remove1: "distinct xs \<Longrightarrow> set (tl (remove1 x xs)) \<subseteq> set (tl xs)"
  by (cases xs; cases "tl xs") (auto dest: set_mp [OF set_remove1_subset])

definition part :: "RunId \<Rightarrow> Orch \<Rightarrow> Orch" where
  "part r st = return_lease r (leave_fifo r st)"

lemma part_gone:
  assumes "phases_ok st" "find_run st r = Some run" "r \<notin> set (o_run_fifo st)"
  shows "part r st = st"
proof -
  have "rn_lease_released run" "r \<noteq> INVALID_RUN_ID" using phases_okD(4) [OF assms(1,2)] assms(3) by (auto simp: run_ok_def)
  moreover have "o_active_run_id st \<noteq> r"
    using phases_okD(5) [OF assms(1)] assms(3) calculation(2) by (metis hd_in_set)
  ultimately show ?thesis
    using assms(2,3) by (simp add: part_def leave_fifo_def return_lease_def remove1_idem)
qed

lemma part_effect:
  assumes "find_run st r = Some run" "\<not> rn_lease_released run"
  defines "a \<equiv> (if pl_generation (rn_lease run) \<noteq> 0 then fst (arena_release (o_run_resources st) (rn_lease run)) else o_run_resources st)"
  shows "find_run (part r st) q = (if q = r then Some (run\<lparr>rn_lease_released := True\<rparr>) else find_run st q)"
    "run_leases (part r st) = run_leases st" "o_run_resources (part r st) = a"
    "o_run_fifo (part r st) = remove1 r (o_run_fifo st)"
    "o_active_run_id (part r st) = (if o_active_run_id st = r then INVALID_RUN_ID else o_active_run_id st)"
    "o_building_run_id (part r st) = o_building_run_id st" "o_next_run_id (part r st) = o_next_run_id st"
    "o_admission_depth (part r st) = o_admission_depth st"
    "run_prepared (part r st) = run_prepared st"
proof -
  have f: "find_run (leave_fifo r st) q = find_run st q" for q by (simp add: leave_fifo_def find_run_def)
  have p: "part r st = (upd_run r (\<lambda>r. r\<lparr>rn_lease_released := True\<rparr>) (leave_fifo r st))\<lparr>o_run_resources := a\<rparr>"
    using assms(1,2) by (simp add: part_def return_lease_def f a_def Let_def) (simp add: upd_run_def leave_fifo_def)
  show find: "find_run (part r st) q = (if q = r then Some (run\<lparr>rn_lease_released := True\<rparr>) else find_run st q)" for q
    using assms(1) by (simp add: p find_run_upd_run f)
  then show "run_leases (part r st) = run_leases st" "run_prepared (part r st) = run_prepared st"
    using assms(1) by (auto simp: run_leases_def run_prepared_def fun_eq_iff)
qed (simp_all add: part_def return_lease_def leave_fifo_def find_run_def a_def Let_def upd_run_def assms(1,2) [unfolded find_run_def] split: option.splits)

lemma part_phases:
  assumes ok: "phases_ok st" and r: "find_run st r = Some run" "r \<in> set (o_run_fifo st)"
    and over: "rn_submission_closed run" "\<not> (waits_for_activation run \<and> \<not> rn_submission_failed run)"
  shows "phases_ok (part r st)"
proof -
  note P = phases_okD [OF ok] and R = phases_okD(4) [OF ok r(1)]
  have "\<not> rn_lease_released run" using R r(2) by (simp add: run_ok_def)
  note E = part_effect [OF r(1) this]
  have F: "q \<in> set (remove1 r (o_run_fifo st)) \<longleftrightarrow> q \<in> set (o_run_fifo st) \<and> q \<noteq> r" for q using P(2) by auto
  have "run_ok (part r st) q run'" if "find_run (part r st) q = Some run'" for q run'
    using that R P(4) [of q run'] over r(2) by (auto simp: run_ok_def E F waits_for_activation_def split: if_splits)
  moreover have "hd (remove1 r (o_run_fifo st)) = hd (o_run_fifo st) \<and> remove1 r (o_run_fifo st) \<noteq> []"
    if "hd (o_run_fifo st) \<noteq> r" "o_run_fifo st \<noteq> []" using that by (cases "o_run_fifo st") auto
  ultimately show ?thesis
    using P(1,3,5,6,7) r(1) unfolding phases_ok_def E by (auto simp: F sorted_wrt_remove1)
qed

lemma part_ok:
  assumes ok: "runs_ok st" and r: "find_run st r = Some run"
    and over: "rn_submission_closed run" "\<not> (waits_for_activation run \<and> \<not> rn_submission_failed run)"
  shows "runs_ok (part r st)"
proof (cases "r \<in> set (o_run_fifo st)")
  case False
  then show ?thesis using ok part_gone r by (simp add: runs_ok_def)
next
  case True
  have ph: "phases_ok st" and li: "leases_inv st" using ok by (simp_all add: runs_ok_def)
  note P = phases_okD [OF ph]
  have nr: "\<not> rn_lease_released run" using P(4) [OF r] True by (simp add: run_ok_def)
  note E = part_effect [OF r nr]
  note I = li [unfolded leases_inv_def]
  let ?L = "run_leases st" and ?l = "rn_lease run"
  have L: "?L r = Some ?l" using r by (simp add: run_leases_def)
  have lo: "leases_ok (o_run_resources (part r st)) (remove1 r (o_run_fifo st)) ?L \<and>
      ra_granted (o_run_resources (part r st)) = ra_granted (o_run_resources st)"
  proof (cases "pl_generation ?l = 0")
    case True
    then have "\<not> leased ?L r" using L by (simp add: leased_def)
    then show ?thesis using lease_left [OF conjunct1 [OF I] P(2)] True by (simp add: E)
  next
    case False
    then show ?thesis using lease_returned [OF conjunct1 [OF I] P(2) True L] by (simp add: E)
  qed
  then have "leases_inv (part r st)"
    using I tl_remove1 [OF P(2), of r] unfolding leases_inv_def E by (auto intro: sorted_wrt_remove1)
  then show ?thesis
    using ok part_phases [OF ph r True over] unfolding runs_ok_def E by simp
qed

subsection \<open>Retirement\<close>

lemma set_terminal_part: "part r (set_terminal_phase r st) = set_terminal_phase r (part r st)"
proof -
  let ?t = "\<lambda>v. v\<lparr>rn_phase := (if rn_submission_failed v \<or> rn_first_error v \<noteq> None then RP_FAILED else RP_COMPLETED)\<rparr>"
  have "AList.map_entry r (\<lambda>v. v\<lparr>rn_lease_released := True\<rparr>) (AList.map_entry r ?t xs) =
      AList.map_entry r ?t (AList.map_entry r (\<lambda>v. v\<lparr>rn_lease_released := True\<rparr>) xs)" for xs :: "(RunId \<times> RunState) list"
    by (induction xs) auto
  then show ?thesis
    by (cases "map_of (o_runs st) r")
      (simp_all add: part_def return_lease_def leave_fifo_def set_terminal_phase_def upd_run_def find_run_def map_of_map_entry Let_def)
qed

lemma set_terminal_ok:
  assumes ok: "runs_ok st" and r: "r \<notin> set (o_run_fifo st)" "find_run st r = Some run" "rn_active_tasks run = 0"
  shows "runs_ok (set_terminal_phase r st)"
proof -
  have ph: "phases_ok st" and li: "leases_inv st" using ok by (simp_all add: runs_ok_def)
  note P = phases_okD [OF ph]
  let ?st = "set_terminal_phase r st"
  have f: "find_run ?st q = (if q = r then Some (run\<lparr>rn_phase := (if rn_submission_failed run \<or> rn_first_error run \<noteq> None
      then RP_FAILED else RP_COMPLETED)\<rparr>) else find_run st q)" for q
    using r(2) by (auto simp: set_terminal_phase_def find_run_upd_run)
  have s: "o_run_fifo ?st = o_run_fifo st" "o_active_run_id ?st = o_active_run_id st" "o_building_run_id ?st = o_building_run_id st"
    "o_next_run_id ?st = o_next_run_id st" "o_run_resources ?st = o_run_resources st" "o_admission_depth ?st = o_admission_depth st"
    by (simp_all add: set_terminal_phase_def upd_run_def)
  have "run_ok ?st q run'" if "find_run ?st q = Some run'" for q run'
    using that P(4) [of q run'] P(4) [OF r(2)] r(1,3)
    by (auto simp: run_ok_def s f waits_for_activation_def is_terminal_def split: if_splits)
  then have "phases_ok ?st" using ph r(2) unfolding phases_ok_def s by (auto simp: f)
  moreover have "run_leases ?st = run_leases st" using r(2) by (auto simp: run_leases_def f fun_eq_iff)
  moreover have "run_prepared ?st q = run_prepared st q" if "q \<in> set (tl (o_run_fifo st))" for q
    using that r(1) by (cases "o_run_fifo st") (auto simp: run_prepared_def f)
  ultimately show ?thesis using ok li unfolding runs_ok_def leases_inv_def s by auto
qed

text \<open>Changes outside the fields the invariant reads.\<close>

lemma run_view_cong:
  assumes "\<And>q. find_run st' q = find_run st q" "o_run_fifo st' = o_run_fifo st" "o_active_run_id st' = o_active_run_id st"
    "o_building_run_id st' = o_building_run_id st" "o_next_run_id st' = o_next_run_id st"
    "o_run_resources st' = o_run_resources st" "o_admission_depth st' = o_admission_depth st"
  shows "runs_ok st' = runs_ok st" "caught_up st' = caught_up st" "lease_complete st' = lease_complete st"
proof -
  have L: "run_leases st' = run_leases st" "run_prepared st' = run_prepared st"
    using assms(1) by (simp_all add: run_leases_def run_prepared_def fun_eq_iff)
  have ok: "run_ok st' r run = run_ok st r run" for r run using assms by (simp add: run_ok_def)
  show "lease_complete st' = lease_complete st"
    using assms L by (simp add: lease_complete_def free_lease_def)
  then show "runs_ok st' = runs_ok st" "caught_up st' = caught_up st"
    using assms L ok by (simp_all add: runs_ok_def caught_up_def phases_ok_def leases_inv_def)
qed

lemma run_view_frame [simp]:
  "runs_ok (notify_ready st) = runs_ok st" "caught_up (notify_ready st) = caught_up st"
  "lease_complete (notify_ready st) = lease_complete st"
  "runs_ok (clear_run_ready_queues r st) = runs_ok st" "lease_complete (clear_run_ready_queues r st) = lease_complete st"
  "runs_ok (snd (refresh_early_launch st)) = runs_ok st" "caught_up (snd (refresh_early_launch st)) = caught_up st"
  "lease_complete (snd (refresh_early_launch st)) = lease_complete st"
  by (intro run_view_cong; simp add: notify_ready_def clear_run_ready_queues_def refresh_early_launch_def find_run_def Let_def)+

lemma one_le_u32: "x \<noteq> 0 \<Longrightarrow> 1 \<le> (x :: u32)"
  by (simp add: word_le_nat_alt Suc_le_eq unat_gt_0)

lemma apply_depth_ok:
  assumes "runs_ok st"
  shows "runs_ok (snd (apply_admissible_depth sets st))" "o_run_fifo (snd (apply_admissible_depth sets st)) = o_run_fifo st"
    "find_run (snd (apply_admissible_depth sets st)) q = find_run st q"
proof -
  let ?st = "snd (apply_admissible_depth sets st)"
  have f: "find_run ?st q = find_run st q" for q by (simp add: apply_admissible_depth_def Let_def find_run_def)
  then have L: "run_leases ?st = run_leases st" "run_prepared ?st = run_prepared st"
    by (simp_all add: run_leases_def run_prepared_def fun_eq_iff)
  have s: "o_run_fifo ?st = o_run_fifo st" "o_active_run_id ?st = o_active_run_id st" "o_building_run_id ?st = o_building_run_id st"
    "o_next_run_id ?st = o_next_run_id st" "o_run_resources ?st = o_run_resources st"
    by (simp_all add: apply_admissible_depth_def Let_def)
  have d: "o_admission_depth ?st \<noteq> 0 \<and> o_admission_depth ?st \<le> ra_granted (o_run_resources st)"
    using assms by (auto simp: apply_admissible_depth_def Let_def runs_ok_def leases_inv_def one_le_u32)
  have "run_ok ?st r run = run_ok st r run" for r run by (simp add: run_ok_def s)
  then show "runs_ok ?st" using assms d by (simp add: runs_ok_def phases_ok_def leases_inv_def s f L)
  show "o_run_fifo ?st = o_run_fifo st" "find_run ?st q = find_run st q" by (fact s f)+
qed

lemma apply_folded_ok:
  assumes "runs_ok st"
  shows "runs_ok (apply_folded_capacity st)"
  using apply_depth_ok(1) [OF assms] assms by (simp add: apply_folded_capacity_def Let_def)

lemma retire_locked_ok:
  assumes part: "runs_ok (part r st)" and ret: "retire_locked r st = (res, st')" "\<not> overflow res"
  shows "runs_ok st'" "lease_complete st'" "res = Inr ()"
proof -
  obtain res1 st1 where ref: "refresh_leases (apply_folded_capacity (part r st)) = (res1, st1)"
    by (cases "refresh_leases (apply_folded_capacity (part r st))")
  have nov: "\<not> overflow res1" using ret ref by (auto simp: retire_locked_def part_def Let_def split: sum.splits prod.splits)
  note R = refresh_leases_ok [OF apply_folded_ok [OF part] ref nov]
  obtain leased where res1: "res1 = Inr leased" using R(4) by blast
  have "res = Inr () \<and> (st' = notify_ready (clear_run_ready_queues r (snd (refresh_early_launch st1))) \<or>
      st' = clear_run_ready_queues r (snd (refresh_early_launch st1)))"
    using ret(1) ref res1 by (auto simp: retire_locked_def part_def case_prod_unfold Let_def)
  then show "runs_ok st'" "lease_complete st'" "res = Inr ()" using R by auto
qed

text \<open>The two conditions under which a run is retired.\<close>

lemma execution_retires_ok:
  assumes "runs_ok st" "execution_retires st r" "retire_locked r st = (res, st')" "\<not> overflow res"
  shows "runs_ok st'" "lease_complete st'" "res = Inr ()"
proof -
  obtain run where "find_run st r = Some run" "rn_submission_closed run" "\<not> (waits_for_activation run \<and> \<not> rn_submission_failed run)"
    using assms(2) by (auto simp: execution_retires_def execution_ended_def waits_for_activation_def split: option.splits)
  from part_ok [OF assms(1) this] show "runs_ok st'" "lease_complete st'" "res = Inr ()" using retire_locked_ok assms(3,4) by blast+
qed

lemma run_finishes_ok:
  assumes ok: "runs_ok st" and fin: "run_finishes st r" and ret: "retire_locked r (set_terminal_phase r st) = (res, st')" "\<not> overflow res"
  shows "runs_ok st'" "lease_complete st'" "res = Inr ()"
proof -
  obtain run where run: "find_run st r = Some run" "rn_submission_closed run" "rn_active_tasks run = 0"
    "\<not> (waits_for_activation run \<and> \<not> rn_submission_failed run)"
    using fin by (auto simp: run_finishes_def waits_for_activation_def split: option.splits)
  have p: "runs_ok (part r st)" using part_ok [OF ok run(1,2,4)] .
  have ph: "phases_ok st" using ok by (simp add: runs_ok_def)
  have "r \<notin> set (o_run_fifo (part r st)) \<and> (\<exists>run'. find_run (part r st) r = Some run' \<and> rn_active_tasks run' = 0)"
  proof (cases "r \<in> set (o_run_fifo st)")
    case True
    then have "\<not> rn_lease_released run" using phases_okD(4) [OF ph run(1)] by (simp add: run_ok_def)
    then show ?thesis using part_effect [OF run(1)] run(3) phases_okD(2) [OF ph] by simp
  next
    case False
    then show ?thesis using part_gone [OF ph run(1)] run by simp
  qed
  then have "runs_ok (part r (set_terminal_phase r st))"
    unfolding set_terminal_part using set_terminal_ok [OF p] by blast
  then show "runs_ok st'" "lease_complete st'" "res = Inr ()" using retire_locked_ok ret by blast+
qed

subsection \<open>Activation\<close>

lemma head_acquires:
  assumes ok: "runs_ok st" and F: "o_run_fifo st = h # rs" and run: "find_run st h = Some run"
    and acq: "acquire_lease run st = (res, st1)" "\<not> overflow res"
  shows "runs_ok st1 \<and> is_leased st1 h \<and> (\<exists>b. res = Inr (True, b))"
proof -
  have ph: "phases_ok st" and li: "leases_inv st" using ok by (simp_all add: runs_ok_def)
  have id: "rn_id run = h" using phases_okD(4) [OF ph run] by (simp add: run_ok_def)
  have h: "h \<in> set (o_run_fifo st)" using F by simp
  show ?thesis
  proof (rule acquire_lease_effect [OF li h run id acq])
    assume "is_leased st h" "res = Inr (True, False)" "st1 = st"
    then show ?thesis using ok by auto
  next
    assume "\<not> is_leased st h" "\<not> free_lease st"
    then show ?thesis using unleased_head_free [OF li F] by simp
  next
    fix l
    assume a: "\<not> is_leased st h" "res = Inr (True, True)" "pl_generation l \<noteq> 0"
      "run_leases st1 = (run_leases st)(h \<mapsto> l)" "unleased st1 = unleased st"
      "leases_ok (o_run_resources st1) (o_run_fifo st) (run_leases st1)"
      "ra_granted (o_run_resources st1) = ra_granted (o_run_resources st)"
    note u = unleased_eqD [OF a(5)]
    have "phases_ok st1" using ph a(5) phases_ok_unleased by metis
    moreover have "leases_inv st1" "\<And>q. is_leased st1 q \<longleftrightarrow> is_leased st q \<or> q = h"
      using fresh_lease_inv [OF li _ _ phases_okD(2) [OF ph] _ a(1,3-7), of "[]"] F by auto
    ultimately show ?thesis using ok a(2) by (auto simp: runs_ok_def u)
  qed
qed

lemma promoted_ok:
  assumes ok: "runs_ok st" and F: "o_run_fifo st = h # rs" and a0: "o_active_run_id st = INVALID_RUN_ID"
    and l: "is_leased st h"
  shows "runs_ok (upd_run h (\<lambda>r. r\<lparr>rn_phase := RP_EXECUTING\<rparr>) (st\<lparr>o_active_run_id := h\<rparr>))" (is "runs_ok ?st")
proof -
  have ph: "phases_ok st" and li: "leases_inv st" using ok by (simp_all add: runs_ok_def)
  note P = phases_okD [OF ph]
  obtain run where run: "find_run st h = Some run" using P(3) F by auto
  have f: "find_run ?st q = (if q = h then Some (run\<lparr>rn_phase := RP_EXECUTING\<rparr>) else find_run st q)" for q
    using run by (simp add: find_run_upd_run)
  have s: "o_run_fifo ?st = o_run_fifo st" "o_active_run_id ?st = h" "o_building_run_id ?st = o_building_run_id st"
    "o_next_run_id ?st = o_next_run_id st" "o_run_resources ?st = o_run_resources st" "o_admission_depth ?st = o_admission_depth st"
    by (simp_all add: upd_run_def)
  have h0: "h \<noteq> INVALID_RUN_ID" using P(4) [OF run] by (simp add: run_ok_def)
  have "run_ok ?st q run'" if "find_run ?st q = Some run'" for q run'
    using that P(4) [of q run'] P(4) [OF run] F a0
    by (auto simp: run_ok_def s f is_terminal_def split: if_splits)
  then have "phases_ok ?st" using ph run F h0 unfolding phases_ok_def s by (auto simp: f)
  moreover have L: "run_leases ?st = run_leases st" using run by (auto simp: run_leases_def f fun_eq_iff)
  moreover have "run_prepared ?st q = run_prepared st q" if "q \<in> set (tl (o_run_fifo st))" for q
    using that F P(2) by (auto simp: run_prepared_def f)
  ultimately show ?thesis using li l unfolding runs_ok_def leases_inv_def s by auto
qed

lemma promote_head_ok:
  assumes ok: "runs_ok st" "lease_complete st" and p: "promote_head st = (res, st')" "\<not> overflow res"
  shows "runs_ok st' \<and> caught_up st' \<and> (\<exists>c. res = Inr c)"
proof (cases "o_active_run_id st \<noteq> INVALID_RUN_ID \<or> o_run_fifo st = []")
  case True
  then have "st' = st" "res = Inr None" using p by (auto simp: promote_head_def)
  then show ?thesis using ok True phases_okD(5) [of st] by (auto simp: caught_up_def runs_ok_def)
next
  case False
  then obtain h rs where F: "o_run_fifo st = h # rs" and a0: "o_active_run_id st = INVALID_RUN_ID" by (cases "o_run_fifo st") auto
  have ph: "phases_ok st" and li: "leases_inv st" using ok by (simp_all add: runs_ok_def)
  note P = phases_okD [OF ph]
  have h: "h \<in> set (o_run_fifo st)" using F by simp
  then obtain run where run: "find_run st h = Some run" using P(3) by blast
  have R: "run_ok st h run" using P(4) [OF run] .
  then have id: "rn_id run = h" "rn_phase run = RP_BUILDING \<or> rn_phase run = RP_PREPARED"
    using h a0 by (cases "rn_phase run"; auto simp: run_ok_def is_terminal_def)+
  obtain res1 st1 where acq: "acquire_lease run st = (res1, st1)" by (cases "acquire_lease run st")
  have nov: "\<not> overflow res1" using p F run id a0 acq by (auto simp: promote_head_def split: sum.splits)
  from head_acquires [OF ok(1) F run acq nov] obtain b where h1: "runs_ok st1" "is_leased st1 h" "res1 = Inr (True, b)" by blast
  note u = unleased_eqD [OF unleased_acquire [OF acq]]
  let ?st2 = "upd_run h (\<lambda>r. r\<lparr>rn_phase := RP_EXECUTING\<rparr>) (st1\<lparr>o_active_run_id := h\<rparr>)"
  have ok2: "runs_ok ?st2" using promoted_ok [OF h1(1) _ _ h1(2)] u F a0 by simp
  obtain res3 st3 where ref: "refresh_leases ?st2 = (res3, st3)" by (cases "refresh_leases ?st2")
  have nov3: "\<not> overflow res3" using p F run id a0 acq h1(3) ref by (auto simp: promote_head_def split: sum.splits)
  note R3 = refresh_leases_ok [OF ok2 ref nov3]
  obtain c where c: "res3 = Inr c" using R3(4) by blast
  have "res = Inr (Some h) \<and> st' = notify_ready (snd (refresh_early_launch st3))"
    using p F run id a0 acq h1(3) ref c by (auto simp: promote_head_def)
  moreover have "caught_up st3"
    using unleased_eqD(1,2) [OF unleased_refresh [OF ref]] u(1) F R3(2) by (simp add: upd_run_def caught_up_def)
  ultimately show ?thesis using R3(1) by auto
qed

lemma activate_ok:
  "activate_fifo_head st = (res, st') \<Longrightarrow> \<not> overflow res \<Longrightarrow> runs_ok st \<Longrightarrow> lease_complete st \<Longrightarrow>
   runs_ok st' \<and> caught_up st' \<and> res = Inr ()"
proof (induction st arbitrary: res st' rule: activate_fifo_head.induct)
  case (1 st)
  obtain q st1 where p: "promote_head st = (q, st1)" by (cases "promote_head st")
  have nov: "\<not> overflow q" using 1(3,4) p by (auto simp: activate_fifo_head.simps [of st] split: sum.splits)
  note P = promote_head_ok [OF 1(5,6) p nov]
  show ?case
  proof (cases "\<exists>r. q = Inr (Some r)")
    case False
    then show ?thesis using 1(3) p P by (auto simp: activate_fifo_head.simps [of st] split: sum.splits option.splits)
  next
    case True
    then obtain r where q: "q = Inr (Some r)" by blast
    define mid where "mid = (if execution_retires st1 r then
        (case retire_locked r st1 of (Inl e, st2) \<Rightarrow> (Inl e, st2) | (Inr _, st2) \<Rightarrow> activate_fifo_head st2) else (Inr (), st1))"
    obtain q3 st3 where mid: "mid = (q3, st3)" by (cases mid)
    have eq: "activate_fifo_head st = (case mid of (Inl e, st3) \<Rightarrow> (Inl e, st3) | (Inr _, st3) \<Rightarrow>
        if run_finishes st3 r then (case retire_locked r (set_terminal_phase r st3) of
          (Inl e, st4) \<Rightarrow> (Inl e, st4) | (Inr _, st4) \<Rightarrow> activate_fifo_head st4) else (Inr (), st3))"
      using activate_fifo_head.simps [of st] p q by (simp add: mid_def)
    have nov3: "\<not> overflow q3" using 1(3,4) eq mid by (auto split: sum.splits)
    have m: "runs_ok st3 \<and> caught_up st3 \<and> q3 = Inr ()"
    proof (cases "execution_retires st1 r")
      case False
      then show ?thesis using mid P by (simp add: mid_def)
    next
      case ex: True
      obtain q2 st2 where rt: "retire_locked r st1 = (q2, st2)" by (cases "retire_locked r st1")
      have "\<not> overflow q2" using nov3 mid ex rt by (auto simp: mid_def split: sum.splits)
      note R = execution_retires_ok [OF conjunct1 [OF P] ex rt this]
      show ?thesis
        using 1(1) [OF p [unfolded q, symmetric] refl refl ex rt [symmetric], of "()" q3 st3] mid ex rt nov3 R by (simp add: mid_def)
    qed
    show ?thesis
    proof (cases "run_finishes st3 r")
      case False
      then show ?thesis using 1(3) eq mid m by simp
    next
      case fin: True
      obtain q4 st4 where rt: "retire_locked r (set_terminal_phase r st3) = (q4, st4)"
        by (cases "retire_locked r (set_terminal_phase r st3)")
      have "\<not> overflow q4" using 1(3,4) eq mid m fin rt by (auto split: sum.splits)
      note R = run_finishes_ok [OF conjunct1 [OF m] fin rt this]
      have "activate_fifo_head st4 = (res, st')" using 1(3) eq mid m fin rt R by simp
      then show ?thesis
        using 1(2) [OF p [unfolded q, symmetric] refl refl, of "Inr ()" st3 "()" q4 st4 "()" res st'] mid m fin rt R 1(4)
        by (simp add: mid_def)
    qed
  qed
qed

end
