(* ===== verification/Run_Safety.thy ===== *)
theory Run_Safety
  imports Run_Inv Sched
begin

text \<open>
  The invariant of \<open>Run_Inv\<close> over every sequence of calls: the operations of the orchestrator, the reports of the
  endpoints and the scheduler's completion loop, each as one step, with any arguments and in any order.
\<close>

section \<open>The invariant\<close>

lemma seq_result: "m s = (Inr x, t) \<Longrightarrow> seq_act m n s = n t"
  by (simp add: seq_act_def bind_act_def)

lemma seq_overflow: "seq_act m n s = (res, s') \<Longrightarrow> \<not> overflow res \<Longrightarrow> m s = (q, t) \<Longrightarrow> \<not> overflow q"
  by (cases q) (auto simp: seq_act_def bind_act_def)

definition run_inv :: "Orch \<Rightarrow> bool" where
  "run_inv st \<longleftrightarrow> runs_ok st \<and> caught_up st"

lemma run_inv_cong:
  assumes "\<And>q. find_run st' q = find_run st q" "o_run_fifo st' = o_run_fifo st" "o_active_run_id st' = o_active_run_id st"
    "o_building_run_id st' = o_building_run_id st" "o_next_run_id st' = o_next_run_id st"
    "o_run_resources st' = o_run_resources st" "o_admission_depth st' = o_admission_depth st"
  shows "run_inv st' = run_inv st"
  using run_view_cong [OF assms] by (simp add: run_inv_def)

lemma run_inv_fields [simp]:
  "run_inv (upd_slot slot g st) = run_inv st" "run_inv (notify_ready st) = run_inv st"
  "run_inv (st\<lparr>o_ring := a\<rparr>) = run_inv st" "run_inv (st\<lparr>o_tensormap := b\<rparr>) = run_inv st"
  "run_inv (st\<lparr>o_scope := c\<rparr>) = run_inv st" "run_inv (st\<lparr>o_ready_sub_queue := d\<rparr>) = run_inv st"
  "run_inv (st\<lparr>o_ready_next_level_queues := e\<rparr>) = run_inv st" "run_inv (st\<lparr>o_completion_queue := h\<rparr>) = run_inv st"
  "run_inv (st\<lparr>o_observations := i\<rparr>) = run_inv st" "run_inv (note_endpoint_capacity w n st) = run_inv st"
  "run_inv (snd (refresh_early_launch st)) = run_inv st" "run_inv (queue_completion k st) = run_inv st"
  by (rule run_inv_cong; simp add: upd_slot_def notify_ready_def note_endpoint_capacity_def refresh_early_launch_def
      queue_completion_def find_run_def Let_def)+

text \<open>Writing fields of a run that the invariant does not read.\<close>

definition same_run :: "RunState \<Rightarrow> RunState \<Rightarrow> bool" where
  "same_run run run' \<longleftrightarrow> rn_id run' = rn_id run \<and> rn_lease run' = rn_lease run \<and> rn_phase run' = rn_phase run \<and>
     rn_submission_closed run' = rn_submission_closed run \<and> rn_submission_failed run' = rn_submission_failed run \<and>
     rn_lease_released run' = rn_lease_released run \<and> (is_terminal (rn_phase run) \<longrightarrow> rn_active_tasks run' = rn_active_tasks run)"

lemma run_inv_upd:
  assumes inv: "run_inv st" and same: "\<And>run. find_run st r = Some run \<Longrightarrow> same_run run (f run)"
  shows "run_inv (upd_run r f st)"
proof -
  let ?st = "upd_run r f st"
  have "phases_ok st" using inv by (simp add: run_inv_def runs_ok_def)
  note P = phases_okD [OF this]
  have f: "find_run ?st q = (if q = r then map_option f (find_run st r) else find_run st q)" for q by (rule find_run_upd_run)
  have s: "o_run_fifo ?st = o_run_fifo st" "o_active_run_id ?st = o_active_run_id st" "o_building_run_id ?st = o_building_run_id st"
    "o_next_run_id ?st = o_next_run_id st" "o_run_resources ?st = o_run_resources st" "o_admission_depth ?st = o_admission_depth st"
    by (simp_all add: upd_run_def)
  have L: "run_leases ?st = run_leases st" "run_prepared ?st = run_prepared st"
    using same by (cases "find_run st r"; auto simp: run_leases_def run_prepared_def f fun_eq_iff same_run_def)+
  have "run_ok ?st q run'" if "find_run ?st q = Some run'" for q run'
  proof (cases "q = r")
    case True
    from that True obtain run where run: "find_run st r = Some run" "run' = f run" unfolding f by auto
    have "same_run run run'" using same [OF run(1)] run(2) by simp
    then show ?thesis
      using P(4) [OF run(1)] True by (simp add: run_ok_def s same_run_def waits_for_activation_def split: if_splits)
  next
    case False
    from that False have "find_run st q = Some run'" unfolding f by simp
    from P(4) [OF this] show ?thesis by (simp add: run_ok_def s)
  qed
  then have "phases_ok ?st" using P(1,3,5,6,7) unfolding phases_ok_def s by (auto simp: f)
  then show ?thesis
    using inv by (simp add: run_inv_def runs_ok_def leases_inv_def caught_up_def lease_complete_def free_lease_def s L)
qed

lemma keeps_finish [intro]:
  "keeps run_inv (retire_execution_if_ready r)" "keeps run_inv (finish_run_if_ready r)"
proof -
  have "run_inv st'" if "run_inv st" "retire_execution_if_ready r st = (res, st')" "\<not> overflow res" for st res st'
  proof (cases "execution_retires st r")
    case True
    obtain q st1 where rt: "retire_locked r st = (q, st1)" by (cases "retire_locked r st")
    have "\<not> overflow q" using that True rt by (auto simp: retire_execution_if_ready_def retire_terminal_run_def seq_act_def bind_act_def split: sum.splits)
    note R = execution_retires_ok [OF _ True rt this]
    show ?thesis using that True rt R activate_ok [of st1 res st']
      by (auto simp: run_inv_def retire_execution_if_ready_def retire_terminal_run_def seq_act_def bind_act_def)
  qed (use that in \<open>simp add: retire_execution_if_ready_def\<close>)
  then show "keeps run_inv (retire_execution_if_ready r)" by (auto simp: keeps_def)
  have "run_inv st'" if "run_inv st" "finish_run_if_ready r st = (res, st')" "\<not> overflow res" for st res st'
  proof (cases "run_finishes st r")
    case True
    obtain q st1 where rt: "retire_locked r (set_terminal_phase r st) = (q, st1)" by (cases "retire_locked r (set_terminal_phase r st)")
    have "\<not> overflow q" using that True rt by (auto simp: finish_run_if_ready_def retire_terminal_run_def seq_act_def bind_act_def split: sum.splits)
    note R = run_finishes_ok [OF _ True rt this]
    show ?thesis using that True rt R activate_ok [of st1 res st']
      by (auto simp: run_inv_def finish_run_if_ready_def retire_terminal_run_def seq_act_def bind_act_def)
  qed (use that in \<open>simp add: finish_run_if_ready_def\<close>)
  then show "keeps run_inv (finish_run_if_ready r)" by (auto simp: keeps_def)
qed

section \<open>Operations on runs\<close>

lemma keeps_slot_state [intro]: "keeps I (slot_state slot)"
  by (auto simp: keeps_def slot_state_def split: option.splits)

lemma run_inv_error [simp]: "run_inv st \<Longrightarrow> run_inv (record_run_error r e st)"
  unfolding record_run_error_def by (rule run_inv_upd) (simp_all add: same_run_def)

lemma keeps_report [intro]: "keeps run_inv (report_task_error slot message)"
  unfolding report_task_error_def by (auto intro!: keeps_bind keeps_slot_state keeps_modify)

lemma keeps_mark_ended [intro]: "keeps run_inv (mark_task_ended slot i)"
proof -
  have "run_inv (upd_run r (\<lambda>run. run\<lparr>rn_physical_tasks := ts\<rparr>) st)" if "run_inv st" for r ts st
    using that by (rule run_inv_upd) (simp add: same_run_def)
  then show ?thesis
    using keepsD [OF keeps_finish(1)] by (auto simp: keeps_def mark_task_ended_def split: option.splits) blast
qed

lemma upd_run_twice: "upd_run r g (upd_run r f st) = upd_run r (\<lambda>run. g (f run)) st"
proof -
  have "AList.map_entry r g (AList.map_entry r f xs) = AList.map_entry r (\<lambda>run. g (f run)) xs" for xs by (induction xs) auto
  then show ?thesis by (simp add: upd_run_def)
qed

lemma keeps_decrement [intro]: "keeps run_inv (decrement_run_tasks r)"
  unfolding keeps_def
proof (intro allI impI)
  fix st res st'
  assume a: "run_inv st \<and> decrement_run_tasks r st = (res, st') \<and> \<not> overflow res"
  show "run_inv st'"
  proof (cases "find_run st r")
    case None
    then show ?thesis using a by (auto simp: decrement_run_tasks_def)
  next
    case (Some run)
    have t: "is_terminal (rn_phase run) \<Longrightarrow> rn_active_tasks run = 0"
      using a Some by (simp add: run_inv_def runs_ok_def phases_ok_def run_ok_def)
    let ?n = "rn_active_tasks run - 1" and ?e = "LogicError ''Orchestrator: run task count underflow''"
    have "run_inv (if ?n < 0 then record_run_error r ?e (upd_run r (\<lambda>r. r\<lparr>rn_active_tasks := 0\<rparr>) (upd_run r (\<lambda>r. r\<lparr>rn_active_tasks := ?n\<rparr>) st))
        else upd_run r (\<lambda>r. r\<lparr>rn_active_tasks := ?n\<rparr>) st)"
      unfolding upd_run_twice using a Some t by (auto intro!: run_inv_error run_inv_upd simp: same_run_def)
    then show ?thesis
      using a Some keepsD [OF keeps_finish(2)] by (auto simp: decrement_run_tasks_def Let_def split: if_splits)
  qed
qed

lemma run_inv_announce [simp]: "run_inv st \<Longrightarrow> run_inv (announce_early_launch st)"
  by (simp add: announce_early_launch_def case_prod_unfold Let_def)

lemma run_inv_decrement_accepts:
  assumes "run_inv st"
  shows "run_inv (decrement_run_accepts r st)"
proof (cases "find_run st r")
  case None
  then show ?thesis using assms by (simp add: decrement_run_accepts_def)
next
  case (Some run)
  have u: "run_inv (upd_run r (\<lambda>r. r\<lparr>rn_pending_accepts := n\<rparr>) st)" for n
    by (rule run_inv_upd [OF assms]) (simp add: same_run_def)
  show ?thesis
    unfolding decrement_run_accepts_def Some Let_def option.case
    using u by (simp split del: if_split add: run_inv_error if_split [of run_inv])
qed

lemma run_inv_accepts [simp]:
  assumes "run_inv st"
  shows "run_inv (mark_task_accepted slot st)" "run_inv (notify_run_staged r st)" "run_inv (endpoint_staged slot st)"
  using assms run_inv_decrement_accepts [OF assms]
  by (simp_all add: mark_task_accepted_def notify_run_staged_def endpoint_staged_def split: option.split)

lemma settle:
  assumes "runs_ok st" "lease_complete st" "activate_fifo_head st = (res, st')" "\<not> overflow res"
  shows "run_inv st'"
  using activate_ok [OF assms(3,4,1,2)] by (simp add: run_inv_def)

lemma keeps_release_run [intro]: "keeps run_inv (release_run r)"
  unfolding keeps_def
proof (intro allI impI)
  fix st res st'
  assume a: "run_inv st \<and> release_run r st = (res, st') \<and> \<not> overflow res"
  let ?st = "st\<lparr>o_runs := AList.delete r (o_runs st)\<rparr>"
  show "run_inv st'"
  proof (cases "\<exists>run. find_run st r = Some run \<and> is_terminal (rn_phase run)")
    case False
    then show ?thesis using a by (auto simp: release_run_def split: option.splits if_splits)
  next
    case True
    then obtain run where run: "find_run st r = Some run" "is_terminal (rn_phase run)" by blast
    have ok: "phases_ok st" "leases_inv st" "caught_up st" using a by (simp_all add: run_inv_def runs_ok_def)
    note P = phases_okD [OF ok(1)]
    have R: "r \<notin> set (o_run_fifo st)" "o_building_run_id st \<noteq> r" using P(4) [OF run(1)] run(2) by (auto simp: run_ok_def split: if_splits)
    have f: "find_run ?st q = (if q = r then None else find_run st q)" for q by (simp add: find_run_def delete_conv')
    have L: "run_leases ?st = (run_leases st)(r := None)" by (auto simp: run_leases_def f fun_eq_iff)
    have l: "is_leased ?st q = is_leased st q" if "q \<in> set (o_run_fifo st)" for q using that R by (auto simp: leased_def L)
    have p: "run_prepared ?st q = run_prepared st q" if "q \<in> set (o_run_fifo st)" for q using that R by (auto simp: run_prepared_def f)
    have tl: "q \<in> set (o_run_fifo st)" if "q \<in> set (tl (o_run_fifo st))" for q using that by (cases "o_run_fifo st") auto
    have "run_ok ?st q run'" if "find_run ?st q = Some run'" for q run'
    proof -
      from that have "find_run st q = Some run'" unfolding f by (simp split: if_splits)
      from P(4) [OF this] show ?thesis by (simp add: run_ok_def)
    qed
    then have ph: "phases_ok ?st" using ok(1) R unfolding phases_ok_def by (auto simp: f)
    have "sorted_wrt (\<lambda>a b. is_leased ?st b \<longrightarrow> is_leased ?st a) (o_run_fifo st)"
      using ok(2) l by (auto simp: leases_inv_def intro: sorted_wrt_mono_rel [of _ "\<lambda>a b. is_leased st b \<longrightarrow> is_leased st a"])
    then have li: "leases_inv ?st"
      using ok(2) lease_run_removed [of _ _ _ r] R l p tl by (auto simp: leases_inv_def L)
    have "find (\<lambda>q. \<not> is_leased ?st q) (o_run_fifo st) = find (\<lambda>q. \<not> is_leased st q) (o_run_fifo st)"
      using l by (intro find_cong) auto
    then have "caught_up ?st" using ok(3) p by (auto simp: caught_up_def lease_complete_def free_lease_def find_Some_iff in_set_conv_nth)
    moreover have "is_leased ?st (o_active_run_id st)" if "o_active_run_id st \<noteq> INVALID_RUN_ID"
      using that a P(5) l by (metis hd_in_set run_inv_def runs_ok_def)
    ultimately have "run_inv ?st" using ph li by (simp add: run_inv_def runs_ok_def)
    then show ?thesis using a run by (auto simp: release_run_def compact_if_quiescent_def split: if_splits sum.splits)
  qed
qed

lemma begin_run_ok:
  assumes inv: "run_inv st" and idle: "o_building_run_id st = INVALID_RUN_ID" "o_next_run_id st \<noteq> UINT64_MAX"
  defines "k \<equiv> o_next_run_id st"
  defines "st1 \<equiv> st\<lparr>o_next_run_id := k + 1, o_runs := AList.update k ((new_run k no_lease)\<lparr>rn_phase := RP_BUILDING\<rparr>) (o_runs st),
    o_run_fifo := o_run_fifo st @ [k], o_building_run_id := k\<rparr>"
  shows "find_run st k = None" "runs_ok st1" "lease_complete st1"
proof -
  have ok: "phases_ok st" "leases_inv st" "caught_up st" using inv by (simp_all add: run_inv_def runs_ok_def)
  note P = phases_okD [OF ok(1)]
  have fresh: "find_run st k = None" using P(4) [of k] by (cases "find_run st k") (auto simp: run_ok_def k_def)
  then show "find_run st k = None" .
  have old: "q < k \<and> q \<noteq> k" if "find_run st q = Some run" for q run using P(4) [OF that] fresh that by (auto simp: run_ok_def k_def)
  have F: "q < k" if "q \<in> set (o_run_fifo st)" for q using P(3) [OF that] old by auto
  then have kF: "k \<notin> set (o_run_fifo st)" by blast
  note up = inc_gt [OF idle(2), folded k_def]
  have f: "find_run st1 q = (if q = k then Some ((new_run k no_lease)\<lparr>rn_phase := RP_BUILDING\<rparr>) else find_run st q)" for q
    by (simp add: st1_def find_run_def update_conv')
  have s: "o_run_fifo st1 = o_run_fifo st @ [k]" "o_building_run_id st1 = k" "o_active_run_id st1 = o_active_run_id st"
    "o_next_run_id st1 = k + 1" by (simp_all add: st1_def)
  have act: "o_active_run_id st \<noteq> k" using P(5,7) kF unfolding k_def by (metis hd_in_set)
  have "run_ok st1 q run" if "find_run st1 q = Some run" for q run
  proof (cases "q = k")
    case True
    then have "run = (new_run k no_lease)\<lparr>rn_phase := RP_BUILDING\<rparr>" using that f by simp
    then show ?thesis using True up(1) P(7) act by (simp add: run_ok_def s new_run_def is_terminal_def k_def)
  next
    case False
    then have q: "find_run st q = Some run" using that f by simp
    have "q < k + 1" using old [OF q] up(1) by (metis less_trans)
    then show ?thesis using P(4) [OF q] False idle(1) by (auto simp: run_ok_def s)
  qed
  moreover have "sorted_wrt (<) (o_run_fifo st @ [k])" using P(1) F by (simp add: sorted_wrt_append)
  ultimately have ph: "phases_ok st1"
    using P(3,5) up(2) unfolding phases_ok_def s by (auto simp: f hd_append)
  have L: "run_leases st1 = (run_leases st)(k \<mapsto> no_lease)" by (auto simp: run_leases_def f fun_eq_iff new_run_def)
  have l: "is_leased st1 q \<longleftrightarrow> is_leased st q \<and> q \<noteq> k" for q by (auto simp: leased_def L)
  have p: "run_prepared st1 q \<longleftrightarrow> run_prepared st q \<and> q \<noteq> k" for q by (auto simp: run_prepared_def f)
  have nl: "run_leases st k = None" using fresh by (simp add: run_leases_def)
  have "sorted_wrt (\<lambda>a b. is_leased st1 b \<longrightarrow> is_leased st1 a) (o_run_fifo st @ [k])"
    using ok(2) kF by (auto simp: leases_inv_def l sorted_wrt_append
        intro: sorted_wrt_mono_rel [of _ "\<lambda>a b. is_leased st b \<longrightarrow> is_leased st a"])
  moreover have "run_prepared st1 q" if "q \<in> set (tl (o_run_fifo st @ [k]))" "is_leased st1 q" for q
    using that ok(2) by (cases "o_run_fifo st") (auto simp: l p leases_inv_def)
  moreover have "leases_ok (o_run_resources st) (o_run_fifo st @ [k]) (run_leases st1)"
    unfolding L using ok(2) nl kF by (intro lease_run_added) (simp_all add: leases_inv_def)
  ultimately have li: "leases_inv st1" using ok(2) by (simp add: leases_inv_def st1_def)
  have "is_leased st1 (o_active_run_id st)" if "o_active_run_id st \<noteq> INVALID_RUN_ID"
    using that inv P(5) kF by (auto simp: l run_inv_def runs_ok_def dest: hd_in_set)
  then show "runs_ok st1" using ph li by (simp add: runs_ok_def st1_def)
  have "find (\<lambda>q. \<not> is_leased st1 q) (o_run_fifo st) = find (\<lambda>q. \<not> is_leased st q) (o_run_fifo st)"
    using kF l by (intro find_cong) auto
  moreover have "free_lease st1 = free_lease st" by (simp add: free_lease_def st1_def)
  ultimately show "lease_complete st1"
    using ok(3) unfolding caught_up_def lease_complete_def s by (auto simp: find_append p split: option.splits)
qed

lemma keeps_begin_admit [intro]: "keeps run_inv begin_run_admit"
  unfolding keeps_def
proof (intro allI impI)
  fix st res st'
  assume a: "run_inv st \<and> begin_run_admit st = (res, st') \<and> \<not> overflow res"
  show "run_inv st'"
  proof (cases "o_building_run_id st \<noteq> INVALID_RUN_ID \<or> o_next_run_id st = UINT64_MAX \<or> o_next_run_id st = INVALID_RUN_ID")
    case True
    then show ?thesis using a by (auto simp: begin_run_admit_def split: if_splits)
  next
    case False
    define st1 where "st1 = st\<lparr>o_next_run_id := o_next_run_id st + 1,
      o_runs := AList.update (o_next_run_id st) ((new_run (o_next_run_id st) no_lease)\<lparr>rn_phase := RP_BUILDING\<rparr>) (o_runs st),
      o_run_fifo := o_run_fifo st @ [o_next_run_id st], o_building_run_id := o_next_run_id st\<rparr>"
    note B = begin_run_ok [of st, folded st1_def]
    have "find_run (st\<lparr>o_next_run_id := o_next_run_id st + 1\<rparr>) (o_next_run_id st) = None"
      using B(1) a False by (simp add: find_run_def)
    then have "seq_act activate_fifo_head (ok (o_next_run_id st)) st1 = (res, st')"
      using a False by (simp add: begin_run_admit_def Let_def st1_def)
    then show ?thesis
      using settle [OF B(2,3)] a False by (auto simp: seq_act_def bind_act_def ok_def split: sum.splits prod.splits)
  qed
qed

lemma keeps_begin [intro]: "keeps run_inv begin_run"
proof -
  have "run_inv st'" if "run_inv st" "bind_act begin_run_admit (\<lambda>r. ok (Some r)) st = (res, st')" "\<not> overflow res" for st st' res
    using keepsD [of run_inv "bind_act begin_run_admit (\<lambda>r. ok (Some r))"] that by blast
  then show ?thesis by (auto simp: keeps_def begin_run_def split: if_splits)
qed

lemma keeps_configure [intro]: "keeps run_inv (configure_pipeline_depth d p l i)"
  unfolding keeps_def
proof (intro allI impI)
  fix st res st'
  assume a: "run_inv st \<and> configure_pipeline_depth d p l i st = (res, st') \<and> \<not> overflow res"
  show "run_inv st'"
  proof (cases "st' = st")
    case False
    then obtain arena where g: "regrant (o_run_resources st) d = Inr arena" "o_runs st = []" "d \<noteq> 0" "\<not> i > d"
      "o_building_run_id st = INVALID_RUN_ID" "o_active_run_id st = INVALID_RUN_ID"
      and st': "st' = st\<lparr>o_run_resources := arena, o_admission_depth := (if i = 0 then d else i),
        o_pending_run_limit := (if p = 0 then (if i = 0 then d else i) else p), o_pending_run_limit_configured := (p \<noteq> 0), o_launch_depth := l\<rparr>"
      using a by (auto simp: configure_pipeline_depth_def Let_def split: if_splits sum.splits)
    have none: "find_run st q = None" "find_run st' q = None" for q using g(2) st' by (simp_all add: find_run_def)
    have "phases_ok st" using a by (simp add: run_inv_def runs_ok_def)
    note P = phases_okD [OF this]
    have F: "o_run_fifo st = []" using P(3) none by (cases "o_run_fifo st") auto
    have arena: "arena = (o_run_resources st)\<lparr>ra_sets := replicate (unat d) fresh_set, ra_granted := d\<rparr>"
      using g(1) by (auto simp: regrant_def split: if_splits)
    have "leases_ok arena [] (run_leases st')" by (auto simp: leases_ok_def arena run_leases_def none)
    then show ?thesis
      using g F st' none P(7)
      by (auto simp: run_inv_def runs_ok_def phases_ok_def leases_inv_def caught_up_def lease_complete_def arena)
  qed (use a in simp)
qed

lemma keeps_update_depth [intro]: "keeps run_inv (update_admissible_depth sets)"
  unfolding keeps_def
proof (intro allI impI)
  fix st res st'
  assume a: "run_inv st \<and> update_admissible_depth sets st = (res, st') \<and> \<not> overflow res"
  obtain w st1 where ap: "apply_admissible_depth sets st = (w, st1)" by (cases "apply_admissible_depth sets st")
  have ok: "runs_ok st" "caught_up st" using a by (simp_all add: run_inv_def)
  note A = apply_depth_ok [OF ok(1), of sets, unfolded ap snd_conv]
  show "run_inv st'"
  proof (cases w)
    case False
    have st': "st' = st1" using a ap False by (auto simp: update_admissible_depth_def)
    have s: "o_active_run_id st1 = o_active_run_id st" "o_run_resources st1 = o_run_resources st" "o_admission_depth st1 \<le> o_admission_depth st"
      using ap False by (auto simp: apply_admissible_depth_def Let_def one_le_u32 split: if_splits)
    have "free_lease st1 \<Longrightarrow> free_lease st"
      using s(3) by (auto simp: free_lease_def set_free_def s(2) list_ex_iff word_le_nat_alt dest: set_take_subset_set_take [THEN subsetD])
    moreover have "run_leases st1 = run_leases st" "run_prepared st1 = run_prepared st"
      using A(3) by (simp_all add: run_leases_def run_prepared_def fun_eq_iff)
    ultimately show ?thesis using A ok s unfolding st' by (auto simp: run_inv_def caught_up_def lease_complete_def)
  next
    case True
    obtain q st2 where rf: "refresh_leases st1 = (q, st2)" by (cases "refresh_leases st1")
    have b: "bind_act refresh_leases (\<lambda>leased. seq_act (modify (\<lambda>st. if leased then notify_ready st else st)) activate_fifo_head) st1 = (res, st')"
      using a ap True by (simp add: update_admissible_depth_def)
    then have "\<not> overflow q" using a rf by (auto simp: bind_act_def split: sum.splits)
    note R = refresh_leases_ok [OF A(1) rf this]
    then obtain leased where q: "q = Inr leased" by blast
    have "activate_fifo_head (if leased then notify_ready st2 else st2) = (res, st')"
      using b rf q by (simp add: bind_act_def seq_act_def modify_def)
    then show ?thesis using settle [of "if leased then notify_ready st2 else st2"] R a by (cases leased) auto
  qed
qed

lemma close_ok:
  assumes inv: "run_inv st" and r: "find_run st r = Some run" "o_building_run_id st = r"
  shows "runs_ok (upd_run r (\<lambda>r. r\<lparr>rn_submission_closed := True,
    rn_phase := (if rn_phase r = RP_BUILDING then RP_PREPARED else rn_phase r)\<rparr>) (st\<lparr>o_building_run_id := INVALID_RUN_ID\<rparr>))"
    (is "runs_ok ?st")
proof -
  have ok: "phases_ok st" "leases_inv st" using inv by (simp_all add: run_inv_def runs_ok_def)
  note P = phases_okD [OF ok(1)] and R = phases_okD(4) [OF ok(1) r(1)]
  let ?run = "run\<lparr>rn_submission_closed := True, rn_phase := (if rn_phase run = RP_BUILDING then RP_PREPARED else rn_phase run)\<rparr>"
  have f: "find_run ?st q = (if q = r then Some ?run else find_run st q)" for q
  proof -
    have "find_run (st\<lparr>o_building_run_id := INVALID_RUN_ID\<rparr>) q = find_run st q" for q by (simp add: find_run_def)
    then show ?thesis unfolding find_run_upd_run using r(1) by (cases "q = r") (simp_all only: if_True if_False option.map simp_thms)
  qed
  have s: "o_run_fifo ?st = o_run_fifo st" "o_active_run_id ?st = o_active_run_id st" "o_building_run_id ?st = INVALID_RUN_ID"
    "o_next_run_id ?st = o_next_run_id st" "o_run_resources ?st = o_run_resources st" "o_admission_depth ?st = o_admission_depth st"
    by (simp_all add: upd_run_def)
  have "run_ok ?st q run'" if "find_run ?st q = Some run'" for q run'
  proof (cases "q = r")
    case True
    then have "run' = ?run" using that unfolding f by simp
    then show ?thesis using R r(2) True by (auto simp: run_ok_def s is_terminal_def waits_for_activation_def split: if_splits)
  next
    case False
    then have "find_run st q = Some run'" using that unfolding f by simp
    from P(4) [OF this] show ?thesis using False r(2) by (simp add: run_ok_def s split: if_splits)
  qed
  then have ph: "phases_ok ?st" using P(1,3,5,7) unfolding phases_ok_def s by (auto simp: f)
  have L: "run_leases ?st = run_leases st" using r(1) by (auto simp: run_leases_def f fun_eq_iff)
  have "run_prepared ?st q" if "run_prepared st q" for q using that r(1) by (auto simp: run_prepared_def f)
  then show ?thesis using ph ok inv by (auto simp: runs_ok_def leases_inv_def run_inv_def s L)
qed

lemma keeps_close [intro]: "keeps run_inv (close_run_submission r)"
  unfolding keeps_def
proof (intro allI impI)
  fix st res st'
  assume a: "run_inv st \<and> close_run_submission r st = (res, st') \<and> \<not> overflow res"
  show "run_inv st'"
  proof (cases "\<exists>run. find_run st r = Some run \<and> o_building_run_id st = r")
    case False
    then show ?thesis using a by (auto simp: close_run_submission_def get_run_def split: option.splits if_splits)
  next
    case True
    then obtain run where run: "find_run st r = Some run" "o_building_run_id st = r" by blast
    have open_run: "\<not> rn_submission_closed run"
      using a run phases_okD(4) [OF _ run(1)] by (simp add: run_inv_def runs_ok_def run_ok_def)
    define st1 where "st1 = upd_run r (\<lambda>r. r\<lparr>rn_submission_closed := True,
      rn_phase := (if rn_phase r = RP_BUILDING then RP_PREPARED else rn_phase r)\<rparr>) (st\<lparr>o_building_run_id := INVALID_RUN_ID\<rparr>)"
    have ok1: "runs_ok st1" unfolding st1_def using close_ok a run by blast
    let ?rest = "seq_act (retire_execution_if_ready r) (finish_run_if_ready r)"
    have c: "seq_act refresh_leases (seq_act (modify (\<lambda>st. notify_ready (snd (refresh_early_launch st)))) (seq_act activate_fifo_head ?rest)) st1 = (res, st')"
      using a run open_run by (simp add: close_run_submission_def get_run_def st1_def)
    obtain q st2 where rf: "refresh_leases st1 = (q, st2)" by (cases "refresh_leases st1")
    have "\<not> overflow q" using seq_overflow [of refresh_leases, OF c _ rf] a by blast
    note R = refresh_leases_ok [OF ok1 rf this]
    let ?st3 = "notify_ready (snd (refresh_early_launch st2))"
    obtain leased where "refresh_leases st1 = (Inr leased, st2)" using rf R(4) by auto
    from c [unfolded seq_result [of refresh_leases, OF this]] have c3: "seq_act activate_fifo_head ?rest ?st3 = (res, st')"
      by (simp add: seq_result [of "modify _"] modify_def)
    obtain q4 st4 where ac: "activate_fifo_head ?st3 = (q4, st4)" by (cases "activate_fifo_head ?st3")
    have "\<not> overflow q4" using seq_overflow [of activate_fifo_head, OF c3 _ ac] a by blast
    with activate_ok [OF ac this] R have i4: "run_inv st4" "q4 = Inr ()" by (auto simp: run_inv_def)
    have "keeps run_inv ?rest" by (intro keeps_seq keeps_finish)
    moreover have "?rest st4 = (res, st')" using c3 seq_result [of activate_fifo_head, OF ac [unfolded i4(2)]] by metis
    ultimately show ?thesis using keepsD [of run_inv ?rest st4 res st'] i4(1) a by simp
  qed
qed

section \<open>Operations on tasks\<close>

lemma find_run_frame [simp]:
  "find_run (upd_slot slot f st) r = find_run st r" "find_run (st\<lparr>o_ring := ring\<rparr>) r = find_run st r"
  by (simp_all add: find_run_def upd_slot_def)

lemma keeps_upd_slot [intro, simp]: "keeps run_inv (modify (upd_slot slot f))"
  by (simp add: keeps_def modify_def)

lemma keeps_on_consumed [intro]: "keeps run_inv (on_consumed slot)"
proof -
  have k: "keeps run_inv (modify (\<lambda>st. st\<lparr>o_tensormap := f st, o_ring := g st\<rparr>))" for f g
    by (simp add: keeps_def modify_def run_inv_fields(3,4))
  show ?thesis
    unfolding on_consumed_def
    by (intro keeps_bind keeps_slot_state) (auto intro!: keeps_seq keeps_mark_ended keeps_decrement k [simplified])
qed

lemma keeps_try_consume [intro]: "keeps run_inv (try_consume slot)"
  unfolding try_consume_def Let_def by (intro keeps_bind keeps_slot_state) auto

lemma keeps_sched_try_consume [intro]: "keeps run_inv (sched_try_consume slot)"
  unfolding sched_try_consume_eq by (rule keeps_try_consume)

lemma keeps_enqueue [intro]: "keeps run_inv (enqueue_ready slot)"
  unfolding enqueue_ready_def
  by (intro keeps_bind keeps_slot_state) (auto simp: keeps_def split: option.splits sum.splits if_splits)

lemma building_live:
  assumes "run_inv st" "current_building_run st = Inr run"
  shows "find_run st (rn_id run) = Some run" "\<not> is_terminal (rn_phase run)" "rn_id run \<in> set (o_run_fifo st)"
proof -
  have "phases_ok st" using assms(1) by (simp add: run_inv_def runs_ok_def)
  moreover have b: "find_run st (o_building_run_id st) = Some run"
    using assms(2) by (auto simp: current_building_run_def split: option.splits if_splits)
  ultimately have ok: "run_ok st (o_building_run_id st) run" by (simp add: phases_okD(4))
  then show "find_run st (rn_id run) = Some run" using b by (simp add: run_ok_def)
  show "\<not> is_terminal (rn_phase run)" "rn_id run \<in> set (o_run_fifo st)" using ok b by (auto simp: run_ok_def split: if_splits)
qed

lemma run_inv_register:
  assumes inv: "run_inv st" and run: "find_run st r = Some run" "\<not> is_terminal (rn_phase run)"
  shows "run_inv (register_run_slot r slot members st)"
proof -
  let ?st = "if peek_slot st slot = None then st else upd_slot slot (\<lambda>s. s\<lparr>ts_pipeline_lease := rn_lease run\<rparr>) st"
  have "run_inv ?st" using inv by simp
  moreover have "find_run ?st r = Some run" using run(1) by simp
  ultimately show ?thesis
    unfolding register_run_slot_def run(1) option.case Let_def using run(2) by (intro run_inv_upd) (simp_all add: same_run_def)
qed

lemma run_inv_claim:
  assumes inv: "run_inv st" and run: "current_building_run st = Inr run"
    and c: "claim_slot (rn_id run) bytes members timed_out message st = (res, st')"
  shows "run_inv st'"
proof -
  note live = building_live [OF inv run]
  have reg: "run_inv (register_run_slot (rn_id run) slot members (upd_slot slot f (st\<lparr>o_ring := ring\<rparr>)))" for slot f ring
    using live(1,2) inv by (intro run_inv_register) (simp_all add: find_run_frame)
  show ?thesis
    using c inv reg by (auto simp: claim_slot_def Let_def split: option.splits sum.splits prod.splits if_splits)
qed

lemma run_inv_charge [simp]: "run_inv (charge_scope slot st) = run_inv st"
  by (simp add: charge_scope_def Let_def)

lemma keeps_alloc [intro]: "keeps run_inv (orch_alloc shape dtype identity timed_out)"
  unfolding keeps_def
proof (intro allI impI)
  fix st res st'
  assume a: "run_inv st \<and> orch_alloc shape dtype identity timed_out st = (res, st') \<and> \<not> overflow res"
  then show "run_inv st'"
    using run_inv_claim [of st]
    by (auto simp: orch_alloc_def Let_def split: sum.splits prod.splits option.splits if_splits)
qed

lemma keeps_wire [intro]: "keeps run_inv (wire_producer slot d acc)"
  unfolding wire_producer_def
  by (intro keeps_bind keeps_slot_state) (simp add: keeps_def Let_def)

lemma keeps_wire_all [intro]: "keeps run_inv (wire_producers slot ds acc)"
  by (induction ds arbitrary: acc) auto

lemma keeps_propagate [intro]: "keeps run_inv (propagate_failure r slot message)"
proof -
  have "keeps run_inv (seq_act (try_consume slot) (each_act try_consume ps))" for ps by auto
  then show ?thesis
    unfolding keeps_exits [of _ "propagate_failure r slot message"] propagate_failure_def Let_def
    by (simp add: exits_keeps)
qed

lemma keeps_publish [intro]: "keeps run_inv (publish_task r slot acc)"
proof -
  have k: "keeps run_inv (seq_act (enqueue_ready slot) (modify notify_ready))" by (auto intro!: keeps_modify)
  have "run_inv (upd_run r (\<lambda>r. r\<lparr>rn_pending_accepts := f r\<rparr>) st)" if "run_inv st" for st f
    using that by (rule run_inv_upd) (simp add: same_run_def)
  then show ?thesis
    unfolding keeps_exits [of _ "publish_task r slot acc"] publish_task_def Let_def
    by (auto split: prod.splits intro!: exits_keeps [OF k] exits_keeps [OF keeps_propagate])
qed

lemma keeps_submit [intro]: "keeps run_inv (submit_impl q timed_out)"
  unfolding keeps_exits
proof (intro allI impI)
  fix st
  assume inv: "run_inv st"
  have k: "keeps run_inv (bind_act (wire_producers slot ps acc0) (\<lambda>acc. seq_act (publish_task r slot acc) (ok x)))" for slot ps acc0 r x
    by auto
  have i: "run_inv (store_args slot q (snd (infer_step r slot q st)))" if "run_inv st" for r slot st
    using that by (simp add: infer_step_def store_args_def Let_def)
  show "exits run_inv (submit_impl q timed_out st)"
  proof (cases "current_building_run st")
    case (Inr run)
    obtain res st1 where c: "claim_slot (rn_id run) 0 (length (sr_args_list q)) timed_out ''Orchestrator: allocator shutdown'' st = (res, st1)"
      by (cases "claim_slot (rn_id run) 0 (length (sr_args_list q)) timed_out ''Orchestrator: allocator shutdown'' st")
    have inv1: "run_inv st1" using run_inv_claim [OF inv Inr c] .
    show ?thesis
    proof (cases "\<exists>ar. check_submit st run q = Inr () \<and> res = Inr (Some ar)")
      case True
      then obtain ar where ar: "check_submit st run q = Inr ()" "res = Inr (Some ar)" by blast
      show ?thesis
        unfolding submit_impl_def Inr ar c Let_def case_prod_unfold sum.case prod.case option.case fst_conv snd_conv
        by (intro exits_keeps [OF k] i) (simp add: inv1)
    next
      case False
      then show ?thesis using inv inv1 by (auto simp: submit_impl_def Inr c split: sum.split option.split)
    qed
  qed (simp add: submit_impl_def inv)
qed

section \<open>Failed submissions\<close>

lemma keeps_cancel_slots [intro]: "keeps run_inv (cancel_slots message slots)"
proof -
  have "keeps run_inv (cancel_slot message slot)" for slot
    unfolding cancel_slot_def
    by (intro keeps_bind keeps_slot_state) (simp add: keeps_exits Let_def case_prod_unfold)
  then show ?thesis by (induction slots) auto
qed

lemma keeps_commit_debts [intro]: "keeps run_inv (commit_debts entries)"
  by (induction entries rule: commit_debts.induct) (auto intro!: keeps_bind keeps_slot_state keeps_seq)

lemma keeps_cancel_run [intro]: "keeps run_inv (cancel_unstarted_run r message)"
proof -
  have "keeps run_inv (bind_act (cancel_slots message slots) (\<lambda>cancelled. bind_act (commit_debts cancelled) (\<lambda>owned.
      seq_act (each_act (\<lambda>(slot, _). try_consume slot) owned) (each_act (\<lambda>(_, producers). each_act try_consume producers) owned))))" for slots
    by (intro keeps_bind keeps_seq keeps_each keeps_cancel_slots keeps_commit_debts) auto
  then show ?thesis unfolding keeps_exits [of _ "cancel_unstarted_run r message"] cancel_unstarted_run_def
    by (auto split: option.split intro: exits_keeps)
qed

lemma fail_ok:
  assumes inv: "run_inv st" and r: "find_run st r = Some run"
  defines "st1 \<equiv> if o_building_run_id st = r then st\<lparr>o_building_run_id := INVALID_RUN_ID\<rparr> else st"
  shows "run_inv (upd_run r (\<lambda>r. r\<lparr>rn_submission_failed := True, rn_submission_closed := True\<rparr>) st1)" (is "run_inv ?st")
proof -
  have ok: "phases_ok st" "leases_inv st" using inv by (simp_all add: run_inv_def runs_ok_def)
  note P = phases_okD [OF ok(1)] and R = phases_okD(4) [OF ok(1) r]
  let ?run = "run\<lparr>rn_submission_failed := True, rn_submission_closed := True\<rparr>"
  have f: "find_run ?st q = (if q = r then Some ?run else find_run st q)" for q
  proof -
    have "find_run st1 q = find_run st q" for q by (simp add: st1_def find_run_def)
    then show ?thesis unfolding find_run_upd_run using r by (cases "q = r") (simp_all only: if_True if_False option.map simp_thms)
  qed
  have s: "o_run_fifo ?st = o_run_fifo st" "o_active_run_id ?st = o_active_run_id st"
    "o_building_run_id ?st = (if o_building_run_id st = r then INVALID_RUN_ID else o_building_run_id st)"
    "o_next_run_id ?st = o_next_run_id st" "o_run_resources ?st = o_run_resources st" "o_admission_depth ?st = o_admission_depth st"
    by (simp_all add: upd_run_def st1_def)
  have rq: "r \<noteq> INVALID_RUN_ID" using R by (simp add: run_ok_def)
  have "run_ok ?st q run'" if "find_run ?st q = Some run'" for q run'
  proof (cases "q = r")
    case True
    then have "run' = ?run" using that unfolding f by simp
    then show ?thesis using R rq True by (auto simp: run_ok_def s waits_for_activation_def split: if_splits)
  next
    case False
    then have q: "find_run st q = Some run'" using that unfolding f by simp
    from P(4) [OF q] show ?thesis using False rq by (auto simp: run_ok_def s split: if_splits)
  qed
  then have ph: "phases_ok ?st" using P(1,3,5,6,7) unfolding phases_ok_def s by (auto simp: f)
  have L: "run_leases ?st = run_leases st" "run_prepared ?st = run_prepared st"
    using r by (auto simp: run_leases_def run_prepared_def f fun_eq_iff)
  show ?thesis
    using inv ph by (simp add: run_inv_def runs_ok_def leases_inv_def caught_up_def lease_complete_def free_lease_def s L)
qed

lemma find_run_error: "find_run st r = Some run \<Longrightarrow> \<exists>run'. find_run (record_run_error r e st) r = Some run'"
  unfolding record_run_error_def find_run_upd_run by simp

lemma keeps_fail [intro]: "keeps run_inv (fail_run_submission r error)"
  unfolding keeps_exits
proof (intro allI impI)
  fix st
  assume inv: "run_inv st"
  have k: "keeps run_inv (seq_act (cancel_unstarted_run r message) (finish_run_if_ready r))" for message by auto
  show "exits run_inv (fail_run_submission r error st)"
  proof (cases "find_run st r")
    case None
    then show ?thesis using inv by (simp add: fail_run_submission_def get_run_def)
  next
    case (Some run)
    let ?st = "case error of None \<Rightarrow> st | Some e \<Rightarrow> record_run_error r e st"
    have "run_inv ?st" "\<exists>run'. find_run ?st r = Some run'"
      using inv Some find_run_error by (auto split: option.split)
    then show ?thesis
      unfolding fail_run_submission_def get_run_def Some option.case sum.case Let_def
      by (intro exits_keeps [OF k]) (blast intro: fail_ok)
  qed
qed

section \<open>Scopes, completions and endpoint reports\<close>

lemma keeps_scope_begin [intro]: "keeps run_inv scope_begin"
  by (simp add: keeps_exits scope_begin_def split: sum.split)

lemma keeps_scope_end [intro]: "keeps run_inv scope_end"
proof -
  have "keeps run_inv (seq_act (each_act release_ref slots) (modify (\<lambda>st. st\<lparr>o_scope := butlast (o_scope st)\<rparr>)))" for slots
    by (auto intro!: keeps_seq keeps_each keeps_modify simp: release_ref_def)
  then show ?thesis by (auto simp: keeps_exits [of _ scope_end] scope_end_def intro: exits_keeps)
qed

lemma poison_exits: "run_inv st \<Longrightarrow> exits run_inv (poison_tasks message slots st)"
proof (induction message slots st rule: poison_tasks.induct)
  case (1 message st)
  then show ?case by (simp add: poison_tasks.simps)
next
  case (2 message slot slots st)
  show ?case
  proof (cases "peek_slot st slot")
    case None
    then show ?thesis using 2(4) by (simp add: poison_tasks.simps slot_state_def)
  next
    case (Some s)
    obtain s1 claimed where c: "claim_task_failure s message = (s1, claimed)" by (cases "claim_task_failure s message")
    have sl: "slot_state slot st = (Inr s, st)" using Some by (simp add: slot_state_def)
    show ?thesis
    proof (cases "claimed = None \<or> claimed = Some BUILDING")
      case True
      then show ?thesis
        using 2(1) [OF sl [symmetric] refl refl c [symmetric] refl True] 2(4) by (simp add: poison_tasks.simps(2) sl c Let_def)
    next
      case False
      define s2 where "s2 = mark_group_members_skipped s1 message"
      define st2 where "st2 = upd_slot slot (\<lambda>_. s2) (upd_slot slot (\<lambda>_. s1) st)"
      obtain q3 st3 where p3: "poison_tasks message (ts_fanout_consumers s2) st2 = (q3, st3)"
        by (cases "poison_tasks message (ts_fanout_consumers s2) st2")
      have x3: "exits run_inv (q3, st3)"
        using 2(2) [OF sl [symmetric] refl refl c [symmetric] refl False s2_def st2_def] 2(4) p3 by (simp add: st2_def)
      let ?m = "seq_act (sched_try_consume slot) (each_act sched_try_consume (ts_fanin_producers s2))"
      obtain q4 st4 where p4: "?m st3 = (q4, st4)" by (cases "?m st3")
      have "keeps run_inv ?m" by auto
      then have x4: "exits run_inv (q4, st4)" if "run_inv st3" using exits_keeps [of run_inv ?m st3] that p4 by simp
      have step: "poison_tasks message (slot # slots) st =
          (case q3 of Inl e \<Rightarrow> (Inl e, st3) | Inr _ \<Rightarrow> (case q4 of Inl e \<Rightarrow> (Inl e, st4) | Inr _ \<Rightarrow> poison_tasks message slots st4))"
        using False p3 p4 by (simp add: poison_tasks.simps(2) [of message slot slots st] sl c s2_def [symmetric] st2_def [symmetric] Let_def) (cases q3; cases q4; auto)
      show ?thesis
        using 2(3) [OF sl [symmetric] refl refl c [symmetric] refl False s2_def st2_def p3 [symmetric] _ p4 [symmetric]] x3 x4
        unfolding step by (cases q3; cases q4) (auto simp: exits_def)
    qed
  qed
qed

lemma keeps_poison [intro]: "keeps run_inv (poison_task slot message)"
  unfolding keeps_exits poison_task_def by (blast intro: poison_exits)

lemma keeps_release_consumer [intro]: "keeps run_inv (release_consumer failed message consumer)"
  unfolding release_consumer_def
  by (auto intro!: keeps_bind keeps_slot_state keeps_seq simp: Let_def case_prod_unfold)

lemma keeps_task_complete [intro]: "keeps run_inv (on_task_complete completion)"
  unfolding on_task_complete_def Let_def by (intro keeps_bind keeps_slot_state keeps_seq keeps_each) auto

lemma keeps_worker_done [intro]: "keeps run_inv (worker_done completion)"
proof -
  have r: "keeps run_inv (report_if b k)" for b k by (simp add: report_if_def keeps_report)
  have m: "keeps run_inv (modify (queue_completion k))" "keeps run_inv (modify (note_endpoint_capacity w n))"
    "keeps run_inv (modify (\<lambda>st. notify_ready (upd_slot slot f st)))" for k w n slot f
    by (auto intro!: keeps_modify)
  show ?thesis
    unfolding worker_done_def Let_def
    by (intro keeps_bind keeps_slot_state keeps_seq r m) (auto split: prod.split option.split intro!: keeps_seq r m)
qed

lemma keeps_endpoint [intro]: "keeps run_inv (endpoint_complete completion)" "keeps run_inv (endpoint_ended completion)"
proof -
  have m: "keeps run_inv (modify (note_endpoint_capacity w n))" for w n by (auto intro!: keeps_modify)
  show "keeps run_inv (endpoint_complete completion)" "keeps run_inv (endpoint_ended completion)"
    unfolding endpoint_complete_def endpoint_ended_def by (intro keeps_seq m keeps_mark_ended keeps_worker_done)+
qed

lemma keeps_drain [intro]: "keeps run_inv drain_one"
  unfolding keeps_exits [of _ drain_one] drain_one_def
  by (auto split: list.split intro!: exits_keeps [OF keeps_task_complete])

lemma run_inv_observation: "run_inv st \<Longrightarrow> run_inv (request_run_observation r st)"
proof -
  have "run_inv (upd_run r (\<lambda>r. r\<lparr>rn_observation_requested := True\<rparr>) st)" if "run_inv st" for st
    using that by (rule run_inv_upd) (simp add: same_run_def)
  then show "run_inv st \<Longrightarrow> run_inv (request_run_observation r st)"
    by (simp add: request_run_observation_def Let_def)
qed

lemma keeps_wait [intro]: "keeps run_inv (wait_run r)" "keeps run_inv (wait_run_for r expired)"
  by (auto simp: keeps_exits wait_run_def wait_run_for_def run_inv_observation split: sum.split)

end
