(* ===== verification/Orch_Calls.thy ===== *)
theory Orch_Calls
  imports Run_Safety
begin

text \<open>
  The node as a transition system: one step is one call of the facade, of an endpoint's callback or of the
  scheduler's completion loop, with any arguments. The dispatch passes of the scheduler write only task states and the
  ready queues; here they may write them in any way, so what is shown does not depend on them. The invariant of
  \<open>Run_Inv\<close> holds in every reachable state; \<open>Run_Theorems\<close> says what it means for the runs.

  A step never ends in \<open>OverflowError\<close>: the 64-bit counters of runs and of leases are not exhausted.
\<close>

section \<open>Calls\<close>

datatype OrchCall =
    ConfigurePipeline u32 u32 u32 u32
  | UpdateAdmissibleDepth u32
  | BeginRun
  | CloseRunSubmission RunId
  | FailRunSubmission RunId "exn option"
  | WaitRun RunId
  | WaitRunFor RunId bool
  | ObserveRun RunId
  | ReleaseRun RunId
  | ScopeBegin
  | ScopeEnd
  | Alloc "u32 list" u8 CanonicalIdentity bool
  | Submit SubmitRequest bool
  | EndpointComplete WorkerCompletion
  | EndpointEnded WorkerCompletion
  | EndpointAccepted TaskSlot
  | EndpointStaged TaskSlot
  | DrainCompletion

definition discard :: "('s, 'a) action \<Rightarrow> ('s, unit) action" where
  "discard m = seq_act m (ok ())"

fun perform :: "OrchCall \<Rightarrow> (Orch, unit) action" where
  "perform (ConfigurePipeline depth pending launch initial) = configure_pipeline_depth depth pending launch initial"
| "perform (UpdateAdmissibleDepth sets) = update_admissible_depth sets"
| "perform BeginRun = discard begin_run"
| "perform (CloseRunSubmission r) = close_run_submission r"
| "perform (FailRunSubmission r error) = fail_run_submission r error"
| "perform (WaitRun r) = discard (wait_run r)"
| "perform (WaitRunFor r expired) = discard (wait_run_for r expired)"
| "perform (ObserveRun r) = modify (request_run_observation r)"
| "perform (ReleaseRun r) = release_run r"
| "perform ScopeBegin = scope_begin"
| "perform ScopeEnd = scope_end"
| "perform (Alloc shape dtype identity timed_out) = discard (orch_alloc shape dtype identity timed_out)"
| "perform (Submit q timed_out) = discard (submit_impl q timed_out)"
| "perform (EndpointComplete completion) = endpoint_complete completion"
| "perform (EndpointEnded completion) = endpoint_ended completion"
| "perform (EndpointAccepted slot) = modify (mark_task_accepted slot)"
| "perform (EndpointStaged slot) = modify (endpoint_staged slot)"
| "perform DrainCompletion = drain_one"

inductive orch_step :: "Orch \<Rightarrow> Orch \<Rightarrow> bool" where
  called: "perform call st = (res, st') \<Longrightarrow> \<not> overflow res \<Longrightarrow> orch_step st st'"
| dispatched: "orch_step st (st\<lparr>o_slots := slots, o_ready_sub_queue := subs, o_ready_next_level_queues := queues\<rparr>)"

definition orch_start :: "Orch \<Rightarrow> bool" where
  "orch_start st \<longleftrightarrow> (\<exists>ring queues manager. st = new_orch ring queues manager)"

text \<open>A sequence of calls, which stops at an overflow.\<close>

fun perform_all :: "OrchCall list \<Rightarrow> Orch \<Rightarrow> Orch option" where
  "perform_all [] st = Some st"
| "perform_all (call # calls) st = (case perform call st of (res, st') \<Rightarrow> if overflow res then None else perform_all calls st')"

lemma perform_all_steps: "perform_all calls st = Some st' \<Longrightarrow> orch_step\<^sup>*\<^sup>* st st'"
proof (induction calls arbitrary: st)
  case (Cons call calls)
  obtain res st1 where p: "perform call st = (res, st1)" by (cases "perform call st")
  then have "orch_step st st1" "perform_all calls st1 = Some st'" using Cons(2) by (auto split: if_splits intro: called)
  then show ?case using Cons(1) by (meson converse_rtranclp_into_rtranclp)
qed simp

lemma perform_all_reachable:
  "perform_all calls (new_orch ring queues manager) = Some st \<Longrightarrow> reachable orch_start orch_step st"
  using perform_all_steps by (auto simp: reachable_def orch_start_def)

section \<open>The invariant\<close>

lemma keeps_discard [intro]: "keeps I m \<Longrightarrow> keeps I (discard m)"
  unfolding discard_def by (intro keeps_seq keeps_ok)

lemma keeps_perform: "keeps run_inv (perform call)"
  by (cases call) (auto intro!: keeps_modify run_inv_observation)

lemma new_orch_inv: "run_inv (new_orch ring queues manager)"
proof -
  have n: "find_run (new_orch ring queues manager) q = None" for q by (simp add: find_run_def new_orch_def)
  have "leases_ok \<lparr>ra_granted = 2, ra_sets = replicate 2 fresh_set\<rparr> [] (run_leases (new_orch ring queues manager))"
    by (auto simp: leases_ok_def run_leases_def n)
  then show ?thesis
    using n by (auto simp: run_inv_def runs_ok_def phases_ok_def leases_inv_def caught_up_def lease_complete_def new_orch_def
        kDefaultRunResourceSets_def)
qed

interpretation orch_sys: invariant_system orch_start orch_step run_inv
proof
  show "run_inv st" if "orch_start st" for st using that new_orch_inv by (auto simp: orch_start_def)
  show "run_inv st'" if "run_inv st" "orch_step st st'" for st st'
    using that(2,1)
  proof cases
    case (called call res)
    then show ?thesis using keepsD [OF keeps_perform] that(1) by blast
  next
    case dispatched
    have "run_inv (st\<lparr>o_slots := slots\<rparr>)" for slots
      using that(1) run_inv_cong [of "st\<lparr>o_slots := slots\<rparr>" st] by (simp add: find_run_def)
    then show ?thesis using dispatched by simp
  qed
qed

section \<open>A sample run of the node\<close>

text \<open>
  A node with two run-resource sets that may launch one run early: a run with one task, a second run whose
  submission fails, and a third one that is prepared behind the first.
\<close>

definition sample_request :: SubmitRequest where
  "sample_request = \<lparr>sr_worker_type = SUB, sr_target_namespace = LOCAL_PYTHON, sr_config = default_config,
     sr_args_list = [empty_args], sr_target_worker_ids = [], sr_eligible_worker_ids = [], sr_remote_sidecars = [],
     sr_domain_uses = []\<rparr>"

definition sample_calls :: "OrchCall list" where
  "sample_calls = [ConfigurePipeline 2 0 2 0, BeginRun, Submit sample_request False, CloseRunSubmission 1, BeginRun,
     FailRunSubmission 2 None, BeginRun, CloseRunSubmission 3, EndpointAccepted 0]"

lemma sample_calls_view:
  "case perform_all sample_calls (new_orch empty_ring None None) of
     None \<Rightarrow> False
   | Some st \<Rightarrow>
       (o_run_fifo st, o_active_run_id st, early_launch_prefix st, map ss_in_use (ra_sets (o_run_resources st)),
        map (\<lambda>(r, run). (r, rn_phase run, rn_lease run, rn_submission_closed run)) (o_runs st)) =
       ([1, 3], 1, [3], [True, True],
        [(1, RP_EXECUTING, \<lparr>pl_slot_id = 0, pl_reserved = 0, pl_generation = 1\<rparr>, True),
         (2, RP_FAILED, \<lparr>pl_slot_id = 0, pl_reserved = 0, pl_generation = 0\<rparr>, True),
         (3, RP_PREPARED, \<lparr>pl_slot_id = 1, pl_reserved = 0, pl_generation = 1\<rparr>, True)])"
  by code_simp

definition sample_orch :: Orch where
  "sample_orch = (case perform_all sample_calls (new_orch empty_ring None None) of
     None \<Rightarrow> new_orch empty_ring None None | Some st \<Rightarrow> st)"

lemma sample_orch_reachable: "reachable orch_start orch_step sample_orch"
  using sample_calls_view perform_all_reachable by (auto simp: sample_orch_def split: option.splits)

lemma sample_orch_view:
  "o_run_fifo sample_orch = [1, 3]" "o_active_run_id sample_orch = 1"
  "map ss_in_use (ra_sets (o_run_resources sample_orch)) = [True, True]"
  "\<exists>run. find_run sample_orch 1 = Some run \<and> rn_phase run = RP_EXECUTING \<and> pl_generation (rn_lease run) = 1"
  "\<exists>run. find_run sample_orch 2 = Some run \<and> rn_phase run = RP_FAILED"
  "\<exists>run. find_run sample_orch 3 = Some run \<and> rn_phase run = RP_PREPARED \<and> pl_generation (rn_lease run) = 1"
  "early_launch_prefix sample_orch = [3]"
proof -
  note v = sample_calls_view [folded sample_orch_def]
  obtain st where st: "perform_all sample_calls (new_orch empty_ring None None) = Some st" "sample_orch = st"
    using v by (auto simp: sample_orch_def split: option.splits)
  note w = v [unfolded st(1) option.case, folded st(2), unfolded prod.inject]
  show "o_run_fifo sample_orch = [1, 3]" "o_active_run_id sample_orch = 1" "early_launch_prefix sample_orch = [3]"
    "map ss_in_use (ra_sets (o_run_resources sample_orch)) = [True, True]" using w by blast+
  from w obtain r1 r2 r3 where r: "o_runs sample_orch = [(1, r1), (2, r2), (3, r3)]"
    "rn_phase r1 = RP_EXECUTING" "rn_phase r2 = RP_FAILED" "rn_phase r3 = RP_PREPARED"
    "pl_generation (rn_lease r1) = 1" "pl_generation (rn_lease r3) = 1"
    by (auto simp: map_eq_Cons_conv split: prod.splits)
  then show "\<exists>run. find_run sample_orch 1 = Some run \<and> rn_phase run = RP_EXECUTING \<and> pl_generation (rn_lease run) = 1"
    "\<exists>run. find_run sample_orch 2 = Some run \<and> rn_phase run = RP_FAILED"
    "\<exists>run. find_run sample_orch 3 = Some run \<and> rn_phase run = RP_PREPARED \<and> pl_generation (rn_lease run) = 1"
    by (simp_all add: find_run_def)
qed

end
