(* ===== verification/Run_Theorems.thy ===== *)
theory Run_Theorems
  imports Orch_Calls
begin

text \<open>
  What the invariant of the runs means: the leases of the runs and the sets in use correspond one to one, the
  head of the FIFO always executes, a terminal run is settled, and the queries behind staging and early launch agree
  with one another.
\<close>

section \<open>What the runs get\<close>

lemma lease_bij:
  assumes ok: "leases_ok a F L"
  shows "bij_betw (\<lambda>r. unat (pl_slot_id (the (L r)))) {r \<in> set F. leased L r} {i. i < length (ra_sets a) \<and> ss_in_use (ra_sets a ! i)}"
proof (rule bij_betwI')
  have own: "\<exists>l. L r = Some l \<and> owns a l" if "r \<in> set F" "leased L r" for r
    using leases_okD(5) [OF ok] that by (auto simp: leased_def)
  fix r q
  assume r: "r \<in> {r \<in> set F. leased L r}"
  then obtain l where l: "L r = Some l" "owns a l" using own by blast
  then show "unat (pl_slot_id (the (L r))) \<in> {i. i < length (ra_sets a) \<and> ss_in_use (ra_sets a ! i)}"
    by (auto simp: owns_def matches_generation_def)
  assume "q \<in> {r \<in> set F. leased L r}"
  then obtain k where k: "L q = Some k" "owns a k" using own by blast
  show "unat (pl_slot_id (the (L r))) = unat (pl_slot_id (the (L q))) \<longleftrightarrow> r = q"
  proof
    assume "unat (pl_slot_id (the (L r))) = unat (pl_slot_id (the (L q)))"
    then have "pl_slot_id l = pl_slot_id k" using l(1) k(1) by (auto dest: unsigned_word_eqI)
    then have "l = k" using owns_slot_inj l(2) k(2) by blast
    then show "r = q" using leases_okD(4) [OF ok] l k owns_generation by metis
  qed simp
next
  fix i
  assume "i \<in> {i. i < length (ra_sets a) \<and> ss_in_use (ra_sets a ! i)}"
  then obtain r l where "r \<in> set F" "L r = Some l" "pl_generation l \<noteq> 0" "unat (pl_slot_id l) = i"
    using leases_okD(6) [OF ok] by blast
  then show "\<exists>r \<in> {r \<in> set F. leased L r}. i = unat (pl_slot_id (the (L r)))" by (intro bexI [of _ r]) (auto simp: leased_def)
qed

lemma sorted_prefix_take:
  assumes "sorted_wrt (\<lambda>x y. P y \<longrightarrow> P x) xs"
  shows "{x \<in> set xs. P x} = set (takeWhile P xs)"
  using assms by (induction xs) auto

text \<open>
  C12: no run-resource set is shared and none leaks. In every reachable state the leases of the runs in the FIFO
  are in bijection with the sets in use, so two runs never hold the same set and a set in use always has a
  run that will return it. The holders are a prefix of the FIFO, and behind its head they are all prepared.
\<close>

theorem run_leases_exclusive:
  assumes "reachable orch_start orch_step st"
  shows "bij_betw (\<lambda>r. unat (pl_slot_id (the (run_leases st r)))) {r \<in> set (o_run_fifo st). is_leased st r}
      {i. i < length (ra_sets (o_run_resources st)) \<and> ss_in_use (ra_sets (o_run_resources st) ! i)} \<and>
    {r \<in> set (o_run_fifo st). is_leased st r} = set (takeWhile (is_leased st) (o_run_fifo st)) \<and>
    {r \<in> set (tl (o_run_fifo st)). is_leased st r} \<subseteq> Collect (run_prepared st)"
proof -
  have "leases_inv st" using orch_sys.reachable_inv [OF assms] by (simp add: run_inv_def runs_ok_def)
  then show ?thesis
    using lease_bij [of "o_run_resources st" "o_run_fifo st" "run_leases st"] sorted_prefix_take [of "is_leased st" "o_run_fifo st"]
    unfolding leases_inv_def by blast
qed

theorem run_leases_exclusive_witness:
  "\<exists>i j. bij_betw (\<lambda>r. unat (pl_slot_id (the (run_leases sample_orch r)))) {1, 3} {0, 1} \<and>
     run_leases sample_orch 1 = Some i \<and> run_leases sample_orch 3 = Some j \<and> pl_slot_id i \<noteq> pl_slot_id j"
proof -
  have l: "is_leased sample_orch 1" "is_leased sample_orch 3"
    using sample_orch_view(4,6) by (auto simp: leased_def run_leases_def)
  have "{i. i < length (ra_sets (o_run_resources sample_orch)) \<and> ss_in_use (ra_sets (o_run_resources sample_orch) ! i)} = {0, 1}"
    using sample_orch_view(3) by (auto simp: map_eq_Cons_conv less_Suc_eq nth_Cons')
  moreover have "{r \<in> set (o_run_fifo sample_orch). is_leased sample_orch r} = {1, 3}" using l sample_orch_view(1) by auto
  ultimately have b: "bij_betw (\<lambda>r. unat (pl_slot_id (the (run_leases sample_orch r)))) {1, 3} {0, 1}"
    using run_leases_exclusive [OF sample_orch_reachable] by metis
  moreover obtain i j where ij: "run_leases sample_orch 1 = Some i" "run_leases sample_orch 3 = Some j"
    using l by (auto simp: leased_def)
  moreover have "pl_slot_id i \<noteq> pl_slot_id j" using bij_betw_imp_inj_on [OF b] ij by (auto simp: inj_on_def)
  ultimately show ?thesis by blast
qed

text \<open>
  C13: the node never stalls on its own bookkeeping. In every reachable state with a run in the FIFO its head is
  the active run, it executes, it owns its lease and the scheduler may dispatch it. Leases are given in the order of the FIFO: when
  the first run of the FIFO without a lease is prepared, every set the admission depth covers is in use. (A run behind it, or behind
  a run that is not prepared, may have to wait while a set is free.)
\<close>

theorem fifo_head_executes:
  assumes "reachable orch_start orch_step st" "o_run_fifo st \<noteq> []"
  shows "o_active_run_id st = hd (o_run_fifo st) \<and> dispatchable st (hd (o_run_fifo st)) \<and>
    dispatchable_run_id st = hd (o_run_fifo st) \<and>
    (\<forall>q. find (\<lambda>r. \<not> is_leased st r) (o_run_fifo st) = Some q \<and> run_prepared st q \<longrightarrow>
       list_all ss_in_use (take (unat (o_admission_depth st)) (ra_sets (o_run_resources st))))"
proof -
  let ?h = "hd (o_run_fifo st)"
  have inv: "runs_ok st" "caught_up st" using orch_sys.reachable_inv [OF assms(1)] by (simp_all add: run_inv_def)
  then have ph: "phases_ok st" and li: "leases_inv st" by (simp_all add: runs_ok_def)
  have a: "o_active_run_id st = ?h" using inv(2) assms(2) by (simp add: caught_up_def)
  have h: "?h \<in> set (o_run_fifo st)" using assms(2) by simp
  obtain run where run: "find_run st ?h = Some run" using phases_okD(3) [OF ph h] by blast
  have ok: "run_ok st ?h run" using phases_okD(4) [OF ph run] .
  then have "is_leased st ?h" using inv(1) a by (auto simp: runs_ok_def run_ok_def)
  then have "owns (o_run_resources st) (rn_lease run)" using owns_iff_leased [OF li h run] by simp
  moreover have "rn_phase run = RP_EXECUTING" using ok h a by (auto simp: run_ok_def)
  ultimately have d: "dispatchable st ?h" using a run by (simp add: dispatchable_def)
  have "list_all ss_in_use (take (unat (o_admission_depth st)) (ra_sets (o_run_resources st)))"
    if "find (\<lambda>r. \<not> is_leased st r) (o_run_fifo st) = Some q" "run_prepared st q" for q
    using inv(2) that by (auto simp: caught_up_def lease_complete_def free_lease_def set_free_def list_all_iff list_ex_iff)
  then show ?thesis using a d by (auto simp: dispatchable_run_id_def)
qed

theorem fifo_head_executes_witness:
  "o_active_run_id sample_orch = 1 \<and> dispatchable sample_orch 1 \<and> dispatchable_run_id sample_orch = 1"
  using fifo_head_executes [OF sample_orch_reachable] sample_orch_view(1) by simp

text \<open>
  C15: a terminal run is settled. In every reachable state its submission is closed, none of its tasks is active, it
  has left the FIFO and returned its lease, and the arena does not accept that lease any more.
\<close>

theorem terminal_run_settled:
  assumes "reachable orch_start orch_step st" "find_run st r = Some run" "is_terminal (rn_phase run)"
  shows "rn_submission_closed run \<and> rn_active_tasks run = 0 \<and> r \<notin> set (o_run_fifo st) \<and> o_active_run_id st \<noteq> r \<and>
    rn_lease_released run \<and> \<not> owns (o_run_resources st) (rn_lease run)"
proof -
  have inv: "runs_ok st" "caught_up st" using orch_sys.reachable_inv [OF assms(1)] by (simp_all add: run_inv_def)
  then have ph: "phases_ok st" and li: "leases_inv st" by (simp_all add: runs_ok_def)
  have ok: "run_ok st r run" using phases_okD(4) [OF ph assms(2)] .
  then have f: "r \<notin> set (o_run_fifo st)" using assms(3) by (auto simp: run_ok_def split: if_splits)
  have "\<not> owns (o_run_resources st) (rn_lease run)"
    using owner_in_fifo [of "o_run_resources st" "o_run_fifo st" "run_leases st" r] f li assms(2)
    by (auto simp: leases_inv_def run_leases_def)
  moreover have "r \<noteq> INVALID_RUN_ID" using ok by (simp add: run_ok_def)
  then have "o_active_run_id st \<noteq> r" using phases_okD(5) [OF ph] f by (metis hd_in_set)
  ultimately show ?thesis using ok f assms(3) by (simp add: run_ok_def)
qed

theorem terminal_run_settled_witness:
  "\<exists>run. find_run sample_orch 2 = Some run \<and> rn_active_tasks run = 0 \<and> \<not> owns (o_run_resources sample_orch) (rn_lease run)"
  using terminal_run_settled [OF sample_orch_reachable] sample_orch_view(5) by (auto simp: is_terminal_def)

section \<open>Staging and early launch\<close>

lemma authorized_walk_prefix:
  "length ids = i \<Longrightarrow> r \<in> set (early_launch_walk st [i ..< m] ids) \<longleftrightarrow> r \<in> set ids \<or> authorized_walk st r [i ..< m]"
proof (induction "m - i" arbitrary: i ids)
  case (Suc n)
  then have "[i ..< m] = i # [Suc i ..< m]" by (simp add: upt_rec)
  moreover have "r \<in> set (early_launch_walk st [Suc i ..< m] (ids @ [x])) \<longleftrightarrow> r \<in> set (ids @ [x]) \<or> authorized_walk st r [Suc i ..< m]" for x
    using Suc by (intro Suc(1)) auto
  ultimately show ?case using Suc(3) by (auto simp: Let_def)
qed simp

text \<open>
  The two answers the scheduler gets about launching agree: \<open>run_activation_authorized\<close>, asked per run by an
  endpoint, holds exactly for the run that may be dispatched and the runs listed by \<open>early_launch_prefix\<close>, which
  the scheduler offers to the lanes.
\<close>

theorem activation_authorized_iff:
  "run_activation_authorized st r \<longleftrightarrow> dispatchable st r \<or> r \<in> set (early_launch_prefix st)"
  using authorized_walk_prefix [of "[]" 0 r st] by (auto simp: run_activation_authorized_def early_launch_prefix_def)

lemma successorD:
  assumes ok: "phases_ok st" and s: "early_launch_successor st i \<noteq> INVALID_RUN_ID"
  shows "Suc i < length (o_run_fifo st)" "early_launch_successor st i = o_run_fifo st ! Suc i"
    "prepared_with_lease st (o_run_fifo st ! Suc i)"
    "\<exists>run. find_run st (o_run_fifo st ! i) = Some run \<and> all_dispatches_accepted run"
  using s phases_okD(4) [OF ok]
  by (auto simp: early_launch_successor_def prepared_with_lease_def run_ok_def split: if_splits option.splits)

lemma early_launch_walk_nth:
  assumes ok: "phases_ok st"
  shows "length ids = i \<Longrightarrow> i \<le> m \<Longrightarrow> \<exists>n \<le> m. i \<le> n \<and>
     early_launch_walk st [i ..< m] ids = ids @ map (\<lambda>j. o_run_fifo st ! Suc j) [i ..< n] \<and>
     (\<forall>j \<in> {i ..< n}. Suc j < unat (o_launch_depth st) \<and> early_launch_successor st j \<noteq> INVALID_RUN_ID)"
proof (induction "m - i" arbitrary: i ids)
  case 0
  then show ?case by (intro exI [of _ i]) auto
next
  case (Suc k)
  then have u: "[i ..< m] = i # [Suc i ..< m]" by (simp add: upt_rec)
  show ?case
  proof (cases "Suc i < unat (o_launch_depth st) \<and> early_launch_successor st i \<noteq> INVALID_RUN_ID")
    case True
    have s: "early_launch_successor st i = o_run_fifo st ! Suc i" using successorD(2) [OF ok] True by blast
    have "k = m - Suc i" "Suc i \<le> m" using Suc(2) by auto
    with Suc(1) [of "Suc i" "ids @ [o_run_fifo st ! Suc i]"] Suc(3) obtain n where
      n: "n \<le> m" "Suc i \<le> n" "early_launch_walk st [Suc i ..< m] (ids @ [o_run_fifo st ! Suc i]) =
        (ids @ [o_run_fifo st ! Suc i]) @ map (\<lambda>j. o_run_fifo st ! Suc j) [Suc i ..< n]"
      "\<forall>j \<in> {Suc i ..< n}. Suc j < unat (o_launch_depth st) \<and> early_launch_successor st j \<noteq> INVALID_RUN_ID" by auto
    moreover have "[i ..< n] = i # [Suc i ..< n]" using n(2) by (simp add: upt_rec)
    moreover have "\<forall>j \<in> {i ..< n}. Suc j < unat (o_launch_depth st) \<and> early_launch_successor st j \<noteq> INVALID_RUN_ID"
      using n(4) True by (auto simp: le_less_Suc_eq Suc_le_eq)
    ultimately show ?thesis using True s Suc(3) u by (intro exI [of _ n]) (auto simp: Let_def)
  next
    case False
    then have "early_launch_walk st [i ..< m] ids = ids" using u Suc(3) by (auto simp: Let_def)
    then show ?thesis using Suc(4) by (intro exI [of _ i]) auto
  qed
qed

lemma preparable_walk_take:
  "n \<le> length xs \<Longrightarrow> (\<And>j. j < n \<Longrightarrow> prepared_with_lease st (xs ! j)) \<Longrightarrow> take n (preparable_walk st xs) = take n xs"
proof (induction xs arbitrary: n)
  case (Cons x xs)
  show ?case
  proof (cases n)
    case (Suc m)
    have "take m (preparable_walk st xs) = take m xs"
      using Cons(2) Cons(3) [of "Suc j" for j] Suc by (intro Cons(1)) auto
    then show ?thesis using Cons(3) [of 0] Suc by simp
  qed simp
qed simp

text \<open>
  C19: who may launch early. In every reachable state \<open>early_launch_prefix\<close> is a prefix of the preparable runs in
  FIFO order, shorter than the launch depth, and the run directly ahead of each member is neither terminal nor
  failed, has a closed submission and no dispatch that was not accepted.
\<close>

theorem early_launch_safe:
  assumes "reachable orch_start orch_step st"
  shows "early_launch_prefix st = take (length (early_launch_prefix st)) (preparable_run_ids st) \<and>
    (early_launch_prefix st \<noteq> [] \<longrightarrow> length (early_launch_prefix st) < unat (o_launch_depth st)) \<and>
    (\<forall>i < length (early_launch_prefix st). o_run_fifo st ! Suc i = early_launch_prefix st ! i \<and>
      (\<exists>run. find_run st (o_run_fifo st ! i) = Some run \<and> all_dispatches_accepted run))"
proof (cases "o_launch_depth st < 2 \<or> no_successor_role st")
  case True
  then show ?thesis by (simp add: early_launch_prefix_def)
next
  case False
  have ok: "phases_ok st" using orch_sys.reachable_inv [OF assms] by (simp add: run_inv_def runs_ok_def)
  let ?F = "o_run_fifo st"
  from early_launch_walk_nth [OF ok, of "[]" 0 "length ?F - 1"] obtain n where
    n: "n \<le> length ?F - 1" "early_launch_prefix st = map (\<lambda>j. ?F ! Suc j) [0 ..< n]"
    "\<And>j. j < n \<Longrightarrow> Suc j < unat (o_launch_depth st) \<and> early_launch_successor st j \<noteq> INVALID_RUN_ID"
    using False by (auto simp: early_launch_prefix_def)
  have "take n (tl ?F) = map (\<lambda>j. ?F ! Suc j) [0 ..< n]"
    using n(1) by (intro nth_equalityI) (auto simp: nth_tl)
  moreover have "take n (preparable_run_ids st) = take n (tl ?F)"
    unfolding preparable_run_ids_def using False n(1) successorD(3) [OF ok] n(3)
    by (auto simp: nth_tl intro!: preparable_walk_take)
  ultimately have p: "early_launch_prefix st = take n (preparable_run_ids st)" using n(2) by simp
  have l: "length (early_launch_prefix st) = n" "\<And>i. i < n \<Longrightarrow> early_launch_prefix st ! i = ?F ! Suc i" using n(2) by simp_all
  have "n > 0 \<longrightarrow> n < unat (o_launch_depth st)" using n(3) [of "n - 1"] by auto
  moreover have "?F ! Suc i = early_launch_prefix st ! i \<and> (\<exists>run. find_run st (?F ! i) = Some run \<and> all_dispatches_accepted run)"
    if "i < n" for i using l(2) [OF that] successorD(4) [OF ok] n(3) [OF that] by simp
  ultimately show ?thesis using p l(1) by auto
qed

theorem early_launch_safe_witness:
  "early_launch_prefix sample_orch = [3] \<and> take 1 (preparable_run_ids sample_orch) = [3] \<and>
   (\<exists>run. find_run sample_orch 1 = Some run \<and> rn_pending_accepts run = 0)"
  using early_launch_safe [OF sample_orch_reachable] sample_orch_view(1,7) by (auto simp: all_dispatches_accepted_def)

end
