(* ===== verification/Worker_Lanes.thy ===== *)
theory Worker_Lanes
  imports Task_Slot "HOL-Library.AList"
begin

text \<open>
  The lanes of one worker: \<open>WorkerThread\<close> of \<open>common/hierarchical/worker_manager.h\<close> and \<open>worker_manager.cpp\<close>. Lane 0
  is the active lane, the others hold runs staged behind it. The endpoint behind the worker is reached through the virtual
  class \<open>WorkerEndpoint\<close>; what it answers is an argument of the operation that asks, and what it reports is the argument of
  \<open>finish_progress_dispatch\<close>. An operation returns the calls it makes to the outside, in order, and the worker it leaves.

  Time stamps and traces are left out, and so are exceptions of the completion and end callbacks (the accept callback's are
  modelled, since the code records them). The observation requests of a run reach the endpoint only and are not part of the
  state; that publishing one threw is an answer of the endpoint.
\<close>

section \<open>Data\<close>

datatype MailboxPreparationDisposition = PD_NONE | PD_VALIDATED_ONLY | PD_NATIVE_PREPARED

record WorkerDispatch =
  wd_task_slot :: TaskSlot
  wd_group_index :: int
  wd_dispatch_id :: u64
  wd_prepare_only :: bool

datatype WorkerProgressKind = FRAME_STAGED | ACCEPTED | PROGRESS_COMPLETED | ENDED

record WorkerEndpointProgress =
  pr_kind :: WorkerProgressKind
  pr_dispatch :: WorkerDispatch
  pr_completion :: WorkerCompletion
  pr_preparation_disposition :: MailboxPreparationDisposition

text \<open>The fields the lanes read.\<close>

record WorkerEndpointCaps =
  cp_worker_id :: WorkerId
  cp_max_inflight_tasks :: u32
  cp_supports_frame_staging :: bool

record LaneState =
  ln_occupied :: bool
  ln_activation_requested :: bool
  ln_activation_handed_off :: bool
  ln_run_id :: RunId
  ln_dispatch_id :: u64
  ln_preparation_disposition :: MailboxPreparationDisposition

definition free_lane :: LaneState where
  "free_lane = \<lparr>ln_occupied = False, ln_activation_requested = False, ln_activation_handed_off = False,
     ln_run_id = INVALID_RUN_ID, ln_dispatch_id = 0, ln_preparation_disposition = PD_NONE\<rparr>"

record WorkerThread =
  wt_caps :: WorkerEndpointCaps
  wt_lanes :: "LaneState list"
  wt_execution_ended :: "u64 list"
  wt_shutdown :: bool
  wt_inflight :: u32
  wt_execution_inflight :: u32
  wt_next_dispatch_id :: u64
  wt_accepted :: "u64 list"
  wt_accept_errors :: "(u64 \<times> string) list"

definition MAILBOX_REQUEST_FRAMES :: nat where
  "MAILBOX_REQUEST_FRAMES = 2"

text \<open>
  What leaves the worker: the callbacks, a dispatch the endpoint has taken over, and a run handed to it for activation
  with the dispatch whose lane asked. The identity in \<open>OnComplete\<close> is the dispatch that ends, zero if it was never
  submitted.
\<close>

datatype LaneEvent =
    OnAccept WorkerDispatch
  | OnStaged WorkerDispatch
  | OnEnded WorkerCompletion
  | OnComplete u64 WorkerCompletion
  | Submitted WorkerDispatch
  | Activated u64 RunId

text \<open>The endpoint's answer to a publication. An exception may leave the dispatch with the endpoint or not.\<close>

datatype SubmitAnswer = Published bool | Threw string bool

datatype SubmitDispatchResult = SUBMITTED | STOPPING | CAPACITY_EXCEEDED | STAGED_IDENTITY_CHANGED | PUBLICATION_REPORTED

definition wt_start :: "WorkerEndpointCaps \<Rightarrow> exn + WorkerThread" where
  "wt_start caps =
     (if cp_max_inflight_tasks caps = 0 then Inl (InvalidArgument ''WorkerThread::start: endpoint capacity is zero'')
      else Inr \<lparr>wt_caps = caps, wt_lanes = replicate (unat (cp_max_inflight_tasks caps)) free_lane,
             wt_execution_ended = replicate (unat (cp_max_inflight_tasks caps) + MAILBOX_REQUEST_FRAMES) 0,
             wt_shutdown = False, wt_inflight = 0, wt_execution_inflight = 0, wt_next_dispatch_id = 1, wt_accepted = [],
             wt_accept_errors = []\<rparr>)"

section \<open>Finding and freeing lanes\<close>

definition staged_lane_count :: "WorkerThread \<Rightarrow> nat" where
  "staged_lane_count wt =
     (let inflight_cap = unat (cp_max_inflight_tasks (wt_caps wt)); usable = (if inflight_cap > 1 then inflight_cap else 1)
      in (if usable < length (wt_lanes wt) then usable else length (wt_lanes wt)) - 1)"

definition first_staged :: "(LaneState \<Rightarrow> bool) \<Rightarrow> WorkerThread \<Rightarrow> nat" where
  "first_staged P wt =
     (case find (\<lambda>i. P (wt_lanes wt ! i)) [1 ..< 1 + staged_lane_count wt] of None \<Rightarrow> length (wt_lanes wt) | Some i \<Rightarrow> i)"

definition staged_lane_of :: "RunId \<Rightarrow> WorkerThread \<Rightarrow> nat" where
  "staged_lane_of run_id = first_staged (\<lambda>l. ln_occupied l \<and> ln_run_id l = run_id)"

definition staged_lane_for_dispatch :: "u64 \<Rightarrow> WorkerThread \<Rightarrow> nat" where
  "staged_lane_for_dispatch dispatch_id = first_staged (\<lambda>l. ln_occupied l \<and> ln_dispatch_id l = dispatch_id)"

definition free_staged_lane :: "WorkerThread \<Rightarrow> nat" where
  "free_staged_lane = first_staged (\<lambda>l. \<not> ln_occupied l)"

definition set_lane :: "nat \<Rightarrow> LaneState \<Rightarrow> WorkerThread \<Rightarrow> WorkerThread" where
  "set_lane i l wt = wt\<lparr>wt_lanes := (wt_lanes wt)[i := l]\<rparr>"

definition release_lane_unconditional :: "nat \<Rightarrow> WorkerThread \<Rightarrow> WorkerThread" where
  "release_lane_unconditional i = set_lane i free_lane"

definition release_lane :: "nat \<Rightarrow> u64 \<Rightarrow> WorkerThread \<Rightarrow> WorkerThread" where
  "release_lane i dispatch_id wt = (if ln_dispatch_id (wt_lanes wt ! i) = dispatch_id then set_lane i free_lane wt else wt)"

fun free_dispatch_lane :: "u64 \<Rightarrow> LaneState list \<Rightarrow> LaneState list" where
  "free_dispatch_lane dispatch_id [] = []"
| "free_dispatch_lane dispatch_id (l # ls) =
     (if ln_occupied l \<and> ln_dispatch_id l = dispatch_id then free_lane # ls else l # free_dispatch_lane dispatch_id ls)"

fun replace_first :: "'a \<Rightarrow> 'a \<Rightarrow> 'a list \<Rightarrow> 'a list" where
  "replace_first x y [] = []"
| "replace_first x y (z # zs) = (if z = x then y # zs else z # replace_first x y zs)"

section \<open>Progress reports\<close>

text \<open>\<open>accept_error\<close> is the message of an exception of the accept callback.\<close>

definition note_accept_error :: "u64 \<Rightarrow> string option \<Rightarrow> WorkerThread \<Rightarrow> WorkerThread" where
  "note_accept_error dispatch_id accept_error wt =
     (case accept_error of
        None \<Rightarrow> wt
      | Some message \<Rightarrow> wt\<lparr>wt_accept_errors :=
          AList.update dispatch_id (''WorkerThread accept fence failed: '' @ message) (wt_accept_errors wt)\<rparr>)"

definition frame_staged :: "WorkerEndpointProgress \<Rightarrow> WorkerThread \<Rightarrow> LaneEvent list \<times> WorkerThread" where
  "frame_staged progress wt =
     (let i = staged_lane_for_dispatch (wd_dispatch_id (pr_dispatch progress)) wt in
      ([OnStaged (pr_dispatch progress)],
       if i < length (wt_lanes wt)
       then set_lane i ((wt_lanes wt ! i)\<lparr>ln_preparation_disposition := pr_preparation_disposition progress\<rparr>) wt else wt))"

definition dispatch_accepted :: "string option \<Rightarrow> WorkerDispatch \<Rightarrow> WorkerThread \<Rightarrow> LaneEvent list \<times> WorkerThread" where
  "dispatch_accepted accept_error dispatch wt =
     (let k = wd_dispatch_id dispatch in
      if k \<in> set (wt_accepted wt) then ([], wt)
      else ([OnAccept dispatch], note_accept_error k accept_error (wt\<lparr>wt_accepted := k # wt_accepted wt\<rparr>)))"

definition dispatch_ended :: "WorkerEndpointProgress \<Rightarrow> WorkerThread \<Rightarrow> LaneEvent list \<times> WorkerThread" where
  "dispatch_ended progress wt =
     (let k = wd_dispatch_id (pr_dispatch progress) in
      if k \<in> set (wt_execution_ended wt) then ([], wt)
      else if 0 \<notin> set (wt_execution_ended wt) then ([], wt\<lparr>wt_shutdown := True\<rparr>)
      else ([OnEnded (pr_completion progress)],
            wt\<lparr>wt_execution_ended := replace_first 0 k (wt_execution_ended wt),
               wt_lanes := free_dispatch_lane k (wt_lanes wt),
               wt_execution_inflight := wt_execution_inflight wt - 1\<rparr>))"

definition final_completion :: "u64 \<Rightarrow> WorkerCompletion \<Rightarrow> WorkerThread \<Rightarrow> WorkerCompletion" where
  "final_completion dispatch_id completion wt =
     (case map_of (wt_accept_errors wt) dispatch_id of
        Some message \<Rightarrow>
          if wc_outcome completion = SUCCESS
          then completion\<lparr>wc_outcome := ENDPOINT_FAILURE, wc_error_message := message\<rparr> else completion
      | None \<Rightarrow> completion)"

definition dispatch_completed :: "string option \<Rightarrow> WorkerEndpointProgress \<Rightarrow> WorkerThread \<Rightarrow> LaneEvent list \<times> WorkerThread" where
  "dispatch_completed accept_error progress wt =
     (let d = pr_dispatch progress; k = wd_dispatch_id d; accepted = (k \<in> set (wt_accepted wt));
          wt1 = wt\<lparr>wt_accepted := removeAll k (wt_accepted wt)\<rparr>;
          wt2 = (if accepted then wt1 else note_accept_error k accept_error wt1);
          completion = final_completion k (pr_completion progress) wt2;
          wt3 = wt2\<lparr>wt_accept_errors := AList.delete k (wt_accept_errors wt2),
                    wt_lanes := free_dispatch_lane k (wt_lanes wt2)\<rparr>;
          wt4 = (if k \<in> set (wt_execution_ended wt3) then wt3\<lparr>wt_execution_ended := replace_first k 0 (wt_execution_ended wt3)\<rparr>
                 else wt3\<lparr>wt_execution_inflight := wt_execution_inflight wt3 - 1\<rparr>)
      in ((if accepted then [] else [OnAccept d]) @ [OnComplete k completion], wt4\<lparr>wt_inflight := wt_inflight wt4 - 1\<rparr>))"

definition finish_progress_dispatch ::
  "string option \<Rightarrow> WorkerEndpointProgress \<Rightarrow> WorkerThread \<Rightarrow> LaneEvent list \<times> WorkerThread" where
  "finish_progress_dispatch accept_error progress wt =
     (case pr_kind progress of
        FRAME_STAGED \<Rightarrow> frame_staged progress wt
      | ACCEPTED \<Rightarrow> dispatch_accepted accept_error (pr_dispatch progress) wt
      | ENDED \<Rightarrow> dispatch_ended progress wt
      | PROGRESS_COMPLETED \<Rightarrow> dispatch_completed accept_error progress wt)"

section \<open>Submitting\<close>

definition unpublished :: "WorkerDispatch \<Rightarrow> string \<Rightarrow> WorkerCompletion" where
  "unpublished d message = \<lparr>wc_task_slot = wd_task_slot d, wc_group_index = wd_group_index d,
     wc_outcome = ENDPOINT_FAILURE, wc_error_message = message, wc_worker_id = -1, wc_admissible_run_resource_sets = 0\<rparr>"

definition complete_unpublished :: "WorkerDispatch \<Rightarrow> string \<Rightarrow> LaneEvent list" where
  "complete_unpublished d message = [OnAccept d, OnComplete 0 (unpublished d message)]"

definition fail_submission :: "string option \<Rightarrow> WorkerDispatch \<Rightarrow> string \<Rightarrow> bool \<Rightarrow> WorkerThread \<Rightarrow> LaneEvent list \<times> WorkerThread" where
  "fail_submission accept_error d reason endpoint_owned wt =
     (let wt = wt\<lparr>wt_shutdown := True\<rparr> in
      if endpoint_owned then ([Submitted d], wt)
      else finish_progress_dispatch accept_error
             \<lparr>pr_kind = PROGRESS_COMPLETED, pr_dispatch = d,
              pr_completion = unpublished d (''WorkerThread endpoint rejected publication: '' @ reason),
              pr_preparation_disposition = PD_NONE\<rparr> wt)"

definition submit_dispatch ::
  "string option \<Rightarrow> SubmitAnswer \<Rightarrow> WorkerDispatch \<Rightarrow> nat \<Rightarrow> RunId \<Rightarrow> WorkerThread \<Rightarrow>
   SubmitDispatchResult \<times> LaneEvent list \<times> WorkerThread" where
  "submit_dispatch accept_error answer d lane_index expected_run_id wt =
     (if wt_shutdown wt then (STOPPING, [], wt)
      else if wt_execution_inflight wt \<ge> cp_max_inflight_tasks (wt_caps wt) then (CAPACITY_EXCEEDED, [], wt)
      else
        let d = d\<lparr>wd_dispatch_id := wt_next_dispatch_id wt\<rparr>; l = wt_lanes wt ! lane_index in
        if \<not> ln_occupied l \<or> ln_dispatch_id l \<noteq> 0 \<or> (expected_run_id \<noteq> INVALID_RUN_ID \<and> ln_run_id l \<noteq> expected_run_id)
        then (STAGED_IDENTITY_CHANGED, [], wt)
        else
          let wt = (set_lane lane_index (l\<lparr>ln_dispatch_id := wd_dispatch_id d\<rparr>) wt)
                     \<lparr>wt_next_dispatch_id := wt_next_dispatch_id wt + 1, wt_inflight := wt_inflight wt + 1,
                      wt_execution_inflight := wt_execution_inflight wt + 1\<rparr>
          in case answer of
               Published observation_failed \<Rightarrow>
                 (SUBMITTED, [Submitted d], if observation_failed then wt\<lparr>wt_shutdown := True\<rparr> else wt)
             | Threw reason endpoint_owned \<Rightarrow>
                 (PUBLICATION_REPORTED, fail_submission accept_error d (''submit_progress failed: '' @ reason) endpoint_owned wt))"

definition is_reported :: "SubmitDispatchResult \<Rightarrow> bool" where
  "is_reported result \<longleftrightarrow> result = SUBMITTED \<or> result = PUBLICATION_REPORTED"

definition wt_dispatch :: "string option \<Rightarrow> SubmitAnswer \<Rightarrow> WorkerDispatch \<Rightarrow> WorkerThread \<Rightarrow> LaneEvent list \<times> WorkerThread" where
  "wt_dispatch accept_error answer d wt =
     (let d = d\<lparr>wd_prepare_only := False\<rparr>; active = wt_lanes wt ! 0 in
      if ln_occupied active then (complete_unpublished d ''WorkerThread::dispatch: active lane is occupied'', wt)
      else
        (case submit_dispatch accept_error answer d 0 INVALID_RUN_ID (set_lane 0 (active\<lparr>ln_occupied := True\<rparr>) wt) of
           (result, events, wt) \<Rightarrow>
             if is_reported result then (events, wt)
             else (complete_unpublished d
                     (if result = STOPPING then ''WorkerThread::dispatch: worker is stopping''
                      else ''WorkerThread::dispatch: endpoint capacity exceeded''),
                   release_lane_unconditional 0 wt)))"

text \<open>\<open>run\<close> is the run of the slot named by the dispatch, \<open>None\<close> when the ring does not know the slot.\<close>

definition dispatch_prepared ::
  "string option \<Rightarrow> SubmitAnswer \<Rightarrow> RunId option \<Rightarrow> WorkerDispatch \<Rightarrow> WorkerThread \<Rightarrow> LaneEvent list \<times> WorkerThread" where
  "dispatch_prepared accept_error answer run d wt =
     (let d = d\<lparr>wd_prepare_only := True\<rparr> in
      if \<not> cp_supports_frame_staging (wt_caps wt)
      then (complete_unpublished d ''WorkerThread::dispatch_prepared: endpoint does not support frame staging'', wt)
      else
        (case run of
           None \<Rightarrow> (complete_unpublished d ''WorkerThread::dispatch_prepared: dispatch has no run identity'', wt)
         | Some run_id \<Rightarrow>
             if run_id = INVALID_RUN_ID
             then (complete_unpublished d ''WorkerThread::dispatch_prepared: dispatch has no run identity'', wt)
             else
               let i = free_staged_lane wt in
               if i \<ge> length (wt_lanes wt)
               then (complete_unpublished d ''WorkerThread::dispatch_prepared: worker has no free staged lane'', wt)
               else
                 (case submit_dispatch accept_error answer d i run_id
                         (set_lane i ((wt_lanes wt ! i)\<lparr>ln_occupied := True, ln_run_id := run_id\<rparr>) wt) of
                    (result, events, wt) \<Rightarrow>
                      if is_reported result then (events, wt)
                      else (complete_unpublished d
                              (if result = STOPPING then ''WorkerThread::dispatch_prepared: worker is stopping''
                               else if result = CAPACITY_EXCEEDED
                               then ''WorkerThread::dispatch_prepared: endpoint capacity exceeded''
                               else ''WorkerThread::dispatch_prepared: staged lane identity changed before submission''),
                            release_lane_unconditional i wt))))"

section \<open>Activation\<close>

definition activate_prepared :: "RunId \<Rightarrow> WorkerThread \<Rightarrow> bool \<times> WorkerThread" where
  "activate_prepared run_id wt =
     (if run_id = INVALID_RUN_ID \<or> wt_shutdown wt then (False, wt)
      else
        let i = staged_lane_of run_id wt in
        if i \<ge> length (wt_lanes wt) \<or> ln_occupied (wt_lanes wt ! 0) then (False, wt)
        else
          let staged = wt_lanes wt ! i in
          if ln_dispatch_id staged = 0 then (False, wt)
          else (True, set_lane i free_lane (set_lane 0 (staged\<lparr>ln_activation_requested := True\<rparr>) wt)))"

definition authorize_staged_launch :: "RunId \<Rightarrow> WorkerThread \<Rightarrow> bool \<times> WorkerThread" where
  "authorize_staged_launch run_id wt =
     (if run_id = INVALID_RUN_ID \<or> wt_shutdown wt then (False, wt)
      else
        let i = staged_lane_of run_id wt in
        if i \<ge> length (wt_lanes wt) then (False, wt)
        else
          let staged = wt_lanes wt ! i in
          if ln_dispatch_id staged = 0 \<or> ln_preparation_disposition staged \<noteq> PD_NATIVE_PREPARED \<or> ln_activation_requested staged
          then (False, wt)
          else (True, set_lane i (staged\<lparr>ln_activation_requested := True\<rparr>) wt))"

definition has_staged_run :: "RunId \<Rightarrow> WorkerThread \<Rightarrow> bool" where
  "has_staged_run run_id wt \<longleftrightarrow> staged_lane_of run_id wt < length (wt_lanes wt)"

text \<open>
  The activation pass of \<open>progress\<close>. The endpoint answers per lane: \<open>Some b\<close> is the result of \<open>activate_progress\<close>, \<open>None\<close>
  an exception, which stops the worker.
\<close>

fun activation_pass :: "(nat \<Rightarrow> bool option) \<Rightarrow> nat list \<Rightarrow> WorkerThread \<Rightarrow> LaneEvent list \<times> WorkerThread" where
  "activation_pass answers [] wt = ([], wt)"
| "activation_pass answers (i # is) wt =
     (let l = wt_lanes wt ! i in
      if ln_occupied l \<and> ln_activation_requested l \<and> \<not> ln_activation_handed_off l \<and> ln_run_id l \<noteq> INVALID_RUN_ID then
        (case answers i of
           None \<Rightarrow> activation_pass answers is (wt\<lparr>wt_shutdown := True\<rparr>)
         | Some False \<Rightarrow> activation_pass answers is wt
         | Some True \<Rightarrow>
             (case activation_pass answers is (set_lane i (l\<lparr>ln_activation_handed_off := True\<rparr>) wt) of
                (events, wt) \<Rightarrow> (Activated (ln_dispatch_id l) (ln_run_id l) # events, wt)))
      else activation_pass answers is wt)"

text \<open>\<open>polled\<close> is what \<open>poll_progress\<close> gives: an exception stops the worker, \<open>Some None\<close> is no event.\<close>

definition wt_progress ::
  "(nat \<Rightarrow> bool option) \<Rightarrow> WorkerEndpointProgress option option \<Rightarrow> string option \<Rightarrow> WorkerThread \<Rightarrow> LaneEvent list \<times> WorkerThread" where
  "wt_progress answers polled accept_error wt =
     (case (if wt_shutdown wt then ([], wt) else activation_pass answers [0 ..< length (wt_lanes wt)] wt) of
        (events, wt) \<Rightarrow>
          (case polled of
             None \<Rightarrow> (events, wt\<lparr>wt_shutdown := True\<rparr>)
           | Some None \<Rightarrow> (events, wt)
           | Some (Some progress) \<Rightarrow>
               (case finish_progress_dispatch accept_error progress wt of (events', wt) \<Rightarrow> (events @ events', wt))))"

section \<open>Gates\<close>

text \<open>\<open>transport\<close> is what the endpoint's \<open>available_request_transport\<close> answers.\<close>

definition idle :: "WorkerThread \<Rightarrow> bool" where
  "idle wt \<longleftrightarrow> \<not> ln_occupied (wt_lanes wt ! 0)"

definition can_dispatch :: "nat \<Rightarrow> WorkerThread \<Rightarrow> bool" where
  "can_dispatch transport wt \<longleftrightarrow> \<not> ln_occupied (wt_lanes wt ! 0) \<and> transport > 0"

definition can_stage :: "nat \<Rightarrow> WorkerThread \<Rightarrow> bool" where
  "can_stage transport wt \<longleftrightarrow>
     cp_supports_frame_staging (wt_caps wt) \<and> wt_execution_inflight wt < cp_max_inflight_tasks (wt_caps wt) \<and>
     free_staged_lane wt < length (wt_lanes wt) \<and> transport > 0"

definition busy :: "WorkerThread \<Rightarrow> bool" where
  "busy wt \<longleftrightarrow> wt_inflight wt \<noteq> 0"

definition wt_stop :: "WorkerThread \<Rightarrow> WorkerThread" where
  "wt_stop wt = wt\<lparr>wt_shutdown := True\<rparr>"

end
