(* ===== verification/Lane_Safety.thy ===== *)
theory Lane_Safety
  imports Worker_Lanes "HOL-Library.Multiset"
begin

text \<open>
  The lanes of \<open>Worker_Lanes\<close> over every sequence of dispatches, activations, authorisations and reports. The
  endpoint is constrained only by the contract of \<open>WorkerEndpoint\<close>: it reports on dispatches it has taken over, and a
  completion ends its ownership.
\<close>

section \<open>Worker and endpoint\<close>

text \<open>
  The dispatches the endpoint owns, how many were handed to the worker, how many completions came out, and the
  dispatches for which an activation was handed over.
\<close>

record lane_world =
  lw_wt :: WorkerThread
  lw_owned :: "u64 list"
  lw_taken :: nat
  lw_finished :: nat
  lw_activated :: "u64 list"

fun observe :: "LaneEvent \<Rightarrow> lane_world \<Rightarrow> lane_world" where
  "observe (Submitted d) w = w\<lparr>lw_owned := lw_owned w @ [wd_dispatch_id d]\<rparr>"
| "observe (OnComplete k _) w = w\<lparr>lw_owned := remove1 k (lw_owned w), lw_finished := lw_finished w + 1\<rparr>"
| "observe (Activated k _) w = w\<lparr>lw_activated := lw_activated w @ [k]\<rparr>"
| "observe _ w = w"

definition after :: "lane_world \<Rightarrow> LaneEvent list \<times> WorkerThread \<Rightarrow> lane_world" where
  "after w outcome = (fold observe (fst outcome) w)\<lparr>lw_wt := snd outcome\<rparr>"

definition owned_report :: "lane_world \<Rightarrow> WorkerEndpointProgress option option \<Rightarrow> bool" where
  "owned_report w polled \<longleftrightarrow>
     (case polled of Some (Some progress) \<Rightarrow> wd_dispatch_id (pr_dispatch progress) \<in> set (lw_owned w) | _ \<Rightarrow> True)"

inductive lane_step :: "lane_world \<Rightarrow> lane_world \<Rightarrow> bool" where
  dispatch: "lane_step w (after (w\<lparr>lw_taken := lw_taken w + 1\<rparr>) (wt_dispatch accept_error answer d (lw_wt w)))"
  if "wt_next_dispatch_id (lw_wt w) \<noteq> UINT64_MAX"
| stage: "lane_step w (after (w\<lparr>lw_taken := lw_taken w + 1\<rparr>) (dispatch_prepared accept_error answer run d (lw_wt w)))"
  if "wt_next_dispatch_id (lw_wt w) \<noteq> UINT64_MAX"
| activate: "lane_step w (w\<lparr>lw_wt := snd (activate_prepared r (lw_wt w))\<rparr>)"
| authorize: "lane_step w (w\<lparr>lw_wt := snd (authorize_staged_launch r (lw_wt w))\<rparr>)"
| progress: "lane_step w (after w (wt_progress answers polled accept_error (lw_wt w)))"
  if "owned_report w polled"
| stop: "lane_step w (w\<lparr>lw_wt := wt_stop (lw_wt w)\<rparr>)"

definition lane_start :: "lane_world \<Rightarrow> bool" where
  "lane_start w \<longleftrightarrow> (\<exists>caps wt. wt_start caps = Inr wt \<and>
     w = \<lparr>lw_wt = wt, lw_owned = [], lw_taken = 0, lw_finished = 0, lw_activated = []\<rparr>)"

section \<open>The invariant\<close>

definition nonzero :: "u64 list \<Rightarrow> u64 list" where
  "nonzero = filter (\<lambda>k. k \<noteq> 0)"

abbreviation lane_ids :: "LaneState list \<Rightarrow> u64 list" where
  "lane_ids ls \<equiv> nonzero (map ln_dispatch_id ls)"

definition lanes_wf :: "LaneState list \<Rightarrow> bool" where
  "lanes_wf ls \<longleftrightarrow> (\<forall>l \<in> set ls. if ln_occupied l then ln_dispatch_id l \<noteq> 0 else l = free_lane)"

definition wt_ok :: "WorkerThread \<Rightarrow> u64 list \<Rightarrow> bool" where
  "wt_ok wt owned \<longleftrightarrow>
     length (wt_lanes wt) = unat (cp_max_inflight_tasks (wt_caps wt)) \<and> cp_max_inflight_tasks (wt_caps wt) \<noteq> 0 \<and>
     lanes_wf (wt_lanes wt) \<and> distinct owned \<and>
     mset owned = mset (lane_ids (wt_lanes wt)) + mset (nonzero (wt_execution_ended wt)) \<and>
     (\<forall>k \<in> set owned. k < wt_next_dispatch_id wt) \<and> wt_next_dispatch_id wt \<noteq> 0 \<and>
     wt_execution_inflight wt = of_nat (length (lane_ids (wt_lanes wt))) \<and> wt_inflight wt = of_nat (length owned)"

definition activated_ok :: "WorkerThread \<Rightarrow> u64 list \<Rightarrow> bool" where
  "activated_ok wt acts \<longleftrightarrow>
     distinct acts \<and> (\<forall>k \<in> set acts. k < wt_next_dispatch_id wt) \<and>
     (\<forall>l \<in> set (wt_lanes wt). ln_occupied l \<and> \<not> ln_activation_handed_off l \<longrightarrow> ln_dispatch_id l \<notin> set acts)"

definition lane_inv :: "lane_world \<Rightarrow> bool" where
  "lane_inv w \<longleftrightarrow> wt_ok (lw_wt w) (lw_owned w) \<and> activated_ok (lw_wt w) (lw_activated w) \<and>
     lw_taken w = lw_finished w + length (lw_owned w)"

section \<open>Lists of lanes\<close>

lemma nonzero_simps [simp]:
  "nonzero [] = []" "nonzero (k # ks) = (if k = 0 then nonzero ks else k # nonzero ks)" "nonzero (ks @ js) = nonzero ks @ nonzero js"
  "set (nonzero ks) = {k \<in> set ks. k \<noteq> 0}"
  by (auto simp: nonzero_def)

lemma lane_ids_update:
  assumes "i < length ls"
  shows "mset (lane_ids (ls[i := l])) + mset (lane_ids [ls ! i]) = mset (lane_ids ls) + mset (lane_ids [l])"
proof -
  obtain us vs where "ls = us @ ls ! i # vs" "length us = i" using assms id_take_nth_drop [OF assms] by (metis length_take less_imp_le_nat min.absorb2)
  then obtain x where "ls = us @ x # vs" "i = length us" by blast
  then show ?thesis by simp
qed

lemma lanes_wf_update: "lanes_wf ls \<Longrightarrow> (if ln_occupied l then ln_dispatch_id l \<noteq> 0 else l = free_lane) \<Longrightarrow> lanes_wf (ls[i := l])"
  by (auto simp: lanes_wf_def dest!: set_update_subset_insert [THEN subsetD])

lemma free_lane_ids [simp]: "ln_dispatch_id free_lane = 0" "\<not> ln_occupied free_lane"
  by (simp_all add: free_lane_def)

lemma lanes_wf_occupied: "lanes_wf ls \<Longrightarrow> l \<in> set ls \<Longrightarrow> ln_occupied l \<longleftrightarrow> ln_dispatch_id l \<noteq> 0"
  by (auto simp: lanes_wf_def split: if_splits)

lemma lanes_wf_Cons [simp]:
  "lanes_wf []" "lanes_wf (l # ls) \<longleftrightarrow> (if ln_occupied l then ln_dispatch_id l \<noteq> 0 else l = free_lane) \<and> lanes_wf ls"
  by (auto simp: lanes_wf_def)

lemma free_dispatch_lane_ids:
  assumes "lanes_wf ls" "k \<noteq> 0"
  shows "mset (lane_ids (free_dispatch_lane k ls)) = mset (lane_ids ls) - {#k#}"
  using assms
proof (induction ls)
  case (Cons l ls)
  show ?case
  proof (cases "ln_occupied l")
    case True
    then show ?thesis using Cons by (cases "ln_dispatch_id l = k") simp_all
  next
    case False
    then have "l = free_lane" "lanes_wf ls" using Cons(2) by simp_all
    then show ?thesis using Cons(1,3) by simp
  qed
qed simp

lemma free_dispatch_lane_wf:
  "lanes_wf ls \<Longrightarrow> lanes_wf (free_dispatch_lane k ls)" "set (free_dispatch_lane k ls) \<subseteq> insert free_lane (set ls)"
  "length (free_dispatch_lane k ls) = length ls"
  by (induction ls) auto

lemma replace_zero: "0 \<in> set ks \<Longrightarrow> k \<noteq> 0 \<Longrightarrow> mset (nonzero (replace_first 0 k ks)) = add_mset k (mset (nonzero ks))"
  by (induction ks) auto

lemma replace_ended: "k \<noteq> 0 \<Longrightarrow> mset (nonzero (replace_first k 0 ks)) = mset (nonzero ks) - {#k#}"
  by (induction ks) auto

section \<open>Reports\<close>

lemma note_accept_error_fields [simp]:
  "wt_caps (note_accept_error k e wt) = wt_caps wt" "wt_lanes (note_accept_error k e wt) = wt_lanes wt"
  "wt_execution_ended (note_accept_error k e wt) = wt_execution_ended wt" "wt_next_dispatch_id (note_accept_error k e wt) = wt_next_dispatch_id wt"
  "wt_execution_inflight (note_accept_error k e wt) = wt_execution_inflight wt" "wt_inflight (note_accept_error k e wt) = wt_inflight wt"
  by (simp_all add: note_accept_error_def split: option.splits)

lemma completed_fields:
  fixes e wt
  assumes "k = wd_dispatch_id (pr_dispatch p)"
  defines "wt' \<equiv> snd (dispatch_completed e p wt)"
  shows "wt_caps wt' = wt_caps wt" "wt_lanes wt' = free_dispatch_lane k (wt_lanes wt)" "wt_next_dispatch_id wt' = wt_next_dispatch_id wt"
    "wt_execution_ended wt' = (if k \<in> set (wt_execution_ended wt) then replace_first k 0 (wt_execution_ended wt) else wt_execution_ended wt)"
    "wt_execution_inflight wt' = (if k \<in> set (wt_execution_ended wt) then wt_execution_inflight wt else wt_execution_inflight wt - 1)"
    "wt_inflight wt' = wt_inflight wt - 1"
    "\<exists>evs c. fst (dispatch_completed e p wt) = evs @ [OnComplete k c] \<and> fold observe evs = id"
  using assms by (auto simp: dispatch_completed_def Let_def)

lemma wt_ok_lookup:
  assumes "wt_ok wt owned" "k \<in> set owned"
  shows "k \<noteq> 0" "k \<in> set (wt_execution_ended wt) \<longleftrightarrow> k \<notin> set (lane_ids (wt_lanes wt))"
proof -
  have m: "mset owned = mset (lane_ids (wt_lanes wt)) + mset (nonzero (wt_execution_ended wt))" and d: "distinct owned"
    using assms(1) by (simp_all add: wt_ok_def)
  have "k \<in># mset (lane_ids (wt_lanes wt)) + mset (nonzero (wt_execution_ended wt))" using assms(2) unfolding m [symmetric] by simp
  then show k: "k \<noteq> 0" by auto
  have "distinct (lane_ids (wt_lanes wt) @ nonzero (wt_execution_ended wt))" using d m by (metis mset_append mset_eq_imp_distinct_iff)
  then show "k \<in> set (wt_execution_ended wt) \<longleftrightarrow> k \<notin> set (lane_ids (wt_lanes wt))"
    using k \<open>k \<in># _\<close> by auto
qed

lemma of_nat_pred: "xs \<noteq> [] \<Longrightarrow> (of_nat (length xs - Suc 0) :: u32) = of_nat (length xs) - 1"
  by (cases xs) auto

lemma completed_ok:
  assumes ok: "wt_ok wt owned" and k: "wd_dispatch_id (pr_dispatch p) \<in> set owned"
  shows "wt_ok (snd (dispatch_completed e p wt)) (remove1 (wd_dispatch_id (pr_dispatch p)) owned)"
proof -
  define k where "k = wd_dispatch_id (pr_dispatch p)"
  note f = completed_fields [OF k_def, of e wt]
  have wf: "lanes_wf (wt_lanes wt)" and m: "mset owned = mset (lane_ids (wt_lanes wt)) + mset (nonzero (wt_execution_ended wt))"
    and x: "wt_execution_inflight wt = of_nat (length (lane_ids (wt_lanes wt)))" using ok by (simp_all add: wt_ok_def)
  note look = wt_ok_lookup [OF ok k [folded k_def]]
  note fl = free_dispatch_lane_ids [OF wf look(1)]
  have len: "length (lane_ids (free_dispatch_lane k (wt_lanes wt))) =
      (if k \<in> set (wt_execution_ended wt) then length (lane_ids (wt_lanes wt)) else length (lane_ids (wt_lanes wt)) - 1)"
    using arg_cong [OF fl, of size] look by (simp add: size_Diff_singleton_if)
  have pos: "length (lane_ids (wt_lanes wt)) > 0" if "k \<notin> set (wt_execution_ended wt)" using look(2) that by (cases "lane_ids (wt_lanes wt)") auto
  have own: "length owned > 0" using k by (cases owned) auto
  have "mset (remove1 k owned) = mset (lane_ids (free_dispatch_lane k (wt_lanes wt))) +
      mset (nonzero (wt_execution_ended (snd (dispatch_completed e p wt))))"
    using look unfolding f fl by (auto simp: m replace_ended)
  then show ?thesis
    using ok k pos own unfolding k_def [symmetric] wt_ok_def f
    by (auto simp: free_dispatch_lane_wf len x length_remove1 of_nat_pred dest: set_remove1_subset [THEN subsetD] split: if_splits)
qed

lemma ended_ok:
  assumes ok: "wt_ok wt owned" and k: "wd_dispatch_id (pr_dispatch p) \<in> set owned"
  shows "wt_ok (snd (dispatch_ended p wt)) owned"
proof (cases "wd_dispatch_id (pr_dispatch p) \<notin> set (wt_execution_ended wt) \<and> 0 \<in> set (wt_execution_ended wt)")
  case False
  then show ?thesis using ok by (auto simp: dispatch_ended_def Let_def wt_ok_def)
next
  case True
  define k where "k = wd_dispatch_id (pr_dispatch p)"
  have wf: "lanes_wf (wt_lanes wt)" and m: "mset owned = mset (lane_ids (wt_lanes wt)) + mset (nonzero (wt_execution_ended wt))"
    using ok by (simp_all add: wt_ok_def)
  note look = wt_ok_lookup [OF ok k [folded k_def]]
  note fl = free_dispatch_lane_ids [OF wf look(1)]
  have lk: "k \<in> set (lane_ids (wt_lanes wt))" using look(2) True k_def by blast
  have len: "length (lane_ids (free_dispatch_lane k (wt_lanes wt))) = length (lane_ids (wt_lanes wt)) - 1"
    using arg_cong [OF fl, of size] lk by (simp add: size_Diff_singleton_if)
  have ne: "lane_ids (wt_lanes wt) \<noteq> []" using lk by (cases "lane_ids (wt_lanes wt)") auto
  have "mset (lane_ids (free_dispatch_lane k (wt_lanes wt))) + mset (nonzero (replace_first 0 k (wt_execution_ended wt))) = mset owned"
    unfolding fl m using True look(1) lk by (simp add: replace_zero)
  then show ?thesis
    using ok True ne by (simp add: dispatch_ended_def Let_def k_def [symmetric] wt_ok_def free_dispatch_lane_wf len of_nat_pred)
qed

lemma set_lane_fields [simp]:
  "wt_caps (set_lane i l wt) = wt_caps wt" "wt_lanes (set_lane i l wt) = (wt_lanes wt)[i := l]" "wt_shutdown (set_lane i l wt) = wt_shutdown wt"
  "wt_execution_ended (set_lane i l wt) = wt_execution_ended wt" "wt_next_dispatch_id (set_lane i l wt) = wt_next_dispatch_id wt"
  "wt_execution_inflight (set_lane i l wt) = wt_execution_inflight wt" "wt_inflight (set_lane i l wt) = wt_inflight wt"
  by (simp_all add: set_lane_def)

text \<open>Writing a lane without changing whether it is occupied and by which dispatch.\<close>

lemma set_lane_ok:
  assumes ok: "wt_ok wt owned" and i: "i < length (wt_lanes wt)"
    and l: "ln_dispatch_id l = ln_dispatch_id (wt_lanes wt ! i)" "ln_occupied l" "ln_occupied (wt_lanes wt ! i)"
  shows "wt_ok (set_lane i l wt) owned"
proof -
  have wf: "lanes_wf (wt_lanes wt)" using ok by (simp add: wt_ok_def)
  have m: "map ln_dispatch_id ((wt_lanes wt)[i := l]) = map ln_dispatch_id (wt_lanes wt)"
    using l(1) i by (simp add: map_update list_update_same_conv)
  have "ln_dispatch_id l \<noteq> 0" using lanes_wf_occupied [OF wf nth_mem [OF i]] l by simp
  then have "lanes_wf ((wt_lanes wt)[i := l])" using lanes_wf_update [OF wf] l(2) by simp
  then show ?thesis using ok m by (simp add: wt_ok_def)
qed

lemma find_SomeD: "find P xs = Some x \<Longrightarrow> P x \<and> x \<in> set xs"
  by (auto simp: find_Some_iff)

lemma first_stagedD:
  assumes "first_staged P wt < length (wt_lanes wt)"
  shows "P (wt_lanes wt ! first_staged P wt)" "0 < first_staged P wt"
proof -
  obtain i where i: "find (\<lambda>i. P (wt_lanes wt ! i)) [1 ..< 1 + staged_lane_count wt] = Some i" "first_staged P wt = i"
    using assms by (auto simp: first_staged_def split: option.splits)
  show "P (wt_lanes wt ! first_staged P wt)" "0 < first_staged P wt" using find_SomeD [OF i(1)] i(2) by auto
qed

lemmas staged_laneD = first_stagedD [of "\<lambda>l. ln_occupied l \<and> ln_run_id l = r" for r, folded staged_lane_of_def]
  first_stagedD [of "\<lambda>l. ln_occupied l \<and> ln_dispatch_id l = k" for k, folded staged_lane_for_dispatch_def]
  first_stagedD [of "\<lambda>l. \<not> ln_occupied l", folded free_staged_lane_def]

lemma staged_ok:
  assumes "wt_ok wt owned"
  shows "wt_ok (snd (frame_staged p wt)) owned"
  using assms set_lane_ok [OF assms] staged_laneD(3) [of "wd_dispatch_id (pr_dispatch p)" wt] by (auto simp: frame_staged_def Let_def)

lemma accepted_ok: "wt_ok wt owned \<Longrightarrow> wt_ok (snd (dispatch_accepted e d wt)) owned"
  by (simp add: dispatch_accepted_def Let_def wt_ok_def)

section \<open>Submissions\<close>

text \<open>The state while a dispatch is being submitted: one lane is taken but carries no dispatch yet.\<close>

lemma submitted_ok:
  assumes ok: "wt_ok wt owned" and i: "i < length (wt_lanes wt)" "\<not> ln_occupied (wt_lanes wt ! i)"
    and l: "ln_occupied l" "ln_dispatch_id l = wt_next_dispatch_id wt" and k: "wt_next_dispatch_id wt \<noteq> UINT64_MAX"
  shows "wt_ok ((set_lane i l wt)\<lparr>wt_next_dispatch_id := wt_next_dispatch_id wt + 1, wt_inflight := wt_inflight wt + 1,
      wt_execution_inflight := wt_execution_inflight wt + 1\<rparr>) (owned @ [wt_next_dispatch_id wt])" (is "wt_ok ?wt _")
proof -
  let ?k = "wt_next_dispatch_id wt"
  have wf: "lanes_wf (wt_lanes wt)" and k0: "?k \<noteq> 0" and own: "\<forall>k \<in> set owned. k < ?k" using ok by (simp_all add: wt_ok_def)
  have "wt_lanes wt ! i = free_lane" using wf i by (auto simp: lanes_wf_def)
  then have m: "mset (lane_ids ((wt_lanes wt)[i := l])) = add_mset ?k (mset (lane_ids (wt_lanes wt)))"
    using lane_ids_update [OF i(1), of l] l(2) k0 by simp
  have len: "length (lane_ids ((wt_lanes wt)[i := l])) = Suc (length (lane_ids (wt_lanes wt)))" using arg_cong [OF m, of size] by simp
  have up: "?k < ?k + 1" "?k + 1 \<noteq> 0" using inc_gt [OF k] by simp_all
  have lt: "\<forall>q \<in> set (owned @ [?k]). q < ?k + 1" using own up(1) by (auto intro: less_trans)
  have "lanes_wf ((wt_lanes wt)[i := l])" using lanes_wf_update [OF wf] l k0 by simp
  then show ?thesis using ok own m len up lt by (auto simp: wt_ok_def)
qed

lemma activated_mono:
  assumes "activated_ok wt acts" "wt_next_dispatch_id wt \<le> wt_next_dispatch_id wt'"
    "\<And>l. l \<in> set (wt_lanes wt') \<Longrightarrow> ln_occupied l \<Longrightarrow> \<not> ln_activation_handed_off l \<Longrightarrow>
       (\<exists>l' \<in> set (wt_lanes wt). ln_occupied l' \<and> \<not> ln_activation_handed_off l' \<and> ln_dispatch_id l' = ln_dispatch_id l) \<or>
       wt_next_dispatch_id wt \<le> ln_dispatch_id l"
  shows "activated_ok wt' acts"
  unfolding activated_ok_def
proof (intro conjI ballI impI)
  show "distinct acts" using assms(1) by (simp add: activated_ok_def)
  show "k < wt_next_dispatch_id wt'" if "k \<in> set acts" for k
    using assms(1,2) that by (auto simp: activated_ok_def)
  show "ln_dispatch_id l \<notin> set acts" if "l \<in> set (wt_lanes wt')" "ln_occupied l \<and> \<not> ln_activation_handed_off l" for l
    using assms(1) assms(3) [OF that(1)] that(2) unfolding activated_ok_def by (metis leD)
qed

lemma activated_subset:
  "activated_ok wt acts \<Longrightarrow> wt_next_dispatch_id wt' = wt_next_dispatch_id wt \<Longrightarrow> set (wt_lanes wt') \<subseteq> insert free_lane (set (wt_lanes wt)) \<Longrightarrow>
   activated_ok wt' acts"
  by (rule activated_mono) auto

lemma activated_update:
  assumes "activated_ok wt acts" "i < length (wt_lanes wt)"
    "ln_dispatch_id l = ln_dispatch_id (wt_lanes wt ! i)" "ln_activation_handed_off l = ln_activation_handed_off (wt_lanes wt ! i)"
    "ln_occupied l = ln_occupied (wt_lanes wt ! i)"
  shows "activated_ok (set_lane i l wt) acts"
  using assms by (intro activated_mono [OF assms(1)]) (auto dest!: set_update_subset_insert [THEN subsetD])

lemma report_inv:
  assumes inv: "lane_inv w" and k: "wd_dispatch_id (pr_dispatch p) \<in> set (lw_owned w)"
  shows "lane_inv (after w (finish_progress_dispatch e p (lw_wt w)))"
proof -
  let ?wt = "lw_wt w" and ?k = "wd_dispatch_id (pr_dispatch p)"
  have ok: "wt_ok ?wt (lw_owned w)" "activated_ok ?wt (lw_activated w)" "lw_taken w = lw_finished w + length (lw_owned w)"
    using inv by (simp_all add: lane_inv_def)
  show ?thesis
  proof (cases "pr_kind p")
    case FRAME_STAGED
    have "activated_ok (snd (frame_staged p ?wt)) (lw_activated w)"
      using activated_update [OF ok(2)] ok(2) by (simp add: frame_staged_def Let_def)
    then show ?thesis using staged_ok [OF ok(1), of p] ok FRAME_STAGED
      by (simp add: finish_progress_dispatch_def after_def lane_inv_def) (simp add: frame_staged_def Let_def)
  next
    case ACCEPTED
    have "activated_ok (snd (dispatch_accepted e (pr_dispatch p) ?wt)) (lw_activated w)"
      using ok(2) by (rule activated_subset) (auto simp: dispatch_accepted_def Let_def)
    moreover have "fold observe (fst (dispatch_accepted e (pr_dispatch p) ?wt)) w = w" by (simp add: dispatch_accepted_def Let_def)
    ultimately show ?thesis using accepted_ok [OF ok(1)] ok ACCEPTED
      by (simp add: finish_progress_dispatch_def after_def lane_inv_def)
  next
    case ENDED
    have "activated_ok (snd (dispatch_ended p ?wt)) (lw_activated w)"
      using ok(2) free_dispatch_lane_wf(2) by (intro activated_subset [OF ok(2)]) (auto simp: dispatch_ended_def Let_def)
    moreover have "fold observe (fst (dispatch_ended p ?wt)) w = w" by (simp add: dispatch_ended_def Let_def)
    ultimately show ?thesis using ended_ok [OF ok(1) k] ok ENDED
      by (simp add: finish_progress_dispatch_def after_def lane_inv_def)
  next
    case PROGRESS_COMPLETED
    note f = completed_fields [of ?k p e ?wt, OF refl]
    have "activated_ok (snd (dispatch_completed e p ?wt)) (lw_activated w)"
      using free_dispatch_lane_wf(2) by (intro activated_subset [OF ok(2)]) (simp_all add: f)
    moreover obtain evs c where "fst (dispatch_completed e p ?wt) = evs @ [OnComplete ?k c]" "fold observe evs = id" using f(7) by blast
    moreover have "length (lw_owned w) > 0" using k by (cases "lw_owned w") auto
    ultimately show ?thesis using completed_ok [OF ok(1) k, of e] ok k PROGRESS_COMPLETED
      by (simp add: finish_progress_dispatch_def after_def lane_inv_def length_remove1)
  qed
qed

lemma free_slot:
  assumes "wt_ok wt owned" "i < length (wt_lanes wt)" "\<not> ln_occupied (wt_lanes wt ! i)"
  shows "wt_lanes wt ! i = free_lane" "set_lane i free_lane (set_lane i l wt) = wt"
proof -
  show f: "wt_lanes wt ! i = free_lane" using assms by (auto simp: wt_ok_def lanes_wf_def)
  show "set_lane i free_lane (set_lane i l wt) = wt" using list_update_id [of "wt_lanes wt" i] f by (simp add: set_lane_def)
qed

text \<open>The gate of \<open>submit_dispatch\<close>: a worker that runs and has a free lane has capacity.\<close>

lemma occupied_count:
  assumes ok: "wt_ok wt owned" and i: "i < length (wt_lanes wt)" "\<not> ln_occupied (wt_lanes wt ! i)"
  shows "wt_execution_inflight wt < cp_max_inflight_tasks (wt_caps wt)"
proof -
  let ?n = "length (lane_ids (wt_lanes wt))"
  have "ln_dispatch_id (wt_lanes wt ! i) = 0" using free_slot(1) [OF ok i] by simp
  then have "0 \<in> set (map ln_dispatch_id (wt_lanes wt))" using i(1) by (metis length_map nth_map nth_mem)
  then have lt: "?n < length (map ln_dispatch_id (wt_lanes wt))" unfolding nonzero_def by (rule length_filter_less) simp
  moreover have "length (wt_lanes wt) = unat (cp_max_inflight_tasks (wt_caps wt))" "wt_execution_inflight wt = of_nat ?n"
    using ok by (simp_all add: wt_ok_def)
  moreover have "unat (cp_max_inflight_tasks (wt_caps wt)) < 4294967296" by (rule unat_u32_bound)
  ultimately show ?thesis unfolding word_less_nat_alt by (simp add: unat_of_nat take_bit_nat_eq_self)
qed

lemma lane_inv_shutdown: "lane_inv v \<Longrightarrow> lane_inv (v\<lparr>lw_wt := (lw_wt v)\<lparr>wt_shutdown := True\<rparr>\<rparr>)"
  by (simp add: lane_inv_def wt_ok_def activated_ok_def)

lemma fail_submission_inv:
  assumes inv: "lane_inv (w\<lparr>lw_owned := lw_owned w @ [wd_dispatch_id d], lw_wt := wt\<rparr>)" (is "lane_inv ?v")
    and new: "wd_dispatch_id d \<notin> set (lw_owned w)"
  shows "lane_inv (after w (fail_submission e d reason owned wt))"
proof (cases owned)
  case True
  then show ?thesis using lane_inv_shutdown [OF inv] by (simp add: fail_submission_def after_def)
next
  case False
  let ?wt = "wt\<lparr>wt_shutdown := True\<rparr>" and ?k = "wd_dispatch_id d"
  define p where "p = \<lparr>pr_kind = PROGRESS_COMPLETED, pr_dispatch = d,
    pr_completion = unpublished d (''WorkerThread endpoint rejected publication: '' @ reason), pr_preparation_disposition = PD_NONE\<rparr>"
  have p: "pr_kind p = PROGRESS_COMPLETED" "pr_dispatch p = d" by (simp_all add: p_def)
  have f: "fail_submission e d reason owned wt = finish_progress_dispatch e p ?wt"
    unfolding fail_submission_def p_def Let_def using False by simp
  have "lane_inv (?v\<lparr>lw_wt := ?wt\<rparr>)" using lane_inv_shutdown [OF inv] by simp
  from report_inv [OF this, of p e] have r: "lane_inv (after (?v\<lparr>lw_wt := ?wt\<rparr>) (finish_progress_dispatch e p ?wt))" using p by simp
  obtain evs c where ev: "fst (dispatch_completed e p ?wt) = evs @ [OnComplete ?k c]" "fold observe evs = id"
    using completed_fields(7) [of ?k p e ?wt] p by auto
  have "after (?v\<lparr>lw_wt := ?wt\<rparr>) (finish_progress_dispatch e p ?wt) = after w (finish_progress_dispatch e p ?wt)"
    using p ev new by (simp add: after_def finish_progress_dispatch_def remove1_append remove1_idem)
  then show ?thesis using r f by simp
qed

text \<open>A dispatch whose lane was just taken: it is submitted or the worker is as before.\<close>

lemma submit_inv:
  assumes inv: "lane_inv w" and wt: "wt = lw_wt w" and i: "i < length (wt_lanes wt)" "\<not> ln_occupied (wt_lanes wt ! i)"
    and l: "ln_occupied l" "ln_dispatch_id l = 0" and k: "wt_next_dispatch_id wt \<noteq> UINT64_MAX"
    and s: "submit_dispatch e a d i r (set_lane i l wt) = (res, evs, wt')"
  shows "if is_reported res then lane_inv (after (w\<lparr>lw_taken := lw_taken w + 1\<rparr>) (evs, wt')) else evs = [] \<and> wt' = set_lane i l wt"
    "\<not> wt_shutdown wt \<Longrightarrow> r = INVALID_RUN_ID \<or> ln_run_id l = r \<Longrightarrow> is_reported res"
proof -
  let ?k = "wt_next_dispatch_id wt"
  define d' where "d' = d\<lparr>wd_dispatch_id := ?k\<rparr>"
  define wt1 where "wt1 = (set_lane i (l\<lparr>ln_dispatch_id := ?k\<rparr>) wt)\<lparr>wt_next_dispatch_id := ?k + 1, wt_inflight := wt_inflight wt + 1,
      wt_execution_inflight := wt_execution_inflight wt + 1\<rparr>"
  have ok: "wt_ok wt (lw_owned w)" "activated_ok wt (lw_activated w)" "lw_taken w = lw_finished w + length (lw_owned w)"
    using inv wt by (simp_all add: lane_inv_def)
  have cap: "wt_execution_inflight wt < cp_max_inflight_tasks (wt_caps wt)" using occupied_count [OF ok(1) i] .
  have sub: "wt_ok wt1 (lw_owned w @ [?k])" unfolding wt1_def using ok(1) i l k by (intro submitted_ok) auto
  have act: "activated_ok wt1 (lw_activated w)"
    unfolding wt1_def using inc_gt(1) [OF k] by (intro activated_mono [OF ok(2)]) (auto dest!: set_update_subset_insert [THEN subsetD])
  let ?w = "w\<lparr>lw_taken := lw_taken w + 1\<rparr>"
  have iw: "lane_inv (?w\<lparr>lw_owned := lw_owned ?w @ [wd_dispatch_id d'], lw_wt := wt1\<rparr>)"
    using sub act ok(3) by (simp add: lane_inv_def d'_def)
  have own: "wd_dispatch_id d' \<notin> set (lw_owned ?w)" using ok(1) by (auto simp: wt_ok_def d'_def)
  have lanes: "(set_lane i (l\<lparr>ln_dispatch_id := ?k\<rparr>) (set_lane i l wt)) = set_lane i (l\<lparr>ln_dispatch_id := ?k\<rparr>) wt"
    by (simp add: set_lane_def)
  have eq: "submit_dispatch e a d i r (set_lane i l wt) =
      (if wt_shutdown wt then (STOPPING, [], set_lane i l wt)
       else if r \<noteq> INVALID_RUN_ID \<and> ln_run_id l \<noteq> r then (STAGED_IDENTITY_CHANGED, [], set_lane i l wt)
       else case a of Published b \<Rightarrow> (SUBMITTED, [Submitted d'], if b then wt1\<lparr>wt_shutdown := True\<rparr> else wt1)
            | Threw reason b \<Rightarrow> (PUBLICATION_REPORTED, fail_submission e d' (''submit_progress failed: '' @ reason) b wt1))"
    unfolding submit_dispatch_def Let_def d'_def wt1_def using cap [folded not_le] i l by (cases a) (simp_all add: lanes)
  have pub: "lane_inv (after ?w ([Submitted d'], if b then wt1\<lparr>wt_shutdown := True\<rparr> else wt1))" for b
    using iw lane_inv_shutdown [OF iw] by (simp add: after_def)
  show "if is_reported res then lane_inv (after ?w (evs, wt')) else evs = [] \<and> wt' = set_lane i l wt"
    using s fail_submission_inv [OF iw own] pub unfolding eq
    by (simp add: is_reported_def split: if_splits SubmitAnswer.splits) metis+
  show "is_reported res" if "\<not> wt_shutdown wt" "r = INVALID_RUN_ID \<or> ln_run_id l = r"
    using s that unfolding eq by (auto simp: is_reported_def split: if_splits SubmitAnswer.splits)
qed

text \<open>A dispatch that never reaches the endpoint.\<close>

lemma unpublished_inv:
  assumes "lane_inv w"
  shows "lane_inv (after (w\<lparr>lw_taken := lw_taken w + 1\<rparr>) (complete_unpublished d message, lw_wt w))"
proof -
  have "0 \<notin> set (lw_owned w)" using assms wt_ok_lookup(1) by (auto simp: lane_inv_def)
  then show ?thesis using assms by (simp add: complete_unpublished_def after_def lane_inv_def remove1_idem)
qed

lemma lanes_nonempty: "wt_ok wt owned \<Longrightarrow> 0 < length (wt_lanes wt)"
  by (simp add: wt_ok_def unat_gt_0)

lemma dispatch_inv:
  assumes inv: "lane_inv w" and k: "wt_next_dispatch_id (lw_wt w) \<noteq> UINT64_MAX"
  shows "lane_inv (after (w\<lparr>lw_taken := lw_taken w + 1\<rparr>) (wt_dispatch e a d (lw_wt w)))"
proof (cases "ln_occupied (wt_lanes (lw_wt w) ! 0)")
  case True
  then show ?thesis using unpublished_inv [OF inv] by (simp add: wt_dispatch_def Let_def)
next
  case False
  let ?wt = "lw_wt w" and ?d = "d\<lparr>wd_prepare_only := False\<rparr>" and ?l = "(wt_lanes (lw_wt w) ! 0)\<lparr>ln_occupied := True\<rparr>"
  have ok: "wt_ok ?wt (lw_owned w)" using inv by (simp add: lane_inv_def)
  note f = free_slot [OF ok lanes_nonempty [OF ok] False]
  obtain res evs wt' where s: "submit_dispatch e a ?d 0 INVALID_RUN_ID (set_lane 0 ?l ?wt) = (res, evs, wt')"
    by (metis prod_cases3)
  note S = submit_inv(1) [OF inv refl lanes_nonempty [OF ok] False _ _ k s, simplified f(1), simplified]
  show ?thesis
    using S unpublished_inv [OF inv] False f(2) s
    by (cases "is_reported res") (simp_all add: wt_dispatch_def Let_def release_lane_unconditional_def)
qed

lemma stage_inv:
  assumes inv: "lane_inv w" and k: "wt_next_dispatch_id (lw_wt w) \<noteq> UINT64_MAX"
  shows "lane_inv (after (w\<lparr>lw_taken := lw_taken w + 1\<rparr>) (dispatch_prepared e a run d (lw_wt w)))"
proof (cases "\<exists>r. cp_supports_frame_staging (wt_caps (lw_wt w)) \<and> run = Some r \<and> r \<noteq> INVALID_RUN_ID \<and>
    free_staged_lane (lw_wt w) < length (wt_lanes (lw_wt w))")
  case False
  then show ?thesis using unpublished_inv [OF inv] by (auto simp: dispatch_prepared_def Let_def not_less split: option.split)
next
  case True
  then obtain r where r: "cp_supports_frame_staging (wt_caps (lw_wt w))" "run = Some r" "r \<noteq> INVALID_RUN_ID"
    "free_staged_lane (lw_wt w) < length (wt_lanes (lw_wt w))" by blast
  define i where "i = free_staged_lane (lw_wt w)"
  let ?wt = "lw_wt w" and ?d = "d\<lparr>wd_prepare_only := True\<rparr>" and ?l = "(wt_lanes (lw_wt w) ! i)\<lparr>ln_occupied := True, ln_run_id := r\<rparr>"
  have ok: "wt_ok ?wt (lw_owned w)" using inv by (simp add: lane_inv_def)
  have i: "i < length (wt_lanes ?wt)" "\<not> ln_occupied (wt_lanes ?wt ! i)" using r(4) staged_laneD(5) [OF r(4)] by (simp_all add: i_def)
  note f = free_slot [OF ok i]
  obtain res evs wt' where s: "submit_dispatch e a ?d i r (set_lane i ?l ?wt) = (res, evs, wt')" by (metis prod_cases3)
  note S = submit_inv(1) [OF inv refl i _ _ k s, simplified f(1), simplified]
  show ?thesis
    using S unpublished_inv [OF inv] f(2) s r i
    by (cases "is_reported res") (simp_all add: dispatch_prepared_def Let_def i_def [symmetric] release_lane_unconditional_def)
qed

section \<open>Activation\<close>

lemma activate_inv:
  assumes inv: "lane_inv w"
  shows "lane_inv (w\<lparr>lw_wt := snd (activate_prepared r (lw_wt w))\<rparr>)"
proof (cases "fst (activate_prepared r (lw_wt w))")
  case False
  then have "snd (activate_prepared r (lw_wt w)) = lw_wt w" by (auto simp: activate_prepared_def Let_def split: if_splits)
  then show ?thesis using inv by simp
next
  case True
  let ?wt = "lw_wt w" and ?i = "staged_lane_of r (lw_wt w)"
  let ?l = "(wt_lanes ?wt ! ?i)\<lparr>ln_activation_requested := True\<rparr>"
  have ok: "wt_ok ?wt (lw_owned w)" "activated_ok ?wt (lw_activated w)" using inv by (simp_all add: lane_inv_def)
  have i: "?i < length (wt_lanes ?wt)" "\<not> ln_occupied (wt_lanes ?wt ! 0)" and
    e: "snd (activate_prepared r ?wt) = set_lane ?i free_lane (set_lane 0 ?l ?wt)"
    using True by (auto simp: activate_prepared_def Let_def split: if_splits)
  note st = staged_laneD(1,2) [OF i(1)]
  note f = free_slot(1) [OF ok(1) lanes_nonempty [OF ok(1)] i(2)]
  let ?ls = "(wt_lanes ?wt)[0 := ?l, ?i := free_lane]"
  have wf: "lanes_wf (wt_lanes ?wt)" using ok(1) by (simp add: wt_ok_def)
  have "mset (lane_ids ((wt_lanes ?wt)[0 := ?l])) + mset (lane_ids [free_lane]) = mset (lane_ids (wt_lanes ?wt)) + mset (lane_ids [?l])"
    using lane_ids_update [OF lanes_nonempty [OF ok(1)], of ?l] f by simp
  moreover have "mset (lane_ids ?ls) + mset (lane_ids [wt_lanes ?wt ! ?i]) = mset (lane_ids ((wt_lanes ?wt)[0 := ?l])) + mset (lane_ids [free_lane])"
    using lane_ids_update [of ?i "(wt_lanes ?wt)[0 := ?l]" free_lane] i(1) st(2) by simp
  ultimately have m: "mset (lane_ids ?ls) = mset (lane_ids (wt_lanes ?wt))" by simp
  have "ln_dispatch_id ?l \<noteq> 0" using lanes_wf_occupied [OF wf nth_mem [OF i(1)]] st(1) by simp
  then have "lanes_wf ?ls" using st(1) by (intro lanes_wf_update wf) simp_all
  moreover have "length (lane_ids ?ls) = length (lane_ids (wt_lanes ?wt))" using arg_cong [OF m, of size] unfolding size_mset .
  ultimately have "wt_ok (snd (activate_prepared r ?wt)) (lw_owned w)" unfolding e wt_ok_def using ok(1) m by (auto simp: wt_ok_def)
  moreover have "activated_ok (snd (activate_prepared r ?wt)) (lw_activated w)"
    unfolding e using st(1) i(1) nth_mem [OF i(1)]
    by (intro activated_mono [OF ok(2)]) (auto dest!: set_update_subset_insert [THEN subsetD])
  ultimately show ?thesis using inv by (simp add: lane_inv_def)
qed

lemma set_lane_inv:
  assumes "lane_inv w" "i < length (wt_lanes (lw_wt w))" "ln_occupied (wt_lanes (lw_wt w) ! i)" "ln_occupied l"
    "ln_dispatch_id l = ln_dispatch_id (wt_lanes (lw_wt w) ! i)"
    "ln_activation_handed_off l = ln_activation_handed_off (wt_lanes (lw_wt w) ! i)"
  shows "lane_inv (w\<lparr>lw_wt := set_lane i l (lw_wt w)\<rparr>)"
  using assms set_lane_ok [of "lw_wt w" "lw_owned w" i l] activated_update [of "lw_wt w" "lw_activated w" i l] by (simp add: lane_inv_def)

lemma authorize_inv:
  assumes inv: "lane_inv w"
  shows "lane_inv (w\<lparr>lw_wt := snd (authorize_staged_launch r (lw_wt w))\<rparr>)"
proof (cases "staged_lane_of r (lw_wt w) < length (wt_lanes (lw_wt w))")
  case True
  then show ?thesis using inv staged_laneD(1) [OF True]
    by (auto simp: authorize_staged_launch_def Let_def intro!: set_lane_inv)
qed (use inv in \<open>simp add: authorize_staged_launch_def Let_def\<close>)

lemma distinct_filter_nth:
  "distinct (filter P xs) \<Longrightarrow> i < length xs \<Longrightarrow> j < length xs \<Longrightarrow> P (xs ! i) \<Longrightarrow> xs ! i = xs ! j \<Longrightarrow> i = j"
proof (induction xs arbitrary: i j)
  case (Cons x xs)
  then show ?case by (cases i; cases j) (auto split: if_splits)
qed simp

lemma lane_id_unique:
  assumes ok: "wt_ok wt owned" and i: "i < length (wt_lanes wt)" "ln_occupied (wt_lanes wt ! i)" and j: "j < length (wt_lanes wt)"
    and eq: "ln_dispatch_id (wt_lanes wt ! i) = ln_dispatch_id (wt_lanes wt ! j)"
  shows "i = j"
proof -
  have m: "mset owned = mset (lane_ids (wt_lanes wt)) + mset (nonzero (wt_execution_ended wt))" and d: "distinct owned"
    and wf: "lanes_wf (wt_lanes wt)" using ok by (simp_all add: wt_ok_def)
  have "distinct (lane_ids (wt_lanes wt) @ nonzero (wt_execution_ended wt))" using d m by (metis mset_append mset_eq_imp_distinct_iff)
  then have "distinct (filter (\<lambda>k. k \<noteq> 0) (map ln_dispatch_id (wt_lanes wt)))" by (simp add: nonzero_def)
  from distinct_filter_nth [OF this] show ?thesis using i j eq lanes_wf_occupied [OF wf nth_mem [OF i(1)]] by simp
qed

lemma handed_off_inv:
  assumes inv: "lane_inv w" and i: "i < length (wt_lanes (lw_wt w))"
    and l: "l = wt_lanes (lw_wt w) ! i" "ln_occupied l" "\<not> ln_activation_handed_off l"
  shows "lane_inv (w\<lparr>lw_activated := lw_activated w @ [ln_dispatch_id l], lw_wt := set_lane i (l\<lparr>ln_activation_handed_off := True\<rparr>) (lw_wt w)\<rparr>)"
proof -
  let ?wt = "lw_wt w" and ?l = "l\<lparr>ln_activation_handed_off := True\<rparr>"
  have ok: "wt_ok ?wt (lw_owned w)" "activated_ok ?wt (lw_activated w)" using inv by (simp_all add: lane_inv_def)
  have wf: "lanes_wf (wt_lanes ?wt)" using ok(1) by (simp add: wt_ok_def)
  have mem: "l \<in> set (wt_lanes ?wt)" using i l(1) by simp
  have new: "ln_dispatch_id l \<notin> set (lw_activated w)" using ok(2) mem l by (auto simp: activated_ok_def)
  have "ln_dispatch_id l \<noteq> 0" using lanes_wf_occupied [OF wf mem] l(2) by simp
  then have "ln_dispatch_id l \<in># mset (lane_ids (wt_lanes ?wt))" using mem by auto
  then have "ln_dispatch_id l \<in> set (lw_owned w)" using ok(1) unfolding wt_ok_def by (metis set_mset_mset union_iff)
  then have lt: "ln_dispatch_id l < wt_next_dispatch_id ?wt" using ok(1) by (simp add: wt_ok_def)
  have other: "ln_dispatch_id l' \<notin> set (lw_activated w @ [ln_dispatch_id l])"
    if "l' \<in> set ((wt_lanes ?wt)[i := ?l])" "ln_occupied l'" "\<not> ln_activation_handed_off l'" for l'
  proof -
    from that(1) obtain j where j: "j < length (wt_lanes ?wt)" "(wt_lanes ?wt)[i := ?l] ! j = l'" by (auto simp: in_set_conv_nth)
    then have ji: "j \<noteq> i" using that(3) i by auto
    then have l': "l' = wt_lanes ?wt ! j" using j by simp
    then have "ln_dispatch_id l' \<noteq> ln_dispatch_id l" using lane_id_unique [OF ok(1) i _ j(1)] l ji by auto
    moreover have "ln_dispatch_id l' \<notin> set (lw_activated w)" using ok(2) l' j(1) that by (auto simp: activated_ok_def)
    ultimately show ?thesis by simp
  qed
  have "activated_ok (set_lane i ?l ?wt) (lw_activated w @ [ln_dispatch_id l])"
    using ok(2) new lt other by (auto simp: activated_ok_def)
  moreover have "wt_ok (set_lane i ?l ?wt) (lw_owned w)" using l i by (intro set_lane_ok [OF ok(1)]) simp_all
  ultimately show ?thesis using inv by (simp add: lane_inv_def)
qed

lemma after_wt: "after (v\<lparr>lw_wt := wt\<rparr>) p = after v p"
proof -
  have "(fold observe evs (v\<lparr>lw_wt := wt\<rparr>))\<lparr>lw_wt := wt'\<rparr> = (fold observe evs v)\<lparr>lw_wt := wt'\<rparr>" for evs wt'
  proof (induction evs arbitrary: v)
    case (Cons ev evs)
    have "observe ev (v\<lparr>lw_wt := wt\<rparr>) = (observe ev v)\<lparr>lw_wt := wt\<rparr>" by (cases ev) auto
    then show ?case using Cons by simp
  qed simp
  then show ?thesis by (simp add: after_def)
qed

lemma pass_inv:
  "lane_inv w \<Longrightarrow> \<forall>i \<in> set is. i < length (wt_lanes (lw_wt w)) \<Longrightarrow>
   lane_inv (after w (activation_pass answers is (lw_wt w))) \<and> lw_owned (after w (activation_pass answers is (lw_wt w))) = lw_owned w"
proof (induction "is" arbitrary: w)
  case Nil
  then show ?case by (simp add: after_def)
next
  case (Cons i "is")
  define l where "l = wt_lanes (lw_wt w) ! i"
  let ?c = "ln_occupied l \<and> ln_activation_requested l \<and> \<not> ln_activation_handed_off l \<and> ln_run_id l \<noteq> INVALID_RUN_ID"
  let ?w1 = "w\<lparr>lw_activated := lw_activated w @ [ln_dispatch_id l], lw_wt := set_lane i (l\<lparr>ln_activation_handed_off := True\<rparr>) (lw_wt w)\<rparr>"
  let ?w2 = "w\<lparr>lw_wt := (lw_wt w)\<lparr>wt_shutdown := True\<rparr>\<rparr>"
  consider "\<not> ?c \<or> answers i = Some False" | "?c" "answers i = None" | "?c" "answers i = Some True" by (cases "answers i") auto
  then show ?case
  proof cases
    case 1
    then have "activation_pass answers (i # is) (lw_wt w) = activation_pass answers is (lw_wt w)" by (auto simp: l_def Let_def)
    then show ?thesis using Cons by simp
  next
    case 2
    then have "activation_pass answers (i # is) (lw_wt w) = activation_pass answers is (lw_wt ?w2)" by (simp add: l_def Let_def)
    then show ?thesis using Cons(1) [of ?w2] Cons(3) lane_inv_shutdown [OF Cons(2)] after_wt [where v = w] by simp
  next
    case 3
    have "lane_inv ?w1" using Cons(2,3) 3 by (intro handed_off_inv) (simp_all add: l_def)
    note IH = Cons(1) [OF this]
    obtain evs wt where p: "activation_pass answers is (lw_wt ?w1) = (evs, wt)" by (cases "activation_pass answers is (lw_wt ?w1)")
    then have "activation_pass answers (i # is) (lw_wt w) = (Activated (ln_dispatch_id l) (ln_run_id l) # evs, wt)"
      using 3 by (simp add: l_def Let_def)
    moreover have "after w (Activated (ln_dispatch_id l) (ln_run_id l) # evs, wt) = after ?w1 (evs, wt)"
      using after_wt [where v = "w\<lparr>lw_activated := lw_activated w @ [ln_dispatch_id l]\<rparr>" and p = "(evs, wt)"] by (simp add: after_def)
    ultimately show ?thesis using IH p Cons(3) by simp
  qed
qed

lemma progress_inv:
  assumes inv: "lane_inv w" and rep: "owned_report w polled"
  shows "lane_inv (after w (wt_progress answers polled e (lw_wt w)))"
proof -
  obtain evs wt where p: "(if wt_shutdown (lw_wt w) then ([], lw_wt w) else activation_pass answers [0 ..< length (wt_lanes (lw_wt w))] (lw_wt w)) = (evs, wt)"
    by (metis surj_pair)
  let ?v = "after w (evs, wt)"
  have v: "lane_inv ?v" "lw_owned ?v = lw_owned w" "lw_wt ?v = wt"
    using p pass_inv [OF inv, of "[0 ..< length (wt_lanes (lw_wt w))]" answers] inv by (auto simp: after_def split: if_splits)
  have app: "after w (evs @ evs', wt') = after ?v (evs', wt')" for evs' wt'
    using after_wt [where v = "fold observe evs w" and wt = wt and p = "(evs', wt')"] by (simp add: after_def)
  show ?thesis
  proof (cases polled)
    case None
    then have "after w (wt_progress answers polled e (lw_wt w)) = ?v\<lparr>lw_wt := (lw_wt ?v)\<lparr>wt_shutdown := True\<rparr>\<rparr>"
      using p by (simp add: wt_progress_def after_def)
    then show ?thesis using lane_inv_shutdown [OF v(1)] by simp
  next
    case (Some report)
    show ?thesis
    proof (cases report)
      case None
      then show ?thesis using v Some p by (simp add: wt_progress_def)
    next
      case (Some progress)
      obtain evs' wt' where f: "finish_progress_dispatch e progress wt = (evs', wt')" by (cases "finish_progress_dispatch e progress wt")
      have "lane_inv (after ?v (evs', wt'))"
        using report_inv [OF v(1), of progress e] rep \<open>polled = Some report\<close> Some v f by (simp add: owned_report_def)
      then show ?thesis using p f Some \<open>polled = Some report\<close> by (simp add: wt_progress_def app)
    qed
  qed
qed

interpretation lane_sys: invariant_system lane_start lane_step lane_inv
proof
  show "lane_inv w" if "lane_start w" for w
    using that by (auto simp: lane_start_def wt_start_def lane_inv_def wt_ok_def activated_ok_def lanes_wf_def nonzero_def split: if_splits)
  show "lane_inv w'" if "lane_inv w" "lane_step w w'" for w w'
    using that(2,1)
  proof cases
    case (dispatch accept_error answer d)
    then show ?thesis using dispatch_inv that(1) by simp
  next
    case (stage accept_error answer run d)
    then show ?thesis using stage_inv that(1) by simp
  next
    case stop
    then show ?thesis using that(1) by (simp add: lane_inv_def wt_ok_def activated_ok_def wt_stop_def)
  qed (use activate_inv authorize_inv progress_inv that(1) in auto)
qed

section \<open>What the scheduler relies on\<close>

definition sample_caps :: WorkerEndpointCaps where
  "sample_caps = \<lparr>cp_worker_id = 0, cp_max_inflight_tasks = 2, cp_supports_frame_staging = True\<rparr>"

definition sample_dispatch :: WorkerDispatch where
  "sample_dispatch = \<lparr>wd_task_slot = 7, wd_group_index = 0, wd_dispatch_id = 0, wd_prepare_only = False\<rparr>"

definition sample_wt :: WorkerThread where
  "sample_wt = (case wt_start sample_caps of Inl _ \<Rightarrow> undefined | Inr wt \<Rightarrow> wt)"

definition sample_lanes0 :: lane_world where
  "sample_lanes0 = \<lparr>lw_wt = sample_wt, lw_owned = [], lw_taken = 0, lw_finished = 0, lw_activated = []\<rparr>"

text \<open>An ordinary dispatch of one run, and a staged one of the run behind it.\<close>

definition sample_lanes1 :: lane_world where
  "sample_lanes1 = after (sample_lanes0\<lparr>lw_taken := lw_taken sample_lanes0 + 1\<rparr>)
     (wt_dispatch None (Published False) sample_dispatch (lw_wt sample_lanes0))"

definition sample_lanes2 :: lane_world where
  "sample_lanes2 = after (sample_lanes1\<lparr>lw_taken := lw_taken sample_lanes1 + 1\<rparr>)
     (dispatch_prepared None (Published False) (Some 5) sample_dispatch (lw_wt sample_lanes1))"

lemma sample_lanes_reachable:
  "reachable lane_start lane_step sample_lanes0" "reachable lane_start lane_step sample_lanes1" "reachable lane_start lane_step sample_lanes2"
proof -
  have "wt_start sample_caps = Inr sample_wt" by (simp add: sample_wt_def wt_start_def sample_caps_def)
  then show 0: "reachable lane_start lane_step sample_lanes0" by (intro reachable_start) (auto simp: lane_start_def sample_lanes0_def)
  have "wt_next_dispatch_id (lw_wt sample_lanes0) \<noteq> UINT64_MAX" by code_simp
  then show 1: "reachable lane_start lane_step sample_lanes1"
    unfolding sample_lanes1_def by (intro reachable_step [OF 0] lane_step.dispatch)
  have "wt_next_dispatch_id (lw_wt sample_lanes1) \<noteq> UINT64_MAX" by code_simp
  then show "reachable lane_start lane_step sample_lanes2"
    unfolding sample_lanes2_def by (intro reachable_step [OF 1] lane_step.stage)
qed

text \<open>
  The staged run is prepared natively, authorised early and handed over; then the first dispatch completes, the run is promoted
  and the worker makes progress again.
\<close>

definition sample_report :: "WorkerProgressKind \<Rightarrow> u64 \<Rightarrow> WorkerEndpointProgress" where
  "sample_report kind k = \<lparr>pr_kind = kind, pr_dispatch = sample_dispatch\<lparr>wd_dispatch_id := k\<rparr>,
     pr_completion = \<lparr>wc_task_slot = 7, wc_group_index = 0, wc_outcome = SUCCESS, wc_error_message = [], wc_worker_id = 0,
       wc_admissible_run_resource_sets = 0\<rparr>, pr_preparation_disposition = PD_NATIVE_PREPARED\<rparr>"

definition progress_world :: "WorkerEndpointProgress option \<Rightarrow> lane_world \<Rightarrow> lane_world" where
  "progress_world report w = after w (wt_progress (\<lambda>_. Some True) (Some report) None (lw_wt w))"

definition sample_lanes3 :: lane_world where
  "sample_lanes3 =
     (let w = progress_world (Some (sample_report FRAME_STAGED 2)) sample_lanes2;
          w = w\<lparr>lw_wt := snd (authorize_staged_launch 5 (lw_wt w))\<rparr>;
          w = progress_world (Some (sample_report PROGRESS_COMPLETED 1)) w;
          w = w\<lparr>lw_wt := snd (activate_prepared 5 (lw_wt w))\<rparr>
      in progress_world None w)"

lemma sample_lanes3_reachable: "reachable lane_start lane_step sample_lanes3"
proof -
  define w1 where "w1 = progress_world (Some (sample_report FRAME_STAGED 2)) sample_lanes2"
  define w2 where "w2 = w1\<lparr>lw_wt := snd (authorize_staged_launch 5 (lw_wt w1))\<rparr>"
  define w3 where "w3 = progress_world (Some (sample_report PROGRESS_COMPLETED 1)) w2"
  define w4 where "w4 = w3\<lparr>lw_wt := snd (activate_prepared 5 (lw_wt w3))\<rparr>"
  have "owned_report sample_lanes2 (Some (Some (sample_report FRAME_STAGED 2)))" by code_simp
  then have "reachable lane_start lane_step w1"
    unfolding w1_def progress_world_def by (intro reachable_step [OF sample_lanes_reachable(3)] lane_step.progress)
  then have r2: "reachable lane_start lane_step w2" unfolding w2_def by (rule reachable_step) (rule lane_step.authorize)
  have "owned_report (let w = progress_world (Some (sample_report FRAME_STAGED 2)) sample_lanes2
      in w\<lparr>lw_wt := snd (authorize_staged_launch 5 (lw_wt w))\<rparr>) (Some (Some (sample_report PROGRESS_COMPLETED 1)))" by code_simp
  then have "owned_report w2 (Some (Some (sample_report PROGRESS_COMPLETED 1)))" by (simp add: w1_def w2_def Let_def)
  then have "reachable lane_start lane_step w3" unfolding w3_def progress_world_def by (intro reachable_step [OF r2] lane_step.progress)
  then have "reachable lane_start lane_step w4" unfolding w4_def by (rule reachable_step) (rule lane_step.activate)
  then have "reachable lane_start lane_step (progress_world None w4)"
    unfolding progress_world_def by (rule reachable_step) (intro lane_step.progress, simp add: owned_report_def)
  then show ?thesis by (simp add: sample_lanes3_def w1_def w2_def w3_def w4_def Let_def)
qed

text \<open>
  C20: the accounting of a worker. In every reachable state each dispatch the endpoint owns occupies exactly one lane or
  has ended and stands in the ledger of ended executions, both counters are exact, at most as many executions run as
  the endpoint admits, and every dispatch handed to the worker has been completed once or is still owned: none is lost
  and none completes twice.
\<close>

theorem lane_accounting:
  assumes "reachable lane_start lane_step w"
  shows "mset (lw_owned w) = mset (lane_ids (wt_lanes (lw_wt w))) + mset (nonzero (wt_execution_ended (lw_wt w))) \<and>
    distinct (lw_owned w) \<and>
    unat (wt_execution_inflight (lw_wt w)) = length (filter ln_occupied (wt_lanes (lw_wt w))) \<and>
    wt_execution_inflight (lw_wt w) \<le> cp_max_inflight_tasks (wt_caps (lw_wt w)) \<and>
    wt_inflight (lw_wt w) = of_nat (length (lw_owned w)) \<and>
    lw_taken w = lw_finished w + length (lw_owned w)"
proof -
  have inv: "lane_inv w" using lane_sys.reachable_inv [OF assms] .
  then have ok: "wt_ok (lw_wt w) (lw_owned w)" by (simp add: lane_inv_def)
  have wf: "lanes_wf (wt_lanes (lw_wt w))" using ok by (simp add: wt_ok_def)
  have n: "length (lane_ids ls) = length (filter ln_occupied ls)" if "lanes_wf ls" for ls
    using that by (induction ls) (auto split: if_splits)
  have le: "length (lane_ids (wt_lanes (lw_wt w))) \<le> unat (cp_max_inflight_tasks (wt_caps (lw_wt w)))"
    using ok length_filter_le [of ln_occupied "wt_lanes (lw_wt w)"] by (simp add: n [OF wf] wt_ok_def)
  from order.strict_trans1 [OF this unat_u32_bound] have u: "unat (wt_execution_inflight (lw_wt w)) = length (lane_ids (wt_lanes (lw_wt w)))"
    using ok by (simp add: wt_ok_def unat_of_nat take_bit_nat_eq_self)
  then show ?thesis using inv ok le n [OF wf] by (auto simp: lane_inv_def wt_ok_def word_le_nat_alt)
qed

theorem lane_accounting_witness:
  "lw_owned sample_lanes2 = [1, 2] \<and> unat (wt_execution_inflight (lw_wt sample_lanes2)) = 2 \<and> lw_finished sample_lanes2 = 0"
proof -
  have "lw_owned sample_lanes2 = [1, 2]" "lw_taken sample_lanes2 = 2" "map ln_occupied (wt_lanes (lw_wt sample_lanes2)) = [True, True]"
    by code_simp+
  then show ?thesis using lane_accounting [OF sample_lanes_reachable(3)] by (auto simp: map_eq_Cons_conv)
qed





text \<open>
  C22: an activation is handed to the endpoint at most once per dispatch, however a run becomes launchable: by early
  authorisation in its staged lane, by promotion into the active lane, or by both.
\<close>

theorem activation_handed_off_once:
  assumes "reachable lane_start lane_step w"
  shows "distinct (lw_activated w)"
  using lane_sys.reachable_inv [OF assms] by (simp add: lane_inv_def activated_ok_def)

theorem activation_handed_off_once_witness:
  "lw_activated sample_lanes3 = [2] \<and> distinct (lw_activated sample_lanes3) \<and>
   map ln_dispatch_id (wt_lanes (lw_wt sample_lanes3)) = [2, 0]"
proof -
  have "lw_activated sample_lanes3 = [2]" "map ln_dispatch_id (wt_lanes (lw_wt sample_lanes3)) = [2, 0]" by code_simp+
  then show ?thesis using activation_handed_off_once [OF sample_lanes3_reachable] by blast
qed

end
