(* ===== verification/Queue_Bounds.thy ===== *)
theory Queue_Bounds
  imports Sched
begin

text \<open>
  Between two pushes the ready queues only shrink: nothing the orchestrator does when an endpoint reports adds to them, and a run
  that retires takes its entries out. This is what bounds the loops of the dispatch passes.
\<close>

definition queues_of :: "Orch \<Rightarrow> ReadyQueue \<times> NextLevelReadyQueues option" where
  "queues_of st = (o_ready_sub_queue st, o_ready_next_level_queues st)"

definition queue_measure :: "(Orch \<Rightarrow> nat) \<Rightarrow> bool" where
  "queue_measure f \<longleftrightarrow>
     (\<forall>st st'. queues_of st' = queues_of st \<longrightarrow> f st' = f st) \<and> (\<forall>r st. f (clear_run_ready_queues r st) \<le> f st)"

lemma queue_measureD: "queue_measure f \<Longrightarrow> queues_of st' = queues_of st \<Longrightarrow> f st' = f st"
  unfolding queue_measure_def by blast

lemma queues_of_unleased: "unleased st' = unleased st \<Longrightarrow> queues_of st' = queues_of st"
proof -
  have "queues_of (unleased s) = queues_of s" for s by (simp add: queues_of_def unleased_def)
  then show "unleased st' = unleased st \<Longrightarrow> queues_of st' = queues_of st" by metis
qed

lemma queues_of_simps [simp]:
  "queues_of (upd_run r f st) = queues_of st" "queues_of (upd_slot p g st) = queues_of st"
  "queues_of (notify_ready st) = queues_of st" "queues_of (snd (refresh_early_launch st)) = queues_of st"
  "queues_of (leave_fifo r st) = queues_of st" "queues_of (return_lease r st) = queues_of st"
  "queues_of (apply_folded_capacity st) = queues_of st" "queues_of (set_terminal_phase r st) = queues_of st"
  "queues_of (record_run_error r e st) = queues_of st" "queues_of (note_endpoint_capacity w n st) = queues_of st"
  "queues_of (queue_completion k st) = queues_of st" "queues_of (st\<lparr>o_active_run_id := a\<rparr>) = queues_of st"
  by (simp_all add: queues_of_def upd_run_def upd_slot_def notify_ready_def refresh_early_launch_def leave_fifo_def return_lease_def
      apply_folded_capacity_def apply_admissible_depth_def set_terminal_phase_def record_run_error_def note_endpoint_capacity_def
      queue_completion_def Let_def split: option.split)

lemma queues_of_accept [simp]:
  "queues_of (mark_task_accepted p st) = queues_of st" "queues_of (endpoint_staged p st) = queues_of st"
proof -
  have a: "queues_of (announce_early_launch st) = queues_of st" for st by (simp add: announce_early_launch_def case_prod_unfold Let_def)
  show "queues_of (mark_task_accepted p st) = queues_of st" "queues_of (endpoint_staged p st) = queues_of st"
    by (auto simp: mark_task_accepted_def decrement_run_accepts_def endpoint_staged_def notify_run_staged_def a Let_def split: option.split)
qed

lemma lowers_queues: "queue_measure f \<Longrightarrow> unchanged queues_of m \<Longrightarrow> lowers f m"
  unfolding lowers_def unchanged_def by (intro allI eq_imp_le queue_measureD) blast+

lemma lowers_retire_locked: "queue_measure f \<Longrightarrow> lowers f (retire_locked r)"
proof -
  assume f: "queue_measure f"
  have "f st' \<le> f st" if e: "retire_locked r st = (res, st')" for st res st'
  proof -
    let ?st = "apply_folded_capacity (return_lease r (leave_fifo r st))"
    obtain q st1 where q: "refresh_leases ?st = (q, st1)" by (cases "refresh_leases ?st")
    have "f st1 = f st" using queue_measureD [OF f, of st1 st] queues_of_unleased [OF unleased_refresh [OF q]] by simp
    moreover have "f (clear_run_ready_queues r (snd (refresh_early_launch st1))) \<le> f st1"
      using f queue_measureD [OF f, of "snd (refresh_early_launch st1)" st1] unfolding queue_measure_def by (metis queues_of_simps(4))
    moreover have "f (notify_ready s) = f s" for s using queue_measureD [OF f, of "notify_ready s" s] by simp
    ultimately show ?thesis
      using e q by (cases q) (auto simp: retire_locked_def case_prod_unfold Let_def split: if_splits)
  qed
  then show ?thesis unfolding lowers_def by (metis prod.collapse)
qed

lemma lowers_promote: "queue_measure f \<Longrightarrow> lowers f promote_head"
proof -
  assume f: "queue_measure f"
  have a: "queues_of st' = queues_of st" if "acquire_lease run st = (res, st')" for run st res st'
    using queues_of_unleased [OF unleased_acquire [OF that]] .
  have b: "queues_of st' = queues_of st" if "refresh_leases st = (res, st')" for st res st'
    using queues_of_unleased [OF unleased_refresh [OF that]] .
  have "queues_of (snd (promote_head st)) = queues_of st" for st
    by (auto simp: promote_head_def Let_def split: option.split sum.split prod.split dest!: a b)
  then show ?thesis using f by (intro lowers_queues) (simp_all add: unchanged_def)
qed

lemma lowers_activate: "queue_measure f \<Longrightarrow> lowers f activate_fifo_head"
proof -
  assume f: "queue_measure f"
  note p = lowersD [OF lowers_promote [OF f]] and r = lowersD [OF lowers_retire_locked [OF f]]
  have t: "f (set_terminal_phase q st) = f st" for q st using queue_measureD [OF f, of "set_terminal_phase q st" st] by simp
  have "f (snd (activate_fifo_head st)) \<le> f st" for st
  proof (induction st rule: activate_fifo_head.induct)
    case (1 st)
    show ?case
    proof (cases "promote_head st")
      case (Pair q st1)
      show ?thesis
      proof (cases "\<exists>run_id. q = Inr (Some run_id)")
        case False
        then show ?thesis
          using Pair p [OF Pair] by (subst activate_fifo_head.simps) (auto split: sum.split option.split)
      next
        case True
        then obtain run_id where q: "q = Inr (Some run_id)" by blast
        define mid where "mid = (if execution_retires st1 run_id then
          (case retire_locked run_id st1 of (Inl e, st2) \<Rightarrow> (Inl e, st2) | (Inr _, st2) \<Rightarrow> activate_fifo_head st2) else (Inr (), st1))"
        have m: "f (snd mid) \<le> f st1"
        proof (cases "retire_locked run_id st1")
          case rt: (Pair q2 st2)
          then show ?thesis
            using r [OF rt] 1(1) [OF Pair [symmetric] q refl, of q2 st2] by (cases q2) (auto simp: mid_def intro: le_trans)
        qed
        have eq: "activate_fifo_head st = (case mid of (Inl e, st3) \<Rightarrow> (Inl e, st3) | (Inr _, st3) \<Rightarrow>
            if run_finishes st3 run_id then (case retire_locked run_id (set_terminal_phase run_id st3) of
              (Inl e, st4) \<Rightarrow> (Inl e, st4) | (Inr _, st4) \<Rightarrow> activate_fifo_head st4) else (Inr (), st3))"
          using Pair q by (simp add: activate_fifo_head.simps [of st] mid_def)
        obtain q3 st3 where mid: "mid = (q3, st3)" by (cases mid)
        have "f (snd (activate_fifo_head st4)) \<le> f st4"
          if "q3 = Inr u" "run_finishes st3 run_id" "retire_locked run_id (set_terminal_phase run_id st3) = (Inr v, st4)" for u v st4
          using 1(2) [OF Pair [symmetric] q refl, of q3 st3 u] that mid unfolding mid_def by simp
        then have "f (snd (activate_fifo_head st)) \<le> f st3"
        proof (cases "retire_locked run_id (set_terminal_phase run_id st3)")
          case rt: (Pair q4 st4)
          assume ih: "\<And>u v st4. q3 = Inr u \<Longrightarrow> run_finishes st3 run_id \<Longrightarrow>
            retire_locked run_id (set_terminal_phase run_id st3) = (Inr v, st4) \<Longrightarrow> f (snd (activate_fifo_head st4)) \<le> f st4"
          then show ?thesis
            using r [OF rt] t [of run_id st3] rt unfolding eq mid by (cases q3; cases q4) (auto intro: le_trans)
        qed
        then show ?thesis using m mid p [OF Pair] by simp
      qed
    qed
  qed
  then show ?thesis by (simp add: lowers_def)
qed

lemma lowers_finish:
  assumes f: "queue_measure f"
  shows "lowers f (retire_terminal_run r)" "lowers f (retire_execution_if_ready r)" "lowers f (finish_run_if_ready r)"
proof -
  show t: "lowers f (retire_terminal_run r)"
    unfolding retire_terminal_run_def by (intro lowers_seq lowers_retire_locked lowers_activate f)
  have "f (set_terminal_phase r st) = f st" for st using queue_measureD [OF f, of "set_terminal_phase r st" st] by simp
  then show "lowers f (retire_execution_if_ready r)" "lowers f (finish_run_if_ready r)"
    using t unfolding lowers_def retire_execution_if_ready_def finish_run_if_ready_def by auto metis+
qed

lemma lowers_mark_ended: "queue_measure f \<Longrightarrow> lowers f (mark_task_ended p i)"
proof -
  assume f: "queue_measure f"
  have u: "f (upd_run r g st) = f st" for r g st using queue_measureD [OF f, of "upd_run r g st" st] by simp
  show ?thesis
    using lowers_finish(2) [OF f] unfolding lowers_def mark_task_ended_def
    by (auto split: option.split) (metis u)
qed

lemma lowers_report: "queue_measure f \<Longrightarrow> lowers f (report_if b k)"
  by (rule lowers_queues) (auto simp: unchanged_def report_if_def report_task_error_def bind_act_def slot_state_def modify_def ok_def split: option.split)

lemma lowers_worker_done: "queue_measure f \<Longrightarrow> lowers f (worker_done k)"
proof -
  assume f: "queue_measure f"
  have m: "lowers f (modify g)" if "\<And>st. queues_of (g st) = queues_of st" for g
    using that f by (intro lowers_queues) (simp_all add: unchanged_def modify_def)
  show ?thesis
    unfolding worker_done_def Let_def
    by (intro lowers_bind lowers_slot_state lowers_seq m lowers_report f)
      (auto intro!: m lowers_seq lowers_report f split: prod.split option.split)
qed

lemma lowers_endpoint:
  assumes f: "queue_measure f"
  shows "lowers f (endpoint_complete k)" "lowers f (endpoint_ended k)"
proof -
  have "lowers f (modify (note_endpoint_capacity w n))" for w n
    using f by (intro lowers_queues) (simp_all add: unchanged_def modify_def)
  then show "lowers f (endpoint_complete k)" "lowers f (endpoint_ended k)"
    unfolding endpoint_complete_def endpoint_ended_def
    by (auto intro!: lowers_seq lowers_mark_ended lowers_worker_done f)
qed

section \<open>The queues a pass works on\<close>

abbreviation rq_count :: "ReadyQueue \<Rightarrow> RunId \<Rightarrow> nat" where
  "rq_count q run \<equiv> length (rq_contents q run)"

definition subs_left :: "RunId \<Rightarrow> Orch \<Rightarrow> nat" where
  "subs_left run st = rq_count (o_ready_sub_queue st) run"

definition groups_left :: "RunId \<Rightarrow> Orch \<Rightarrow> nat" where
  "groups_left run st = (case o_ready_next_level_queues st of None \<Rightarrow> 0 | Some n \<Rightarrow> rq_count (nl_group_queue n) run)"

definition single_left :: "nat \<Rightarrow> RunId \<Rightarrow> Orch \<Rightarrow> nat" where
  "single_left i run st =
     (case o_ready_next_level_queues st of None \<Rightarrow> 0 | Some n \<Rightarrow> if i < length (nl_queues n) then rq_count (nl_queues n ! i) run else 0)"

definition singles_left :: "RunId \<Rightarrow> Orch \<Rightarrow> nat" where
  "singles_left run st = (case o_ready_next_level_queues st of None \<Rightarrow> 0 | Some n \<Rightarrow> sum_list (map (\<lambda>q. rq_count q run) (nl_queues n)))"

lemma rq_contents_erase: "rq_contents (rq_erase_run q r) run = (if run = r then [] else rq_contents q run)"
  by (simp add: rq_contents_def rq_erase_run_def delete_conv)

lemma queue_measures [intro, simp]:
  "queue_measure (subs_left run)" "queue_measure (groups_left run)" "queue_measure (single_left i run)" "queue_measure (singles_left run)"
proof -
  have e: "rq_count (rq_erase_run q r) run \<le> rq_count q run" for q r by (simp add: rq_contents_erase)
  show "queue_measure (subs_left run)"
    by (auto simp: queue_measure_def queues_of_def subs_left_def clear_run_ready_queues_def e)
  show "queue_measure (groups_left run)"
    by (auto simp: queue_measure_def queues_of_def groups_left_def clear_run_ready_queues_def nl_erase_run_def e split: option.split)
  show "queue_measure (single_left i run)"
    by (auto simp: queue_measure_def queues_of_def single_left_def clear_run_ready_queues_def nl_erase_run_def e split: option.split)
  have "sum_list (map (\<lambda>q. rq_count q run) (map (\<lambda>q. rq_erase_run q r) qs)) \<le> sum_list (map (\<lambda>q. rq_count q run) qs)" for r qs
    by (induction qs) (auto intro: add_mono e)
  then show "queue_measure (singles_left run)"
    by (auto simp: queue_measure_def queues_of_def singles_left_def clear_run_ready_queues_def nl_erase_run_def split: option.split)
qed

end
