(* ===== verification/Sched_Dispatch.thy ===== *)
theory Sched_Dispatch
  imports Queue_Bounds Worker_Lanes
begin

text \<open>
  The dispatch passes of \<open>scheduler.cpp\<close> over the workers of \<open>worker_manager.cpp\<close>: which ready tasks are claimed, for
  which worker, in which order, and how a blocked group keeps its workers. The state joins the orchestrator's with the
  workers' lanes.

  The callbacks are those \<open>Worker::init\<close> configures, so a pass always works for one run, the dispatchable one; the
  unpartitioned path is kept by the source for tests only. What the endpoints and the clock answer comes from outside: the
  answers are functions of the number of questions asked so far, so they may be any sequence. A pass holds \<open>loop_mu_\<close> and is one
  operation here; the callbacks a worker makes while a task is dispatched run where the source runs them.
\<close>

section \<open>State\<close>

record ReservationStallEpisode =
  se_group_slot :: TaskSlot
  se_started_at :: nat
  se_reported :: bool

record ReservationStallDiagnostic =
  sd_group_slot :: TaskSlot
  sd_busy_target_worker_ids :: "WorkerId list"
  sd_idle_queued_target_worker_ids :: "WorkerId list"
  sd_idle_queued_single_head_slots :: "TaskSlot list"

record NextLevelGroupDispatchResult =
  gr_reserved_worker_ids :: "WorkerId list"
  gr_blocked_group_slot :: TaskSlot
  gr_busy_target_worker_ids :: "WorkerId list"
  gr_idle_queued_target_worker_ids :: "WorkerId list"
  gr_idle_queued_single_head_slots :: "TaskSlot list"

definition no_group_result :: NextLevelGroupDispatchResult where
  "no_group_result = \<lparr>gr_reserved_worker_ids = [], gr_blocked_group_slot = INVALID_SLOT, gr_busy_target_worker_ids = [],
     gr_idle_queued_target_worker_ids = [], gr_idle_queued_single_head_slots = []\<rparr>"

text \<open>
  \<open>sc_asked\<close> counts the questions, \<open>sc_stall_reports\<close> lists what went to the diagnostic sink, and \<open>sc_flight\<close> is what the
  endpoints hold: the dispatches they have taken over and not completed, by worker. The passes do not read these three.
\<close>

datatype WorkerRef = NextLevelWorker nat | SubWorker nat

record Scheduler =
  sc_orch :: Orch
  sc_next_level :: "WorkerThread list"
  sc_sub :: "WorkerThread list"
  sc_reservation_stall_episode :: "ReservationStallEpisode option"
  sc_stall_reports :: "ReservationStallDiagnostic list"
  sc_stop_requested :: bool
  sc_dispatch_round_count :: u64
  sc_dispatched_total :: u64
  sc_asked :: nat
  sc_flight :: "(WorkerRef \<times> WorkerDispatch) list"

text \<open>
  The free request frames, the reply to a publication, the replies to the activations of a progress pass by lane, what a poll
  gives, and the time.
\<close>

record Surroundings =
  ep_transport :: "nat \<Rightarrow> nat"
  ep_submit :: "nat \<Rightarrow> SubmitAnswer"
  ep_activate :: "nat \<Rightarrow> nat \<Rightarrow> bool option"
  ep_poll :: "nat \<Rightarrow> WorkerEndpointProgress option option"
  ep_now :: "nat \<Rightarrow> nat"
  ep_stall_warn_after :: nat

definition asked :: "Scheduler \<Rightarrow> Scheduler" where
  "asked sc = sc\<lparr>sc_asked := sc_asked sc + 1\<rparr>"

definition lift_orch :: "(Orch, 'a) action \<Rightarrow> (Scheduler, 'a) action" where
  "lift_orch m sc = (case m (sc_orch sc) of (res, st) \<Rightarrow> (res, sc\<lparr>sc_orch := st\<rparr>))"

text \<open>\<open>Scheduler::start\<close> refuses a null pointer to the queues, so the default is never used by a running scheduler.\<close>

definition sc_queues :: "Scheduler \<Rightarrow> NextLevelReadyQueues" where
  "sc_queues sc =
     (case o_ready_next_level_queues (sc_orch sc) of
        None \<Rightarrow> \<lparr>nl_worker_ids = [], nl_queues = [], nl_group_queue = empty_queue\<rparr>
      | Some queues \<Rightarrow> queues)"

definition put_queues :: "NextLevelReadyQueues \<Rightarrow> Scheduler \<Rightarrow> Scheduler" where
  "put_queues queues sc = sc\<lparr>sc_orch := (sc_orch sc)\<lparr>o_ready_next_level_queues := Some queues\<rparr>\<rparr>"

section \<open>The worker manager\<close>

definition find_worker :: "WorkerThread list \<Rightarrow> WorkerId \<Rightarrow> nat option" where
  "find_worker workers worker_id = find (\<lambda>i. cp_worker_id (wt_caps (workers ! i)) = worker_id) [0 ..< length workers]"

definition pick_idle_sub_excluding :: "WorkerThread list \<Rightarrow> nat list \<Rightarrow> nat option" where
  "pick_idle_sub_excluding workers exclude = find (\<lambda>i. idle (workers ! i) \<and> i \<notin> set exclude) [0 ..< length workers]"

definition any_busy :: "Scheduler \<Rightarrow> bool" where
  "any_busy sc \<longleftrightarrow> list_ex busy (sc_next_level sc) \<or> list_ex busy (sc_sub sc)"

definition manager_has_staged_run :: "RunId \<Rightarrow> Scheduler \<Rightarrow> bool" where
  "manager_has_staged_run run_id sc \<longleftrightarrow> list_ex (has_staged_run run_id) (sc_next_level sc)"

definition activate_prepared_run :: "RunId \<Rightarrow> Scheduler \<Rightarrow> Scheduler" where
  "activate_prepared_run run_id sc = sc\<lparr>sc_next_level := map (\<lambda>wt. snd (activate_prepared run_id wt)) (sc_next_level sc)\<rparr>"

definition manager_authorize_staged_launch :: "RunId \<Rightarrow> Scheduler \<Rightarrow> Scheduler" where
  "manager_authorize_staged_launch run_id sc =
     sc\<lparr>sc_next_level := map (\<lambda>wt. snd (authorize_staged_launch run_id wt)) (sc_next_level sc)\<rparr>"

definition stop_workers :: "Scheduler \<Rightarrow> Scheduler" where
  "stop_workers sc = sc\<lparr>sc_next_level := map wt_stop (sc_next_level sc), sc_sub := map wt_stop (sc_sub sc)\<rparr>"

fun worker_at :: "WorkerRef \<Rightarrow> Scheduler \<Rightarrow> WorkerThread" where
  "worker_at (NextLevelWorker i) sc = sc_next_level sc ! i"
| "worker_at (SubWorker i) sc = sc_sub sc ! i"

fun put_worker :: "WorkerRef \<Rightarrow> WorkerThread \<Rightarrow> Scheduler \<Rightarrow> Scheduler" where
  "put_worker (NextLevelWorker i) wt sc = sc\<lparr>sc_next_level := (sc_next_level sc)[i := wt]\<rparr>"
| "put_worker (SubWorker i) wt sc = sc\<lparr>sc_sub := (sc_sub sc)[i := wt]\<rparr>"

text \<open>The callbacks given to \<open>WorkerManager::start\<close>.\<close>

fun deliver :: "LaneEvent \<Rightarrow> (Orch, unit) action" where
  "deliver (OnAccept d) = modify (mark_task_accepted (wd_task_slot d))"
| "deliver (OnStaged d) = modify (endpoint_staged (wd_task_slot d))"
| "deliver (OnEnded ended) = endpoint_ended ended"
| "deliver (OnComplete _ completion) = endpoint_complete completion"
| "deliver (Submitted _) = ok ()"
| "deliver (Activated _ _) = ok ()"

text \<open>The endpoint takes a dispatch over with \<open>Submitted\<close>, and a completion it reports ends its ownership.\<close>

fun submitted_of :: "LaneEvent list \<Rightarrow> WorkerDispatch list" where
  "submitted_of [] = []"
| "submitted_of (Submitted d # events) = d # submitted_of events"
| "submitted_of (_ # events) = submitted_of events"

definition take_over :: "WorkerRef \<Rightarrow> LaneEvent list \<Rightarrow> Scheduler \<Rightarrow> Scheduler" where
  "take_over worker events sc = sc\<lparr>sc_flight := sc_flight sc @ map (Pair worker) (submitted_of events)\<rparr>"

definition give_back :: "WorkerRef \<Rightarrow> WorkerEndpointProgress option option \<Rightarrow> Scheduler \<Rightarrow> Scheduler" where
  "give_back worker polled sc =
     (case polled of
        Some (Some progress) \<Rightarrow>
          if pr_kind progress = PROGRESS_COMPLETED then sc\<lparr>sc_flight := remove1 (worker, pr_dispatch progress) (sc_flight sc)\<rparr> else sc
      | _ \<Rightarrow> sc)"

section \<open>Claims\<close>

definition new_dispatch :: "TaskSlot \<Rightarrow> nat \<Rightarrow> WorkerDispatch" where
  "new_dispatch slot i = \<lparr>wd_task_slot = slot, wd_group_index = int i, wd_dispatch_id = 0, wd_prepare_only = False\<rparr>"

definition dispatch_claimed :: "Surroundings \<Rightarrow> WorkerRef \<Rightarrow> WorkerDispatch \<Rightarrow> bool \<Rightarrow> (Scheduler, unit) action" where
  "dispatch_claimed env worker d prepared sc =
     (let sc = sc\<lparr>sc_dispatched_total := sc_dispatched_total sc + 1\<rparr>; wt = worker_at worker sc; answer = ep_submit env (sc_asked sc);
          (events, wt') =
            (if prepared then dispatch_prepared None answer (map_option ts_run_id (peek_slot (sc_orch sc) (wd_task_slot d))) d wt
             else wt_dispatch None answer d wt)
      in lift_orch (each_act deliver events) (take_over worker events (put_worker worker wt' (asked sc))))"

text \<open>A successful claim of a task that is not a group member by member.\<close>

definition claim_single :: "TaskSlot \<Rightarrow> (Scheduler, bool) action" where
  "claim_single slot = lift_orch (\<lambda>st. case claim_for_dispatch (o_slots st slot) of (s, claimed) \<Rightarrow> (Inr claimed, upd_slot slot (\<lambda>_. s) st))"

definition claim_group :: "TaskSlot \<Rightarrow> GroupMemberState \<Rightarrow> (Scheduler, bool) action" where
  "claim_group slot init = lift_orch (\<lambda>st.
     let s = o_slots st slot; prepared = prepare_group_vectors s init in
     case claim_for_dispatch s of
       (s, False) \<Rightarrow> (Inr False, st)
     | (s, True) \<Rightarrow> (Inr True, upd_slot slot (\<lambda>_. reset_group_state (commit_group_vectors s prepared) init) st))"

section \<open>Groups\<close>

text \<open>The workers of a group, those whose gate is closed among them, and the reservation so far.\<close>

fun check_members ::
  "Surroundings \<Rightarrow> TaskSlotState \<Rightarrow> nat list \<Rightarrow> nat list \<times> WorkerId list \<times> WorkerId list \<Rightarrow>
   (Scheduler, nat list \<times> WorkerId list \<times> WorkerId list) action" where
  "check_members env s [] acc sc = (Inr acc, sc)"
| "check_members env s (i # is) (workers, reserved, closed) sc =
     (case target_worker_id s i of
        Inl e \<Rightarrow> (Inl e, sc)
      | Inr worker_id \<Rightarrow>
          (case find_worker (sc_next_level sc) worker_id of
             None \<Rightarrow> (Inl (RuntimeError ''Scheduler::dispatch_next_level_group: invalid target worker''), sc)
           | Some w \<Rightarrow>
               if worker_id \<in> set reserved
               then (Inl (RuntimeError ''Scheduler::dispatch_next_level_group: duplicate target worker''), sc)
               else
                 let idle_worker = can_dispatch (ep_transport env (sc_asked sc)) (sc_next_level sc ! w) in
                 check_members env s is
                   (workers @ [w], reserved @ [worker_id], if idle_worker then closed else closed @ [worker_id]) (asked sc)))"

fun queued_behind :: "NextLevelReadyQueues \<Rightarrow> RunId \<Rightarrow> WorkerId list \<Rightarrow> WorkerId list \<Rightarrow> exn + (WorkerId \<times> TaskSlot) list" where
  "queued_behind queues run closed [] = Inr []"
| "queued_behind queues run closed (w # ws) =
     (if w \<in> set closed then queued_behind queues run closed ws
      else case try_front_single queues w run of
             Inl e \<Rightarrow> Inl e
           | Inr head \<Rightarrow>
               (case queued_behind queues run closed ws of
                  Inl e \<Rightarrow> Inl e
                | Inr rest \<Rightarrow> Inr (case head of None \<Rightarrow> rest | Some slot \<Rightarrow> (w, slot) # rest)))"

definition pop_group :: "RunId \<Rightarrow> (Scheduler, TaskSlot option) action" where
  "pop_group run sc =
     (case try_pop_group (sc_queues sc) run of
        None \<Rightarrow> (Inr None, sc)
      | Some (queues, slot) \<Rightarrow> (Inr (Some slot), put_queues queues sc))"

text \<open>One pass of the loop over the head of the group queue; \<open>None\<close> continues it.\<close>

definition group_step :: "Surroundings \<Rightarrow> RunId \<Rightarrow> TaskSlot \<Rightarrow> (Scheduler, NextLevelGroupDispatchResult option) action" where
  "group_step env run slot = bind_act (lift_orch (slot_state slot)) (\<lambda>s.
     if ts_state s \<noteq> READY then seq_act (pop_group run) (ok None)
     else if ts_run_id s \<noteq> run then seq_act (pop_group run) (seq_act (lift_orch (enqueue_ready slot)) (ok (Some no_group_result)))
     else if ts_worker_type s \<noteq> NEXT_LEVEL \<or> \<not> ts_is_group s
     then throw (RuntimeError ''Scheduler::dispatch_next_level_group: misrouted task slot'')
     else bind_act (check_members env s [0 ..< group_size s] ([], [], [])) (\<lambda>(workers, reserved, closed).
       if closed \<noteq> [] then
         (\<lambda>sc. case queued_behind (sc_queues sc) run closed reserved of
            Inl e \<Rightarrow> (Inl e, sc)
          | Inr queued \<Rightarrow> (Inr (Some \<lparr>gr_reserved_worker_ids = reserved, gr_blocked_group_slot = slot, gr_busy_target_worker_ids = closed,
              gr_idle_queued_target_worker_ids = map fst queued, gr_idle_queued_single_head_slots = map snd queued\<rparr>), sc))
       else bind_act (pop_group run) (\<lambda>taken.
         case taken of
           None \<Rightarrow> ok (Some no_group_result)
         | Some taken_slot \<Rightarrow>
             if taken_slot \<noteq> slot then seq_act (lift_orch (enqueue_ready taken_slot)) (ok (Some no_group_result))
             else bind_act (claim_group slot GM_RUNNING) (\<lambda>claimed.
               if \<not> claimed then ok None
               else seq_act (each_act (\<lambda>(i, w). dispatch_claimed env (NextLevelWorker w) (new_dispatch slot i) False)
                                      (zip [0 ..< group_size s] workers)) (ok None)))))"

function dispatch_next_level_group :: "Surroundings \<Rightarrow> RunId \<Rightarrow> Scheduler \<Rightarrow> (exn + NextLevelGroupDispatchResult) \<times> Scheduler" where
  "dispatch_next_level_group env run sc =
     (case try_front_group (sc_queues sc) run of
        None \<Rightarrow> (Inr no_group_result, sc)
      | Some slot \<Rightarrow>
          (case group_step env run slot sc of
             (Inl e, sc') \<Rightarrow> (Inl e, sc')
           | (Inr (Some result), sc') \<Rightarrow> (Inr result, sc')
           | (Inr None, sc') \<Rightarrow> dispatch_next_level_group env run sc'))"
  by auto

subsection \<open>Termination\<close>

text \<open>Every pass of the loop takes an entry out of the group queue of the run.\<close>

definition sc_lowers :: "(Orch \<Rightarrow> nat) \<Rightarrow> (Scheduler, 'a) action \<Rightarrow> bool" where
  "sc_lowers f = lowers (\<lambda>sc. f (sc_orch sc))"

lemma sc_lowersD: "sc_lowers f m \<Longrightarrow> m sc = (res, sc') \<Longrightarrow> f (sc_orch sc') \<le> f (sc_orch sc)"
  unfolding sc_lowers_def by (drule lowersD)

lemma sc_lowers_lift: "lowers f m \<Longrightarrow> sc_lowers f (lift_orch m)"
  by (auto simp: sc_lowers_def lowers_def lift_orch_def split: prod.split) (metis snd_conv)

lemma sc_lowers_bind: "sc_lowers f m \<Longrightarrow> (\<And>x. sc_lowers f (k x)) \<Longrightarrow> sc_lowers f (bind_act m k)"
  unfolding sc_lowers_def by (rule lowers_bind)

lemma sc_lowers_seq: "sc_lowers f m \<Longrightarrow> sc_lowers f n \<Longrightarrow> sc_lowers f (seq_act m n)"
  unfolding sc_lowers_def by (rule lowers_seq)

lemma sc_lowers_ok: "sc_lowers f (ok x)" "sc_lowers f (throw e)"
  by (simp_all add: sc_lowers_def lowers_def ok_def throw_def)

lemma sc_lowers_each: "(\<And>x. sc_lowers f (g x)) \<Longrightarrow> sc_lowers f (each_act g xs)"
  unfolding sc_lowers_def by (rule lowers_each)

lemma lowers_deliver: "queue_measure f \<Longrightarrow> lowers f (deliver event)"
proof (cases event)
  case (OnAccept d)
  then show "queue_measure f \<Longrightarrow> lowers f (deliver event)" by (auto intro!: lowers_queues simp: unchanged_def modify_def)
next
  case (OnStaged d)
  then show "queue_measure f \<Longrightarrow> lowers f (deliver event)" by (auto intro!: lowers_queues simp: unchanged_def modify_def)
qed (auto intro: lowers_endpoint)

lemma put_worker_orch [simp]: "sc_orch (put_worker w wt sc) = sc_orch sc"
  by (cases w) simp_all

lemma asked_orch [simp]: "sc_orch (asked sc) = sc_orch sc" "sc_queues (asked sc) = sc_queues sc"
  by (simp_all add: asked_def sc_queues_def)

lemma flight_orch [simp]: "sc_orch (take_over w events sc) = sc_orch sc" "sc_orch (give_back w polled sc) = sc_orch sc"
  by (simp_all add: take_over_def give_back_def split: option.split)

lemma sc_lowers_dispatch: "queue_measure f \<Longrightarrow> sc_lowers f (dispatch_claimed env w d prepared)"
proof -
  assume f: "queue_measure f"
  have "f (sc_orch (snd (lift_orch (each_act deliver events) sc))) \<le> f (sc_orch sc)" for events sc
    using sc_lowers_lift [OF lowers_each [of f deliver events, OF lowers_deliver [OF f]]] by (simp add: sc_lowers_def lowers_def)
  then show ?thesis
    unfolding sc_lowers_def lowers_def dispatch_claimed_def Let_def case_prod_unfold
    by (metis (no_types, lifting) Scheduler.select_convs(1) Scheduler.surjective Scheduler.update_convs(8) asked_orch(1) put_worker_orch flight_orch(1))
qed

lemma sc_lowers_claim:
  assumes f: "queue_measure f"
  shows "sc_lowers f (claim_single p)" "sc_lowers f (claim_group p init)"
proof -
  have u: "f (upd_slot p g st) = f st" for g st using queue_measureD [OF f, of "upd_slot p g st" st] by simp
  show "sc_lowers f (claim_single p)"
    unfolding claim_single_def by (rule sc_lowers_lift) (simp add: lowers_def u split: prod.split)
  show "sc_lowers f (claim_group p init)"
    unfolding claim_group_def by (rule sc_lowers_lift) (simp add: lowers_def Let_def u split: prod.split bool.split)
qed

lemma front_pop:
  assumes "rq_try_front q run = Some p"
  shows "\<exists>q'. rq_try_pop q run = Some (q', p) \<and> rq_contents q run = p # rq_contents q' run"
proof -
  obtain ps where "map_of (rq_queues q) run = Some (p # ps)" using assms by (auto simp: rq_try_front_def split: option.splits list.splits)
  then show ?thesis by (simp add: rq_try_pop_def rq_contents_def delete_conv update_conv)
qed

lemma pop_group_front:
  assumes "try_front_group (sc_queues sc) run = Some p"
  shows "\<exists>sc'. pop_group run sc = (Inr (Some p), sc') \<and> groups_left run (sc_orch sc') < groups_left run (sc_orch sc) \<and>
    singles_left run (sc_orch sc') = singles_left run (sc_orch sc) \<and> o_slots (sc_orch sc') = o_slots (sc_orch sc)"
proof -
  obtain n where n: "o_ready_next_level_queues (sc_orch sc) = Some n" "sc_queues sc = n"
    using assms by (auto simp: sc_queues_def try_front_group_def rq_try_front_def empty_queue_def split: option.splits)
  then obtain q' where "rq_try_pop (nl_group_queue n) run = Some (q', p)" "rq_contents (nl_group_queue n) run = p # rq_contents q' run"
    using front_pop [of "nl_group_queue n" run p] assms by (auto simp: try_front_group_def)
  then show ?thesis using n by (simp add: pop_group_def try_pop_group_def put_queues_def groups_left_def singles_left_def)
qed

lemma check_members_frame: "check_members env s is acc sc = (res, sc') \<Longrightarrow> \<exists>n. sc' = sc\<lparr>sc_asked := n\<rparr>"
proof (induction env s "is" acc sc rule: check_members.induct)
  case (1 env s acc sc)
  then show ?case by (auto intro: exI [of _ "sc_asked sc"])
next
  case (2 env s i js workers reserved closed sc)
  then show ?case
    by (auto simp: asked_def Let_def split: sum.splits option.splits if_splits intro: exI [of _ "sc_asked sc"])
qed

lemma group_step_continues:
  assumes front: "try_front_group (sc_queues sc) run = Some p" and e: "group_step env run p sc = (Inr None, sc')"
  shows "groups_left run (sc_orch sc') < groups_left run (sc_orch sc)" "singles_left run (sc_orch sc') \<le> singles_left run (sc_orch sc)"
proof -
  obtain s where s: "slot_state p (sc_orch sc) = (Inr s, sc_orch sc)"
    using e by (auto simp: group_step_def bind_act_def lift_orch_def slot_state_def split: option.splits)
  let ?less = "\<lambda>sc'. groups_left run (sc_orch sc') < groups_left run (sc_orch sc) \<and> singles_left run (sc_orch sc') \<le> singles_left run (sc_orch sc)"
  obtain sc1 where pop: "pop_group run sc = (Inr (Some p), sc1)" "?less sc1" using pop_group_front [OF front] by auto
  have "?less sc'"
  proof (cases "ts_state s \<noteq> READY")
    case True
    then show ?thesis using e s pop by (simp add: group_step_def bind_act_def lift_orch_def seq_act_def ok_def)
  next
    case False
    obtain res sc2 where c: "check_members env s [0 ..< group_size s] ([], [], []) sc = (res, sc2)"
      by (cases "check_members env s [0 ..< group_size s] ([], [], []) sc")
    then obtain n where sc2: "sc2 = sc\<lparr>sc_asked := n\<rparr>" using check_members_frame by blast
    then have f2: "try_front_group (sc_queues sc2) run = Some p" "sc_orch sc2 = sc_orch sc" using front by (simp_all add: sc_queues_def)
    obtain sc3 where pop2: "pop_group run sc2 = (Inr (Some p), sc3)" "?less sc3" using pop_group_front [OF f2(1)] f2(2) by auto
    have rest: "sc_lowers f (bind_act (claim_group p GM_RUNNING) (\<lambda>claimed. if \<not> claimed then ok None
        else seq_act (each_act (\<lambda>(i, w). dispatch_claimed env (NextLevelWorker w) (new_dispatch p i) False) (zip xs ws)) (ok None)))"
      if "queue_measure f" for f xs ws
      using that by (intro sc_lowers_bind sc_lowers_claim) (auto intro!: sc_lowers_ok sc_lowers_seq sc_lowers_each sc_lowers_dispatch)
    obtain workers reserved where res: "res = Inr (workers, reserved, [])"
      and e3: "bind_act (claim_group p GM_RUNNING) (\<lambda>claimed. if \<not> claimed then ok None
        else seq_act (each_act (\<lambda>(i, w). dispatch_claimed env (NextLevelWorker w) (new_dispatch p i) False) (zip [0 ..< group_size s] workers)) (ok None)) sc3
        = (Inr None, sc')"
      using e s False c pop2(1)
      by (cases res) (auto simp: group_step_def bind_act_def lift_orch_def seq_act_def ok_def throw_def split: if_splits sum.splits prod.splits)
    show ?thesis
      using sc_lowersD [OF rest [OF queue_measures(2)] e3, of run] sc_lowersD [OF rest [OF queue_measures(4)] e3, of run] pop2(2) by linarith
  qed
  then show "groups_left run (sc_orch sc') < groups_left run (sc_orch sc)" "singles_left run (sc_orch sc') \<le> singles_left run (sc_orch sc)"
    by simp_all
qed

termination dispatch_next_level_group
  by (relation "measure (\<lambda>(env, run, sc). groups_left run (sc_orch sc))") (auto intro: group_step_continues(1))

declare dispatch_next_level_group.simps [simp del]

section \<open>Single tasks\<close>

text \<open>
  What happens to the head of a worker's queue: \<open>None\<close> looks at the next entry, \<open>Some False\<close> leaves the worker, \<open>Some True\<close>
  ends the pass because a group arrived.
\<close>

definition single_step :: "Surroundings \<Rightarrow> RunId \<Rightarrow> bool \<Rightarrow> WorkerId \<Rightarrow> nat \<Rightarrow> TaskSlot \<Rightarrow> (Scheduler, bool option) action" where
  "single_step env run verify_group_barrier worker_id w slot = bind_act (lift_orch (slot_state slot)) (\<lambda>s.
     if ts_state s \<noteq> READY then ok None
     else if ts_run_id s \<noteq> run then seq_act (lift_orch (enqueue_ready slot)) (ok (Some False))
     else bind_act (\<lambda>sc. (Inr (verify_group_barrier \<and> \<not> groups_empty (sc_queues sc) run), sc)) (\<lambda>group_waiting.
       if group_waiting then seq_act (lift_orch (enqueue_ready slot)) (ok (Some True))
       else if ts_worker_type s \<noteq> NEXT_LEVEL \<or> ts_is_group s
       then throw (RuntimeError ''Scheduler::dispatch_next_level_singles: misrouted task slot'')
       else bind_act (lift_act (target_worker_id s 0)) (\<lambda>target.
         if target \<noteq> worker_id then throw (RuntimeError ''Scheduler::dispatch_next_level_singles: misrouted task slot'')
         else bind_act (claim_single slot) (\<lambda>claimed.
           if \<not> claimed then ok None
           else seq_act (dispatch_claimed env (NextLevelWorker w) (new_dispatch slot 0) False) (ok (Some False))))))"

function single_loop :: "Surroundings \<Rightarrow> RunId \<Rightarrow> bool \<Rightarrow> WorkerId \<Rightarrow> nat \<Rightarrow> Scheduler \<Rightarrow> (exn + bool) \<times> Scheduler" where
  "single_loop env run verify_group_barrier worker_id w sc =
     (case try_pop_single (sc_queues sc) worker_id run of
        Inl e \<Rightarrow> (Inl e, sc)
      | Inr None \<Rightarrow> (Inr False, sc)
      | Inr (Some (queues, slot)) \<Rightarrow>
          (case single_step env run verify_group_barrier worker_id w slot (put_queues queues sc) of
             (Inl e, sc') \<Rightarrow> (Inl e, sc')
           | (Inr (Some returned), sc') \<Rightarrow> (Inr returned, sc')
           | (Inr None, sc') \<Rightarrow> single_loop env run verify_group_barrier worker_id w sc'))"
  by auto

text \<open>Steps that go on with a loop, for a given result that says so.\<close>

definition goes_on :: "(Orch \<Rightarrow> nat) \<Rightarrow> 'a \<Rightarrow> (Scheduler, 'a) action \<Rightarrow> bool" where
  "goes_on f c m \<longleftrightarrow> (\<forall>sc sc'. m sc = (Inr c, sc') \<longrightarrow> f (sc_orch sc') \<le> f (sc_orch sc))"

lemma goes_onD: "goes_on f c m \<Longrightarrow> m sc = (Inr c, sc') \<Longrightarrow> f (sc_orch sc') \<le> f (sc_orch sc)"
  by (simp add: goes_on_def)

lemma goes_on_lowers: "sc_lowers f m \<Longrightarrow> goes_on f c m"
  unfolding goes_on_def using sc_lowersD by blast

lemma goes_on_bind:
  assumes "sc_lowers f m" "\<And>x. goes_on f c (k x)"
  shows "goes_on f c (bind_act m k)"
  unfolding goes_on_def
proof (intro allI impI)
  fix sc sc'
  assume e: "bind_act m k sc = (Inr c, sc')"
  then obtain x sc1 where m: "m sc = (Inr x, sc1)" and k: "k x sc1 = (Inr c, sc')"
    by (auto simp: bind_act_def split: prod.splits sum.splits)
  from sc_lowersD [OF assms(1) m] goes_onD [OF assms(2) k] show "f (sc_orch sc') \<le> f (sc_orch sc)" by simp
qed

lemma goes_on_stop: "x \<noteq> c \<Longrightarrow> goes_on f c (seq_act m (ok x))"
  by (auto simp: goes_on_def seq_act_def bind_act_def ok_def split: prod.splits sum.splits)

lemma goes_on_throw: "goes_on f c (throw e)"
  by (simp add: goes_on_def throw_def)

lemma sc_lowers_slot: "sc_lowers f (lift_orch (slot_state p))"
  by (rule sc_lowers_lift) (rule lowers_slot_state)

lemma sc_lowers_pure: "(\<And>sc. sc_orch (snd (m sc)) = sc_orch sc) \<Longrightarrow> sc_lowers f m"
  by (simp add: sc_lowers_def lowers_def)

lemma single_step_continues: "queue_measure f \<Longrightarrow> goes_on f None (single_step env run verify worker_id w p)"
proof -
  assume f: "queue_measure f"
  have d: "goes_on f None (bind_act (claim_single p) (\<lambda>claimed. if \<not> claimed then ok None
      else seq_act (dispatch_claimed env (NextLevelWorker w) (new_dispatch p 0) False) (ok (Some False))))"
    by (rule goes_on_bind [OF sc_lowers_claim(1) [OF f]]) (simp add: goes_on_lowers [OF sc_lowers_ok(1)] goes_on_stop)
  have t: "goes_on f None (bind_act (lift_act (target_worker_id s 0)) (\<lambda>target.
      if target \<noteq> worker_id then throw (RuntimeError ''Scheduler::dispatch_next_level_singles: misrouted task slot'') else
      bind_act (claim_single p) (\<lambda>claimed. if \<not> claimed then ok None
        else seq_act (dispatch_claimed env (NextLevelWorker w) (new_dispatch p 0) False) (ok (Some False)))))" for s
    by (rule goes_on_bind [OF sc_lowers_pure]) (simp_all add: lift_act_def goes_on_throw d)
  have g: "goes_on f None (bind_act (\<lambda>sc. (Inr (verify \<and> \<not> groups_empty (sc_queues sc) run), sc)) k)" if "\<And>x. goes_on f None (k x)" for k
    by (rule goes_on_bind [OF sc_lowers_pure that]) simp
  show ?thesis
    unfolding single_step_def
    by (rule goes_on_bind [OF sc_lowers_slot]) (simp add: g t goes_on_lowers [OF sc_lowers_ok(1)] goes_on_stop goes_on_throw)
qed

lemma pop_contents:
  assumes "rq_try_pop q run = Some (q', p)"
  shows "rq_contents q run = p # rq_contents q' run" "run' \<noteq> run \<Longrightarrow> rq_contents q' run' = rq_contents q run'"
  using assms by (auto simp: rq_try_pop_def rq_contents_def delete_conv update_conv split: option.splits list.splits if_splits)

lemma sum_list_update_nat:
  fixes g :: "'a \<Rightarrow> nat"
  shows "i < length xs \<Longrightarrow> sum_list (map g (xs[i := x])) + g (xs ! i) = sum_list (map g xs) + g x"
proof (induction xs arbitrary: i)
  case (Cons y ys)
  then show ?case by (cases i) auto
qed simp

lemma pop_single_left:
  assumes "try_pop_single (sc_queues sc) worker_id run = Inr (Some (queues, p))"
  shows "singles_left run (sc_orch (put_queues queues sc)) < singles_left run (sc_orch sc)"
    "groups_left run' (sc_orch (put_queues queues sc)) = groups_left run' (sc_orch sc)"
proof -
  obtain i q where i: "rq_try_pop (queue_at (sc_queues sc) i) run = Some (q, p)"
    and queues: "queues = (sc_queues sc)\<lparr>nl_queues := (nl_queues (sc_queues sc))[i := q]\<rparr>"
    using assms by (auto simp: try_pop_single_def split: sum.splits option.splits)
  have l: "i < length (nl_queues (sc_queues sc))" using i by (auto simp: queue_at_def rq_try_pop_def empty_queue_def split: if_splits)
  then obtain n where n: "o_ready_next_level_queues (sc_orch sc) = Some n" "sc_queues sc = n"
    by (auto simp: sc_queues_def split: option.splits)
  show "groups_left run' (sc_orch (put_queues queues sc)) = groups_left run' (sc_orch sc)"
    using n queues by (simp add: groups_left_def put_queues_def)
  have "rq_count (nl_queues n ! i) run = Suc (rq_count q run)" using pop_contents(1) i l n(2) by fastforce
  then show "singles_left run (sc_orch (put_queues queues sc)) < singles_left run (sc_orch sc)"
    using sum_list_update_nat [of i "nl_queues n" "\<lambda>q. rq_count q run" q] n queues l by (simp add: singles_left_def put_queues_def)
qed

lemma single_loop_less:
  assumes "try_pop_single (sc_queues sc) worker_id run = Inr (Some (queues, p))"
    "single_step env run verify worker_id w p (put_queues queues sc) = (Inr None, sc')"
  shows "singles_left run (sc_orch sc') < singles_left run (sc_orch sc)"
proof -
  have "singles_left run (sc_orch sc') \<le> singles_left run (sc_orch (put_queues queues sc))"
    by (rule goes_onD [OF single_step_continues [OF queue_measures(4)] assms(2)])
  then show ?thesis using pop_single_left(1) [OF assms(1)] by simp
qed

termination single_loop
  by (relation "measure (\<lambda>(env, run, verify, worker_id, w, sc). singles_left run (sc_orch sc))") (auto intro: single_loop_less)

declare single_loop.simps [simp del]

fun singles_pass :: "Surroundings \<Rightarrow> RunId \<Rightarrow> WorkerId list \<Rightarrow> bool \<Rightarrow> WorkerId list \<Rightarrow> Scheduler \<Rightarrow> (exn + bool) \<times> Scheduler" where
  "singles_pass env run reserved verify_group_barrier [] sc = (Inr False, sc)"
| "singles_pass env run reserved verify_group_barrier (worker_id # ids) sc =
     (if worker_id \<in> set reserved then singles_pass env run reserved verify_group_barrier ids sc
      else
        (case find_worker (sc_next_level sc) worker_id of
           None \<Rightarrow> (Inl (RuntimeError (''Scheduler::dispatch_next_level_singles: unknown worker id '' @ to_string worker_id)), sc)
         | Some w \<Rightarrow>
             if \<not> can_dispatch (ep_transport env (sc_asked sc)) (sc_next_level sc ! w)
             then singles_pass env run reserved verify_group_barrier ids (asked sc)
             else
               (case single_loop env run verify_group_barrier worker_id w (asked sc) of
                  (Inl e, sc') \<Rightarrow> (Inl e, sc')
                | (Inr True, sc') \<Rightarrow> (Inr True, sc')
                | (Inr False, sc') \<Rightarrow> singles_pass env run reserved verify_group_barrier ids sc')))"

definition dispatch_next_level_singles ::
  "Surroundings \<Rightarrow> WorkerId list \<Rightarrow> RunId \<Rightarrow> bool \<Rightarrow> Scheduler \<Rightarrow> (exn + bool) \<times> Scheduler" where
  "dispatch_next_level_singles env reserved_worker_ids run verify_group_barrier sc =
     singles_pass env run reserved_worker_ids verify_group_barrier (nl_worker_ids (sc_queues sc)) sc"

section \<open>Sub-worker tasks\<close>

fun pick_subs :: "WorkerThread list \<Rightarrow> nat \<Rightarrow> nat list \<Rightarrow> nat list option" where
  "pick_subs subs 0 workers = Some workers"
| "pick_subs subs (Suc n) workers =
     (case pick_idle_sub_excluding subs workers of None \<Rightarrow> None | Some w \<Rightarrow> pick_subs subs n (workers @ [w]))"

text \<open>A member of a group that failed meanwhile is not dispatched any more.\<close>

definition dispatch_sub_member :: "Surroundings \<Rightarrow> TaskSlot \<Rightarrow> nat \<times> nat \<Rightarrow> (Scheduler, unit) action" where
  "dispatch_sub_member env slot = (\<lambda>(i, w) sc.
     let s = o_slots (sc_orch sc) slot in
     if ts_is_group s then
       (case start_member s i of
          (s', started) \<Rightarrow>
            if \<not> started then (Inr (), sc)
            else dispatch_claimed env (SubWorker w) (new_dispatch slot i) False (sc\<lparr>sc_orch := upd_slot slot (\<lambda>_. s') (sc_orch sc)\<rparr>))
     else dispatch_claimed env (SubWorker w) (new_dispatch slot i) False sc)"

definition sub_step :: "Surroundings \<Rightarrow> RunId \<Rightarrow> TaskSlot \<Rightarrow> (Scheduler, bool) action" where
  "sub_step env run slot = bind_act (lift_orch (slot_state slot)) (\<lambda>s.
     if ts_state s \<noteq> READY then ok True
     else if ts_run_id s \<noteq> run then seq_act (lift_orch (enqueue_ready slot)) (ok False)
     else if ts_worker_type s \<noteq> SUB then throw (RuntimeError ''Scheduler::dispatch_sub_ready: misrouted task slot'')
     else bind_act (\<lambda>sc. (Inr (pick_subs (sc_sub sc) (group_size s) []), sc)) (\<lambda>picked.
       case picked of
         None \<Rightarrow> seq_act (lift_orch (enqueue_ready slot)) (ok False)
       | Some workers \<Rightarrow>
           bind_act (if ts_is_group s then claim_group slot GM_NOT_DISPATCHED else claim_single slot) (\<lambda>claimed.
             if \<not> claimed then ok True
             else seq_act (each_act (dispatch_sub_member env slot) (zip [0 ..< group_size s] workers)) (ok True))))"

function dispatch_sub_ready :: "Surroundings \<Rightarrow> RunId \<Rightarrow> Scheduler \<Rightarrow> (exn + unit) \<times> Scheduler" where
  "dispatch_sub_ready env run sc =
     (case rq_try_pop (o_ready_sub_queue (sc_orch sc)) run of
        None \<Rightarrow> (Inr (), sc)
      | Some (q, slot) \<Rightarrow>
          (case sub_step env run slot (sc\<lparr>sc_orch := (sc_orch sc)\<lparr>o_ready_sub_queue := q\<rparr>\<rparr>) of
             (Inl e, sc') \<Rightarrow> (Inl e, sc')
           | (Inr False, sc') \<Rightarrow> (Inr (), sc')
           | (Inr True, sc') \<Rightarrow> dispatch_sub_ready env run sc'))"
  by pat_completeness auto

lemma dispatch_sub_member_eq:
  "dispatch_sub_member env slot (i, w) sc =
     (let s = o_slots (sc_orch sc) slot in
      if ts_is_group s then
        if ts_group_member_states s ! i \<noteq> GM_NOT_DISPATCHED \<or> ts_group_failed s then (Inr (), sc)
        else dispatch_claimed env (SubWorker w) (new_dispatch slot i) False
               (sc\<lparr>sc_orch := upd_slot slot (\<lambda>s. s\<lparr>ts_group_member_states := (ts_group_member_states s)[i := GM_RUNNING]\<rparr>) (sc_orch sc)\<rparr>)
      else dispatch_claimed env (SubWorker w) (new_dispatch slot i) False sc)"
  by (simp add: dispatch_sub_member_def start_member_def upd_slot_def Let_def)

lemma sc_lowers_sub_member: "queue_measure f \<Longrightarrow> sc_lowers f (dispatch_sub_member env p iw)"
proof -
  assume f: "queue_measure f"
  have u: "f (upd_slot p g st) = f st" for g st using queue_measureD [OF f, of "upd_slot p g st" st] by simp
  note d = sc_lowers_dispatch [OF f, unfolded sc_lowers_def lowers_def, rule_format]
  show ?thesis
    using d [of env] d [of env _ _ _ "_\<lparr>sc_orch := upd_slot p _ _\<rparr>", simplified u]
    by (cases iw) (auto simp: sc_lowers_def lowers_def dispatch_sub_member_eq Let_def u)
qed

lemma sub_step_continues: "queue_measure f \<Longrightarrow> goes_on f True (sub_step env run p)"
proof -
  assume f: "queue_measure f"
  have d: "goes_on f True (if \<not> claimed then ok True else seq_act (each_act (dispatch_sub_member env p) ws) (ok True))" for claimed ws
    by (rule goes_on_lowers) (auto intro!: sc_lowers_ok sc_lowers_seq sc_lowers_each sc_lowers_sub_member f)
  have g: "goes_on f True (bind_act (\<lambda>sc. (Inr (pick_subs (sc_sub sc) n []), sc)) k)" if "\<And>x. goes_on f True (k x)" for n k
    by (rule goes_on_bind [OF sc_lowers_pure that]) simp
  show ?thesis
    unfolding sub_step_def
    by (rule goes_on_bind [OF sc_lowers_slot])
      (auto intro!: g goes_on_bind [OF sc_lowers_claim(1) [OF f] d] goes_on_bind [OF sc_lowers_claim(2) [OF f] d] goes_on_stop goes_on_throw goes_on_lowers [OF sc_lowers_ok(1)] split: option.split)
qed

lemma sub_loop_less:
  assumes "rq_try_pop (o_ready_sub_queue (sc_orch sc)) run = Some (q, p)"
    "sub_step env run p (sc\<lparr>sc_orch := (sc_orch sc)\<lparr>o_ready_sub_queue := q\<rparr>\<rparr>) = (Inr True, sc')"
  shows "subs_left run (sc_orch sc') < subs_left run (sc_orch sc)"
proof -
  let ?sc = "sc\<lparr>sc_orch := (sc_orch sc)\<lparr>o_ready_sub_queue := q\<rparr>\<rparr>"
  have "subs_left run (sc_orch sc') \<le> subs_left run (sc_orch ?sc)"
    by (rule goes_onD [OF sub_step_continues [OF queue_measures(1)] assms(2)])
  moreover have "subs_left run (sc_orch ?sc) < subs_left run (sc_orch sc)"
    using pop_contents(1) [OF assms(1)] by (simp add: subs_left_def)
  ultimately show ?thesis by simp
qed

termination dispatch_sub_ready
  by (relation "measure (\<lambda>(env, run, sc). subs_left run (sc_orch sc))") (auto intro: sub_loop_less)

declare dispatch_sub_ready.simps [simp del]

section \<open>Staging behind the active run\<close>

text \<open>A task of a prepared run goes to a worker's staged lane unless groups of its run wait.\<close>

definition stage_claimed :: "Surroundings \<Rightarrow> RunId \<Rightarrow> WorkerId \<Rightarrow> nat \<Rightarrow> TaskSlot \<Rightarrow> (Scheduler, unit) action" where
  "stage_claimed env run worker_id w slot = bind_act (lift_orch (slot_state slot)) (\<lambda>s.
     if ts_state s \<noteq> READY then ok ()
     else if ts_run_id s \<noteq> run \<or> ts_worker_type s \<noteq> NEXT_LEVEL \<or> ts_is_group s then lift_orch (enqueue_ready slot)
     else bind_act (lift_act (target_worker_id s 0)) (\<lambda>target.
       if target \<noteq> worker_id then lift_orch (enqueue_ready slot)
       else bind_act (claim_single slot) (\<lambda>claimed.
         if \<not> claimed then ok () else dispatch_claimed env (NextLevelWorker w) (new_dispatch slot 0) True)))"

fun stage_workers :: "Surroundings \<Rightarrow> RunId \<Rightarrow> WorkerId list \<Rightarrow> Scheduler \<Rightarrow> (exn + unit) \<times> Scheduler" where
  "stage_workers env run [] sc = (Inr (), sc)"
| "stage_workers env run (worker_id # ids) sc =
     (case find_worker (sc_next_level sc) worker_id of
        None \<Rightarrow> stage_workers env run ids sc
      | Some w \<Rightarrow>
          let free = can_stage (ep_transport env (sc_asked sc)) (sc_next_level sc ! w); sc = asked sc in
          if \<not> free then stage_workers env run ids sc
          else
            (case single_empty (sc_queues sc) worker_id run of
               Inl e \<Rightarrow> (Inl e, sc)
             | Inr True \<Rightarrow> stage_workers env run ids sc
             | Inr False \<Rightarrow>
                 (case can_stage_run_on_worker (sc_orch sc) run worker_id of
                    Inl e \<Rightarrow> (Inl e, sc)
                  | Inr False \<Rightarrow> stage_workers env run ids sc
                  | Inr True \<Rightarrow>
                      (case try_pop_single (sc_queues sc) worker_id run of
                         Inl e \<Rightarrow> (Inl e, sc)
                       | Inr None \<Rightarrow> stage_workers env run ids sc
                       | Inr (Some (queues, slot)) \<Rightarrow>
                           let sc = put_queues queues sc in
                           if \<not> groups_empty (sc_queues sc) run then lift_orch (enqueue_ready slot) sc
                           else (case stage_claimed env run worker_id w slot sc of
                                   (Inl e, sc') \<Rightarrow> (Inl e, sc')
                                 | (Inr _, sc') \<Rightarrow> stage_workers env run ids sc')))))"

definition stage_preparable_run :: "Surroundings \<Rightarrow> RunId \<Rightarrow> (Scheduler, unit) action" where
  "stage_preparable_run env run sc =
     (if run = INVALID_RUN_ID \<or> \<not> groups_empty (sc_queues sc) run then (Inr (), sc)
      else stage_workers env run (nl_worker_ids (sc_queues sc)) sc)"

definition dispatch_preparable_next_level_singles :: "Surroundings \<Rightarrow> (Scheduler, unit) action" where
  "dispatch_preparable_next_level_singles env sc = each_act (stage_preparable_run env) (preparable_run_ids (sc_orch sc)) sc"

section \<open>One dispatch pass\<close>

definition update_reservation_stall :: "Surroundings \<Rightarrow> NextLevelGroupDispatchResult \<Rightarrow> Scheduler \<Rightarrow> Scheduler" where
  "update_reservation_stall env result sc =
     (if gr_blocked_group_slot result = INVALID_SLOT \<or> gr_idle_queued_target_worker_ids result = []
      then sc\<lparr>sc_reservation_stall_episode := None\<rparr>
      else
        let now = ep_now env (sc_asked sc); sc = asked sc;
            fresh = \<lparr>se_group_slot = gr_blocked_group_slot result, se_started_at = now, se_reported = False\<rparr>;
            episode = (case sc_reservation_stall_episode sc of
                         None \<Rightarrow> fresh
                       | Some e \<Rightarrow> if se_group_slot e \<noteq> gr_blocked_group_slot result then fresh else e)
        in if se_reported episode \<or> now < se_started_at episode + ep_stall_warn_after env
           then sc\<lparr>sc_reservation_stall_episode := Some episode\<rparr>
           else sc\<lparr>sc_reservation_stall_episode := Some (episode\<lparr>se_reported := True\<rparr>),
                   sc_stall_reports := sc_stall_reports sc @
                     [\<lparr>sd_group_slot = gr_blocked_group_slot result, sd_busy_target_worker_ids = gr_busy_target_worker_ids result,
                       sd_idle_queued_target_worker_ids = gr_idle_queued_target_worker_ids result,
                       sd_idle_queued_single_head_slots = gr_idle_queued_single_head_slots result\<rparr>]\<rparr>)"

definition reservation_stall_deadline :: "Surroundings \<Rightarrow> Scheduler \<Rightarrow> nat option" where
  "reservation_stall_deadline env sc =
     (case sc_reservation_stall_episode sc of
        None \<Rightarrow> None
      | Some e \<Rightarrow> if se_reported e then None else Some (se_started_at e + ep_stall_warn_after env))"

text \<open>The group phase and the singles phase, repeated while a group arrives between them.\<close>

function next_level_rounds :: "Surroundings \<Rightarrow> RunId \<Rightarrow> Scheduler \<Rightarrow> (exn + unit) \<times> Scheduler" where
  "next_level_rounds env run sc =
     (case dispatch_next_level_group env run sc of
        (Inl e, sc1) \<Rightarrow> (Inl e, sc1)
      | (Inr result, sc1) \<Rightarrow>
          (case dispatch_next_level_singles env (gr_reserved_worker_ids result) run (gr_blocked_group_slot result = INVALID_SLOT)
                  (update_reservation_stall env result sc1) of
             (Inl e, sc2) \<Rightarrow> (Inl e, sc2)
           | (Inr False, sc2) \<Rightarrow> (Inr (), sc2)
           | (Inr True, sc2) \<Rightarrow> next_level_rounds env run sc2))"
  by pat_completeness auto

subsection \<open>Termination\<close>

text \<open>
  A round is repeated only after its group phase met a misplaced entry: otherwise the group queue of the run was empty, or a group
  was blocked and the barrier is not checked. What a round puts back is a task it took out before.
\<close>

definition round_left :: "RunId \<Rightarrow> Orch \<Rightarrow> nat" where
  "round_left run st = 2 * singles_left run st + groups_left run st"

lemma round_measure [intro, simp]: "queue_measure (round_left run)"
  using queue_measures(2,4) [of run] unfolding queue_measure_def round_left_def by (metis add_mono_thms_linordered_semiring(1) mult_le_mono2)

lemma rq_contents_push: "rq_contents (rq_push q r p) run = (if run = r then rq_contents q run @ [p] else rq_contents q run)"
  by (auto simp: rq_push_def rq_contents_def update_conv split: option.split)

lemma enqueue_left:
  assumes "enqueue_ready p st = (res, st')"
  shows "run \<noteq> ts_run_id (o_slots st p) \<Longrightarrow> round_left run st' = round_left run st \<and> groups_left run st' = groups_left run st"
    "round_left run st' \<le> round_left run st + 2"
proof -
  have push: "sum_list (map (\<lambda>q. rq_count q v) ((nl_queues n)[i := rq_push (queue_at n i) r p])) =
      sum_list (map (\<lambda>q. rq_count q v) (nl_queues n)) + (if i < length (nl_queues n) \<and> v = r then 1 else 0)" for n i r v
    using sum_list_update_nat [of i "nl_queues n" "\<lambda>q. rq_count q v" "rq_push (queue_at n i) r p"]
    by (cases "i < length (nl_queues n)"; cases "v = r") (simp_all add: rq_contents_push list_update_beyond)
  have effect: "(run \<noteq> ts_run_id (o_slots st p) \<longrightarrow> round_left run (st\<lparr>o_ready_next_level_queues := Some n'\<rparr>) = round_left run st \<and>
        groups_left run (st\<lparr>o_ready_next_level_queues := Some n'\<rparr>) = groups_left run st) \<and>
      round_left run (st\<lparr>o_ready_next_level_queues := Some n'\<rparr>) \<le> round_left run st + 2"
    if "o_ready_next_level_queues st = Some n" "push_ready (o_slots st p) p n = Inr n'" for n n'
    using that
    by (auto simp: push_ready_def push_single_def push_group_def round_left_def singles_left_def groups_left_def rq_contents_push push
        split: if_splits sum.splits)
  have "st' = st \<or> (\<exists>q. st' = st\<lparr>o_ready_sub_queue := q\<rparr>) \<or> (\<exists>n n'. o_ready_next_level_queues st = Some n \<and>
      push_ready (o_slots st p) p n = Inr n' \<and> st' = st\<lparr>o_ready_next_level_queues := Some n'\<rparr>)"
    using assms by (auto simp: enqueue_ready_def bind_act_def slot_state_def peek_slot_def split: if_splits option.splits sum.splits)
  then consider "st' = st" | q where "st' = st\<lparr>o_ready_sub_queue := q\<rparr>"
    | n n' where "o_ready_next_level_queues st = Some n" "push_ready (o_slots st p) p n = Inr n'" "st' = st\<lparr>o_ready_next_level_queues := Some n'\<rparr>"
    by blast
  then have "(run \<noteq> ts_run_id (o_slots st p) \<longrightarrow> round_left run st' = round_left run st \<and> groups_left run st' = groups_left run st) \<and>
      round_left run st' \<le> round_left run st + 2"
  proof cases
    case 2
    then show ?thesis by (simp add: round_left_def singles_left_def groups_left_def)
  next
    case 3
    then show ?thesis using effect [OF 3(1,2)] by simp
  qed simp
  then show "run \<noteq> ts_run_id (o_slots st p) \<Longrightarrow> round_left run st' = round_left run st \<and> groups_left run st' = groups_left run st"
    "round_left run st' \<le> round_left run st + 2" by simp_all
qed

text \<open>The group phase.\<close>

lemma group_step_round:
  assumes front: "try_front_group (sc_queues sc) run = Some p" and e: "group_step env run p sc = (Inr (Some result), sc')"
  shows "round_left run (sc_orch sc') \<le> round_left run (sc_orch sc)"
    "gr_blocked_group_slot result = INVALID_SLOT \<Longrightarrow> round_left run (sc_orch sc') < round_left run (sc_orch sc)"
proof -
  obtain s where s: "slot_state p (sc_orch sc) = (Inr s, sc_orch sc)" and o: "s = o_slots (sc_orch sc) p" "p \<noteq> INVALID_SLOT"
    using e by (auto simp: group_step_def bind_act_def lift_orch_def slot_state_def peek_slot_def ring_slot_state_def
        split: option.splits if_splits)
  have pop: "\<exists>sc1. pop_group run sc0 = (Inr (Some p), sc1) \<and> round_left run (sc_orch sc1) < round_left run (sc_orch sc0) \<and>
      o_slots (sc_orch sc1) = o_slots (sc_orch sc0)"
    if "try_front_group (sc_queues sc0) run = Some p" for sc0
    using pop_group_front [OF that] by (auto simp: round_left_def)
  obtain sc1 where pop1: "pop_group run sc = (Inr (Some p), sc1)" "round_left run (sc_orch sc1) < round_left run (sc_orch sc)"
    "o_slots (sc_orch sc1) = o_slots (sc_orch sc)" using pop [OF front] by blast
  obtain res sc2 where c: "check_members env s [0 ..< group_size s] ([], [], []) sc = (res, sc2)"
    by (cases "check_members env s [0 ..< group_size s] ([], [], []) sc")
  then obtain n where sc2: "sc2 = sc\<lparr>sc_asked := n\<rparr>" using check_members_frame by blast
  then have "try_front_group (sc_queues sc2) run = Some p" using front by (simp add: sc_queues_def)
  then obtain sc3 where pop2: "pop_group run sc2 = (Inr (Some p), sc3)" using pop by blast
  have "round_left run (sc_orch sc') < round_left run (sc_orch sc) \<and> result = no_group_result \<or>
      sc_orch sc' = sc_orch sc \<and> gr_blocked_group_slot result = p"
  proof (cases "ts_run_id s = run")
    case False
    obtain res1 st1 where q: "enqueue_ready p (sc_orch sc1) = (res1, st1)" by (cases "enqueue_ready p (sc_orch sc1)")
    have "round_left run st1 = round_left run (sc_orch sc1)" using enqueue_left(1) [OF q, of run] False o pop1(3) by simp
    then show ?thesis
      using e s pop1(1,2) q False
      by (auto simp: group_step_def bind_act_def lift_orch_def seq_act_def ok_def split: if_splits sum.splits)
  next
    case True
    then show ?thesis
      using e s c pop2 pop1(1) sc2
      by (cases res) (auto simp: group_step_def bind_act_def lift_orch_def seq_act_def ok_def throw_def claim_group_def
          split: if_splits sum.splits prod.splits)
  qed
  then show "round_left run (sc_orch sc') \<le> round_left run (sc_orch sc)"
    "gr_blocked_group_slot result = INVALID_SLOT \<Longrightarrow> round_left run (sc_orch sc') < round_left run (sc_orch sc)"
    using o(2) by (auto simp: no_group_result_def)
qed

lemma groups_left_empty: "groups_empty (sc_queues sc) run \<longleftrightarrow> groups_left run (sc_orch sc) = 0"
  by (auto simp: groups_empty_def rq_empty_def groups_left_def sc_queues_def rq_contents_def empty_queue_def split: option.split)

lemma group_phase_round:
  "dispatch_next_level_group env run sc = (Inr result, sc') \<Longrightarrow>
   round_left run (sc_orch sc') \<le> round_left run (sc_orch sc) \<and>
   (gr_blocked_group_slot result = INVALID_SLOT \<longrightarrow>
      groups_left run (sc_orch sc') = 0 \<or> round_left run (sc_orch sc') < round_left run (sc_orch sc))"
proof (induction env run sc arbitrary: result sc' rule: dispatch_next_level_group.induct)
  case (1 env run sc)
  note eq = 1(2) [unfolded dispatch_next_level_group.simps [of env run sc]]
  show ?case
  proof (cases "try_front_group (sc_queues sc) run")
    case None
    then have "groups_empty (sc_queues sc) run"
      by (auto simp: try_front_group_def rq_try_front_def groups_empty_def rq_empty_def split: option.splits list.splits)
    then show ?thesis using eq None by (simp add: groups_left_empty)
  next
    case (Some p)
    obtain r sc1 where g: "group_step env run p sc = (r, sc1)" by (cases "group_step env run p sc")
    show ?thesis
    proof (cases "r = Inr None")
      case True
      have "round_left run (sc_orch sc1) < round_left run (sc_orch sc)"
        using group_step_continues [OF Some g [unfolded True]] by (simp add: round_left_def)
      moreover have "dispatch_next_level_group env run sc1 = (Inr result, sc')" using eq Some g True by simp
      ultimately show ?thesis using 1(1) [OF Some g [symmetric] True refl] by fastforce
    next
      case False
      then have "r = Inr (Some result)" "sc1 = sc'" using eq Some g by (auto split: sum.splits option.splits)
      then show ?thesis using group_step_round [OF Some] g by blast
    qed
  qed
qed

text \<open>The singles phase.\<close>

lemma bind_slot:
  "bind_act (lift_orch (slot_state p)) k sc =
     (case peek_slot (sc_orch sc) p of
        None \<Rightarrow> (Inl (RuntimeError ''Orchestrator::slot_state: invalid slot id''), sc)
      | Some s \<Rightarrow> k s sc)"
  by (simp add: bind_act_def lift_orch_def slot_state_def split: option.split)

lemma bind_pure: "bind_act (\<lambda>sc. (Inr (f sc), sc)) k sc = k (f sc) sc"
  by (simp add: bind_act_def)

lemma bind_lift: "bind_act (lift_act r) k sc = (case r of Inl e \<Rightarrow> (Inl e, sc) | Inr x \<Rightarrow> k x sc)"
  by (simp add: bind_act_def lift_act_def split: sum.split)

lemma requeued:
  "seq_act (lift_orch (enqueue_ready p)) (ok x) sc = (Inr y, sc') \<Longrightarrow> y = x \<and> (\<exists>res. enqueue_ready p (sc_orch sc) = (res, sc_orch sc'))"
  by (auto simp: seq_act_def bind_act_def lift_orch_def ok_def split: sum.splits prod.splits)

lemma single_step_cases:
  assumes e: "single_step env run verify worker_id w p sc = (Inr (Some b), sc')"
  obtains (other) res where "ts_run_id (o_slots (sc_orch sc) p) \<noteq> run" "\<not> b" "enqueue_ready p (sc_orch sc) = (res, sc_orch sc')"
    | (waiting) res where "verify \<and> \<not> groups_empty (sc_queues sc) run" "b" "enqueue_ready p (sc_orch sc) = (res, sc_orch sc')"
    | (dispatched) "bind_act (claim_single p) (\<lambda>claimed. if \<not> claimed then ok None
        else seq_act (dispatch_claimed env (NextLevelWorker w) (new_dispatch p 0) False) (ok (Some False))) sc = (Inr (Some b), sc')"
proof -
  obtain s where s: "peek_slot (sc_orch sc) p = Some s" using e by (auto simp: single_step_def bind_slot split: option.splits)
  then have o: "s = o_slots (sc_orch sc) p" by (simp add: peek_slot_def split: if_splits)
  note e1 = e [unfolded single_step_def bind_slot s option.case bind_pure]
  have "ts_state s = READY" using e1 by (auto simp: ok_def split: if_splits)
  note e2 = e1 [unfolded if_not_P [OF not_not [THEN iffD2, OF this]]]
  show thesis
  proof (cases "ts_run_id s = run")
    case False
    then show ?thesis using e2 requeued other o by fastforce
  next
    case True
    note e3 = e2 [unfolded if_not_P [OF not_not [THEN iffD2, OF True]]]
    show ?thesis
    proof (cases "verify \<and> \<not> groups_empty (sc_queues sc) run")
      case w: True
      then show ?thesis using e3 requeued waiting by fastforce
    next
      case False
      then show ?thesis using e3 dispatched by (auto simp: bind_lift throw_def split: if_splits sum.splits)
    qed
  qed
qed

lemma single_step_round:
  assumes e: "single_step env run verify worker_id w p sc = (Inr (Some b), sc')"
  shows "round_left run (sc_orch sc') \<le> round_left run (sc_orch sc) + 2 \<and> (b \<longrightarrow> verify \<and> 0 < groups_left run (sc_orch sc)) \<and>
    (\<not> b \<longrightarrow> groups_left run (sc_orch sc') \<le> groups_left run (sc_orch sc) \<and> round_left run (sc_orch sc') \<le> round_left run (sc_orch sc))"
  using e
proof (cases rule: single_step_cases)
  case other
  then show ?thesis using enqueue_left(1) [OF other(3)] by simp
next
  case waiting
  then show ?thesis using enqueue_left(2) [OF waiting(3), of run] by (simp add: groups_left_empty)
next
  case dispatched
  let ?d = "bind_act (claim_single p) (\<lambda>claimed. if \<not> claimed then ok None
      else seq_act (dispatch_claimed env (NextLevelWorker w) (new_dispatch p 0) False) (ok (Some False)))"
  have "sc_lowers f ?d" if "queue_measure f" for f
    using that by (auto intro!: sc_lowers_bind sc_lowers_seq sc_lowers_ok sc_lowers_claim sc_lowers_dispatch)
  note d = sc_lowersD [of _ ?d, OF this]
  have "\<not> b" using dispatched by (auto simp: bind_act_def [of "claim_single p"] seq_act_def bind_act_def ok_def split: prod.splits sum.splits if_splits)
  then show ?thesis using d [OF round_measure dispatched, of run] d [OF queue_measures(2) dispatched, of run] by simp
qed

lemma pop_single_round:
  assumes "try_pop_single (sc_queues sc) worker_id run = Inr (Some (queues, p))"
  shows "round_left run (sc_orch (put_queues queues sc)) + 2 \<le> round_left run (sc_orch sc)"
  using pop_single_left [OF assms] by (simp add: round_left_def)

lemma single_loop_round:
  "single_loop env run verify worker_id w sc = (Inr b, sc') \<Longrightarrow>
   round_left run (sc_orch sc') \<le> round_left run (sc_orch sc) \<and> (b \<longrightarrow> verify \<and> 0 < groups_left run (sc_orch sc)) \<and>
   (\<not> b \<longrightarrow> groups_left run (sc_orch sc') \<le> groups_left run (sc_orch sc))"
proof (induction env run verify worker_id w sc rule: single_loop.induct)
  case (1 env run verify worker_id w sc)
  note eq = 1(2) [unfolded single_loop.simps [of env run verify worker_id w sc]]
  show ?case
  proof (cases "\<exists>queues p. try_pop_single (sc_queues sc) worker_id run = Inr (Some (queues, p))")
    case False
    then show ?thesis using eq by (auto split: sum.splits option.splits)
  next
    case True
    then obtain queues p where pop: "try_pop_single (sc_queues sc) worker_id run = Inr (Some (queues, p))" by blast
    let ?sc = "put_queues queues sc"
    note pr = pop_single_round [OF pop] pop_single_left(2) [OF pop, of run]
    obtain r sc1 where g: "single_step env run verify worker_id w p ?sc = (r, sc1)" by (cases "single_step env run verify worker_id w p ?sc")
    show ?thesis
    proof (cases "r = Inr None")
      case r: True
      have "round_left run (sc_orch sc1) \<le> round_left run (sc_orch ?sc)" "groups_left run (sc_orch sc1) \<le> groups_left run (sc_orch ?sc)"
        using goes_onD [OF single_step_continues [OF round_measure] g [unfolded r]]
          goes_onD [OF single_step_continues [OF queue_measures(2)] g [unfolded r]] by simp_all
      moreover have "single_loop env run verify worker_id w sc1 = (Inr b, sc')" using eq pop g r by simp
      ultimately show ?thesis using 1(1) [OF pop refl refl g [symmetric] r refl] pr by (metis add_leD1 le_trans less_le_trans)
    next
      case False
      then have "r = Inr (Some b)" "sc1 = sc'" using eq pop g by (auto split: sum.splits option.splits)
      then show ?thesis using single_step_round [of env run verify worker_id w p ?sc b sc'] g pr by (metis add_le_imp_le_right le_trans)
    qed
  qed
qed

lemma singles_pass_round:
  "singles_pass env run reserved verify ids sc = (Inr b, sc') \<Longrightarrow>
   round_left run (sc_orch sc') \<le> round_left run (sc_orch sc) \<and> (b \<longrightarrow> verify \<and> 0 < groups_left run (sc_orch sc))"
proof (induction env run reserved verify ids sc rule: singles_pass.induct)
  case (2 env run reserved verify worker_id ids sc)
  show ?case
  proof (cases "worker_id \<in> set reserved")
    case True
    then show ?thesis using 2 by simp
  next
    case False
    then obtain w where w: "find_worker (sc_next_level sc) worker_id = Some w" using 2(4) by (auto split: option.splits)
    show ?thesis
    proof (cases "can_dispatch (ep_transport env (sc_asked sc)) (sc_next_level sc ! w)")
      case closed: False
      then show ?thesis using 2(2) [OF False w] 2(4) False w by simp
    next
      case True
      obtain r sc1 where l: "single_loop env run verify worker_id w (asked sc) = (r, sc1)"
        by (cases "single_loop env run verify worker_id w (asked sc)")
      have "r = Inr True \<and> b \<and> sc1 = sc' \<or> r = Inr False \<and> singles_pass env run reserved verify ids sc1 = (Inr b, sc')"
        using 2(4) False w True l by (auto split: sum.splits bool.splits)
      then show ?thesis
      proof
        assume "r = Inr True \<and> b \<and> sc1 = sc'"
        then show ?thesis using single_loop_round [of env run verify worker_id w "asked sc" True sc'] l by simp
      next
        assume a: "r = Inr False \<and> singles_pass env run reserved verify ids sc1 = (Inr b, sc')"
        have "round_left run (sc_orch sc1) \<le> round_left run (sc_orch sc) \<and> groups_left run (sc_orch sc1) \<le> groups_left run (sc_orch sc)"
          using single_loop_round [of env run verify worker_id w "asked sc" False sc1] l a by simp
        moreover have "round_left run (sc_orch sc') \<le> round_left run (sc_orch sc1) \<and> (b \<longrightarrow> verify \<and> 0 < groups_left run (sc_orch sc1))"
          using 2(3) [OF False w _ l [symmetric], of False] True a by simp
        ultimately show ?thesis by linarith
      qed
    qed
  qed
qed simp

lemma stall_orch [simp]:
  "sc_orch (update_reservation_stall env result sc) = sc_orch sc" "sc_next_level (update_reservation_stall env result sc) = sc_next_level sc"
  by (simp_all add: update_reservation_stall_def asked_def Let_def)

lemma next_level_round_less:
  assumes g: "dispatch_next_level_group env run sc = (Inr result, sc1)"
    and e: "dispatch_next_level_singles env (gr_reserved_worker_ids result) run (gr_blocked_group_slot result = INVALID_SLOT)
      (update_reservation_stall env result sc1) = (Inr True, sc2)"
  shows "round_left run (sc_orch sc2) < round_left run (sc_orch sc)"
proof -
  have r: "round_left run (sc_orch sc2) \<le> round_left run (sc_orch sc1)" "0 < groups_left run (sc_orch sc1)"
    using singles_pass_round [OF e [unfolded dispatch_next_level_singles_def]] by simp_all
  show ?thesis
  proof (cases "gr_blocked_group_slot result = INVALID_SLOT")
    case True
    then show ?thesis using group_phase_round [OF g] r by linarith
  next
    case False
    then show ?thesis using singles_pass_round [OF e [unfolded dispatch_next_level_singles_def]] by simp
  qed
qed

termination next_level_rounds
  by (relation "measure (\<lambda>(env, run, sc). round_left run (sc_orch sc))") (auto intro: next_level_round_less [OF sym sym])

declare next_level_rounds.simps [simp del]

text \<open>The runs that may launch early are authorised after staging, each on its own.\<close>

definition dispatch_ready :: "Surroundings \<Rightarrow> bool \<Rightarrow> (Scheduler, unit) action" where
  "dispatch_ready env scan_preparable sc =
     (let sc = sc\<lparr>sc_dispatch_round_count := sc_dispatch_round_count sc + 1\<rparr>; active_run = dispatchable_run_id (sc_orch sc) in
      if active_run = INVALID_RUN_ID then (Inr (), sc)
      else
        seq_act (next_level_rounds env active_run)
        (seq_act (dispatch_sub_ready env active_run)
        (seq_act (if scan_preparable then dispatch_preparable_next_level_singles env else ok ())
                 (modify (\<lambda>sc. fold (\<lambda>run sc. if run \<noteq> INVALID_RUN_ID then manager_authorize_staged_launch run sc else sc)
                                (early_launch_prefix (sc_orch sc)) sc))))
          (activate_prepared_run active_run sc))"

section \<open>The loop of the scheduler thread\<close>

definition progress_worker :: "Surroundings \<Rightarrow> WorkerRef \<Rightarrow> (Scheduler, unit) action" where
  "progress_worker env worker sc =
     (case wt_progress (ep_activate env (sc_asked sc)) (ep_poll env (sc_asked sc)) None (worker_at worker sc) of
        (events, wt) \<Rightarrow>
          lift_orch (each_act deliver events) (give_back worker (ep_poll env (sc_asked sc)) (put_worker worker wt (asked sc))))"

definition manager_progress :: "Surroundings \<Rightarrow> (Scheduler, unit) action" where
  "manager_progress env sc =
     each_act (progress_worker env)
       (map NextLevelWorker [0 ..< length (sc_next_level sc)] @ map SubWorker [0 ..< length (sc_sub sc)]) sc"

end
