(* ===== verification/Ref_Inv.thy ===== *)
theory Ref_Inv
  imports Run_Safety Ring_Safety
begin

text \<open>
  Who keeps a task alive. A task holds itself and the producers it retains until it has ended and given them back; an
  open scope holds the tasks registered in it. The counters \<open>fanout_total\<close> and \<open>fanout_released\<close> of a slot count
  these holders exactly: this theory states that as an invariant of the node, together with the count of unconsumed tasks
  every run keeps and the state of the allocator, and shows that releasing a reference preserves it. An operation that is
  in the middle of giving references back is described by the references it still owes.
\<close>

section \<open>Operations that return\<close>

text \<open>From a state with \<open>P\<close> the operation throws nothing but an overflow, and ends with \<open>Q\<close> of its result.\<close>

definition runs_to :: "('s \<Rightarrow> bool) \<Rightarrow> ('s, 'a) action \<Rightarrow> ('a \<Rightarrow> 's \<Rightarrow> bool) \<Rightarrow> bool" where
  "runs_to P m Q \<longleftrightarrow> (\<forall>s res s'. P s \<and> m s = (res, s') \<and> \<not> overflow res \<longrightarrow> (\<exists>x. res = Inr x \<and> Q x s'))"

lemma runs_toD: "runs_to P m Q \<Longrightarrow> P s \<Longrightarrow> m s = (res, s') \<Longrightarrow> \<not> overflow res \<Longrightarrow> \<exists>x. res = Inr x \<and> Q x s'"
  by (simp add: runs_to_def)

lemma runs_to_ok: "(\<And>s. P s \<Longrightarrow> Q x s) \<Longrightarrow> runs_to P (ok x) Q"
  by (simp add: runs_to_def ok_def)

lemma runs_to_modify: "(\<And>s. P s \<Longrightarrow> Q () (f s)) \<Longrightarrow> runs_to P (modify f) Q"
  by (simp add: runs_to_def modify_def)

lemma runs_to_bind:
  assumes "runs_to P m Q" "\<And>x. runs_to (Q x) (k x) R"
  shows "runs_to P (bind_act m k) R"
  unfolding runs_to_def
proof (intro allI impI)
  fix s res s'
  assume a: "P s \<and> bind_act m k s = (res, s') \<and> \<not> overflow res"
  obtain q t where m: "m s = (q, t)" by (cases "m s")
  have "\<not> overflow q" using a m by (cases q) (auto simp: bind_act_def)
  then obtain x where "q = Inr x" "Q x t" using runs_toD [OF assms(1) _ m] a by blast
  then show "\<exists>x. res = Inr x \<and> R x s'" using runs_toD [OF assms(2), of x t res s'] a m by (simp add: bind_act_def)
qed

lemma runs_to_seq: "runs_to P m (\<lambda>_. Q) \<Longrightarrow> runs_to Q n R \<Longrightarrow> runs_to P (seq_act m n) R"
  unfolding seq_act_def by (rule runs_to_bind)

lemma runs_to_weaken: "runs_to P m Q \<Longrightarrow> (\<And>s. P' s \<Longrightarrow> P s) \<Longrightarrow> (\<And>x s. Q x s \<Longrightarrow> Q' x s) \<Longrightarrow> runs_to P' m Q'"
  unfolding runs_to_def by blast

lemma runs_to_modify_seq: "runs_to Q n R \<Longrightarrow> (\<And>s. P s \<Longrightarrow> Q (f s)) \<Longrightarrow> runs_to P (seq_act (modify f) n) R"
  by (rule runs_to_seq [OF runs_to_modify])

lemma runs_to_then_ok: "runs_to P m (\<lambda>_. Q) \<Longrightarrow> runs_to P (seq_act m (ok x)) (\<lambda>_. Q)"
  by (erule runs_to_seq) (simp add: runs_to_ok)

text \<open>A loop that pays one debt per element.\<close>

lemma runs_to_each:
  assumes "\<And>x X. runs_to (I (add_mset x X)) (f x) (\<lambda>_. I X)"
  shows "runs_to (I (mset xs + X)) (each_act f xs) (\<lambda>_. I X)"
proof (induction xs)
  case Nil
  show ?case by (simp add: runs_to_ok)
next
  case (Cons x xs)
  show ?case using runs_to_seq [OF assms Cons] by simp
qed

lemma runs_to_keeps:
  assumes "keeps I m" "\<And>s res s'. I s \<Longrightarrow> m s = (res, s') \<Longrightarrow> \<not> overflow res \<Longrightarrow> \<exists>x. res = Inr x"
  shows "runs_to I m (\<lambda>_. I)"
  unfolding runs_to_def using assms by (meson keepsD)

section \<open>Holders\<close>

definition known :: "Orch \<Rightarrow> TaskSlot set" where
  "known st = {0 ..< int (length (rg_slot_states (o_ring st)))}"

lemma finite_known [simp]: "finite (known st)"
  by (simp add: known_def)

lemma peek_known: "peek_slot st p = (if p \<in> known st then Some (o_slots st p) else None)"
  by (auto simp: peek_slot_def ring_slot_state_def known_def)

lemma slot_state_known: "p \<in> known st \<Longrightarrow> slot_state p st = (Inr (o_slots st p), st)"
  by (simp add: slot_state_def peek_known)

text \<open>A task that has ended and has given back what it held.\<close>

definition has_settled :: "TaskSlotState \<Rightarrow> bool" where
  "has_settled s \<longleftrightarrow> ts_state s = COMPLETED \<or> ts_state s = CONSUMED \<or> (ts_state s = FAILED \<and> \<not> ts_failure_propagation_pending s)"

definition owned :: "TaskSlotState \<Rightarrow> TaskSlot \<Rightarrow> TaskSlot multiset" where
  "owned s p = (if has_settled s then {#} else add_mset p (mset (ts_fanin_producers s)))"

definition holders :: "Orch \<Rightarrow> TaskSlot multiset" where
  "holders st = (\<Sum>p\<in>known st. owned (o_slots st p) p)"

text \<open>
  The references not held by a task are the argument: those of the open scopes and those an operation in progress
  owes.
\<close>

definition slot_refs :: "TaskSlot multiset \<Rightarrow> Orch \<Rightarrow> TaskSlot \<Rightarrow> bool" where
  "slot_refs X st p \<longleftrightarrow>
     (let s = o_slots st p in
      (if ts_state s = CONSUMED then p \<notin># holders st + X
       else ts_fanout_released s + int (count (holders st + X) p) = ts_fanout_total s + 1) \<and>
      set (ts_fanin_producers s) \<subseteq> known st \<and> set (ts_fanout_consumers s) \<subseteq> known st \<and>
      (ts_failure_propagation_pending s \<longrightarrow> ts_state s = FAILED))"

definition refs :: "TaskSlot multiset \<Rightarrow> Orch \<Rightarrow> bool" where
  "refs X st \<longleftrightarrow> (\<forall>p\<in>known st. slot_refs X st p) \<and> set_mset X \<subseteq> known st"

text \<open>The unconsumed tasks of a run; \<open>E\<close> lists the runs whose counter an operation in progress has still to lower.\<close>

definition live_tasks :: "Orch \<Rightarrow> RunId \<Rightarrow> TaskSlot set" where
  "live_tasks st r = {p \<in> known st. ts_run_id (o_slots st p) = r \<and> ts_state (o_slots st p) \<noteq> CONSUMED}"

definition loads :: "RunId multiset \<Rightarrow> Orch \<Rightarrow> bool" where
  "loads E st \<longleftrightarrow>
     (\<forall>r run. find_run st r = Some run \<longrightarrow>
        rn_active_tasks run = int (card (live_tasks st r)) + int (count E r) \<and> set (rn_task_slots run) \<subseteq> known st) \<and>
     (\<forall>r. live_tasks st r \<noteq> {} \<or> r \<in># E \<longrightarrow> find_run st r \<noteq> None)"

text \<open>The tasks an endpoint works on.\<close>

definition running :: "TaskSlot set \<Rightarrow> Orch \<Rightarrow> bool" where
  "running K st \<longleftrightarrow> (\<forall>p\<in>K. p \<in> known st \<and> ts_state (o_slots st p) = RUNNING)"

text \<open>The allocator of the node is one of \<open>Ring_Safety\<close>, and the slab of an unconsumed task is not released.\<close>

definition unreleased :: "Ring \<Rightarrow> TaskSlot \<Rightarrow> bool" where
  "unreleased rg p \<longleftrightarrow>
     (let s = rg_slot_states rg ! nat p in hr_released (rg_rings rg ! rs_ring_idx s) ! nat (rs_ring_slot_idx s) = 0)"

definition live_ring :: "Ring \<Rightarrow> bool" where
  "live_ring rg \<longleftrightarrow> (\<exists>slabs. reachable ring_start ring_step (ring_at_rest rg slabs))"

definition heap_ok :: "Orch \<Rightarrow> bool" where
  "heap_ok st \<longleftrightarrow>
     live_ring (o_ring st) \<and> (\<forall>p\<in>known st. ts_state (o_slots st p) \<noteq> CONSUMED \<longrightarrow> unreleased (o_ring st) p)"

definition node_ok :: "TaskSlot multiset \<Rightarrow> RunId multiset \<Rightarrow> TaskSlot set \<Rightarrow> Orch \<Rightarrow> bool" where
  "node_ok X E K st \<longleftrightarrow> run_inv st \<and> refs X st \<and> loads E st \<and> running K st \<and> heap_ok st"

section \<open>Run bookkeeping does not touch it\<close>

definition load_view :: "Orch \<Rightarrow> RunId \<Rightarrow> (int \<times> TaskSlot list) option" where
  "load_view st r = map_option (\<lambda>run. (rn_active_tasks run, rn_task_slots run)) (find_run st r)"

definition node_view :: "Orch \<Rightarrow> ((TaskSlot \<Rightarrow> TaskSlotState) \<times> Ring \<times> TensorMap \<times> TaskSlot list list) \<times>
    (RunId \<Rightarrow> (int \<times> TaskSlot list) option) \<times> WorkerCompletion list" where
  "node_view st = (task_view st, load_view st, o_completion_queue st)"

lemma task_view_slots:
  assumes "task_view st' = task_view st"
  shows "o_ring st' = o_ring st" "o_scope st' = o_scope st" "ts_state (o_slots st' p) = ts_state (o_slots st p)"
    "ts_run_id (o_slots st' p) = ts_run_id (o_slots st p)" "ts_fanin_producers (o_slots st' p) = ts_fanin_producers (o_slots st p)"
    "ts_fanout_consumers (o_slots st' p) = ts_fanout_consumers (o_slots st p)"
    "ts_fanout_total (o_slots st' p) = ts_fanout_total (o_slots st p)"
    "ts_fanout_released (o_slots st' p) = ts_fanout_released (o_slots st p)"
    "ts_failure_propagation_pending (o_slots st' p) = ts_failure_propagation_pending (o_slots st p)"
proof -
  have v: "o_slots (unleased st') p = o_slots (unleased st) p" using assms by (simp add: task_view_def)
  show "o_ring st' = o_ring st" "o_scope st' = o_scope st" using assms by (simp_all add: task_view_def)
  show "ts_state (o_slots st' p) = ts_state (o_slots st p)"
    "ts_run_id (o_slots st' p) = ts_run_id (o_slots st p)" "ts_fanin_producers (o_slots st' p) = ts_fanin_producers (o_slots st p)"
    "ts_fanout_consumers (o_slots st' p) = ts_fanout_consumers (o_slots st p)"
    "ts_fanout_total (o_slots st' p) = ts_fanout_total (o_slots st p)"
    "ts_fanout_released (o_slots st' p) = ts_fanout_released (o_slots st p)"
    "ts_failure_propagation_pending (o_slots st' p) = ts_failure_propagation_pending (o_slots st p)"
    using arg_cong [OF v, of ts_state] arg_cong [OF v, of ts_run_id] arg_cong [OF v, of ts_fanin_producers]
      arg_cong [OF v, of ts_fanout_consumers] arg_cong [OF v, of ts_fanout_total] arg_cong [OF v, of ts_fanout_released]
      arg_cong [OF v, of ts_failure_propagation_pending] by (simp_all add: unleased_def)
qed

lemma view_cong:
  assumes "task_view st' = task_view st"
  shows "known st' = known st" "holders st' = holders st" "slot_refs X st' p = slot_refs X st p" "refs X st' = refs X st"
    "live_tasks st' r = live_tasks st r" "running K st' = running K st" "heap_ok st' = heap_ok st"
proof -
  note s = task_view_slots [OF assms]
  show k: "known st' = known st" by (simp add: known_def s)
  have "owned (o_slots st' q) q = owned (o_slots st q) q" for q unfolding owned_def has_settled_def s ..
  then show h: "holders st' = holders st" by (simp add: holders_def k)
  show sr: "slot_refs X st' p = slot_refs X st p" for p by (simp add: slot_refs_def h k s Let_def)
  show "refs X st' = refs X st" by (simp add: refs_def sr k)
  show "live_tasks st' r = live_tasks st r" "running K st' = running K st" "heap_ok st' = heap_ok st"
    by (simp_all add: live_tasks_def running_def heap_ok_def k s)
qed

lemma loads_cong:
  assumes "node_view st' = node_view st"
  shows "loads E st' = loads E st"
proof -
  have v: "task_view st' = task_view st" and l: "load_view st' r = load_view st r" for r using assms by (simp_all add: node_view_def)
  have i: "loads E st \<longleftrightarrow> (\<forall>r. case load_view st r of None \<Rightarrow> live_tasks st r = {} \<and> r \<notin># E
      | Some (n, slots) \<Rightarrow> n = int (card (live_tasks st r)) + int (count E r) \<and> set slots \<subseteq> known st)" for st
    by (auto simp: loads_def load_view_def split: option.splits)
  show ?thesis unfolding i l view_cong [OF v] ..
qed

lemma node_view_ok:
  assumes "node_view st' = node_view st" "run_inv st'"
  shows "node_ok X E K st \<Longrightarrow> node_ok X E K st'"
  using assms view_cong [of st' st] loads_cong [OF assms(1)] by (simp add: node_ok_def node_view_def)

lemma load_view_unleased: "unleased st' = unleased st \<Longrightarrow> node_view st' = node_view st"
proof -
  have l: "load_view (unleased s) = load_view s" for s by (simp add: load_view_def fun_eq_iff option.map_comp o_def)
  have q: "o_completion_queue (unleased s) = o_completion_queue s" for s by (simp add: unleased_def)
  show "unleased st' = unleased st \<Longrightarrow> node_view st' = node_view st"
    unfolding node_view_def by (metis l q task_view_unleased)
qed

lemma node_view_upd_run:
  "(\<And>run. rn_active_tasks (f run) = rn_active_tasks run \<and> rn_task_slots (f run) = rn_task_slots run) \<Longrightarrow>
   node_view (upd_run r f st) = node_view st"
  by (simp add: node_view_def load_view_def fun_eq_iff find_run_upd_run option.map_comp o_def) (simp add: upd_run_def)

lemma node_view_fields [simp]:
  "node_view (st\<lparr>o_active_run_id := a\<rparr>) = node_view st" "node_view (st\<lparr>o_run_resources := b\<rparr>) = node_view st"
  "node_view (st\<lparr>o_building_run_id := c\<rparr>) = node_view st"
  by (simp_all add: node_view_def load_view_def fun_eq_iff find_run_def)

lemma node_view_run_ops [simp]:
  "node_view (notify_ready st) = node_view st" "node_view (clear_run_ready_queues r st) = node_view st"
  "node_view (snd (refresh_early_launch st)) = node_view st" "node_view (leave_fifo r st) = node_view st"
  "node_view (return_lease r st) = node_view st" "node_view (apply_folded_capacity st) = node_view st"
  "node_view (set_terminal_phase r st) = node_view st" "node_view (record_run_error r e st) = node_view st"
proof -
  show "node_view (set_terminal_phase r st) = node_view st" "node_view (record_run_error r e st) = node_view st"
    unfolding set_terminal_phase_def record_run_error_def by (rule node_view_upd_run; simp)+
  have "node_view (upd_run r (\<lambda>r. r\<lparr>rn_lease_released := True\<rparr>) st) = node_view st" by (rule node_view_upd_run) simp
  then show "node_view (return_lease r st) = node_view st" by (simp add: return_lease_def Let_def split: option.split)
qed (simp_all add: node_view_def load_view_def fun_eq_iff, simp_all add: find_run_def notify_ready_def clear_run_ready_queues_def refresh_early_launch_def leave_fifo_def
      apply_folded_capacity_def apply_admissible_depth_def Let_def)

lemma same_refresh [intro]: "unchanged node_view refresh_leases"
  unfolding unchanged_def by (metis prod.collapse load_view_unleased unleased_refresh)

lemma same_retire_locked [intro]: "unchanged node_view (retire_locked r)"
  using same_refresh by (auto simp: unchanged_def retire_locked_def case_prod_unfold Let_def split: sum.splits)

lemma same_promote [intro]: "unchanged node_view promote_head"
proof -
  have "node_view (upd_run h (\<lambda>r. r\<lparr>rn_phase := RP_EXECUTING\<rparr>) st) = node_view st" for h st by (rule node_view_upd_run) simp
  then show ?thesis
    using unchangedD [OF same_refresh] load_view_unleased [OF unleased_acquire]
    by (auto simp: unchanged_def promote_head_def Let_def split: sum.splits prod.splits option.splits)
qed

lemma same_activate [intro]: "unchanged node_view activate_fifo_head"
proof -
  have "node_view (snd (activate_fifo_head st)) = node_view st" for st
  proof (induction st rule: activate_fifo_head.induct)
    case (1 st)
    note s = unchangedD [OF same_promote] unchangedD [OF same_retire_locked]
    show ?case
      by (subst activate_fifo_head.simps) (use 1 s in \<open>auto split: sum.splits prod.splits option.splits\<close>)
  qed
  then show ?thesis by (simp add: unchanged_def)
qed

lemma same_finish [intro]:
  "unchanged node_view (retire_terminal_run r)" "unchanged node_view (retire_execution_if_ready r)"
  "unchanged node_view (finish_run_if_ready r)"
proof -
  show t: "unchanged node_view (retire_terminal_run r)" by (auto simp: retire_terminal_run_def)
  show "unchanged node_view (retire_execution_if_ready r)" "unchanged node_view (finish_run_if_ready r)"
    using t by (auto simp: unchanged_def retire_execution_if_ready_def finish_run_if_ready_def)
qed

lemma same_mark_ended [intro]: "unchanged node_view (mark_task_ended slot i)"
proof -
  have "node_view (upd_run r (\<lambda>r. r\<lparr>rn_physical_tasks := ts\<rparr>) st) = node_view st" for r ts st by (rule node_view_upd_run) simp
  then show ?thesis using same_finish(2) by (auto simp: unchanged_def mark_task_ended_def split: option.splits)
qed

section \<open>Run bookkeeping returns\<close>

lemma returns_finish:
  "runs_to run_inv (retire_execution_if_ready r) (\<lambda>_. run_inv)" "runs_to run_inv (finish_run_if_ready r) (\<lambda>_. run_inv)"
proof -
  have t: "\<exists>x. res = Inr x" if "seq_act (retire_locked r) activate_fifo_head st = (res, st')" "\<not> overflow res"
    and "\<And>q st1. retire_locked r st = (q, st1) \<Longrightarrow> \<not> overflow q \<Longrightarrow> runs_ok st1 \<and> lease_complete st1 \<and> q = Inr ()" for st res st'
  proof -
    obtain q st1 where q: "retire_locked r st = (q, st1)" by (cases "retire_locked r st")
    then show ?thesis
      using that(3) [OF q seq_overflow [OF that(1,2) q]] that(1,2) activate_ok [of st1 res st'] by (simp add: seq_result)
  qed
  have "\<exists>x. res = Inr x" if "run_inv st" "retire_execution_if_ready r st = (res, st')" "\<not> overflow res" for st res st'
  proof (cases "execution_retires st r")
    case True
    then show ?thesis
      using that execution_retires_ok [OF _ True] by (intro t [of st res st']) (auto simp: retire_execution_if_ready_def retire_terminal_run_def run_inv_def)
  qed (use that in \<open>auto simp: retire_execution_if_ready_def\<close>)
  then show "runs_to run_inv (retire_execution_if_ready r) (\<lambda>_. run_inv)" by (intro runs_to_keeps keeps_finish)
  have "\<exists>x. res = Inr x" if "run_inv st" "finish_run_if_ready r st = (res, st')" "\<not> overflow res" for st res st'
  proof (cases "run_finishes st r")
    case True
    then show ?thesis
      using that run_finishes_ok [OF _ True] by (intro t [of "set_terminal_phase r st" res st']) (auto simp: finish_run_if_ready_def retire_terminal_run_def run_inv_def)
  qed (use that in \<open>auto simp: finish_run_if_ready_def\<close>)
  then show "runs_to run_inv (finish_run_if_ready r) (\<lambda>_. run_inv)" by (intro runs_to_keeps keeps_finish)
qed

lemma returns_mark_ended: "runs_to run_inv (mark_task_ended slot i) (\<lambda>_. run_inv)"
proof (rule runs_to_keeps [OF keeps_mark_ended])
  fix st res st'
  assume a: "run_inv st" "mark_task_ended slot i st = (res, st')" "\<not> overflow res"
  have "run_inv (upd_run r (\<lambda>run. run\<lparr>rn_physical_tasks := ts\<rparr>) st)" for r ts
    using a(1) by (rule run_inv_upd) (simp add: same_run_def)
  then show "\<exists>x. res = Inr x"
    using a(2,3) runs_toD [OF returns_finish(1)] by (auto simp: mark_task_ended_def split: option.splits) blast
qed

text \<open>Operations that only do run bookkeeping.\<close>

lemma runs_quiet:
  assumes "unchanged node_view m" "runs_to run_inv m (\<lambda>_. run_inv)" "\<And>st st'. task_view st' = task_view st \<Longrightarrow> J st \<Longrightarrow> J st'"
  shows "runs_to (\<lambda>st. node_ok X E K st \<and> J st) m (\<lambda>_ st. node_ok X E K st \<and> J st)"
  unfolding runs_to_def
proof (intro allI impI)
  fix st res st'
  assume a: "(node_ok X E K st \<and> J st) \<and> m st = (res, st') \<and> \<not> overflow res"
  then obtain x where x: "res = Inr x" "run_inv st'" using runs_toD [OF assms(2), of st res st'] by (auto simp: node_ok_def)
  have v: "node_view st' = node_view st" using unchangedD [OF assms(1)] a by blast
  then have "J st'" using assms(3) a by (simp add: node_view_def)
  then show "\<exists>x. res = Inr x \<and> node_ok X E K st' \<and> J st'" using a x node_view_ok [OF v x(2)] by blast
qed

lemmas runs_mark_ended = runs_quiet [OF same_mark_ended returns_mark_ended]

lemmas runs_finish = runs_quiet [OF same_finish(3) returns_finish(2), of "\<lambda>_. True", simplified]

section \<open>Updates of a slot\<close>

lemma known_upd [simp]: "known (upd_slot p f st) = known st" "known (upd_run r g st) = known st"
  by (simp_all add: known_def upd_slot_def upd_run_def)

lemma upd_slot_fields [simp]:
  "o_slots (upd_slot p f st) q = (if q = p then f (o_slots st p) else o_slots st q)"
  "o_ring (upd_slot p f st) = o_ring st" "o_scope (upd_slot p f st) = o_scope st"
  by (simp_all add: upd_slot_def)

lemma holders_upd:
  assumes "p \<in> known st"
  shows "holders (upd_slot p f st) + owned (o_slots st p) p = holders st + owned (f (o_slots st p)) p"
proof -
  have r: "holders st' = owned (o_slots st' p) p + (\<Sum>q\<in>known st - {p}. owned (o_slots st' q) q)" if "known st' = known st" for st'
    unfolding holders_def that using sum.remove [OF finite_known assms, of "\<lambda>q. owned (o_slots st' q) q"] by simp
  have "(\<Sum>q\<in>known st - {p}. owned (o_slots (upd_slot p f st) q) q) = (\<Sum>q\<in>known st - {p}. owned (o_slots st q) q)"
    by (rule sum.cong) auto
  then show ?thesis using r [of st] r [of "upd_slot p f st"] by (simp add: add_ac)
qed

text \<open>What an update must keep when it does not count.\<close>

definition same_refs :: "TaskSlotState \<Rightarrow> TaskSlotState \<Rightarrow> bool" where
  "same_refs s s' \<longleftrightarrow> ts_fanout_released s' = ts_fanout_released s \<and> ts_fanout_total s' = ts_fanout_total s \<and>
     ts_fanin_producers s' = ts_fanin_producers s \<and> ts_fanout_consumers s' = ts_fanout_consumers s \<and>
     ts_run_id s' = ts_run_id s \<and> (ts_state s' = CONSUMED \<longleftrightarrow> ts_state s = CONSUMED) \<and>
     (ts_failure_propagation_pending s' \<longrightarrow> ts_state s' = FAILED)"

lemma owned_known:
  assumes "refs X st" "p \<in> known st"
  shows "set_mset (owned (o_slots st p) p) \<subseteq> known st" "set_mset X \<subseteq> known st"
  using assms by (auto simp: refs_def slot_refs_def owned_def Let_def)

text \<open>The general case: references move between the task, the operation and \<open>k\<close> new ones that the total counts.\<close>

lemma refs_change:
  assumes r: "refs X st" and p: "p \<in> known st"
    and c: "ts_fanout_released (f (o_slots st p)) = ts_fanout_released (o_slots st p)"
      "ts_fanout_total (f (o_slots st p)) = ts_fanout_total (o_slots st p) + int k"
      "ts_state (f (o_slots st p)) = CONSUMED \<longleftrightarrow> ts_state (o_slots st p) = CONSUMED" "k = 0 \<or> ts_state (o_slots st p) \<noteq> CONSUMED"
      "ts_failure_propagation_pending (f (o_slots st p)) \<longrightarrow> ts_state (f (o_slots st p)) = FAILED"
    and l: "set (ts_fanin_producers (f (o_slots st p))) \<subseteq> known st" "set (ts_fanout_consumers (f (o_slots st p))) \<subseteq> known st"
    and t: "owned (f (o_slots st p)) p + X' = owned (o_slots st p) p + X + replicate_mset k p"
  shows "refs X' (upd_slot p f st)"
proof -
  let ?st = "upd_slot p f st"
  have "holders ?st + X' + (owned (o_slots st p) p + X + replicate_mset k p) =
      holders st + X + replicate_mset k p + (owned (f (o_slots st p)) p + X')"
    using holders_upd [OF p, of f] by (simp add: add_ac)
  then have T: "holders ?st + X' = holders st + X + replicate_mset k p" using t by (simp only: add_right_cancel)
  have "slot_refs X' ?st q" if "q \<in> known st" for q
  proof -
    have "slot_refs X st q" using r that by (simp add: refs_def)
    then show ?thesis using c l unfolding slot_refs_def T Let_def by (cases "q = p") auto
  qed
  moreover have "set_mset X' \<subseteq> set_mset (owned (f (o_slots st p)) p + X')" by simp
  then have "set_mset X' \<subseteq> known st" unfolding t using owned_known [OF r p] p by (auto split: if_splits)
  ultimately show ?thesis by (simp add: refs_def)
qed

lemma refs_upd:
  assumes "refs X st" "p \<in> known st" "same_refs (o_slots st p) (f (o_slots st p))"
    "owned (f (o_slots st p)) p + X' = owned (o_slots st p) p + X"
  shows "refs X' (upd_slot p f st)"
proof -
  have "slot_refs X st p" using assms(1,2) by (simp add: refs_def)
  then show ?thesis using assms by (intro refs_change [where k = 0]) (auto simp: same_refs_def slot_refs_def Let_def)
qed

lemma loads_upd:
  assumes "ts_run_id (f (o_slots st p)) = ts_run_id (o_slots st p)" "ts_state (f (o_slots st p)) = CONSUMED \<longleftrightarrow> ts_state (o_slots st p) = CONSUMED"
  shows "loads E (upd_slot p f st) = loads E st" "heap_ok (upd_slot p f st) = heap_ok st"
proof -
  have "live_tasks (upd_slot p f st) r = live_tasks st r" for r using assms by (auto simp: live_tasks_def)
  then show "loads E (upd_slot p f st) = loads E st" by (simp add: loads_def)
  show "heap_ok (upd_slot p f st) = heap_ok st" using assms by (auto simp: heap_ok_def)
qed

lemma running_upd: "running K st \<Longrightarrow> p \<notin> K \<or> ts_state (f (o_slots st p)) = ts_state (o_slots st p) \<Longrightarrow> running K (upd_slot p f st)"
  by (auto simp: running_def)

lemma node_upd:
  assumes "node_ok X E K st" "p \<in> known st" "same_refs (o_slots st p) (f (o_slots st p))"
    "owned (f (o_slots st p)) p + X' = owned (o_slots st p) p + X" "p \<notin> K \<or> ts_state (f (o_slots st p)) = ts_state (o_slots st p)"
  shows "node_ok X' E K (upd_slot p f st)"
  using assms refs_upd [of X st p f X'] running_upd [of K st p f] loads_upd [of f st p]
  by (simp add: node_ok_def same_refs_def)

text \<open>A new reference to a task that is not consumed, and a change of the links of a task.\<close>

lemma node_retain:
  assumes "node_ok X E K st" "p \<in> known st" "ts_state (o_slots st p) \<noteq> CONSUMED"
  shows "node_ok (add_mset p X) E K (upd_slot p (\<lambda>s. s\<lparr>ts_fanout_total := ts_fanout_total s + 1\<rparr>) st)"
proof -
  let ?f = "\<lambda>s. s\<lparr>ts_fanout_total := ts_fanout_total s + 1\<rparr>"
  have r: "refs X st" using assms(1) by (simp add: node_ok_def)
  have sp: "slot_refs X st p" using r assms(2) by (simp add: refs_def)
  have "refs (add_mset p X) (upd_slot p ?f st)"
    using sp assms(3) by (intro refs_change [OF r assms(2), where k = 1]) (auto simp: slot_refs_def Let_def owned_def has_settled_def)
  then show ?thesis using assms(1) loads_upd [of ?f st p] running_upd [of K st p ?f] by (simp add: node_ok_def)
qed

lemma node_link:
  assumes "node_ok X E K st" "p \<in> known st"
    "set (ts_fanin_producers (f (o_slots st p))) \<subseteq> known st" "set (ts_fanout_consumers (f (o_slots st p))) \<subseteq> known st"
    "same_refs (o_slots st p) ((f (o_slots st p))\<lparr>ts_fanin_producers := ts_fanin_producers (o_slots st p),
       ts_fanout_consumers := ts_fanout_consumers (o_slots st p)\<rparr>)" "ts_state (f (o_slots st p)) = ts_state (o_slots st p)"
    "owned (f (o_slots st p)) p + X' = owned (o_slots st p) p + X"
  shows "node_ok X' E K (upd_slot p f st)"
proof -
  have "refs X' (upd_slot p f st)"
    using assms by (intro refs_change [where k = 0 and X = X]) (auto simp: node_ok_def same_refs_def)
  then show ?thesis using assms loads_upd [of f st p] running_upd [of K st p f] by (simp add: node_ok_def same_refs_def)
qed

section \<open>Releasing a reference\<close>

lemma runs_to_slot:
  assumes "\<And>st. P st \<Longrightarrow> p \<in> known st" "\<And>s. runs_to (\<lambda>st. P st \<and> o_slots st p = s) (k s) Q"
  shows "runs_to P (bind_act (slot_state p) k) Q"
  by (rule runs_to_bind [OF _ assms(2)]) (use assms(1) slot_state_known in \<open>auto simp: runs_to_def\<close>)

lemma refs_release:
  assumes "refs (add_mset p X) st"
  shows "refs X (upd_slot p (\<lambda>s. s\<lparr>ts_fanout_released := ts_fanout_released (o_slots st p) + 1\<rparr>) st)"
proof -
  let ?f = "\<lambda>s. s\<lparr>ts_fanout_released := ts_fanout_released (o_slots st p) + 1\<rparr>"
  have p: "p \<in> known st" using assms by (auto simp: refs_def)
  have o: "owned (?f s) q = owned s q" for s q by (simp add: owned_def has_settled_def)
  have h: "holders (upd_slot p ?f st) = holders st" using holders_upd [OF p, of ?f] by (simp add: o)
  have c: "ts_state (o_slots st p) \<noteq> CONSUMED" using assms p by (auto simp: refs_def slot_refs_def)
  have "slot_refs X (upd_slot p ?f st) q" if "q \<in> known st" for q
  proof -
    have "slot_refs (add_mset p X) st q" using assms that by (simp add: refs_def)
    then show ?thesis using c by (cases "q = p") (auto simp: slot_refs_def h Let_def)
  qed
  then show ?thesis using assms by (simp add: refs_def)
qed

lemma node_release:
  assumes "node_ok (add_mset p X) E K st"
  shows "p \<in> known st" "node_ok X E K (upd_slot p (\<lambda>s. s\<lparr>ts_fanout_released := ts_fanout_released (o_slots st p) + 1\<rparr>) st)"
  using assms refs_release [of p X st] loads_upd [of _ st p] by (auto simp: node_ok_def refs_def running_def)

text \<open>Once the last reference is gone, nobody holds the task.\<close>

lemma refs_consume:
  assumes r: "refs X st" and p: "p \<in> known st" and s: "ts_state (o_slots st p) = COMPLETED \<or> ts_state (o_slots st p) = FAILED"
    and z: "ts_fanout_released (o_slots st p) \<ge> ts_fanout_total (o_slots st p) + 1"
  shows "refs X (upd_slot p (\<lambda>s. s\<lparr>ts_state := CONSUMED\<rparr>) st)" "p \<notin># holders st + X"
proof -
  let ?f = "\<lambda>s. s\<lparr>ts_state := CONSUMED\<rparr> :: TaskSlotState"
  have sp: "slot_refs X st p" using r p by (simp add: refs_def)
  have n: "count (holders st + X) p = 0" using sp s z unfolding slot_refs_def Let_def by (auto split: if_splits)
  then show z: "p \<notin># holders st + X" by (metis count_eq_zero_iff)
  have "has_settled (o_slots st p)"
  proof (rule ccontr)
    assume "\<not> has_settled (o_slots st p)"
    then have "p \<in># owned (o_slots st p) p" by (simp add: owned_def)
    then have "p \<in># holders st" unfolding holders_def using p by (auto simp: set_mset_sum)
    then show False using z by simp
  qed
  then have o: "owned (o_slots st p) p = {#}" "owned (?f (o_slots st p)) p = {#}" by (simp_all add: owned_def has_settled_def)
  have h: "holders (upd_slot p ?f st) = holders st" using holders_upd [OF p, of ?f] by (simp add: o)
  have "slot_refs X (upd_slot p ?f st) q" if "q \<in> known st" for q
  proof -
    have "slot_refs X st q" using r that by (simp add: refs_def)
    then show ?thesis
      using z s \<open>has_settled (o_slots st p)\<close> unfolding slot_refs_def h Let_def by (cases "q = p") (auto simp: has_settled_def)
  qed
  then show "refs X (upd_slot p ?f st)" using r by (simp add: refs_def)
qed

lemma loads_consume:
  assumes "loads E st" "p \<in> known st" "ts_state (o_slots st p) \<noteq> CONSUMED"
  shows "loads (add_mset (ts_run_id (o_slots st p)) E) (upd_slot p (\<lambda>s. s\<lparr>ts_state := CONSUMED\<rparr>) st)"
proof -
  let ?st = "upd_slot p (\<lambda>s. s\<lparr>ts_state := CONSUMED\<rparr>) st" and ?r = "ts_run_id (o_slots st p)"
  have l: "live_tasks ?st q = live_tasks st q - {p}" for q by (auto simp: live_tasks_def)
  have p: "p \<in> live_tasks st ?r" "p \<notin> live_tasks st q" if "q \<noteq> ?r" for q using assms that by (auto simp: live_tasks_def)
  have fin: "finite (live_tasks st q)" for q by (rule finite_subset [OF _ finite_known [of st]]) (auto simp: live_tasks_def)
  have m: "p \<in> live_tasks st ?r" using assms by (simp add: live_tasks_def)
  have "int (card (live_tasks st ?r - {p})) + 1 = int (card (live_tasks st ?r))"
    using m fin [of ?r] card_Suc_Diff1 [of "live_tasks st ?r" p] by simp
  moreover have "live_tasks st q - {p} = live_tasks st q" if "q \<noteq> ?r" for q using p(2) [OF that] by simp
  ultimately have c: "int (card (live_tasks ?st q)) + int (count (add_mset ?r E) q) = int (card (live_tasks st q)) + int (count E q)" for q
    unfolding l by (cases "q = ?r") auto
  show ?thesis unfolding loads_def c known_upd using assms(1) m l by (auto simp: loads_def)
qed

lemma node_consume:
  assumes "node_ok X E K st" "p \<in> known st" "ts_state (o_slots st p) = COMPLETED \<or> ts_state (o_slots st p) = FAILED"
    "ts_fanout_released (o_slots st p) \<ge> ts_fanout_total (o_slots st p) + 1"
  shows "node_ok X (add_mset (ts_run_id (o_slots st p)) E) K (upd_slot p (\<lambda>s. s\<lparr>ts_state := CONSUMED\<rparr>) st)"
  using assms refs_consume(1) [of X st p] loads_consume [of E st p] by (auto simp: node_ok_def running_def heap_ok_def)

text \<open>Returning a slab does not touch the slabs of other tasks.\<close>

lemma release_slot_states [simp]: "rg_slot_states (ring_release rg p) = rg_slot_states rg"
  by (simp add: ring_release_eq Let_def)

lemma unreleased_release:
  assumes inv: "ring_inv (ring_at_rest rg slabs)" and q: "0 \<le> q" "nat q < length (rg_slot_states rg)"
    and ne: "p \<noteq> q" and u: "unreleased rg q"
  shows "unreleased (ring_release rg p) q"
proof (cases "p < 0 \<or> int (length (rg_slot_states rg)) \<le> p")
  case True
  then show ?thesis using u by (simp add: ring_release_eq)
next
  case False
  let ?pos = "\<lambda>s. (rs_ring_idx s, rs_ring_slot_idx s)" and ?p = "rg_slot_states rg ! nat p" and ?q = "rg_slot_states rg ! nat q"
  have d: "distinct (map ?pos (rg_slot_states rg))" and pos: "set (map ?pos (rg_slot_states rg)) = positions slabs"
    and len: "length slabs = length (rg_rings rg)"
    using inv rings_ok_length by (auto simp: ring_inv_def owners_def parked_def)
  have "nat p \<noteq> nat q" "nat p < length (rg_slot_states rg)" using ne q False by auto
  then have n: "?pos ?p \<noteq> ?pos ?q" using nth_eq_iff_index_eq [OF d, of "nat p" "nat q"] q(2) by simp
  have "?q \<in> set (rg_slot_states rg)" using q(2) by simp
  then have "?pos ?q \<in> positions slabs" using pos by auto
  then have i: "rs_ring_idx ?q < length (rg_rings rg)" "0 \<le> rs_ring_slot_idx ?q" using len by (auto simp: positions_def)
  have rel: "ring_release rg p = rg\<lparr>rg_rings := (rg_rings rg)[rs_ring_idx ?p := release_locked (rg_rings rg ! rs_ring_idx ?p) (rs_ring_slot_idx ?p)]\<rparr>"
    using False by (simp add: ring_release_eq Let_def)
  have z: "hr_released (rg_rings rg ! rs_ring_idx ?q) ! nat (rs_ring_slot_idx ?q) = 0" using u by (simp add: unreleased_def Let_def)
  show ?thesis
  proof (cases "rs_ring_idx ?p = rs_ring_idx ?q")
    case True
    then have "rs_ring_slot_idx ?p \<noteq> int (nat (rs_ring_slot_idx ?q))" using n i(2) by simp
    then have "hr_released (release_locked (rg_rings rg ! rs_ring_idx ?q) (rs_ring_slot_idx ?p)) ! nat (rs_ring_slot_idx ?q) = 0"
      using release_flag [OF z] by blast
    then show ?thesis using i(1) True by (simp add: unreleased_def rel)
  next
    case False
    then show ?thesis using z by (simp add: unreleased_def rel)
  qed
qed

lemma node_ring:
  assumes "rg_slot_states rg = rg_slot_states (o_ring st)"
  shows "known (st\<lparr>o_tensormap := m, o_ring := rg\<rparr>) = known st" "holders (st\<lparr>o_tensormap := m, o_ring := rg\<rparr>) = holders st"
    "refs X (st\<lparr>o_tensormap := m, o_ring := rg\<rparr>) = refs X st" "loads E (st\<lparr>o_tensormap := m, o_ring := rg\<rparr>) = loads E st"
    "running K (st\<lparr>o_tensormap := m, o_ring := rg\<rparr>) = running K st"
proof -
  let ?st = "st\<lparr>o_tensormap := m, o_ring := rg\<rparr>"
  show k: "known ?st = known st" using assms by (simp add: known_def)
  then show h: "holders ?st = holders st" by (simp add: holders_def)
  show "refs X ?st = refs X st" "loads E ?st = loads E st" "running K ?st = running K st"
    by (simp_all add: refs_def slot_refs_def loads_def live_tasks_def running_def find_run_def k h)
qed

lemma node_free_slab:
  assumes "node_ok X E K st" "p \<in> known st" "ts_state (o_slots st p) = CONSUMED"
  shows "node_ok X E K (st\<lparr>o_tensormap := m, o_ring := ring_release (o_ring st) p\<rparr>)"
proof -
  let ?rg = "ring_release (o_ring st) p"
  obtain slabs where w: "reachable ring_start ring_step (ring_at_rest (o_ring st) slabs)"
    using assms(1) by (auto simp: node_ok_def heap_ok_def live_ring_def)
  then have "reachable ring_start ring_step (ring_at_rest ?rg slabs)"
    using reachable_steps [OF w release_step [of _ p]] by simp
  moreover have "unreleased ?rg q" if "q \<in> known st" "ts_state (o_slots st q) \<noteq> CONSUMED" for q
  proof (rule unreleased_release [OF ring_sys.reachable_inv [OF w]])
    show "0 \<le> q" "nat q < length (rg_slot_states (o_ring st))" using that(1) by (auto simp: known_def)
    show "p \<noteq> q" using that(2) assms(3) by auto
    show "unreleased (o_ring st) q" using assms(1) that by (simp add: node_ok_def heap_ok_def)
  qed
  ultimately have "heap_ok (st\<lparr>o_tensormap := m, o_ring := ?rg\<rparr>)" by (auto simp: heap_ok_def live_ring_def node_ring)
  moreover have "run_inv (st\<lparr>o_tensormap := m, o_ring := ?rg\<rparr>)"
    using assms(1) run_inv_cong [of "st\<lparr>o_tensormap := m, o_ring := ?rg\<rparr>" st] by (simp add: node_ok_def find_run_def)
  ultimately show ?thesis using assms(1) node_ring [of ?rg st] by (simp add: node_ok_def)
qed

text \<open>The run of the consumed task counts one task less, and ends when it was the last.\<close>

lemma loads_decrement:
  assumes "loads (add_mset r E) st" "find_run st r = Some run" "n = rn_active_tasks run - 1"
  shows "loads E (upd_run r (\<lambda>r. r\<lparr>rn_active_tasks := n\<rparr>) st)" "0 \<le> n"
proof -
  have l: "live_tasks (upd_run r f st) q = live_tasks st q" for f q by (simp add: live_tasks_def upd_run_def known_def)
  show "loads E (upd_run r (\<lambda>r. r\<lparr>rn_active_tasks := n\<rparr>) st)" 
    using assms by (auto simp: loads_def l find_run_upd_run)
  show "0 \<le> n" using assms by (auto simp: loads_def)
qed

lemma node_decrement:
  assumes ok: "node_ok X (add_mset r E) K st" and run: "find_run st r = Some run" and n: "n = rn_active_tasks run - 1"
  shows "node_ok X E K (upd_run r (\<lambda>r. r\<lparr>rn_active_tasks := n\<rparr>) st)"
proof -
  let ?st = "upd_run r (\<lambda>r. r\<lparr>rn_active_tasks := n\<rparr>) st"
  have ld: "loads (add_mset r E) st" using ok by (simp add: node_ok_def)
  have "\<not> is_terminal (rn_phase run)"
    using loads_decrement(2) [OF ld run n] n ok run by (auto simp: node_ok_def run_inv_def runs_ok_def phases_ok_def run_ok_def)
  then have "run_inv ?st" using ok run by (intro run_inv_upd) (auto simp: node_ok_def same_run_def)
  then show ?thesis using ok loads_decrement(1) [OF ld run n] view_cong [of ?st st] by (simp add: node_ok_def)
qed

lemma runs_decrement: "runs_to (node_ok X (add_mset r E) K) (decrement_run_tasks r) (\<lambda>_. node_ok X E K)"
  unfolding runs_to_def
proof (intro allI impI)
  fix st res st'
  assume a: "node_ok X (add_mset r E) K st \<and> decrement_run_tasks r st = (res, st') \<and> \<not> overflow res"
  have ld: "loads (add_mset r E) st" using a by (simp add: node_ok_def)
  then obtain run where run: "find_run st r = Some run" by (auto simp: loads_def)
  let ?n = "rn_active_tasks run - 1" and ?st = "upd_run r (\<lambda>r. r\<lparr>rn_active_tasks := rn_active_tasks run - 1\<rparr>) st"
  have "node_ok X E K ?st" using a run by (intro node_decrement) auto
  moreover have "(if ?n \<le> 0 then finish_run_if_ready r ?st else (Inr (), ?st)) = (res, st')"
  proof -
    have "\<not> ?n < 0" using loads_decrement(2) [OF ld run refl] by linarith
    then show ?thesis using a unfolding decrement_run_tasks_def run option.case Let_def by presburger
  qed
  ultimately show "\<exists>x. res = Inr x \<and> node_ok X E K st'"
    using a runs_toD [OF runs_finish] by (cases "?n \<le> 0") auto
qed

lemma runs_on_consumed:
  "runs_to (\<lambda>st. node_ok X E K st \<and> p \<in> known st \<and> ts_fanout_released (o_slots st p) \<ge> ts_fanout_total (o_slots st p) + 1)
     (on_consumed p) (\<lambda>_. node_ok X E K)"
proof -
  define J where "J st = (p \<in> known st \<and> ts_state (o_slots st p) = CONSUMED)" for st
  have J: "J st'" if "task_view st' = task_view st" "J st" for st st'
    using that view_cong(1) [OF that(1)] task_view_slots(3) [OF that(1)] by (simp add: J_def)
  have c: "runs_to (\<lambda>st. node_ok X (add_mset r E) K st \<and> J st)
      (seq_act (mark_task_ended p (-1))
       (seq_act (modify (\<lambda>st. st\<lparr>o_tensormap := erase_task_outputs (o_tensormap st) r p ks, o_ring := ring_release (o_ring st) p\<rparr>))
       (seq_act (decrement_run_tasks r) (ok True)))) (\<lambda>_. node_ok X E K)" for r ks
  proof -
    have m: "node_ok X (add_mset r E) K (st\<lparr>o_tensormap := erase_task_outputs (o_tensormap st) r p ks, o_ring := ring_release (o_ring st) p\<rparr>)"
      if "node_ok X (add_mset r E) K st \<and> J st" for st using that node_free_slab [of X "add_mset r E" K st p] by (simp add: J_def)
    show ?thesis
      by (rule runs_to_seq [OF runs_mark_ended [OF J]], assumption, assumption)
        (rule runs_to_modify_seq [OF runs_to_then_ok [OF runs_decrement] m])
  qed
  show ?thesis
    unfolding on_consumed_def
  proof (rule runs_to_slot)
    fix s
    show "runs_to (\<lambda>st. (node_ok X E K st \<and> p \<in> known st \<and> ts_fanout_total (o_slots st p) + 1 \<le> ts_fanout_released (o_slots st p)) \<and> o_slots st p = s)
        (if ts_state s = COMPLETED \<or> ts_state s = FAILED then seq_act (modify (upd_slot p (\<lambda>s. s\<lparr>ts_state := CONSUMED\<rparr>)))
          (seq_act (mark_task_ended p (-1)) (seq_act (modify (\<lambda>st. st\<lparr>o_tensormap := erase_task_outputs (o_tensormap st) (ts_run_id s) p (ts_output_keys s),
             o_ring := ring_release (o_ring st) p\<rparr>)) (seq_act (decrement_run_tasks (ts_run_id s)) (ok True))))
         else ok False) (\<lambda>_. node_ok X E K)"
    proof (cases "ts_state s = COMPLETED \<or> ts_state s = FAILED")
      case True
      show ?thesis
        unfolding if_P [OF True]
        by (rule runs_to_modify_seq [OF c]) (use node_consume True in \<open>auto simp: J_def\<close>)
    next
      case False
      show ?thesis unfolding if_not_P [OF False] by (rule runs_to_ok) simp
    qed
  qed simp
qed

lemma runs_try_consume: "runs_to (node_ok (add_mset p X) E K) (try_consume p) (\<lambda>_. node_ok X E K)"
  unfolding try_consume_def Let_def
proof (rule runs_to_slot [OF node_release(1)], assumption)
  fix s :: TaskSlotState
  let ?f = "upd_slot p (\<lambda>s'. s'\<lparr>ts_fanout_released := ts_fanout_released s + 1\<rparr>)"
  have r: "p \<in> known st" "node_ok X E K (?f st)" if "node_ok (add_mset p X) E K st \<and> o_slots st p = s" for st
    using that node_release [of p X E K st] by auto
  show "runs_to (\<lambda>st. node_ok (add_mset p X) E K st \<and> o_slots st p = s)
      (seq_act (modify ?f)
        (if ts_fanout_released s + 1 \<ge> ts_fanout_total s + 1 \<and> (ts_state s = COMPLETED \<or> ts_state s = FAILED)
         then seq_act (on_consumed p) (ok ()) else ok ())) (\<lambda>_. node_ok X E K)"
  proof (cases "ts_fanout_released s + 1 \<ge> ts_fanout_total s + 1 \<and> (ts_state s = COMPLETED \<or> ts_state s = FAILED)")
    case True
    show ?thesis
      unfolding if_P [OF True] by (rule runs_to_modify_seq [OF runs_to_then_ok [OF runs_on_consumed]]) (use r True in auto)
  next
    case False
    have "runs_to (node_ok X E K) (ok ()) (\<lambda>_. node_ok X E K)" by (simp add: runs_to_ok)
    then show ?thesis unfolding if_not_P [OF False] by (rule runs_to_modify_seq) (rule r(2))
  qed
qed

lemmas runs_release_all = runs_to_each [OF runs_try_consume]

end
