(* ===== verification/Ref_Safety.thy ===== *)
theory Ref_Safety
  imports Ref_Inv Orch_Calls
begin

text \<open>
  The invariant of \<open>Ref_Inv\<close> over the operations of the node: submission, allocation, scopes, cancellation, completion
  and the spread of a failure, endpoint reports, and the compaction of the allocator.
\<close>

section \<open>What releasing leaves alone\<close>

definition outer :: "Orch \<Rightarrow> TaskSlot list list \<times> WorkerCompletion list \<times> TaskSlot set" where
  "outer st = (o_scope st, o_completion_queue st, known st)"

lemma outer_view: "node_view st' = node_view st \<Longrightarrow> outer st' = outer st"
  using view_cong(1) [of st' st] task_view_slots(2) [of st' st] by (simp add: outer_def node_view_def)

lemma outer_upd [simp]: "outer (upd_slot p f st) = outer st" "outer (upd_run r g st) = outer st"
  by (simp_all add: outer_def) (simp_all add: upd_slot_def upd_run_def)

lemma same_outer: "unchanged node_view m \<Longrightarrow> unchanged outer m"
  by (auto simp: unchanged_def intro: outer_view)

lemma outer_error [simp]: "outer (record_run_error r e st) = outer st"
  by (simp add: record_run_error_def)

lemma outer_decrement [intro]: "unchanged outer (decrement_run_tasks r)"
  using same_outer [OF same_finish(3)]
  by (auto simp: unchanged_def decrement_run_tasks_def Let_def split: option.splits)

lemma outer_slot_state [intro]: "unchanged v (slot_state p)"
  by (simp add: unchanged_def slot_state_def split: option.splits)

lemma outer_try_consume [intro]: "unchanged outer (try_consume p)"
proof -
  have r: "outer (st\<lparr>o_tensormap := m, o_ring := ring_release (o_ring st) p\<rparr>) = outer st" for st m
    by (simp add: outer_def node_ring)
  have "unchanged outer (on_consumed p)"
    unfolding on_consumed_def
    by (intro unchanged_bind outer_slot_state)
      (auto intro!: unchanged_seq unchanged_modify r same_outer [OF same_mark_ended])
  then show ?thesis
    unfolding try_consume_def Let_def
    by (intro unchanged_bind outer_slot_state) (auto intro!: unchanged_seq unchanged_modify)
qed

lemma runs_to_frame:
  assumes "runs_to P m Q" "unchanged v m"
  shows "runs_to (\<lambda>s. P s \<and> v s = c) m (\<lambda>x s. Q x s \<and> v s = c)"
  unfolding runs_to_def using runs_toD [OF assms(1)] unchangedD [OF assms(2)] by (metis (no_types, lifting))

text \<open>The state of the node between two releases of an operation: \<open>c\<close> is the part of the node it does not change.\<close>

definition node_at ::
  "TaskSlot list list \<times> WorkerCompletion list \<times> TaskSlot set \<Rightarrow> TaskSlot set \<Rightarrow> TaskSlot multiset \<Rightarrow> Orch \<Rightarrow> bool" where
  "node_at c K X st \<longleftrightarrow> node_ok X {#} K st \<and> outer st = c"

lemma node_atD:
  assumes "node_at c K X st"
  shows "node_ok X {#} K st" "known st = snd (snd c)" "run_inv st" "refs X st" "running K st"
  using assms by (auto simp: node_at_def node_ok_def outer_def)

lemma runs_release: "runs_to (node_at c K (add_mset p X)) (try_consume p) (\<lambda>_. node_at c K X)"
  unfolding node_at_def by (rule runs_to_frame [OF runs_try_consume outer_try_consume])

lemmas runs_release_each = runs_to_each [of "node_at c K" for c K, OF runs_release]

lemma runs_release_task: "runs_to (node_at c K (add_mset p (mset ps) + X)) (seq_act (try_consume p) (each_act try_consume ps)) (\<lambda>_. node_at c K X)"
  using runs_release_each [of c K "p # ps" X] by simp

lemma node_at_upd:
  assumes "node_at c K X st" "p \<in> known st" "same_refs (o_slots st p) (f (o_slots st p))"
    "owned (f (o_slots st p)) p + X' = owned (o_slots st p) p + X" "p \<notin> K \<or> ts_state (f (o_slots st p)) = ts_state (o_slots st p)"
  shows "node_at c K X' (upd_slot p f st)"
  using assms node_upd [of X "{#}" K st p f X'] by (simp add: node_at_def)

lemma pending_failed: "node_at c K X st \<Longrightarrow> p \<in> known st \<Longrightarrow> ts_failure_propagation_pending (o_slots st p) \<Longrightarrow> ts_state (o_slots st p) = FAILED"
  by (auto simp: node_at_def node_ok_def refs_def slot_refs_def Let_def)

section \<open>Failure spreads\<close>

lemma skipped_fields [simp]:
  "ts_fanout_released (mark_group_members_skipped s m) = ts_fanout_released s"
  "ts_fanout_total (mark_group_members_skipped s m) = ts_fanout_total s"
  "ts_fanin_producers (mark_group_members_skipped s m) = ts_fanin_producers s"
  "ts_fanout_consumers (mark_group_members_skipped s m) = ts_fanout_consumers s"
  "ts_run_id (mark_group_members_skipped s m) = ts_run_id s"
  "ts_failure_propagation_pending (mark_group_members_skipped s m) = ts_failure_propagation_pending s"
  by (simp_all add: mark_group_members_skipped_def Let_def case_prod_unfold)

lemma same_refs_skipped [simp]:
  "has_settled (mark_group_members_skipped s m) = has_settled s" "owned (mark_group_members_skipped s m) p = owned s p"
  "same_refs s (mark_group_members_skipped s' m) = same_refs s s'"
  by (simp_all add: has_settled_def owned_def same_refs_def)

text \<open>A claimed task gives back what it held; one that is still being built keeps it until its submitter commits.\<close>

lemma claim_cases:
  assumes "claim_task_failure s message = (s', claimed)" "ts_failure_propagation_pending s \<longrightarrow> ts_state s = FAILED"
  obtains (refused) "claimed = None" "s' = s"
    | (building) "claimed = Some BUILDING" "same_refs s s'" "owned s' p = owned s p" "ts_state s = BUILDING" "ts_state s' = FAILED"
        "ts_failure_propagation_pending s'"
    | (claimed) "claimed \<noteq> None" "claimed \<noteq> Some BUILDING" "same_refs s s'" "owned s' p = {#}"
        "owned s p = add_mset p (mset (ts_fanin_producers s))" "ts_state s = PENDING \<or> ts_state s = READY" "ts_state s' = FAILED"
        "\<not> ts_failure_propagation_pending s'"
proof (cases "ts_state s = PENDING \<or> ts_state s = READY \<or> ts_state s = BUILDING")
  case False
  then show thesis using assms(1) by (intro refused) (auto simp: claim_task_failure_def Let_def)
next
  case True
  then have s': "s' = s\<lparr>ts_state := FAILED, ts_failure_message := message, ts_failure_propagation_pending := (ts_state s = BUILDING)\<rparr>"
    and c: "claimed = Some (ts_state s)" using assms by (auto simp: claim_task_failure_def Let_def)
  show thesis
  proof (cases "ts_state s = BUILDING")
    case b: True
    then show thesis by (intro building) (simp_all add: c s' same_refs_def owned_def has_settled_def)
  next
    case False
    then have "ts_state s = PENDING \<or> ts_state s = READY" using True by simp
    then show thesis by (intro claimed) (auto simp: c s' same_refs_def owned_def has_settled_def)
  qed
qed

lemma upd_slot_triv: "upd_slot p (\<lambda>_. o_slots st p) st = st"
  by (simp add: upd_slot_def)

lemma upd_slot_twice: "upd_slot p (\<lambda>_. s2) (upd_slot p (\<lambda>_. s1) st) = upd_slot p (\<lambda>_. s2) st"
  by (simp add: upd_slot_def)

lemma not_running: "node_at c K X st \<Longrightarrow> ts_state (o_slots st p) \<noteq> RUNNING \<Longrightarrow> p \<notin> K"
  by (auto simp: node_at_def node_ok_def running_def)

lemma poison_runs:
  "poison_tasks message slots st = (res, st') \<Longrightarrow> \<not> overflow res \<Longrightarrow> node_at c K X st \<Longrightarrow> set slots \<subseteq> known st \<Longrightarrow>
   res = Inr () \<and> node_at c K X st'"
proof (induction message slots st arbitrary: X res st' rule: poison_tasks.induct)
  case (1 message st)
  then show ?case by (simp add: poison_tasks.simps)
next
  case (2 message p slots st)
  have p: "p \<in> known st" using 2(7) by simp
  have sl: "slot_state p st = (Inr (o_slots st p), st)" using slot_state_known [OF p] .
  obtain s1 claimed where c: "claim_task_failure (o_slots st p) message = (s1, claimed)"
    by (cases "claim_task_failure (o_slots st p) message")
  note eq = 2(4) [unfolded poison_tasks.simps(2) sl prod.case sum.case c Let_def]
  have skip: "res = Inr () \<and> node_at c K X st'" if "claimed = None \<or> claimed = Some BUILDING" "node_at c K X (upd_slot p (\<lambda>_. s1) st)"
    using 2(1) [OF sl [symmetric] refl refl c [symmetric] refl that(1)] eq that 2(5,7) by simp
  have pf: "ts_failure_propagation_pending (o_slots st p) \<longrightarrow> ts_state (o_slots st p) = FAILED" using pending_failed [OF 2(6) p] by blast
  from c pf show ?case
  proof (cases rule: claim_cases [where p = p])
    case refused
    then show ?thesis using skip 2(6) by (simp add: upd_slot_triv)
  next
    case building
    have "node_at c K X (upd_slot p (\<lambda>_. s1) st)"
      using building not_running [OF 2(6), of p] by (intro node_at_upd [OF 2(6) p]) simp_all
    then show ?thesis using skip building(1) by blast
  next
    case claimed
    let ?s2 = "mark_group_members_skipped s1 message"
    let ?st2 = "upd_slot p (\<lambda>_. ?s2) (upd_slot p (\<lambda>_. s1) st)" and ?X = "add_mset p (mset (ts_fanin_producers (o_slots st p))) + X"
    have f: "\<not> (claimed = None \<or> claimed = Some BUILDING)" using claimed by simp
    have n2: "node_at c K ?X ?st2"
      unfolding upd_slot_twice using claimed not_running [OF 2(6), of p] by (intro node_at_upd [OF 2(6) p]) auto
    have ps: "ts_fanin_producers ?s2 = ts_fanin_producers (o_slots st p)" "ts_fanout_consumers ?s2 = ts_fanout_consumers (o_slots st p)"
      using claimed(3) by (simp_all add: same_refs_def)
    have cs: "set (ts_fanout_consumers (o_slots st p)) \<subseteq> known st" using node_atD(4) [OF 2(6)] p by (auto simp: refs_def slot_refs_def Let_def)
    obtain q3 st3 where p3: "poison_tasks message (ts_fanout_consumers ?s2) ?st2 = (q3, st3)"
      by (cases "poison_tasks message (ts_fanout_consumers ?s2) ?st2")
    obtain q4 st4 where p4: "seq_act (sched_try_consume p) (each_act sched_try_consume (ts_fanin_producers ?s2)) st3 = (q4, st4)"
      by (cases "seq_act (sched_try_consume p) (each_act sched_try_consume (ts_fanin_producers ?s2)) st3")
    have "\<not> overflow q3" using eq f p3 2(5) by (auto split: sum.splits)
    then have n3: "q3 = Inr () \<and> node_at c K ?X st3"
      using 2(2) [OF sl [symmetric] refl refl c [symmetric] refl f refl refl p3 _ n2] cs ps by simp
    have "\<not> overflow q4" using eq f p3 p4 n3 2(5) by (auto split: sum.splits)
    then obtain x4 where n4: "q4 = Inr x4" "node_at c K X st4"
      using runs_toD [OF runs_release_task, of c K p _ X st3 q4 st4] n3 p4 unfolding sched_try_consume_eq ps by blast
    have "poison_tasks message slots st4 = (res, st')" using eq f p3 p4 n3 n4 by simp
    moreover have "set slots \<subseteq> known st4" using 2(7) node_atD(2) [OF n4(2)] node_atD(2) [OF 2(6)] by simp
    ultimately show ?thesis
      using 2(3) [OF sl [symmetric] refl refl c [symmetric] refl f refl refl p3 [symmetric] _ p4 [symmetric] n4(1) _ 2(5) n4(2)] n3 by blast
  qed
qed

section \<open>Completion\<close>

lemma modify_seq: "seq_act (modify f) n s = n (f s)"
  by (simp add: seq_act_def bind_act_def modify_def)

text \<open>Operations that may throw, about the runs that return.\<close>

definition leads_to :: "('s \<Rightarrow> bool) \<Rightarrow> ('s, 'a) action \<Rightarrow> ('a \<Rightarrow> 's \<Rightarrow> bool) \<Rightarrow> bool" where
  "leads_to P m Q \<longleftrightarrow> (\<forall>s x s'. P s \<and> m s = (Inr x, s') \<longrightarrow> Q x s')"

lemma leads_toD: "leads_to P m Q \<Longrightarrow> P s \<Longrightarrow> m s = (Inr x, s') \<Longrightarrow> Q x s'"
  by (simp add: leads_to_def)

lemma leads_runs: "runs_to P m Q \<Longrightarrow> leads_to P m Q"
  unfolding runs_to_def leads_to_def by (metis overflow_simps(1) sum.inject(2))

lemma leads_seq: "leads_to P m (\<lambda>_. Q) \<Longrightarrow> leads_to Q n R \<Longrightarrow> leads_to P (seq_act m n) R"
  unfolding leads_to_def seq_act_def bind_act_def by (fastforce split: prod.splits sum.splits)

lemma leads_slot:
  "(\<And>s. leads_to (\<lambda>st. P st \<and> p \<in> known st \<and> o_slots st p = s) (k s) Q) \<Longrightarrow> leads_to P (bind_act (slot_state p) k) Q"
  by (auto simp: leads_to_def bind_act_def slot_state_def peek_known split: if_splits)

lemma leads_modify: "(\<And>s. P s \<Longrightarrow> Q () (f s)) \<Longrightarrow> leads_to P (modify f) Q"
  by (simp add: leads_to_def modify_def)

lemma leads_each: "(\<And>x. x \<in> set xs \<Longrightarrow> leads_to P (f x) (\<lambda>_. P)) \<Longrightarrow> leads_to P (each_act f xs) (\<lambda>_. P)"
proof (induction xs)
  case Nil
  show ?case by (simp add: leads_to_def ok_def)
next
  case (Cons x xs)
  then show ?case by (auto intro: leads_seq)
qed

lemma node_at_view: "node_view st' = node_view st \<Longrightarrow> run_inv st' = run_inv st \<Longrightarrow> node_at c K X st' = node_at c K X st"
proof -
  assume v: "node_view st' = node_view st" and r: "run_inv st' = run_inv st"
  have "node_ok X {#} K st' = node_ok X {#} K st"
    using node_view_ok [OF v, of X "{#}" K] node_view_ok [OF v [symmetric], of X "{#}" K] r unfolding node_ok_def by blast
  then show ?thesis using outer_view [OF v] by (simp add: node_at_def)
qed

lemma node_at_queues [simp]:
  "node_at c K X (st\<lparr>o_ready_sub_queue := a\<rparr>) = node_at c K X st"
  "node_at c K X (st\<lparr>o_ready_next_level_queues := b\<rparr>) = node_at c K X st" "node_at c K X (notify_ready st) = node_at c K X st"
proof -
  have v: "node_view (st\<lparr>o_ready_sub_queue := a\<rparr>) = node_view st" "node_view (st\<lparr>o_ready_next_level_queues := b\<rparr>) = node_view st"
    by (simp_all add: node_view_def fun_eq_iff load_view_def task_view_def unleased_def find_run_def)
  show "node_at c K X (st\<lparr>o_ready_sub_queue := a\<rparr>) = node_at c K X st" by (rule node_at_view [OF v(1)]) simp
  show "node_at c K X (st\<lparr>o_ready_next_level_queues := b\<rparr>) = node_at c K X st" by (rule node_at_view [OF v(2)]) simp
  show "node_at c K X (notify_ready st) = node_at c K X st" by (rule node_at_view) simp_all
qed

lemma keeps_node_enqueue: "keeps (node_at c K X) (enqueue_ready p)"
  unfolding enqueue_ready_def
  by (intro keeps_bind keeps_slot_state) (auto simp: keeps_def split: option.splits sum.splits if_splits)

lemma keeps_leads: "keeps I m \<Longrightarrow> leads_to I m (\<lambda>_. I)"
  unfolding leads_to_def using keepsD [of I m] by (metis overflow_simps(1))

lemma leads_release_consumer:
  assumes "q \<in> snd (snd c)"
  shows "leads_to (node_at c K X) (release_consumer failed message q) (\<lambda>_. node_at c K X)"
proof (cases failed)
  case True
  have "node_at c K X st'" if "node_at c K X st" "poison_tasks message [q] st = (Inr x, st')" for st x st'
    using poison_runs [OF that(2) _ that(1)] node_atD(2) [OF that(1)] assms by simp
  then show ?thesis using True by (auto simp: leads_to_def release_consumer_def poison_task_def)
next
  case False
  have u: "node_at c K X (upd_slot q (\<lambda>_. fst (try_mark_ready ((o_slots st q)\<lparr>ts_fanin_released := ts_fanin_released (o_slots st q) + 1\<rparr>))) st)"
    if "node_at c K X st" "q \<in> known st" for st
    using pending_failed [OF that] not_running [OF that(1), of q]
    by (intro node_at_upd [OF that]) (auto simp: try_mark_ready_def same_refs_def owned_def has_settled_def)
  have e: "leads_to (node_at c K X) (if b then enqueue_ready q else ok ()) (\<lambda>_. node_at c K X)" for b
    using keeps_leads [OF keeps_node_enqueue] by (simp add: leads_to_def ok_def)
  show ?thesis
    unfolding release_consumer_def case_prod_unfold Let_def using False
    by (auto intro!: leads_slot leads_seq [OF leads_modify e] u)
qed

text \<open>A task the scheduler completes was running, and no other completion of it is queued.\<close>

lemma leads_task_complete:
  assumes "p = wc_task_slot completion" "p \<notin> K" "p \<in> snd (snd c)"
  shows "leads_to (\<lambda>st. node_at c K X st \<and> ts_state (o_slots st p) = RUNNING) (on_task_complete completion) (\<lambda>_. node_at c K X)"
  unfolding on_task_complete_def Let_def assms(1) [symmetric]
proof (rule leads_slot)
  fix s
  let ?failed = "is_failure (wc_outcome completion)" and ?m = "wc_error_message completion"
  let ?f = "\<lambda>s. s\<lparr>ts_failure_message := (if ?failed then ?m else ts_failure_message s), ts_state := (if ?failed then FAILED else COMPLETED)\<rparr>"
  let ?P = "\<lambda>st. (node_at c K X st \<and> ts_state (o_slots st p) = RUNNING) \<and> p \<in> known st \<and> o_slots st p = s"
  let ?I = "node_at c K (add_mset p (mset (ts_fanin_producers s)) + X)"
  have u: "?I (upd_slot p ?f st)" if "?P st" for st
    using that pending_failed [of c K X st p] assms(2) by (intro node_at_upd [of c K X]) (auto simp: same_refs_def owned_def has_settled_def)
  have k: "leads_to ?I (each_act (release_consumer ?failed ?m) (ts_fanout_consumers s)) (\<lambda>_. ?I)" if "?P st" for st
  proof (rule leads_each)
    fix q
    assume "q \<in> set (ts_fanout_consumers s)"
    moreover have "slot_refs X st p" using that node_atD(4) [of c K X st] by (auto simp: refs_def)
    ultimately have "q \<in> snd (snd c)" using that node_atD(2) [of c K X st] by (auto simp: slot_refs_def Let_def)
    then show "leads_to ?I (release_consumer ?failed ?m q) (\<lambda>_. ?I)" by (rule leads_release_consumer)
  qed
  let ?rest = "seq_act (each_act (release_consumer ?failed ?m) (ts_fanout_consumers s))
      (seq_act (sched_try_consume p) (each_act sched_try_consume (ts_fanin_producers s)))"
  have "leads_to (\<lambda>st. ?P st) (seq_act (modify (upd_slot p ?f)) ?rest) (\<lambda>_. node_at c K X)"
    unfolding leads_to_def
  proof (intro allI impI)
    fix st x st'
    assume a: "?P st \<and> seq_act (modify (upd_slot p ?f)) ?rest st = (Inr x, st')"
    then have P: "?P st" by (rule conjunct1)
    have e: "?rest (upd_slot p ?f st) = (Inr x, st')" using conjunct2 [OF a] unfolding modify_seq .
    show "node_at c K X st'"
      using leads_toD [OF leads_seq [OF k [OF P] leads_runs [OF runs_release_task [folded sched_try_consume_eq]]] u [OF P] e] .
  qed
  then show "leads_to (\<lambda>st. ?P st) (seq_act (modify (upd_slot p ?f)) ?rest) (\<lambda>_. node_at c K X)" .
qed

section \<open>A new slot\<close>

lemma live_ring_inv:
  assumes "live_ring rg"
  obtains slabs where "ring_inv (ring_at_rest rg slabs)"
  using assms ring_sys.reachable_inv by (auto simp: live_ring_def)

lemma slot_position:
  assumes "live_ring rg" "p < length (rg_slot_states rg)"
  shows "rs_ring_idx (rg_slot_states rg ! p) < length (rg_rings rg)"
    "nat (rs_ring_slot_idx (rg_slot_states rg ! p)) < length (hr_released (rg_rings rg ! rs_ring_idx (rg_slot_states rg ! p)))"
proof -
  obtain slabs where inv: "ring_inv (ring_at_rest rg slabs)" using live_ring_inv [OF assms(1)] .
  let ?s = "rg_slot_states rg ! p"
  have ok: "rings_ok (rg_rings rg) slabs" using inv by (simp add: ring_inv_def)
  have "(rs_ring_idx ?s, rs_ring_slot_idx ?s) \<in> positions slabs"
    using inv assms(2) nth_mem [OF assms(2)] by (auto simp: ring_inv_def owners_def parked_def)
  then show i: "rs_ring_idx ?s < length (rg_rings rg)"
    "nat (rs_ring_slot_idx ?s) < length (hr_released (rg_rings rg ! rs_ring_idx ?s))"
    using rings_ok_length [OF ok] rings_ok_nth(3) [OF ok] by (auto simp: positions_def)
qed

lemma alloc_loop_shutdown:
  assumes "alloc_loop rg i n (if timed_out then [TimedOut] else []) = Some (Inr (rg', ar))" "ar_slot ar = INVALID_SLOT" "live_ring rg"
  shows "rg' = rg"
proof -
  obtain slabs where "ring_inv (ring_at_rest rg slabs)" using live_ring_inv [OF assms(3)] .
  then have "0 \<le> rg_next_task_id rg" by (simp add: ring_inv_def)
  then show ?thesis
    using assms(1,2) by (auto simp: alloc_loop.simps [of rg] alloc_reserve_def alloc_park_def Let_def split: if_splits option.splits)
qed

text \<open>An allocation leaves the other slabs alone and appends an unreleased slot.\<close>

lemma ring_alloc_effect:
  assumes live: "live_ring rg" and al: "ring_alloc rg bytes d (if timed_out then [TimedOut] else []) = Some (Inr (rg', ar))"
    and slot: "ar_slot ar \<noteq> INVALID_SLOT"
  shows "live_ring rg'" "ar_slot ar = int (length (rg_slot_states rg))" "\<exists>x. rg_slot_states rg' = rg_slot_states rg @ [x]"
    "unreleased rg' (ar_slot ar)" "p < length (rg_slot_states rg) \<Longrightarrow> unreleased rg (int p) \<Longrightarrow> unreleased rg' (int p)"
proof -
  obtain slabs where w: "reachable ring_start ring_step (ring_at_rest rg slabs)" (is "reachable _ _ ?w")
    using live by (auto simp: live_ring_def)
  obtain i n where req: "alloc_request rg bytes d = Inr (i, n)" and loop: "alloc_loop rg i n (if timed_out then [TimedOut] else []) = Some (Inr (rg', ar))"
    using al by (auto simp: ring_alloc_def split: sum.splits)
  have sd: "\<not> rg_shutdown rg" using loop slot by (auto simp: alloc_loop.simps [of rg])
  obtain rg1 rv where res: "alloc_reserve rg i n = Some (rg1, rv)" and park: "alloc_park rg1 rv = (rg', ar)"
    using loop sd by (cases "alloc_reserve rg i n") (auto simp: alloc_loop.simps [of rg] split: if_splits)
  have inv: "ring_inv ?w" using ring_sys.reachable_inv [OF w] .
  have i: "i < length (rg_rings rg)" using alloc_requestD(1) [OF req] inv by (simp add: ring_inv_def)
  obtain w' where w': "world_alloc ?w bytes d = Some w'" using req res sd by (simp add: world_alloc_def)
  then have "rw_ring w' = rg'" "rw_pending w' = []" "rw_releasing w' = []" "rw_reset w' = NoReset" using req res sd park by (auto simp: world_alloc_def)
  moreover have "reachable ring_start ring_step w'" using reachable_steps [OF w world_alloc_steps [OF w']] .
  ultimately show "live_ring rg'" unfolding live_ring_def by (metis (full_types) ring_world.surjective old.unit.exhaust)
  obtain r' h e where c: "carve (rg_rings rg ! i) n = Some (r', h, e)"
    and rg1: "rg1 = rg\<lparr>rg_rings := (rg_rings rg)[i := push_slot r' e]\<rparr>"
    and rv: "rv_ring_idx rv = i" "rv_ring_slot_idx rv = int (length (hr_released r'))"
    using res by (auto simp: alloc_reserve_def Let_def split: option.splits)
  have rg': "rg_slot_states rg' = rg_slot_states rg @ [\<lparr>rs_ring_idx = i, rs_ring_slot_idx = int (length (hr_released r'))\<rparr>]"
    "rg_rings rg' = (rg_rings rg)[i := push_slot r' e]" "ar_slot ar = rg_next_task_id rg"
    using park rg1 rv by (auto simp: alloc_park_def Let_def)
  show n: "ar_slot ar = int (length (rg_slot_states rg))" using rg'(3) inv by (simp add: ring_inv_def)
  show "\<exists>x. rg_slot_states rg' = rg_slot_states rg @ [x]" using rg'(1) by blast
  show "unreleased rg' (ar_slot ar)" using i by (simp add: unreleased_def rg'(1,2) n nth_append push_slot_def)
  show "unreleased rg' (int p)" if "p < length (rg_slot_states rg)" "unreleased rg (int p)"
  proof -
    note pos = slot_position [OF live that(1)]
    show ?thesis
      using that pos carve_frame(1) [OF c] i
      by (cases "rs_ring_idx (rg_slot_states rg ! p) = i") (simp_all add: unreleased_def rg'(1,2) nth_append push_slot_def)
  qed
qed

definition fresh_task :: "RunId \<Rightarrow> PipelineSlotLease \<Rightarrow> TaskSlotState" where
  "fresh_task r lease = (slot_reset fresh_slot)\<lparr>ts_run_id := r, ts_state := BUILDING, ts_pipeline_lease := lease\<rparr>"

lemma fresh_task_fields [simp]:
  "ts_state (fresh_task r l) = BUILDING" "ts_run_id (fresh_task r l) = r" "ts_fanin_producers (fresh_task r l) = []"
  "ts_fanout_consumers (fresh_task r l) = []" "ts_fanout_total (fresh_task r l) = 0" "ts_fanout_released (fresh_task r l) = 0"
  "\<not> ts_failure_propagation_pending (fresh_task r l)" "owned (fresh_task r l) p = {#p#}"
  by (simp_all add: fresh_task_def slot_reset_def owned_def has_settled_def)

lemma claim_slot_cases:
  assumes inv: "run_inv st" and live: "live_ring (o_ring st)" and run: "current_building_run st = Inr run"
    and c: "claim_slot (rn_id run) bytes members timed_out message st = (res, st')"
  obtains (no_slot) "st' = st" "\<And>ar. res \<noteq> Inr (Some ar)"
    | (slot) ar ring where "res = Inr (Some ar)" "ar_slot ar = int (length (rg_slot_states (o_ring st)))"
        "live_ring ring" "\<exists>x. rg_slot_states ring = rg_slot_states (o_ring st) @ [x]" "unreleased ring (ar_slot ar)"
        "\<And>p. p \<in> known st \<Longrightarrow> unreleased (o_ring st) p \<Longrightarrow> unreleased ring p"
        "st' = upd_run (rn_id run) (\<lambda>r. r\<lparr>
           rn_physical_tasks := rn_physical_tasks r @ [\<lparr>pt_slot = ar_slot ar, pt_ended_members = replicate members 0\<rparr>],
           rn_task_slots := rn_task_slots r @ [ar_slot ar], rn_active_tasks := rn_active_tasks r + 1\<rparr>)
         (upd_slot (ar_slot ar) (\<lambda>_. fresh_task (rn_id run) (rn_lease run)) (st\<lparr>o_ring := ring\<rparr>))"
proof -
  let ?al = "ring_alloc (o_ring st) bytes (current_depth (o_scope st)) (if timed_out then [TimedOut] else [])"
  consider "st' = st" "\<And>ar. res \<noteq> Inr (Some ar)"
    | ring ar where "?al = Some (Inr (ring, ar))" "ar_slot ar = INVALID_SLOT" "st' = st\<lparr>o_ring := ring\<rparr>" "\<And>ar. res \<noteq> Inr (Some ar)"
    | ring ar where "?al = Some (Inr (ring, ar))" "ar_slot ar \<noteq> INVALID_SLOT" "res = Inr (Some ar)"
      "st' = register_run_slot (rn_id run) (ar_slot ar) members (upd_slot (ar_slot ar)
         (\<lambda>_. (slot_reset fresh_slot)\<lparr>ts_run_id := rn_id run, ts_state := BUILDING\<rparr>) (st\<lparr>o_ring := ring\<rparr>))"
    using c by (auto simp: claim_slot_def Let_def split: option.splits sum.splits prod.splits if_splits)
  then show thesis
  proof cases
    case 1
    then show thesis by (rule no_slot)
  next
    case (2 ring ar)
    then have "ring = o_ring st"
      using alloc_loop_shutdown [OF _ _ live] by (auto simp: ring_alloc_def split: sum.splits)
    then show thesis using 2 by (intro no_slot) simp_all
  next
    case (3 ring ar)
    note eff = ring_alloc_effect [OF live 3(1,2)]
    show thesis
    proof (rule slot [OF 3(3) eff(2,1,3,4)])
      show "unreleased ring p" if "p \<in> known st" "unreleased (o_ring st) p" for p
        using eff(5) [of "nat p"] that by (simp add: known_def nat_less_iff)
      let ?st = "upd_slot (ar_slot ar) (\<lambda>_. (slot_reset fresh_slot)\<lparr>ts_run_id := rn_id run, ts_state := BUILDING\<rparr>) (st\<lparr>o_ring := ring\<rparr>)"
      have f: "find_run ?st (rn_id run) = Some run" using building_live(1) [OF inv run] by simp
      have k: "peek_slot ?st (ar_slot ar) \<noteq> None" using eff(2,3) by (auto simp: peek_known known_def)
      show "st' = upd_run (rn_id run) (\<lambda>r. r\<lparr>
           rn_physical_tasks := rn_physical_tasks r @ [\<lparr>pt_slot = ar_slot ar, pt_ended_members = replicate members 0\<rparr>],
           rn_task_slots := rn_task_slots r @ [ar_slot ar], rn_active_tasks := rn_active_tasks r + 1\<rparr>)
         (upd_slot (ar_slot ar) (\<lambda>_. fresh_task (rn_id run) (rn_lease run)) (st\<lparr>o_ring := ring\<rparr>))"
        unfolding 3(4) register_run_slot_def f option.case Let_def if_not_P [OF k] by (simp add: upd_slot_def fresh_task_def)
    qed
  qed
qed

text \<open>The new task holds itself, and its run counts one task more.\<close>

lemma claim_refs:
  assumes r: "refs X st" and p: "p \<notin> known st" and k: "known st' = insert p (known st)"
    and s: "\<And>q. o_slots st' q = (if q = p then fresh_task r' l else o_slots st q)"
  shows "refs X st'"
proof -
  have "holders st' = owned (o_slots st' p) p + (\<Sum>q\<in>known st. owned (o_slots st' q) q)"
    unfolding holders_def k using p by simp
  also have "(\<Sum>q\<in>known st. owned (o_slots st' q) q) = holders st"
    unfolding holders_def using p by (intro sum.cong) (auto simp: s)
  finally have h: "holders st' = add_mset p (holders st)" by (simp add: s)
  have sub: "set_mset (holders st + X) \<subseteq> known st"
    using r owned_known(1) [OF r] by (auto simp: holders_def set_mset_sum refs_def)
  then have z: "count (holders st + X) p = 0" using p by (meson count_inI subsetD)
  have "slot_refs X st' q" if "q \<in> known st'" for q
  proof (cases "q = p")
    case True
    then show ?thesis using z by (simp add: slot_refs_def h s)
  next
    case False
    then have "slot_refs X st q" using r that k by (simp add: refs_def)
    then show ?thesis using False by (auto simp: slot_refs_def h s k Let_def)
  qed
  then show ?thesis using r k by (auto simp: refs_def)
qed

lemma claim_loads:
  assumes l: "loads E st" and p: "p \<notin> known st" and k: "known st' = insert p (known st)"
    and s: "\<And>q. o_slots st' q = (if q = p then fresh_task r lease else o_slots st q)"
    and run: "find_run st r = Some run" "rn_active_tasks run' = rn_active_tasks run + 1" "set (rn_task_slots run') = insert p (set (rn_task_slots run))"
    and f: "\<And>q. find_run st' q = (if q = r then Some run' else find_run st q)"
  shows "loads E st'"
proof -
  have lt: "live_tasks st' q = (if q = r then insert p (live_tasks st r) else live_tasks st q)" for q
    using p by (auto simp: live_tasks_def k s)
  have fin: "finite (live_tasks st r)" by (rule finite_subset [OF _ finite_known [of st]]) (auto simp: live_tasks_def)
  have "p \<notin> live_tasks st r" using p by (simp add: live_tasks_def)
  then have "int (card (live_tasks st' r)) = int (card (live_tasks st r)) + 1" using fin by (simp add: lt)
  moreover have "rn_active_tasks u = int (card (live_tasks st q)) + int (count E q)" "set (rn_task_slots u) \<subseteq> known st"
    if "find_run st q = Some u" for q u using l that by (simp_all add: loads_def)
  ultimately have "rn_active_tasks u = int (card (live_tasks st' q)) + int (count E q) \<and> set (rn_task_slots u) \<subseteq> known st'"
    if "find_run st' q = Some u" for q u using that run unfolding f k lt by (cases "q = r") (auto, blast+)
  moreover have "find_run st' q \<noteq> None" if "live_tasks st' q \<noteq> {} \<or> q \<in># E" for q
    using that l unfolding f lt by (cases "q = r") (auto simp: loads_def)
  ultimately show ?thesis unfolding loads_def by blast
qed

lemma claim_node:
  assumes ok: "node_at (S, q, U) K X st" and run: "current_building_run st = Inr run"
    and c: "claim_slot (rn_id run) bytes members timed_out message st = (res, st')"
  shows "(st' = st \<and> (\<forall>ar. res \<noteq> Inr (Some ar))) \<or>
    (\<exists>ar l. res = Inr (Some ar) \<and> ar_slot ar \<notin> U \<and> node_at (S, q, insert (ar_slot ar) U) K X st' \<and> o_slots st' (ar_slot ar) = fresh_task (rn_id run) l)"
proof -
  have inv: "run_inv st" and refs: "refs X st" and ld: "loads {#} st" and rn: "running K st" and h: "heap_ok st"
    using ok by (simp_all add: node_at_def node_ok_def)
  have live: "live_ring (o_ring st)" using h by (simp add: heap_ok_def)
  have f: "find_run st (rn_id run) = Some run" using building_live(1) [OF inv run] .
  from inv live run c show ?thesis
  proof (cases rule: claim_slot_cases)
    case no_slot
    then show ?thesis by blast
  next
    case (slot ar ring)
    let ?p = "ar_slot ar"
    have p: "?p \<notin> known st" using slot(2) by (simp add: known_def)
    obtain x where x: "rg_slot_states ring = rg_slot_states (o_ring st) @ [x]" using slot(4) by blast
    have ring: "o_ring st' = ring" unfolding slot(7) by (simp add: upd_run_def upd_slot_def)
    have k: "known st' = insert ?p (known st)"
      unfolding known_def ring x slot(2) by auto
    have s: "o_slots st' q = (if q = ?p then fresh_task (rn_id run) (rn_lease run) else o_slots st q)" for q
      unfolding slot(7) by (simp add: upd_run_def upd_slot_def)
    have fr: "find_run st' q = (if q = rn_id run then Some (run\<lparr>
           rn_physical_tasks := rn_physical_tasks run @ [\<lparr>pt_slot = ?p, pt_ended_members = replicate members 0\<rparr>],
           rn_task_slots := rn_task_slots run @ [?p], rn_active_tasks := rn_active_tasks run + 1\<rparr>) else find_run st q)" for q
      unfolding slot(7) find_run_upd_run using f by simp
    have "refs X st'" using claim_refs [OF refs p k s] .
    moreover have "loads {#} st'" by (rule claim_loads [OF ld p k s f _ _ fr]) simp_all
    moreover have "running K st'" using rn p by (auto simp: running_def k s)
    moreover have "heap_ok st'" using h slot(3,5,6) p by (auto simp: heap_ok_def ring k s)
    moreover have "run_inv st'" using run_inv_claim [OF inv run c] .
    moreover have "outer st' = (S, q, insert ?p U)"
      using ok k unfolding slot(7) by (auto simp: node_at_def outer_def known_def upd_run_def upd_slot_def)
    moreover have "?p \<notin> U" using p node_atD(2) [OF ok] by simp
    ultimately show ?thesis using slot(1) s [of ?p] by (auto simp: node_at_def node_ok_def)
  qed
qed

section \<open>Submission\<close>

text \<open>The node between two operations: every reference that is not a task's is an open scope's.\<close>

definition node_top :: "TaskSlot list list \<Rightarrow> WorkerCompletion list \<Rightarrow> TaskSlot set \<Rightarrow> TaskSlot set \<Rightarrow> Orch \<Rightarrow> bool" where
  "node_top S q U K = node_at (S, q, U) K (mset (concat S))"

lemma concat_register: "S \<noteq> [] \<Longrightarrow> mset (concat (register_task p S)) = add_mset p (mset (concat S))"
  by (cases S rule: rev_cases) (simp_all add: register_task_def)

lemma charge_node:
  assumes "node_top S q U K st" "p \<in> U" "ts_state (o_slots st p) \<noteq> CONSUMED" "ts_fanout_total (o_slots st p) = 0"
  shows "node_top (register_task p S) q U K (charge_scope p st)"
proof -
  have sc: "o_scope st = S" and k: "p \<in> known st" using assms(1,2) by (auto simp: node_top_def node_at_def outer_def)
  show ?thesis
  proof (cases "S = []")
    case True
    have "upd_slot p (\<lambda>s. s\<lparr>ts_fanout_total := 0\<rparr>) st = st" using assms(4) by (simp add: upd_slot_def fun_upd_idem)
    then show ?thesis using True assms(1) by (simp add: charge_scope_def scope_depth_def sc register_task_def Let_def)
  next
    case False
    let ?st = "upd_slot p (\<lambda>s. s\<lparr>ts_fanout_total := ts_fanout_total s + 1\<rparr>) st"
    have n: "node_ok (add_mset p (mset (concat S))) {#} K ?st"
      using assms(1,3) k by (intro node_retain) (simp_all add: node_top_def node_at_def)
    have eq: "charge_scope p st = ?st\<lparr>o_scope := register_task p S\<rparr>"
      using False assms(4) by (simp add: charge_scope_def scope_depth_def sc upd_slot_def Let_def)
    have v: "node_ok X E K (?st\<lparr>o_scope := S'\<rparr>) = node_ok X E K ?st" for X E S'
      by (simp add: node_ok_def refs_def slot_refs_def holders_def loads_def live_tasks_def running_def heap_ok_def known_def find_run_def)
    have "outer (charge_scope p st) = (register_task p S, q, U)"
      using assms(1) unfolding eq by (simp add: node_top_def node_at_def outer_def known_def) (simp add: upd_slot_def)
    then show ?thesis using n v unfolding node_top_def node_at_def eq concat_register [OF False] by simp
  qed
qed

text \<open>Updates of a task that concern neither its state nor its references.\<close>

lemma node_at_neutral:
  assumes "node_at c K X st" "p \<in> known st" "same_refs (o_slots st p) (f (o_slots st p))" "ts_state (f (o_slots st p)) = ts_state (o_slots st p)"
    "ts_failure_propagation_pending (f (o_slots st p)) = ts_failure_propagation_pending (o_slots st p)"
  shows "node_at c K X (upd_slot p f st)"
proof -
  have "owned (f (o_slots st p)) p = owned (o_slots st p) p" using assms(3,4,5) by (simp add: owned_def has_settled_def same_refs_def)
  then show ?thesis using assms by (intro node_at_upd) simp_all
qed

lemma node_at_tensormap [simp]: "node_at c K X (st\<lparr>o_tensormap := m\<rparr>) = node_at c K X st"
proof -
  have "outer (st\<lparr>o_tensormap := m\<rparr>) = outer st" by (simp add: outer_def known_def)
  moreover have "node_ok X {#} K (st\<lparr>o_tensormap := m\<rparr>) = node_ok X {#} K st"
    by (simp add: node_ok_def refs_def slot_refs_def holders_def loads_def live_tasks_def running_def heap_ok_def known_def find_run_def)
  ultimately show ?thesis by (simp add: node_at_def)
qed

lemma keeps_node_wire:
  assumes "p \<in> U"
  shows "keeps (\<lambda>st. node_at (S, q, U) K X st \<and> ts_state (o_slots st p) = BUILDING) (wire_producer p d acc)"
proof -
  let ?c = "(S, q, U)" and ?d = "pd_slot d"
  have "node_at ?c K X st' \<and> ts_state (o_slots st' p) = BUILDING"
    if a: "node_at ?c K X st" "ts_state (o_slots st p) = BUILDING" "?d \<in> known st" "ts_state (o_slots st ?d) \<noteq> CONSUMED"
      and st1: "st1 = upd_slot ?d (\<lambda>s. s\<lparr>ts_fanout_consumers := ts_fanout_consumers s @ [p]\<rparr>) st"
      and st': "st' = (if pd_retain d then upd_slot p (\<lambda>s. s\<lparr>ts_fanin_producers := ts_fanin_producers s @ [?d]\<rparr>)
        (upd_slot ?d (\<lambda>s. s\<lparr>ts_fanout_total := ts_fanout_total s + 1\<rparr>) st1) else st1)" for st st1 st'
  proof -
    have p: "p \<in> known st" and ok: "node_ok X {#} K st" and o: "outer st = ?c" using a(1) assms by (auto simp: node_at_def outer_def)
    have sd: "slot_refs X st ?d" using ok a(3) by (simp add: node_ok_def refs_def)
    have ok1: "node_ok X {#} K st1"
      unfolding st1 by (rule node_link [OF ok a(3)]) (use sd p in \<open>auto simp: slot_refs_def same_refs_def owned_def has_settled_def Let_def\<close>)
    have h1: "ts_state (o_slots st1 q) = ts_state (o_slots st q)" for q by (simp add: st1)
    show ?thesis
    proof (cases "pd_retain d")
      case False
      then show ?thesis using ok1 o a(2) h1 by (simp add: node_at_def st') (simp add: st1)
    next
      case True
      let ?st2 = "upd_slot ?d (\<lambda>s. s\<lparr>ts_fanout_total := ts_fanout_total s + 1\<rparr>) st1"
      have k1: "known st1 = known st" by (simp add: st1)
      have ok2: "node_ok (add_mset ?d X) {#} K ?st2" using a(3,4) k1 by (intro node_retain [OF ok1]) (simp_all add: st1)
      have h2: "ts_state (o_slots ?st2 p) = BUILDING" using a(2) h1 by auto
      have sp: "slot_refs (add_mset ?d X) ?st2 p" using ok2 p k1 by (simp add: node_ok_def refs_def)
      have "node_ok X {#} K (upd_slot p (\<lambda>s. s\<lparr>ts_fanin_producers := ts_fanin_producers s @ [?d]\<rparr>) ?st2)"
      proof (rule node_link [OF ok2])
        let ?s = "o_slots ?st2 p"
        have h3: "\<not> has_settled (?s\<lparr>ts_fanin_producers := ts_fanin_producers ?s @ [?d]\<rparr>)" using h2 by (simp add: has_settled_def)
        have h4: "\<not> has_settled ?s" using h2 by (simp add: has_settled_def)
        show "owned (?s\<lparr>ts_fanin_producers := ts_fanin_producers ?s @ [?d]\<rparr>) p + X = owned ?s p + add_mset ?d X"
          using h4 h3 by (simp add: owned_def)
      qed (use p k1 a(3) sp in \<open>auto simp: slot_refs_def same_refs_def Let_def\<close>)
      then show ?thesis using True o h2 by (simp add: node_at_def st') (simp add: st1)
    qed
  qed
  then show ?thesis
    unfolding keeps_def wire_producer_def bind_act_def slot_state_def peek_known by (auto simp: Let_def split: if_splits)
qed

lemma keeps_node_wire_all:
  assumes "p \<in> U"
  shows "keeps (\<lambda>st. node_at (S, q, U) K X st \<and> ts_state (o_slots st p) = BUILDING) (wire_producers p ds acc)"
  by (induction ds arbitrary: acc) (auto intro: keeps_bind keeps_node_wire [OF assms])

lemma node_at_quiet:
  assumes "node_view st' = node_view st" "run_inv st'" "node_at c K X st"
  shows "node_at c K X st'"
  using assms(3) node_view_ok [OF assms(1,2)] outer_view [OF assms(1)] by (simp add: node_at_def)

lemma node_at_error: "node_at c K X st \<Longrightarrow> node_at c K X (record_run_error r e st)"
  by (rule node_at_quiet [OF _ run_inv_error]) (auto dest: node_atD(3))

lemma record_error_slots [simp]: "o_slots (record_run_error r e st) = o_slots st" "known (record_run_error r e st) = known st"
  by (simp_all add: record_run_error_def upd_run_def known_def)

lemma runs_propagate:
  "runs_to (\<lambda>st. node_at c K X st \<and> p \<in> known st \<and> ts_state (o_slots st p) = BUILDING) (propagate_failure r p message) (\<lambda>_. node_at c K X)"
  unfolding runs_to_def
proof (intro allI impI)
  fix st res st'
  assume a: "(node_at c K X st \<and> p \<in> known st \<and> ts_state (o_slots st p) = BUILDING) \<and>
    propagate_failure r p message st = (res, st') \<and> \<not> overflow res"
  have n: "node_at c K X st" and p: "p \<in> known st" and b: "ts_state (o_slots st p) = BUILDING" using a by simp_all
  define m1 where "m1 = non_empty_or message ''producer task failed''"
  define st1 where "st1 = upd_slot p (\<lambda>s. fst (claim_task_failure s m1)) st"
  define m2 where "m2 = non_empty_or (ts_failure_message (o_slots st1 p)) ''producer task failed''"
  define st2 where "st2 = record_run_error r (RuntimeError m2) (upd_slot p (\<lambda>s. mark_group_members_skipped s m2) st1)"
  define st3 where "st3 = upd_slot p (\<lambda>s. fst (commit_failure_propagation s)) st2"
  have eq: "propagate_failure r p message st = (if snd (commit_failure_propagation (o_slots st2 p))
      then seq_act (try_consume p) (each_act try_consume (ts_fanin_producers (o_slots st2 p))) st3 else (Inr (), st3))"
    by (simp only: propagate_failure_def Let_def m1_def st1_def m2_def st2_def st3_def)
  have s1: "o_slots st1 p = (o_slots st p)\<lparr>ts_state := FAILED, ts_failure_message := m1, ts_failure_propagation_pending := True\<rparr>"
    using b by (simp add: st1_def claim_task_failure_def)
  have K: "p \<notin> K" using not_running [OF n, of p] b by simp
  have "node_at c K X st1"
    unfolding st1_def by (rule node_at_upd [OF n p]) (use K b in \<open>auto simp: claim_task_failure_def same_refs_def owned_def has_settled_def\<close>)
  then have n2: "node_at c K X st2"
    unfolding st2_def using p K by (intro node_at_error node_at_upd) (simp_all add: st1_def same_refs_def b claim_task_failure_def)
  have s2: "ts_state (o_slots st2 p) = FAILED" "ts_failure_propagation_pending (o_slots st2 p)" and k2: "known st2 = known st"
    using s1 by (simp_all add: st2_def) (simp add: st1_def)
  have "node_at c K (add_mset p (mset (ts_fanin_producers (o_slots st2 p))) + X) st3"
    unfolding st3_def by (rule node_at_upd [OF n2]) (use K s2 p k2 in \<open>auto simp: commit_failure_propagation_def same_refs_def owned_def has_settled_def\<close>)
  then show "\<exists>x. res = Inr x \<and> node_at c K X st'"
    using runs_toD [OF runs_release_task] a eq s2 by (simp add: commit_failure_propagation_def)
qed

lemma publish_exits:
  assumes n: "node_at c K X st" and p: "p \<in> known st" and b: "ts_state (o_slots st p) = BUILDING"
  shows "exits (node_at c K X) (publish_task r p acc st)"
proof -
  obtain live poisoned message where acc: "acc = (live, poisoned, message)" by (cases acc)
  show ?thesis
  proof (cases poisoned)
    case True
    obtain res st' where e: "propagate_failure r p message st = (res, st')" by (cases "propagate_failure r p message st")
    have "overflow res \<or> node_at c K X st'" using runs_toD [OF runs_propagate _ e] n p b by blast
    then show ?thesis using True e by (simp add: publish_task_def acc exits_def)
  next
    case False
    obtain s pub ready where s: "publish_slot (o_slots st p) live = (s, pub, ready)" by (cases "publish_slot (o_slots st p) live")
    have s': "pub" "s = (o_slots st p)\<lparr>ts_fanin_count := live, ts_state := (if ready then READY else PENDING)\<rparr>"
      using s b by (auto simp: publish_slot_def Let_def split: if_splits)
    let ?g = "\<lambda>r. r\<lparr>rn_pending_accepts := rn_pending_accepts r + int (group_size s)\<rparr>"
    let ?st1 = "upd_slot p (\<lambda>_. s) st" and ?st2 = "upd_run r ?g (upd_slot p (\<lambda>_. s) st)"
    have n1: "node_at c K X ?st1"
      by (rule node_at_upd [OF n p]) (use pending_failed [OF n p] not_running [OF n, of p] b in \<open>auto simp: s'(2) same_refs_def owned_def has_settled_def\<close>)
    have v: "node_view ?st2 = node_view ?st1" by (rule node_view_upd_run) simp
    have "run_inv ?st2" using node_atD(3) [OF n1] by (rule run_inv_upd) (simp add: same_run_def)
    then have n2: "node_at c K X ?st2" using node_at_quiet [OF v _ n1] by blast
    have k: "keeps (node_at c K X) (seq_act (enqueue_ready p) (modify notify_ready))"
      by (intro keeps_seq keeps_node_enqueue keeps_modify) simp
    show ?thesis
      using False s'(1) n2 exits_keeps [OF k n2] by (simp add: publish_task_def acc s Let_def)
  qed
qed

end
