(* ===== verification/Node_Safety.thy ===== *)
theory Node_Safety
  imports Ref_Safety
begin

text \<open>
  The invariant of \<open>Ref_Inv\<close> between two calls of the node, and its preservation by the calls that only keep books of
  runs, by the scopes, by the cancellation of a failed submission, by submission and by allocation. The remaining calls
  and the transition system are in \<open>Node_Calls\<close>.
\<close>

section \<open>The invariant between two calls\<close>

definition node_some :: "WorkerCompletion list \<Rightarrow> TaskSlot set \<Rightarrow> Orch \<Rightarrow> bool" where
  "node_some q K st \<longleftrightarrow> node_ok (mset (concat (o_scope st))) {#} K st \<and> o_completion_queue st = q"

definition node_inv :: "Orch \<Rightarrow> bool" where
  "node_inv st \<longleftrightarrow> distinct (map wc_task_slot (o_completion_queue st)) \<and>
     node_ok (mset (concat (o_scope st))) {#} (wc_task_slot ` set (o_completion_queue st)) st"

lemma node_some_top: "node_some q K st \<longleftrightarrow> node_top (o_scope st) q (known st) K st"
  by (auto simp: node_some_def node_top_def node_at_def outer_def)

lemma node_top_some: "node_top S q U K st \<Longrightarrow> node_some q K st"
  by (auto simp: node_some_def node_top_def node_at_def outer_def)

lemma node_inv_some: "node_inv st \<longleftrightarrow> distinct (map wc_task_slot (o_completion_queue st)) \<and>
    node_some (o_completion_queue st) (wc_task_slot ` set (o_completion_queue st)) st"
  by (simp add: node_inv_def node_some_def)

lemma keeps_some:
  assumes "\<And>q K. keeps (node_some q K) m"
  shows "keeps node_inv m"
  unfolding keeps_def
proof (intro allI impI)
  fix st res st'
  assume a: "node_inv st \<and> m st = (res, st') \<and> \<not> overflow res"
  let ?q = "o_completion_queue st" and ?K = "wc_task_slot ` set (o_completion_queue st)"
  have "node_some ?q ?K st'" using keepsD [OF assms, of ?q ?K st res st'] a by (simp add: node_inv_some)
  then show "node_inv st'" using a by (auto simp: node_inv_some node_some_def)
qed

text \<open>Calls that do only run bookkeeping.\<close>

lemma keeps_node_quiet:
  assumes "unchanged node_view m" "keeps run_inv m"
  shows "keeps (node_some q K) m"
  unfolding keeps_def
proof (intro allI impI)
  fix st res st'
  assume a: "node_some q K st \<and> m st = (res, st') \<and> \<not> overflow res"
  have v: "node_view st' = node_view st" using unchangedD [OF assms(1)] a by blast
  have "run_inv st'" using keepsD [OF assms(2)] a by (auto simp: node_some_def node_ok_def)
  then show "node_some q K st'" using node_view_ok [OF v] outer_view [OF v] a by (simp add: node_some_def outer_def)
qed

lemma node_view_more [simp]:
  "node_view (st\<lparr>o_admission_depth := a\<rparr>) = node_view st" "node_view (st\<lparr>o_pending_run_limit := b\<rparr>) = node_view st"
  "node_view (st\<lparr>o_pending_run_limit_configured := c\<rparr>) = node_view st" "node_view (st\<lparr>o_launch_depth := d\<rparr>) = node_view st"
  "node_view (st\<lparr>o_observations := e\<rparr>) = node_view st" "node_view (note_endpoint_capacity w n st) = node_view st"
  "node_view (snd (apply_admissible_depth s st)) = node_view st"
  by (simp_all add: node_view_def task_view_def unleased_def load_view_def find_run_def fun_eq_iff note_endpoint_capacity_def
      apply_admissible_depth_def Let_def)

lemma same_bookkeeping:
  "unchanged node_view (configure_pipeline_depth a b c d)" "unchanged node_view (update_admissible_depth s)"
  "unchanged node_view (close_run_submission r)" "unchanged node_view (wait_run r)" "unchanged node_view (wait_run_for r x)"
  "unchanged node_view (endpoint_ended k)"
proof -
  have u: "node_view (upd_run r (\<lambda>r. r\<lparr>rn_submission_closed := True, rn_phase := f r\<rparr>) st) = node_view st" for r f st
    by (rule node_view_upd_run) simp
  have o: "node_view (upd_run r (\<lambda>r. r\<lparr>rn_observation_requested := True\<rparr>) st) = node_view st" for r st
    by (rule node_view_upd_run) simp
  show "unchanged node_view (configure_pipeline_depth a b c d)"
    by (auto simp: unchanged_def configure_pipeline_depth_def Let_def split: sum.splits)
  show "unchanged node_view (update_admissible_depth s)"
  proof -
    have m: "unchanged node_view (bind_act refresh_leases (\<lambda>leased. seq_act (modify (\<lambda>st. if leased then notify_ready st else st)) activate_fifo_head))"
      by (intro unchanged_bind unchanged_seq same_refresh same_activate unchanged_modify) simp
    show ?thesis using m by (auto simp: unchanged_def [of _ "update_admissible_depth s"] unchanged_def [of _ "bind_act _ _"]
        update_admissible_depth_def case_prod_unfold Let_def)
  qed
  have m: "unchanged node_view (seq_act refresh_leases (seq_act (modify (\<lambda>st. notify_ready (snd (refresh_early_launch st))))
      (seq_act activate_fifo_head (seq_act (retire_execution_if_ready r) (finish_run_if_ready r)))))"
    by (intro unchanged_seq same_refresh same_activate same_finish unchanged_modify) simp
  then show "unchanged node_view (close_run_submission r)"
    by (auto simp: unchanged_def [of _ "close_run_submission r"] unchanged_def [of _ "seq_act _ _"] close_run_submission_def u Let_def split: sum.splits)
  show "unchanged node_view (wait_run r)" "unchanged node_view (wait_run_for r x)"
    by (auto simp: unchanged_def wait_run_def wait_run_for_def request_run_observation_def o Let_def split: sum.splits)
  show "unchanged node_view (endpoint_ended k)"
    unfolding endpoint_ended_def by (intro unchanged_seq same_mark_ended unchanged_modify) simp
qed

lemma view_accepts [simp]:
  "node_view (request_run_observation r st) = node_view st" "node_view (mark_task_accepted p st) = node_view st"
  "node_view (endpoint_staged p st) = node_view st"
proof -
  have o: "node_view (upd_run r (\<lambda>r. r\<lparr>rn_observation_requested := True\<rparr>) st) = node_view st" for r st
    by (rule node_view_upd_run) simp
  have a: "node_view (upd_run r (\<lambda>r. r\<lparr>rn_pending_accepts := n\<rparr>) st) = node_view st" for r n st
    by (rule node_view_upd_run) simp
  have e: "node_view (announce_early_launch st) = node_view st" for st by (simp add: announce_early_launch_def case_prod_unfold Let_def)
  have d: "node_view (decrement_run_accepts r st) = node_view st" for r
    by (auto simp: decrement_run_accepts_def a e Let_def split: option.split)
  show "node_view (request_run_observation r st) = node_view st" by (simp add: request_run_observation_def o Let_def)
  show "node_view (mark_task_accepted p st) = node_view st" "node_view (endpoint_staged p st) = node_view st"
    by (auto simp: mark_task_accepted_def endpoint_staged_def notify_run_staged_def d e split: option.split)
qed

section \<open>Scopes\<close>

lemma node_ok_scope: "node_ok X E K (st\<lparr>o_scope := S\<rparr>) = node_ok X E K st"
  by (simp add: node_ok_def refs_def slot_refs_def holders_def loads_def live_tasks_def running_def heap_ok_def known_def find_run_def)

lemma keeps_node_scope_begin: "keeps (node_some q K) scope_begin"
  by (auto simp: keeps_def scope_begin_def push_scope_def node_some_def node_ok_scope split: sum.splits if_splits)

lemma keeps_node_scope_end: "keeps (node_some q K) scope_end"
  unfolding keeps_exits
proof (intro allI impI)
  fix st
  assume n: "node_some q K st"
  show "exits (node_some q K) (scope_end st)"
  proof (cases "o_scope st = []")
    case True
    then show ?thesis using n by (simp add: scope_end_def)
  next
    case False
    let ?S = "o_scope st" and ?c = "(o_scope st, q, known st)"
    have "mset (concat ?S) = mset (last ?S) + mset (concat (butlast ?S))"
      by (subst append_butlast_last_id [OF False, symmetric]) (simp del: append_butlast_last_id)
    then have a: "node_at ?c K (mset (last ?S) + mset (concat (butlast ?S))) st" using n by (simp add: node_some_top node_top_def)
    obtain res st' where e: "each_act release_ref (last ?S) st = (res, st')" by (cases "each_act release_ref (last ?S) st")
    have r: "each_act release_ref = each_act try_consume" by (simp add: release_ref_def [abs_def])
    show ?thesis
    proof (cases "overflow res")
      case True
      then have "overflow (fst (scope_end st))" using False e by (cases res) (auto simp: scope_end_def seq_act_def bind_act_def)
      then show ?thesis by (simp add: exits_def)
    next
      case nov: False
      obtain x where "res = Inr x" "node_at ?c K (mset (concat (butlast ?S))) st'"
        using runs_toD [OF runs_release_each a _ nov, of st'] e r by auto
      then show ?thesis
        using False e by (simp add: scope_end_def seq_result modify_def node_at_def outer_def node_some_def node_ok_scope)
    qed
  qed
qed

section \<open>Cancellation\<close>

lemma seq_assoc: "seq_act (seq_act m n) k = seq_act m (seq_act n k)"
  by (rule ext) (auto simp: seq_act_def bind_act_def split: prod.splits sum.splits)

lemma seq_ok: "seq_act (ok x) m = m"
  by (rule ext) (simp add: seq_act_def bind_act_def ok_def)

lemma each_append: "each_act f (xs @ ys) = seq_act (each_act f xs) (each_act f ys)"
  by (induction xs) (simp_all add: seq_ok seq_assoc)

lemma each_pairs:
  "each_act (\<lambda>(slot, _). f slot) es = each_act f (map fst es)"
  "each_act (\<lambda>(_, ps). each_act f ps) es = each_act f (concat (map snd es))"
  by (induction es) (auto simp: each_append)

text \<open>The entries carry the producers the task has.\<close>

definition links_ok :: "(TaskSlot \<times> TaskSlot list) list \<Rightarrow> Orch \<Rightarrow> bool" where
  "links_ok es st \<longleftrightarrow> (\<forall>(p, ps) \<in> set es. p \<in> known st \<and> ts_fanin_producers (o_slots st p) = ps)"

definition producers_view :: "Orch \<Rightarrow> TaskSlot set \<times> (TaskSlot \<Rightarrow> TaskSlot list)" where
  "producers_view st = (known st, \<lambda>p. ts_fanin_producers (o_slots st p))"

lemma links_view: "producers_view st' = producers_view st \<Longrightarrow> links_ok es st' = links_ok es st"
  by (simp add: links_ok_def producers_view_def fun_eq_iff)

lemma producers_upd: "ts_fanin_producers (f (o_slots st p)) = ts_fanin_producers (o_slots st p) \<Longrightarrow>
    producers_view (upd_slot p f st) = producers_view st"
  by (auto simp: producers_view_def fun_eq_iff)

lemma runs_cancel_slot:
  "runs_to (\<lambda>st. node_at c K X st \<and> p \<in> known st \<and> producers_view st = v) (cancel_slot message p)
     (\<lambda>es st. node_at c K X st \<and> producers_view st = v \<and> links_ok es st)"
  unfolding runs_to_def
proof (intro allI impI)
  fix st res st'
  assume a: "(node_at c K X st \<and> p \<in> known st \<and> producers_view st = v) \<and> cancel_slot message p st = (res, st') \<and> \<not> overflow res"
  then have n: "node_at c K X st" and p: "p \<in> known st" by simp_all
  obtain s1 claimed where c: "claim_task_failure (o_slots st p) message = (s1, claimed)" by (cases "claim_task_failure (o_slots st p) message")
  define s2 where "s2 = (if claimed \<noteq> None \<and> claimed \<noteq> Some BUILDING then s1\<lparr>ts_failure_propagation_pending := True\<rparr> else s1)"
  have pf: "ts_failure_propagation_pending (o_slots st p) \<longrightarrow> ts_state (o_slots st p) = FAILED" using pending_failed [OF n p] by blast
  have s2: "same_refs (o_slots st p) s2 \<and> owned s2 p = owned (o_slots st p) p \<and> (p \<notin> K \<or> ts_state s2 = ts_state (o_slots st p))"
    using c pf
  proof (cases rule: claim_cases [where p = p])
    case refused
    then show ?thesis using pf by (simp add: s2_def same_refs_def)
  next
    case building
    then show ?thesis using not_running [OF n, of p] by (simp add: s2_def)
  next
    case claimed
    then have "p \<notin> K" using not_running [OF n, of p] by auto
    then show ?thesis using claimed by (auto simp: s2_def same_refs_def owned_def has_settled_def)
  qed
  have u: "node_at c K X (upd_slot p (\<lambda>_. s2) st)" "node_at c K X (upd_slot p (\<lambda>_. mark_group_members_skipped s2 message) st)"
    using s2 by (auto intro!: node_at_upd [OF n p])
  have w: "producers_view (upd_slot p (\<lambda>_. s2) st) = producers_view st"
    "producers_view (upd_slot p (\<lambda>_. mark_group_members_skipped s2 message) st) = producers_view st"
    using s2 by (auto intro!: producers_upd simp: same_refs_def)
  have "(res, st') = (if claimed = None \<and> \<not> ts_failure_propagation_pending s2 then (Inr [], upd_slot p (\<lambda>_. s2) st)
      else (Inr [(p, ts_fanin_producers s2)], upd_slot p (\<lambda>_. mark_group_members_skipped s2 message) st))"
  proof -
    have "cancel_slot message p st = (res, st')" using a by simp
    then show ?thesis
      unfolding cancel_slot_def bind_act_def slot_state_known [OF p] prod.case sum.case c Let_def s2_def [symmetric] skipped_fields by (rule sym)
  qed
  then show "\<exists>x. res = Inr x \<and> node_at c K X st' \<and> producers_view st' = v \<and> links_ok x st'"
    using a u w p by (auto simp: links_ok_def split: if_splits)
qed

lemma runs_cancel_slots:
  "runs_to (\<lambda>st. node_at c K X st \<and> set ps \<subseteq> known st \<and> producers_view st = v) (cancel_slots message ps)
     (\<lambda>es st. node_at c K X st \<and> producers_view st = v \<and> links_ok es st)"
proof (induction ps)
  case Nil
  show ?case by (simp add: runs_to_def ok_def links_ok_def)
next
  case (Cons p ps)
  show ?case
    unfolding cancel_slots.simps
  proof (rule runs_to_bind [where Q = "\<lambda>es st. node_at c K X st \<and> set ps \<subseteq> known st \<and> producers_view st = v \<and> links_ok es st"])
    show "runs_to (\<lambda>st. node_at c K X st \<and> set (p # ps) \<subseteq> known st \<and> producers_view st = v) (cancel_slot message p)
        (\<lambda>es st. node_at c K X st \<and> set ps \<subseteq> known st \<and> producers_view st = v \<and> links_ok es st)"
      unfolding runs_to_def
    proof (intro allI impI)
      fix st res st'
      assume a: "(node_at c K X st \<and> set (p # ps) \<subseteq> known st \<and> producers_view st = v) \<and> cancel_slot message p st = (res, st') \<and> \<not> overflow res"
      then obtain x where x: "res = Inr x" "node_at c K X st'" "producers_view st' = v" "links_ok x st'"
        using runs_toD [OF runs_cancel_slot, of c K X st p v message res st'] by auto
      moreover have "fst (producers_view st') = fst (producers_view st)" using x(3) a by simp
      then have "known st' = known st" by (simp add: producers_view_def)
      ultimately show "\<exists>x. res = Inr x \<and> node_at c K X st' \<and> set ps \<subseteq> known st' \<and> producers_view st' = v \<and> links_ok x st'" using a by auto
    qed
  next
    fix es
    show "runs_to (\<lambda>st. node_at c K X st \<and> set ps \<subseteq> known st \<and> producers_view st = v \<and> links_ok es st)
        (bind_act (cancel_slots message ps) (\<lambda>b. ok (es @ b))) (\<lambda>es st. node_at c K X st \<and> producers_view st = v \<and> links_ok es st)"
      unfolding runs_to_def
    proof (intro allI impI)
      fix st res st'
      assume a: "(node_at c K X st \<and> set ps \<subseteq> known st \<and> producers_view st = v \<and> links_ok es st) \<and>
        bind_act (cancel_slots message ps) (\<lambda>b. ok (es @ b)) st = (res, st') \<and> \<not> overflow res"
      obtain q t where m: "cancel_slots message ps st = (q, t)" by (cases "cancel_slots message ps st")
      then have "\<not> overflow q" using a by (cases q) (auto simp: bind_act_def)
      then obtain b where b: "q = Inr b" "node_at c K X t" "producers_view t = v" "links_ok b t" using runs_toD [OF Cons] m a by blast
      moreover have "links_ok es t" using links_view [of t st es] b(3) a by simp
      ultimately show "\<exists>x. res = Inr x \<and> node_at c K X st' \<and> producers_view st' = v \<and> links_ok x st'"
        using a m by (auto simp: bind_act_def ok_def links_ok_def)
    qed
  qed
qed

text \<open>Committing a debt turns what the failed task held into references the cancellation owes.\<close>

definition debts :: "(TaskSlot \<times> TaskSlot list) list \<Rightarrow> TaskSlot multiset" where
  "debts es = mset (map fst es) + mset (concat (map snd es))"

lemma runs_commit_debts:
  "runs_to (\<lambda>st. node_at c K X st \<and> links_ok es st) (commit_debts es) (\<lambda>owned st. node_at c K (debts owned + X) st)"
proof (induction es arbitrary: X)
  case Nil
  show ?case by (simp add: runs_to_def ok_def debts_def)
next
  case (Cons e es)
  obtain p ps where e: "e = (p, ps)" by (cases e)
  show ?case
    unfolding e commit_debts.simps
  proof (rule runs_to_slot)
    show "p \<in> known st" if "node_at c K X st \<and> links_ok ((p, ps) # es) st" for st using that by (simp add: links_ok_def)
    fix s :: TaskSlotState
    let ?f = "upd_slot p (\<lambda>s. fst (commit_failure_propagation s))"
    let ?X = "(if ts_failure_propagation_pending s then add_mset p (mset ps) else {#}) + X"
    have u: "node_at c K ?X (?f st) \<and> links_ok es (?f st)"
      if a: "(node_at c K X st \<and> links_ok ((p, ps) # es) st) \<and> o_slots st p = s" for st
    proof -
      have n: "node_at c K X st" and p: "p \<in> known st" and s: "o_slots st p = s" "ts_fanin_producers s = ps" and l: "links_ok es st"
        using a by (auto simp: links_ok_def)
      have pf: "ts_failure_propagation_pending s \<Longrightarrow> ts_state s = FAILED" using pending_failed [OF n p] s(1) by simp
      have "node_at c K ?X (?f st)"
        by (rule node_at_upd [OF n p]) (use s pf in \<open>auto simp: commit_failure_propagation_def same_refs_def owned_def has_settled_def\<close>)
      moreover have "producers_view (?f st) = producers_view st" by (rule producers_upd) (simp add: commit_failure_propagation_def)
      ultimately show ?thesis using links_view l by blast
    qed
    have r: "runs_to (\<lambda>st. node_at c K ?X st \<and> links_ok es st)
        (bind_act (commit_debts es) (\<lambda>owned. ok (if snd (commit_failure_propagation s) then (p, ps) # owned else owned)))
        (\<lambda>owned st. node_at c K (debts owned + X) st)"
      by (rule runs_to_bind [OF Cons]) (simp add: runs_to_def ok_def commit_failure_propagation_def debts_def add_ac)
    show "runs_to (\<lambda>st. (node_at c K X st \<and> links_ok ((p, ps) # es) st) \<and> o_slots st p = s)
        (seq_act (modify ?f) (bind_act (commit_debts es) (\<lambda>owned. ok (if snd (commit_failure_propagation s) then (p, ps) # owned else owned))))
        (\<lambda>owned st. node_at c K (debts owned + X) st)"
      by (rule runs_to_modify_seq [OF r]) (rule u)
  qed
qed

lemma runs_cancel_run: "runs_to (node_at c K X) (cancel_unstarted_run r message) (\<lambda>_. node_at c K X)"
  unfolding runs_to_def
proof (intro allI impI)
  fix st res st'
  assume a: "node_at c K X st \<and> cancel_unstarted_run r message st = (res, st') \<and> \<not> overflow res"
  show "\<exists>x. res = Inr x \<and> node_at c K X st'"
  proof (cases "find_run st r")
    case None
    then show ?thesis using a by (auto simp: cancel_unstarted_run_def)
  next
    case (Some run)
    have "set (rn_task_slots run) \<subseteq> known st" using a Some by (simp add: node_at_def node_ok_def loads_def)
    then have pre: "node_at c K X st \<and> set (rn_task_slots run) \<subseteq> known st \<and> producers_view st = producers_view st" using a by blast
    have "runs_to (\<lambda>st'. node_at c K X st' \<and> set (rn_task_slots run) \<subseteq> known st' \<and> producers_view st' = producers_view st)
        (bind_act (cancel_slots message (rn_task_slots run)) (\<lambda>cancelled. bind_act (commit_debts cancelled) (\<lambda>owned.
          seq_act (each_act (\<lambda>(slot, _). try_consume slot) owned) (each_act (\<lambda>(_, producers). each_act try_consume producers) owned))))
        (\<lambda>_. node_at c K X)"
    proof (rule runs_to_bind [OF runs_cancel_slots])
      fix es
      have "runs_to (node_at c K (debts owned + X)) (seq_act (each_act (\<lambda>(slot, _). try_consume slot) owned)
          (each_act (\<lambda>(_, producers). each_act try_consume producers) owned)) (\<lambda>_. node_at c K X)" for owned
        unfolding each_pairs debts_def add.assoc by (rule runs_to_seq [OF runs_release_each runs_release_each])
      note fin = runs_to_bind [OF runs_commit_debts this]
      show "runs_to (\<lambda>st'. node_at c K X st' \<and> producers_view st' = producers_view st \<and> links_ok es st') (bind_act (commit_debts es) (\<lambda>owned.
          seq_act (each_act (\<lambda>(slot, _). try_consume slot) owned) (each_act (\<lambda>(_, producers). each_act try_consume producers) owned)))
          (\<lambda>_. node_at c K X)"
        by (rule runs_to_weaken [OF fin]) auto
    qed
    from runs_toD [OF this pre] show ?thesis using a Some by (simp add: cancel_unstarted_run_def)
  qed
qed

lemma keeps_node_fail: "keeps (node_some q K) (fail_run_submission r error)"
  unfolding keeps_exits
proof (intro allI impI)
  fix st
  assume n: "node_some q K st"
  show "exits (node_some q K) (fail_run_submission r error st)"
  proof (cases "find_run st r")
    case None
    then show ?thesis using n by (simp add: fail_run_submission_def get_run_def)
  next
    case (Some run)
    define st1 where "st1 = (case error of None \<Rightarrow> st | Some e \<Rightarrow> record_run_error r e st)"
    define st2 where "st2 = (if o_building_run_id st1 = r then st1\<lparr>o_building_run_id := INVALID_RUN_ID\<rparr> else st1)"
    define st3 where "st3 = upd_run r (\<lambda>r. r\<lparr>rn_submission_failed := True, rn_submission_closed := True\<rparr>) st2"
    have inv: "run_inv st" using n by (simp add: node_some_def node_ok_def)
    have "run_inv st1" "\<exists>run'. find_run st1 r = Some run'"
      using inv Some find_run_error by (auto simp: st1_def split: option.split)
    then have i3: "run_inv st3" unfolding st3_def st2_def using fail_ok by blast
    have "node_view st3 = node_view st2" unfolding st3_def by (rule node_view_upd_run) simp
    also have "\<dots> = node_view st" by (simp add: st2_def st1_def split: option.split)
    finally have v: "node_view st3 = node_view st" .
    let ?c = "(o_scope st, q, known st)"
    have a: "node_at ?c K (mset (concat (o_scope st))) st3"
      using node_at_quiet [OF v i3] n by (simp add: node_some_top node_top_def)
    define message where "message = (case error of None \<Rightarrow> ''graph construction failed'' | Some e \<Rightarrow> what e)"
    have eq: "fail_run_submission r error st = seq_act (cancel_unstarted_run r message) (finish_run_if_ready r) st3"
      unfolding fail_run_submission_def get_run_def Some option.case sum.case Let_def st3_def st2_def st1_def message_def ..
    have "runs_to (node_at ?c K X) (seq_act (cancel_unstarted_run r message) (finish_run_if_ready r)) (\<lambda>_. node_at ?c K X)" for X
      by (rule runs_to_seq [OF runs_cancel_run]) (unfold node_at_def, rule runs_to_frame [OF runs_finish same_outer [OF same_finish(3)]])
    from runs_toD [OF this a] show ?thesis
      unfolding eq exits_def by (metis (no_types, lifting) node_top_def node_top_some prod.collapse)
  qed
qed

section \<open>Submission and allocation\<close>

lemma exits_mono: "exits I p \<Longrightarrow> (\<And>st. I st \<Longrightarrow> J st) \<Longrightarrow> exits J p"
  by (auto simp: exits_def)

lemma node_at_some: "node_at (S, q, U) K (mset (concat S)) st \<Longrightarrow> node_some q K st"
  by (rule node_top_some) (simp add: node_top_def)

text \<open>A claimed slot, charged to the innermost scope and with neutral fields written.\<close>

lemma charge_state: "o_slots (charge_scope p st) p = (o_slots st p)\<lparr>ts_fanout_total := (if scope_depth (o_scope st) > 0 then 1 else 0)\<rparr>"
  by (simp add: charge_scope_def upd_slot_def Let_def)

lemma claimed_node:
  assumes n: "node_some q K st" and run: "current_building_run st = Inr run"
    and c: "claim_slot (rn_id run) bytes members timed_out message st = (Inr (Some ar), st1)"
  obtains U l where "node_top (o_scope st) q U K st1" "ar_slot ar \<in> U" "o_slots st1 (ar_slot ar) = fresh_task (rn_id run) l" "o_scope st1 = o_scope st"
proof -
  have a: "node_at (o_scope st, q, known st) K (mset (concat (o_scope st))) st" using n by (simp add: node_some_top node_top_def)
  from claim_node [OF a run c] obtain l where
    "node_at (o_scope st, q, insert (ar_slot ar) (known st)) K (mset (concat (o_scope st))) st1" "o_slots st1 (ar_slot ar) = fresh_task (rn_id run) l" by auto
  then show thesis by (intro that [of "insert (ar_slot ar) (known st)" l]) (auto simp: node_top_def node_at_def outer_def)
qed

lemma no_claim:
  assumes "node_some q K st" "current_building_run st = Inr run"
    "claim_slot (rn_id run) bytes members timed_out message st = (res, st1)" "\<And>ar. res \<noteq> Inr (Some ar)"
  shows "st1 = st"
proof -
  have a: "node_at (o_scope st, q, known st) K (mset (concat (o_scope st))) st" using assms(1) by (simp add: node_some_top node_top_def)
  from claim_node [OF a assms(2,3)] assms(4) show ?thesis by blast
qed

lemma known_tensormap [simp]: "known (st\<lparr>o_tensormap := m\<rparr>) = known st"
  by (simp add: known_def)

lemma node_store_args:
  assumes "node_at c K X st" "p \<in> known st"
  shows "node_at c K X (store_args p rq st)" "ts_state (o_slots (store_args p rq st) p) = ts_state (o_slots st p)"
  using pending_failed [OF assms] assms
  by (auto simp: store_args_def same_refs_def Let_def intro!: node_at_neutral split: if_splits)

lemma node_infer_step:
  assumes "node_at c K X st" "p \<in> known st"
  shows "node_at c K X (snd (infer_step r p rq st))" "ts_state (o_slots (snd (infer_step r p rq st)) p) = ts_state (o_slots st p)"
    "known (snd (infer_step r p rq st)) = known st"
  using pending_failed [OF assms] assms
  by (auto simp: infer_step_def same_refs_def Let_def intro!: node_at_neutral)

lemma keeps_node_submit: "keeps (node_some q K) (submit_impl rq timed_out)"
  unfolding keeps_exits
proof (intro allI impI)
  fix st
  assume n: "node_some q K st"
  show "exits (node_some q K) (submit_impl rq timed_out st)"
  proof (cases "current_building_run st")
    case (Inr run)
    let ?cl = "claim_slot (rn_id run) 0 (length (sr_args_list rq)) timed_out ''Orchestrator: allocator shutdown'' st"
    obtain res st1 where c: "?cl = (res, st1)" by (cases ?cl)
    show ?thesis
    proof (cases "\<exists>ar. check_submit st run rq = Inr () \<and> res = Inr (Some ar)")
      case False
      then have "submit_impl rq timed_out st \<in> {(fst (submit_impl rq timed_out st), st), (fst (submit_impl rq timed_out st), st1)}"
        "check_submit st run rq = Inr () \<Longrightarrow> st1 = st" using no_claim [OF n Inr c]
        by (auto simp: submit_impl_def Inr c split: sum.split option.split)
      then show ?thesis using n False by (auto simp: submit_impl_def Inr c exits_def split: sum.splits option.splits)
    next
      case True
      then obtain ar where ar: "check_submit st run rq = Inr ()" "res = Inr (Some ar)" by blast
      let ?p = "ar_slot ar" and ?S = "register_task (ar_slot ar) (o_scope st)"
      from claimed_node [OF n Inr c [unfolded ar(2)]] obtain U l where
        top: "node_top (o_scope st) q U K st1" "?p \<in> U" "o_slots st1 ?p = fresh_task (rn_id run) l" by metis
      define st2 where "st2 = upd_slot ?p (\<lambda>s. s\<lparr>ts_worker_type := sr_worker_type rq\<rparr>) (charge_scope ?p st1)"
      define st3 where "st3 = store_args ?p rq (snd (infer_step (rn_id run) ?p rq st2))"
      have a1: "node_at (?S, q, U) K (mset (concat ?S)) (charge_scope ?p st1)"
        using charge_node [OF top(1,2)] top(3) by (simp add: node_top_def)
      then have k: "?p \<in> known (charge_scope ?p st1)" using top(2) by (simp add: node_at_def outer_def)
      have a2: "node_at (?S, q, U) K (mset (concat ?S)) st2" "?p \<in> known st2"
        unfolding st2_def using k by (auto intro!: node_at_neutral [OF a1 k] simp: same_refs_def charge_state top(3))
      note i = node_infer_step [OF a2, of "rn_id run" rq]
      have k3: "?p \<in> known (snd (infer_step (rn_id run) ?p rq st2))" using i(3) a2(2) by simp
      have a3: "node_at (?S, q, U) K (mset (concat ?S)) st3" and b3: "ts_state (o_slots st3 ?p) = BUILDING"
        using node_store_args [OF i(1) k3, of rq] i(2) by (simp_all add: st3_def st2_def charge_state top(3))
      have "exits (node_at (?S, q, U) K (mset (concat ?S)))
          (bind_act (wire_producers ?p ds acc) (\<lambda>acc. seq_act (publish_task (rn_id run) ?p acc) (ok x)) st3)" for ds acc x
      proof -
        obtain w st4 where w: "wire_producers ?p ds acc st3 = (w, st4)" by (cases "wire_producers ?p ds acc st3")
        have kw: "node_at (?S, q, U) K (mset (concat ?S)) st4 \<and> ts_state (o_slots st4 ?p) = BUILDING" if "\<not> overflow w"
          using keepsD [OF keeps_node_wire_all [OF top(2)] _ w that] a3 b3 by blast
        show ?thesis
        proof (cases w)
          case (Inl e)
          then show ?thesis using kw w by (auto simp: bind_act_def exits_def)
        next
          case (Inr acc')
          then have a4: "node_at (?S, q, U) K (mset (concat ?S)) st4" "ts_state (o_slots st4 ?p) = BUILDING" using kw by auto
          have "?p \<in> known st4" using a4(1) top(2) by (simp add: node_at_def outer_def)
          from publish_exits [OF a4(1) this a4(2), of "rn_id run" acc'] show ?thesis
            using w Inr by (auto simp: bind_act_def seq_act_def ok_def exits_def split: sum.splits prod.splits)
        qed
      qed
      then show ?thesis
        unfolding submit_impl_def Inr ar c Let_def case_prod_unfold sum.case prod.case option.case fst_conv snd_conv
          st2_def [symmetric] st3_def [symmetric]
        by (rule exits_mono) (rule node_at_some)
    qed
  qed (simp add: submit_impl_def n)
qed

lemma settle_swap:
  "upd_slot p (\<lambda>s. s\<lparr>ts_fanout_released := 1\<rparr>) (upd_slot p (\<lambda>s. s\<lparr>ts_state := COMPLETED\<rparr>) st) =
    upd_slot p (\<lambda>s. s\<lparr>ts_fanout_released := 1, ts_state := COMPLETED\<rparr>) st"
  by (cases "o_slots st p") (simp add: upd_slot_def)

lemma keeps_node_alloc: "keeps (node_some q K) (orch_alloc shape dtype identity timed_out)"
  unfolding keeps_exits
proof (intro allI impI)
  fix st
  assume n: "node_some q K st"
  show "exits (node_some q K) (orch_alloc shape dtype identity timed_out st)"
  proof (cases "current_building_run st")
    case (Inr run)
    let ?cl = "claim_slot (rn_id run) (align_up (numel_bytes shape dtype) HEAP_ALIGN) 1 timed_out ''Orchestrator::alloc: allocator shutdown'' st"
    obtain res st1 where c: "?cl = (res, st1)" by (cases ?cl)
    show ?thesis
    proof (cases "shape \<noteq> [] \<and> length shape \<le> MAX_TENSOR_DIMS \<and> (\<exists>ar. res = Inr (Some ar))")
      case False
      then show ?thesis using n no_claim [OF n Inr c] by (auto simp: orch_alloc_def Inr c [unfolded One_nat_def] exits_def split: sum.splits option.splits)
    next
      case True
      then obtain ar where ar: "shape \<noteq> []" "\<not> MAX_TENSOR_DIMS < length shape" "res = Inr (Some ar)" by auto
      let ?p = "ar_slot ar" and ?S = "register_task (ar_slot ar) (o_scope st)"
      from claimed_node [OF n Inr c [unfolded ar(3)]] obtain U l where
        top: "node_top (o_scope st) q U K st1" "?p \<in> U" "o_slots st1 ?p = fresh_task (rn_id run) l" by metis
      define st2 where "st2 = upd_slot ?p (\<lambda>s. s\<lparr>ts_fanin_count := 0, ts_fanin_released := 0\<rparr>) st1"
      define st3 where "st3 = charge_scope ?p st2"
      have k1: "?p \<in> known st1" using top(1,2) by (simp add: node_top_def node_at_def outer_def)
      have a2: "node_top (o_scope st) q U K st2"
        unfolding st2_def node_top_def by (rule node_at_neutral [OF top(1) [unfolded node_top_def] k1]) (auto simp: same_refs_def top(3))
      have a3: "node_at (?S, q, U) K (mset (concat ?S)) st3"
        using charge_node [OF a2 top(2)] top(3) by (simp add: node_top_def st3_def st2_def)
      have s3: "ts_state (o_slots st3 ?p) = BUILDING" "ts_fanin_producers (o_slots st3 ?p) = []" "ts_fanout_released (o_slots st3 ?p) = 0"
        "\<not> ts_failure_propagation_pending (o_slots st3 ?p)"
        by (simp_all add: st3_def charge_state st2_def top(3))
      have k3: "?p \<in> known st3" using a3 top(2) by (simp add: node_at_def outer_def)
      define st4 where "st4 = (if (case ar_heap_ptr ar of None \<Rightarrow> 0 | Some p \<Rightarrow> p) \<noteq> 0
        then (upd_slot ?p (\<lambda>s. s\<lparr>ts_output_keys := ts_output_keys s @ [local_host (CanonicalIdentityHash identity)]\<rparr>) st3)
          \<lparr>o_tensormap := tm_insert (o_tensormap st3) (rn_id run) (local_host (CanonicalIdentityHash identity)) whole_footprint ?p\<rparr> else st3)"
      have a4: "node_at (?S, q, U) K (mset (concat ?S)) st4"
        using a3 k3 s3(4) by (auto simp: st4_def same_refs_def intro!: node_at_neutral)
      have s4: "ts_state (o_slots st4 ?p) = BUILDING" "ts_fanin_producers (o_slots st4 ?p) = []" "ts_fanout_released (o_slots st4 ?p) = 0"
        "\<not> ts_failure_propagation_pending (o_slots st4 ?p)" and k4: "?p \<in> known st4"
        using s3 k3 by (simp_all add: st4_def)
      let ?st5 = "upd_slot ?p (\<lambda>s. s\<lparr>ts_state := COMPLETED\<rparr>) st4"
      have "node_at (?S, q, U) K (add_mset ?p (mset (concat ?S))) ?st5"
        using not_running [OF a4, of ?p] s4 by (intro node_at_upd [OF a4 k4]) (auto simp: same_refs_def owned_def has_settled_def)
      then have "node_at (?S, q, U) K (mset (concat ?S)) (upd_slot ?p (\<lambda>s. s\<lparr>ts_fanout_released := 1, ts_state := COMPLETED\<rparr>) st4)"
        unfolding node_at_def using node_release(2) [of ?p "mset (concat ?S)" "{#}" K ?st5] s4(3) settle_swap by simp
      then have "node_some q K (upd_slot ?p (\<lambda>s. s\<lparr>ts_fanout_released := 1, ts_state := COMPLETED\<rparr>) st4)" by (rule node_at_some)
      moreover have "snd (orch_alloc shape dtype identity timed_out st) = upd_slot ?p (\<lambda>s. s\<lparr>ts_fanout_released := 1, ts_state := COMPLETED\<rparr>) st4"
        using ar unfolding orch_alloc_def Inr c sum.case ar(3) Let_def st4_def st3_def st2_def by simp
      ultimately show ?thesis by (simp add: exits_def)
    qed
  qed (simp add: orch_alloc_def n)
qed

end
