(* ===== verification/Node_Calls.thy ===== *)
theory Node_Calls
  imports Node_Safety
begin

text \<open>
  The node with its tasks as a transition system: the calls of \<open>Orch_Calls\<close>, where endpoints report a completion only
  for a task that runs and has no completion queued, and the scheduler dispatches only tasks that are ready. The invariant of
  \<open>Ref_Inv\<close>, which includes the one of \<open>Run_Inv\<close>, holds in every reachable state.
\<close>

section \<open>Runs begin and are released\<close>

definition node_rest :: "WorkerCompletion list \<Rightarrow> TaskSlot set \<Rightarrow> Orch \<Rightarrow> bool" where
  "node_rest q K st \<longleftrightarrow> refs (mset (concat (o_scope st))) st \<and> loads {#} st \<and> running K st \<and> heap_ok st \<and> o_completion_queue st = q"

lemma node_some_rest: "node_some q K st \<longleftrightarrow> run_inv st \<and> node_rest q K st"
  by (auto simp: node_some_def node_rest_def node_ok_def)

lemma node_rest_view:
  assumes "node_view st' = node_view st"
  shows "node_rest q K st' = node_rest q K st"
proof -
  have "task_view st' = task_view st" using assms by (simp add: node_view_def)
  then show ?thesis
    using view_cong [of st' st] loads_cong [OF assms] outer_view [OF assms] by (simp add: node_rest_def outer_def)
qed

text \<open>A new run has no task.\<close>

lemma rest_new_run:
  assumes "node_rest q K st" "find_run st r = None" "o_runs st1 = AList.update r run (o_runs st)" "task_view st1 = task_view st"
    "o_completion_queue st1 = o_completion_queue st" "rn_active_tasks run = 0" "rn_task_slots run = []"
  shows "node_rest q K st1"
proof -
  note v = view_cong [OF assms(4)] and s = task_view_slots(2) [OF assms(4)]
  have f: "find_run st1 q = (if q = r then Some run else find_run st q)" for q
    using assms(3) by (simp add: find_run_def update_conv')
  have l: "loads {#} st" using assms(1) by (simp add: node_rest_def)
  then have "live_tasks st r = {}" using assms(2) by (auto simp: loads_def)
  then have "loads {#} st1" using l assms(6,7) by (auto simp: loads_def f v)
  then show ?thesis using assms(1,5) by (simp add: node_rest_def v s)
qed

lemma keeps_node_begin: "keeps (node_some q K) begin_run"
proof -
  have admit: "node_rest q K st'" if n: "node_some q K st" and e: "begin_run_admit st = (res, st')" "\<not> overflow res" for st res st'
  proof (cases "o_building_run_id st \<noteq> INVALID_RUN_ID \<or> o_next_run_id st = INVALID_RUN_ID \<or> o_next_run_id st = UINT64_MAX")
    case True
    then show ?thesis using n e by (auto simp: begin_run_admit_def node_some_rest split: if_splits)
  next
    case False
    let ?r = "o_next_run_id st"
    define st1 where "st1 = st\<lparr>o_next_run_id := ?r + 1, o_runs := AList.update ?r ((new_run ?r no_lease)\<lparr>rn_phase := RP_BUILDING\<rparr>) (o_runs st),
      o_run_fifo := o_run_fifo st @ [?r], o_building_run_id := ?r\<rparr>"
    have inv: "run_inv st" using n by (simp add: node_some_rest)
    have fr: "find_run st ?r = None" using begin_run_ok(1) [OF inv] False by blast
    then have f: "find_run (st\<lparr>o_next_run_id := ?r + 1\<rparr>) ?r = None" by (simp add: find_run_def)
    have eq: "seq_act activate_fifo_head (ok ?r) st1 = (res, st')"
      using e(1) False f by (simp add: begin_run_admit_def Let_def st1_def)
    have "node_rest q K st1"
    proof (rule rest_new_run [OF _ fr, where run = "(new_run ?r no_lease)\<lparr>rn_phase := RP_BUILDING\<rparr>"])
      show "node_rest q K st" using n by (simp add: node_some_rest)
    qed (simp_all add: st1_def task_view_def unleased_def new_run_def)
    moreover have u: "unchanged node_view (seq_act activate_fifo_head (ok ?r))" by (intro unchanged_seq same_activate unchanged_ok)
    ultimately show ?thesis using node_rest_view [OF unchangedD [OF u eq]] by simp
  qed
  have "node_rest q K st'" if n: "node_some q K st" and e: "begin_run st = (res, st')" "\<not> overflow res" for st res st'
  proof (cases "o_building_run_id st \<noteq> INVALID_RUN_ID \<or> \<not> fifo_has_room st")
    case True
    then show ?thesis using n e by (auto simp: begin_run_def node_some_rest split: if_splits)
  next
    case False
    obtain res1 st1 where a: "begin_run_admit st = (res1, st1)" by (cases "begin_run_admit st")
    then have "st' = st1 \<and> \<not> overflow res1" using e False by (cases res1) (auto simp: begin_run_def bind_act_def ok_def)
    then show ?thesis using admit [OF n a] by blast
  qed
  moreover have "run_inv st'" if "node_some q K st" "begin_run st = (res, st')" "\<not> overflow res" for st res st'
    using keepsD [OF keeps_begin _ that(2,3)] that(1) by (simp add: node_some_rest)
  ultimately show ?thesis unfolding keeps_def node_some_rest by blast
qed

text \<open>
  A terminal run has no unconsumed task, so its record may go. When the last run goes, every task is consumed, no scope
  holds a task, and the allocator may start over.
\<close>

lemma rest_compact:
  assumes n: "node_rest q K st" and r: "o_runs st = []" and ring: "reset_to_empty (o_ring st) = Inr ring"
  shows "node_rest q K (st\<lparr>o_ring := ring\<rparr>)"
proof -
  let ?X = "mset (concat (o_scope st))"
  have refs: "refs ?X st" and ld: "loads {#} st" using n by (simp_all add: node_rest_def)
  have "find_run st a = None" for a using r by (simp add: find_run_def)
  then have "live_tasks st a = {}" for a using ld by (auto simp: loads_def)
  then have cons: "ts_state (o_slots st p) = CONSUMED" if "p \<in> known st" for p using that unfolding live_tasks_def by blast
  have "?X = {#}"
  proof (rule ccontr)
    assume "?X \<noteq> {#}"
    then obtain p where p: "p \<in># ?X" by blast
    then have "p \<in> known st" using refs by (auto simp: refs_def)
    then have "slot_refs ?X st p" "ts_state (o_slots st p) = CONSUMED" using refs cons by (auto simp: refs_def)
    then show False using p by (auto simp: slot_refs_def Let_def)
  qed
  moreover have "K = {}" using n cons by (auto simp: node_rest_def running_def)
  moreover have k: "known (st\<lparr>o_ring := ring\<rparr>) = {}" using ring by (simp add: known_def reset_drained)
  moreover have "live_ring ring"
  proof -
    obtain slabs where w: "reachable ring_start ring_step (ring_at_rest (o_ring st) slabs)"
      using n by (auto simp: node_rest_def heap_ok_def live_ring_def)
    have "ring_step\<^sup>*\<^sup>* (ring_at_rest (o_ring st) slabs) (ring_at_rest ring (map (\<lambda>_. []) slabs))"
      using reset_steps [OF ring_sys.reachable_inv [OF w]] ring by simp
    then show ?thesis using reachable_steps [OF w] by (auto simp: live_ring_def)
  qed
  ultimately show ?thesis
    using n r by (auto simp: node_rest_def refs_def loads_def live_tasks_def find_run_def running_def heap_ok_def)
qed

lemma keeps_node_release: "keeps (node_some q K) (release_run r)"
proof -
  have "node_rest q K st'" if n: "node_some q K st" and e: "release_run r st = (res, st')" for st res st'
  proof (cases "\<exists>run. find_run st r = Some run \<and> is_terminal (rn_phase run)")
    case False
    then show ?thesis using n e by (auto simp: release_run_def node_some_rest split: option.splits if_splits)
  next
    case True
    then obtain run where run: "find_run st r = Some run" "is_terminal (rn_phase run)" by blast
    let ?st = "st\<lparr>o_runs := AList.delete r (o_runs st)\<rparr>"
    have n': "run_inv st" "node_rest q K st" using n by (simp_all add: node_some_rest)
    have ld: "loads {#} st" using n'(2) by (simp add: node_rest_def)
    have "rn_active_tasks run = 0" using n'(1) run by (simp add: run_inv_def runs_ok_def phases_ok_def run_ok_def)
    moreover have "finite (live_tasks st r)" by (rule finite_subset [OF _ finite_known [of st]]) (auto simp: live_tasks_def)
    ultimately have z: "live_tasks st r = {}" using ld run(1) by (auto simp: loads_def)
    have v: "task_view ?st = task_view st" by (simp add: task_view_def unleased_def)
    have f: "find_run ?st a = (if a = r then None else find_run st a)" for a by (simp add: find_run_def delete_conv')
    have "loads {#} ?st" using ld z by (auto simp: loads_def f view_cong [OF v])
    then have n1: "node_rest q K ?st" using n'(2) by (simp add: node_rest_def view_cong [OF v])
    have "st' = ?st \<or> (\<exists>ring. o_runs ?st = [] \<and> reset_to_empty (o_ring ?st) = Inr ring \<and> st' = ?st\<lparr>o_ring := ring\<rparr>)"
      using e run by (auto simp: release_run_def compact_if_quiescent_def quiescent_def split: if_splits sum.splits)
    then show ?thesis using n1 rest_compact [OF n1] by blast
  qed
  moreover have "run_inv st'" if "node_some q K st" "release_run r st = (res, st')" "\<not> overflow res" for st res st'
    using keepsD [OF keeps_release_run _ that(2,3)] that(1) by (simp add: node_some_rest)
  ultimately show ?thesis unfolding keeps_def node_some_rest by blast
qed

section \<open>Reports of the endpoints\<close>

definition ref_view :: "TaskSlotState \<Rightarrow> int \<times> int \<times> TaskSlot list \<times> TaskSlot list \<times> RunId \<times> TaskState \<times> bool" where
  "ref_view s = (ts_fanout_released s, ts_fanout_total s, ts_fanin_producers s, ts_fanout_consumers s, ts_run_id s, ts_state s,
     ts_failure_propagation_pending s)"

lemma ref_view_group [simp]:
  "ref_view (commit_group_vectors s g) = ref_view s" "ref_view (record_member s i out m) = ref_view s"
  "ref_view (skip_after_failure s b) = ref_view s" "ref_view (s\<lparr>ts_group_first_failure_index := a\<rparr>) = ref_view s"
  "ref_view (s\<lparr>ts_group_first_failure_message := m\<rparr>) = ref_view s" "ref_view (s\<lparr>ts_group_failed := b\<rparr>) = ref_view s"
  by (simp_all add: ref_view_def commit_group_vectors_def record_member_def skip_after_failure_def case_prod_unfold Let_def split: option.split)

lemma group_done_view: "ref_view (fst (group_member_done s k)) = ref_view s"
  unfolding group_member_done_def Let_def by (simp split: if_split)

lemma group_done_slot: "snd (group_member_done s k) = Some t \<Longrightarrow> wc_task_slot t = wc_task_slot k"
proof -
  have "wc_task_slot (group_verdict s c) = wc_task_slot c" for s c by (simp add: group_verdict_def Let_def)
  then have "case snd (group_member_done s k) of None \<Rightarrow> True | Some t \<Rightarrow> wc_task_slot t = wc_task_slot k"
    unfolding group_member_done_def Let_def by (simp split: if_split)
  then show "snd (group_member_done s k) = Some t \<Longrightarrow> wc_task_slot t = wc_task_slot k" by simp
qed

lemma node_ref_view:
  assumes n: "node_at c K X st" and p: "p \<in> known st" and v: "ref_view s = ref_view (o_slots st p)"
  shows "node_at c K X (upd_slot p (\<lambda>_. s) st)"
  by (rule node_at_neutral [OF n p]) (use v pending_failed [OF n p] in \<open>simp_all add: ref_view_def same_refs_def\<close>)

text \<open>The queue after a report: unchanged, or one completion longer.\<close>

definition reported :: "WorkerCompletion list \<Rightarrow> TaskSlot set \<Rightarrow> TaskSlot \<Rightarrow> Orch \<Rightarrow> bool" where
  "reported q K p st \<longleftrightarrow> node_some q K st \<or> (\<exists>k. wc_task_slot k = p \<and> node_some (q @ [k]) (insert p K) st)"

lemma node_some_quiet:
  assumes "node_view st' = node_view st" "run_inv st'" "node_some q K st"
  shows "node_some q K st'"
  using assms node_rest_view [OF assms(1)] by (simp add: node_some_rest)

lemma node_queued:
  assumes "node_some q K st" "wc_task_slot k \<in> known st" "ts_state (o_slots st (wc_task_slot k)) = RUNNING"
  shows "node_some (q @ [k]) (insert (wc_task_slot k) K) (queue_completion k st)"
proof -
  let ?st = "queue_completion k st"
  have t: "task_view ?st = task_view st" by (simp add: queue_completion_def task_view_def unleased_def)
  have f: "find_run ?st r = find_run st r" for r by (simp add: queue_completion_def find_run_def)
  note v = view_cong [OF t] and s = task_view_slots(2) [OF t]
  have "running (insert (wc_task_slot k) K) st" using assms by (simp add: node_some_rest node_rest_def running_def)
  moreover have "o_completion_queue ?st = q @ [k]" using assms(1) by (simp add: queue_completion_def node_some_def)
  ultimately show ?thesis using assms(1) by (simp add: node_some_rest node_rest_def loads_def f v s)
qed

lemma node_some_upd:
  assumes "node_some q K st" "p \<in> known st" "ref_view s = ref_view (o_slots st p)"
  shows "node_some q K (upd_slot p (\<lambda>_. s) st)"
  using node_ref_view [of "(o_scope st, q, known st)" K "mset (concat (o_scope st))" st p s] assms
  by (auto simp: node_some_top node_top_def intro: node_at_some)

text \<open>A report for a task that runs.\<close>

definition run_task :: "TaskSlot \<Rightarrow> Orch \<Rightarrow> bool" where
  "run_task p st \<longleftrightarrow> p \<in> known st \<and> ts_state (o_slots st p) = RUNNING"

lemma run_task_view: "node_view st' = node_view st \<Longrightarrow> run_task p st' = run_task p st"
  using view_cong(1) [of st' st] task_view_slots(3) [of st' st p] by (simp add: run_task_def node_view_def)

text \<open>The task runs, and its references are as given.\<close>

definition node_runs :: "WorkerCompletion list \<Rightarrow> TaskSlot set \<Rightarrow> TaskSlot \<Rightarrow> TaskSlotState \<Rightarrow> Orch \<Rightarrow> bool" where
  "node_runs q K p s st \<longleftrightarrow> node_some q K st \<and> run_task p st \<and> ref_view (o_slots st p) = ref_view s"

lemma node_runs_error: "node_runs q K p s st \<Longrightarrow> node_runs q K p s (record_run_error r e st)"
  using node_some_quiet [of "record_run_error r e st" st q K] run_task_view [of "record_run_error r e st" st p]
  by (simp add: node_runs_def node_some_rest)

lemma node_runs_upd:
  assumes "node_runs q K p s st" "ref_view s' = ref_view s"
  shows "node_runs q K p s (upd_slot p (\<lambda>_. s') st)"
proof -
  have "ts_state s' = RUNNING" using assms by (auto simp: node_runs_def run_task_def ref_view_def)
  then show ?thesis using assms node_some_upd [of q K st p s'] by (simp add: node_runs_def run_task_def)
qed

lemma runs_report_if: "wc_task_slot k = p \<Longrightarrow> runs_to (node_runs q K p s) (report_if b k) (\<lambda>_. node_runs q K p s)"
proof -
  assume k: "wc_task_slot k = p"
  have "p \<in> known st" if "node_runs q K p s st" for st using that by (simp add: node_runs_def run_task_def)
  then show ?thesis
    by (auto simp: runs_to_def report_if_def report_task_error_def bind_act_def slot_state_known k modify_def ok_def node_runs_error)
qed

lemma runs_queue: "wc_task_slot k = p \<Longrightarrow> runs_to (node_runs q K p s) (modify (queue_completion k)) (\<lambda>_. reported q K p)"
  using node_queued by (intro runs_to_modify) (auto simp: reported_def node_runs_def run_task_def)

lemma runs_worker_done:
  assumes "p = wc_task_slot k"
  shows "runs_to (\<lambda>st. node_some q K st \<and> run_task p st) (worker_done k) (\<lambda>_. reported q K p)"
  unfolding worker_done_def Let_def assms [symmetric]
proof (rule runs_to_slot)
  show "p \<in> known st" if "node_some q K st \<and> run_task p st" for st using that by (simp add: run_task_def)
  fix s :: TaskSlotState
  let ?cap = "note_endpoint_capacity (wc_worker_id k) (wc_admissible_run_resource_sets k)" and ?f = "is_failure (wc_outcome k)"
  have cap: "node_runs q K p s (?cap st)" if "(node_some q K st \<and> run_task p st) \<and> o_slots st p = s" for st
  proof -
    have "o_slots (?cap st) = o_slots st" by (simp add: note_endpoint_capacity_def)
    then show ?thesis
      using that node_some_quiet [of "?cap st" st q K] run_task_view [of "?cap st" st p] by (simp add: node_runs_def node_some_rest)
  qed
  have grp: "runs_to (node_runs q K p s) (case group_member_done s k of
        (s', None) \<Rightarrow> modify (\<lambda>st. notify_ready (upd_slot p (\<lambda>_. s') st))
      | (s', Some t) \<Rightarrow> seq_act (modify (upd_slot p (\<lambda>_. s')))
          (seq_act (report_if (\<not> ?f \<and> is_failure (wc_outcome t)) t) (modify (queue_completion t)))) (\<lambda>_. reported q K p)"
  proof (cases "group_member_done s k")
    case (Pair s' t)
    have v: "ref_view s' = ref_view s" using group_done_view [of s k] Pair by simp
    show ?thesis
    proof (cases t)
      case None
      have "reported q K p (notify_ready (upd_slot p (\<lambda>_. s') st))" if "node_runs q K p s st" for st
        using node_runs_upd [OF that v] node_some_quiet [of "notify_ready (upd_slot p (\<lambda>_. s') st)" "upd_slot p (\<lambda>_. s') st" q K]
        by (simp add: reported_def node_runs_def node_some_rest)
      then show ?thesis using Pair None by (simp add: runs_to_modify)
    next
      case (Some t)
      then have "wc_task_slot t = p" using group_done_slot [of s k t] Pair assms by simp
      then have "runs_to (node_runs q K p s) (seq_act (modify (upd_slot p (\<lambda>_. s')))
          (seq_act (report_if (\<not> ?f \<and> is_failure (wc_outcome t)) t) (modify (queue_completion t)))) (\<lambda>_. reported q K p)"
        by (intro runs_to_modify_seq [OF runs_to_seq [OF runs_report_if runs_queue]]) (auto intro: node_runs_upd simp: v)
      then show ?thesis using Pair Some by simp
    qed
  qed
  have fin: "runs_to (node_runs q K p s) (if ts_is_group s then (case group_member_done s k of
        (s', None) \<Rightarrow> modify (\<lambda>st. notify_ready (upd_slot p (\<lambda>_. s') st))
      | (s', Some t) \<Rightarrow> seq_act (modify (upd_slot p (\<lambda>_. s')))
          (seq_act (report_if (\<not> ?f \<and> is_failure (wc_outcome t)) t) (modify (queue_completion t))))
      else modify (queue_completion k)) (\<lambda>_. reported q K p)"
    using grp runs_queue [OF assms [symmetric]] by simp
  show "runs_to (\<lambda>st. (node_some q K st \<and> run_task p st) \<and> o_slots st p = s) (seq_act (modify ?cap) (seq_act (report_if ?f k)
      (if ts_is_group s then (case group_member_done s k of
        (s', None) \<Rightarrow> modify (\<lambda>st. notify_ready (upd_slot p (\<lambda>_. s') st))
      | (s', Some t) \<Rightarrow> seq_act (modify (upd_slot p (\<lambda>_. s')))
          (seq_act (report_if (\<not> ?f \<and> is_failure (wc_outcome t)) t) (modify (queue_completion t))))
      else modify (queue_completion k)))) (\<lambda>_. reported q K p)"
    by (rule runs_to_modify_seq [OF runs_to_seq [OF runs_report_if [OF assms [symmetric]] fin]]) (rule cap)
qed

lemma runs_endpoint_complete:
  assumes "p = wc_task_slot k"
  shows "runs_to (\<lambda>st. node_some q K st \<and> run_task p st) (endpoint_complete k) (\<lambda>_. reported q K p)"
proof -
  let ?P = "\<lambda>st. node_some q K st \<and> run_task p st"
  have cap: "?P (note_endpoint_capacity w n st)" if "?P st" for w n st
    using that node_some_quiet [of "note_endpoint_capacity w n st" st q K] run_task_view [of "note_endpoint_capacity w n st" st p]
    by (simp add: node_some_rest)
  have m: "runs_to ?P (mark_task_ended p i) (\<lambda>_. ?P)" for i
    unfolding runs_to_def
  proof (intro allI impI)
    fix st res st'
    assume a: "?P st \<and> mark_task_ended p i st = (res, st') \<and> \<not> overflow res"
    then obtain x where "res = Inr x" "run_inv st'" using runs_toD [OF returns_mark_ended, of st p i res st'] by (auto simp: node_some_rest)
    moreover have v: "node_view st' = node_view st" using unchangedD [OF same_mark_ended] a by blast
    ultimately show "\<exists>x. res = Inr x \<and> ?P st'" using a node_some_quiet [OF v] run_task_view [OF v] by auto
  qed
  show ?thesis
    unfolding endpoint_complete_def assms [symmetric]
    by (rule runs_to_modify_seq [OF runs_to_seq [OF m runs_worker_done [OF assms]]]) (rule cap)
qed

section \<open>Completions are drained\<close>

lemma drain_node:
  assumes n: "node_inv st" and e: "drain_one st = (Inr x, st')"
  shows "node_inv st'"
proof (cases "o_completion_queue st")
  case Nil
  then show ?thesis using n e by (simp add: drain_one_def)
next
  case (Cons k rest)
  let ?p = "wc_task_slot k" and ?K = "wc_task_slot ` set rest" and ?st = "st\<lparr>o_completion_queue := rest\<rparr>"
  let ?c = "(o_scope st, rest, known st)" and ?X = "mset (concat (o_scope st))"
  have d: "?p \<notin> ?K" "distinct (map wc_task_slot rest)" using n Cons by (auto simp: node_inv_some)
  have s: "node_some (k # rest) (insert ?p ?K) st" using n Cons by (simp add: node_inv_some)
  then have r: "?p \<in> known st" "ts_state (o_slots st ?p) = RUNNING" by (simp_all add: node_some_rest node_rest_def running_def)
  have t: "task_view ?st = task_view st" by (simp add: task_view_def unleased_def)
  have f: "find_run ?st r = find_run st r" for r by (simp add: find_run_def)
  have "run_inv ?st" using s run_inv_cong [of ?st st] by (simp add: node_some_rest f)
  then have at: "node_at ?c ?K ?X ?st"
    using s by (simp add: node_some_rest node_rest_def node_at_def node_ok_def outer_def running_def loads_def f view_cong [OF t])
  have "on_task_complete k ?st = (Inr x, st')" using e Cons by (simp add: drain_one_def)
  from leads_toD [OF leads_task_complete [OF refl d(1)] _ this, of ?c ?X] at r have "node_at ?c ?K ?X st'" by simp
  then show ?thesis using d(2) by (auto simp: node_inv_def node_at_def outer_def)
qed

section \<open>Tasks are dispatched\<close>

text \<open>
  A dispatch pass takes tasks out of the ready queues and claims them one by one; a claim that succeeds makes the task
  \<open>RUNNING\<close>, and what else the pass writes to the slot is not about references.
\<close>

lemma claim_node_inv:
  assumes n: "node_inv st" and p: "p \<in> known st" and c: "claim_for_dispatch (o_slots st p) = (s, claimed)" and v: "ref_view s' = ref_view s"
  shows "node_inv (upd_slot p (\<lambda>_. s') st)"
proof -
  let ?q = "o_completion_queue st" and ?c = "(o_scope st, o_completion_queue st, known st)" and ?X = "mset (concat (o_scope st))"
  let ?K = "wc_task_slot ` set ?q" and ?s = "o_slots st p"
  have at: "node_at ?c ?K ?X st" using n by (simp add: node_inv_def node_at_def outer_def)
  have pend: "ts_state ?s = READY \<Longrightarrow> \<not> ts_failure_propagation_pending ?s" using pending_failed [OF at p] by auto
  have k: "ts_state ?s = READY \<Longrightarrow> p \<notin> ?K" using at by (auto simp: node_at_def node_ok_def running_def)
  have "node_at ?c ?K ?X (upd_slot p (\<lambda>_. s') st)"
  proof (rule node_at_upd [OF at p])
    show "same_refs ?s s'"
      using c v pend pending_failed [OF at p] by (auto simp: claim_for_dispatch_def ref_view_def same_refs_def split: if_splits)
    show "owned s' p + ?X = owned ?s p + ?X"
      using c v by (auto simp: claim_for_dispatch_def ref_view_def owned_def has_settled_def split: if_splits)
    show "p \<notin> ?K \<or> ts_state s' = ts_state ?s"
      using c v k by (auto simp: claim_for_dispatch_def ref_view_def split: if_splits)
  qed
  then show ?thesis using n by (auto simp: node_inv_def node_at_def outer_def)
qed

lemma ready_queues_inv: "node_inv (st\<lparr>o_ready_sub_queue := subs, o_ready_next_level_queues := queues\<rparr>) = node_inv st"
proof -
  let ?st = "st\<lparr>o_ready_sub_queue := subs, o_ready_next_level_queues := queues\<rparr>"
  have v: "node_view ?st = node_view st" by (simp add: node_view_def task_view_def unleased_def load_view_def find_run_def fun_eq_iff)
  have "run_inv ?st = run_inv st" using run_inv_cong [of ?st st] by (simp add: find_run_def)
  then show ?thesis using node_rest_view [OF v] by (simp add: node_inv_some node_some_rest)
qed

section \<open>The node\<close>

text \<open>
  What the endpoints and the completion loop rely on: a completion is reported for a task that runs and has none
  queued, which is what the lanes of \<open>Worker_Lanes\<close> deliver, and the loop ends with the first exception it meets.
\<close>

fun expected :: "OrchCall \<Rightarrow> exn + unit \<Rightarrow> Orch \<Rightarrow> bool" where
  "expected (EndpointComplete k) res st \<longleftrightarrow> run_task (wc_task_slot k) st \<and> wc_task_slot k \<notin> wc_task_slot ` set (o_completion_queue st)"
| "expected DrainCompletion res st \<longleftrightarrow> res = Inr ()"
| "expected call res st \<longleftrightarrow> True"

inductive node_step :: "Orch \<Rightarrow> Orch \<Rightarrow> bool" where
  performed: "perform call st = (res, st') \<Longrightarrow> \<not> overflow res \<Longrightarrow> expected call res st \<Longrightarrow> node_step st st'"
| claimed: "p \<in> known st \<Longrightarrow> claim_for_dispatch (o_slots st p) = (s, c) \<Longrightarrow> ref_view s' = ref_view s \<Longrightarrow>
    node_step st (upd_slot p (\<lambda>_. s') (st\<lparr>o_ready_sub_queue := subs, o_ready_next_level_queues := queues\<rparr>))"
| requeued: "node_step st (st\<lparr>o_ready_sub_queue := subs, o_ready_next_level_queues := queues\<rparr>)"

definition node_start :: "Orch \<Rightarrow> bool" where
  "node_start st \<longleftrightarrow> (\<exists>world queues manager. ring_start world \<and> st = new_orch (rw_ring world) queues manager)"

lemma node_call:
  assumes n: "node_inv st" and e: "perform call st = (res, st')" "\<not> overflow res" "expected call res st"
  shows "node_inv st'"
proof -
  have quiet: "keeps node_inv m" if "unchanged node_view m" "keeps run_inv m" for m :: "(Orch, 'b) action"
    by (rule keeps_some) (rule keeps_node_quiet [OF that])
  note seen = quiet [OF unchanged_modify, OF view_accepts(1)] quiet [OF unchanged_modify, OF view_accepts(2)]
    quiet [OF unchanged_modify, OF view_accepts(3)]
  have k: "keeps node_inv (perform call)" if "\<forall>k. call \<noteq> EndpointComplete k" "call \<noteq> DrainCompletion"
    using that keeps_perform [of call]
    by (cases call) (auto intro!: keeps_discard intro: quiet seen simp: same_bookkeeping keeps_some keeps_node_begin keeps_node_fail keeps_node_release
        keeps_node_scope_begin keeps_node_scope_end keeps_node_alloc keeps_node_submit)
  consider (complete) k where "call = EndpointComplete k" | (drain) "call = DrainCompletion"
    | (other) "\<forall>k. call \<noteq> EndpointComplete k" "call \<noteq> DrainCompletion" by (cases call) auto
  then show ?thesis
  proof cases
    case complete
    let ?q = "o_completion_queue st" and ?p = "wc_task_slot k"
    let ?K = "wc_task_slot ` set ?q"
    have "node_some ?q ?K st \<and> run_task ?p st" "endpoint_complete k st = (res, st')" using n e complete by (simp_all add: node_inv_some)
    from runs_toD [OF runs_endpoint_complete [OF refl] this e(2)] have "reported ?q ?K ?p st'" by blast
    moreover have "distinct (map wc_task_slot ?q)" "?p \<notin> ?K" using n e(3) complete by (simp_all add: node_inv_some)
    moreover have "o_completion_queue st' = q" if "node_some q K st'" for q K using that by (simp add: node_some_def)
    ultimately show ?thesis by (auto simp: reported_def node_inv_some)
  next
    case drain
    then show ?thesis using drain_node [OF n] e by simp
  next
    case other
    then show ?thesis using keepsD [OF k] n e by blast
  qed
qed

lemma new_node_inv: "node_start st \<Longrightarrow> node_inv st"
proof -
  assume "node_start st"
  then obtain world queues manager where w: "ring_start world" and st: "st = new_orch (rw_ring world) queues manager"
    by (auto simp: node_start_def)
  have "rg_slot_states (rw_ring world) = []"
    using w by (auto simp: ring_start_def ring_init_def empty_ring_def Let_def split: if_splits option.splits dest!: sym [of _ "rw_ring world"])
  then have k: "known st = {}" by (simp add: st known_def new_orch_def)
  have "rw_pending world = []" "rw_releasing world = []" "rw_reset world = NoReset" using w by (auto simp: ring_start_def)
  then have "live_ring (o_ring st)"
    using reachable_start [of ring_start world ring_step] w unfolding live_ring_def by (cases world) (auto simp: st new_orch_def)
  then have "heap_ok st" using k by (simp add: heap_ok_def)
  moreover have "find_run st r = None" for r by (simp add: st new_orch_def find_run_def)
  ultimately show "node_inv st"
    using k new_orch_inv [of "rw_ring world" queues manager, folded st]
    by (auto simp: node_inv_def node_ok_def refs_def loads_def live_tasks_def running_def st new_orch_def)
qed

interpretation node_sys: invariant_system node_start node_step node_inv
proof
  show "node_inv st" if "node_start st" for st by (rule new_node_inv [OF that])
  show "node_inv st'" if "node_inv st" "node_step st st'" for st st'
    using that(2,1)
  proof cases
    case (performed call res)
    then show ?thesis using node_call that(1) by blast
  next
    case (claimed p s c s' queues subs)
    let ?st = "st\<lparr>o_ready_sub_queue := subs, o_ready_next_level_queues := queues\<rparr>"
    have "p \<in> known ?st" "claim_for_dispatch (o_slots ?st p) = (s, c)" using claimed(2,3) by (simp_all add: known_def)
    then show ?thesis using claim_node_inv [of ?st p s c s'] ready_queues_inv that(1) claimed(1,4) by blast
  next
    case (requeued queues subs)
    then show ?thesis using ready_queues_inv that(1) by simp
  qed
qed

lemma node_step_orch: "node_step st st' \<Longrightarrow> orch_step st st'"
proof (induction rule: node_step.induct)
  case (performed call st res st')
  then show ?case by (simp add: orch_step.called)
next
  case (claimed p st s c s' queues subs)
  have "upd_slot p (\<lambda>_. s') (st\<lparr>o_ready_sub_queue := subs, o_ready_next_level_queues := queues\<rparr>) =
    st\<lparr>o_slots := (o_slots st)(p := s'), o_ready_sub_queue := subs, o_ready_next_level_queues := queues\<rparr>"
    by (simp add: upd_slot_def)
  then show ?case by (metis orch_step.dispatched)
next
  case (requeued st queues subs)
  have "st\<lparr>o_ready_sub_queue := subs, o_ready_next_level_queues := queues\<rparr> =
    st\<lparr>o_slots := o_slots st, o_ready_sub_queue := subs, o_ready_next_level_queues := queues\<rparr>" by simp
  then show ?case by (metis orch_step.dispatched)
qed

end
