(* ===== verification/Node_Sample.thy ===== *)
theory Node_Sample
  imports Node_Calls
begin

text \<open>
  A node with two buffers, a task that reads the first one and a task that waits for that task, all in an open scope; then the
  scope is closed and the submission of the run fails. It is evaluated once here, for the theorems about reachable nodes.
  Function updates are evaluated only where they are applied.
\<close>

declare fun_upd_apply [code]

fun perform_node :: "OrchCall list \<Rightarrow> Orch \<Rightarrow> Orch option" where
  "perform_node [] st = Some st"
| "perform_node (call # calls) st = (case perform call st of (res, st') \<Rightarrow>
     if overflow res \<or> \<not> expected call res st then None else perform_node calls st')"

lemma perform_node_steps: "perform_node calls st = Some st' \<Longrightarrow> node_step\<^sup>*\<^sup>* st st'"
proof (induction calls arbitrary: st)
  case (Cons call calls)
  obtain res st1 where p: "perform call st = (res, st1)" by (cases "perform call st")
  then have "node_step st st1" "perform_node calls st1 = Some st'" using Cons(2) by (auto split: if_splits intro: performed)
  then show ?case using Cons(1) by (meson converse_rtranclp_into_rtranclp)
qed simp

definition buffer_identity :: "u64 \<Rightarrow> CanonicalIdentity" where
  "buffer_identity n = \<lparr>owner_instance_id = [], ci_buffer_id = n, ci_generation = 0, ci_pad = []\<rparr>"

definition waiting_request :: "TaskSlot \<Rightarrow> SubmitRequest" where
  "waiting_request p = sample_request\<lparr>sr_args_list := [add_dep empty_args \<lparr>th_run_id = 1, th_task_slot = p\<rparr>]\<rparr>"

definition buffer_calls :: "OrchCall list" where
  "buffer_calls = [BeginRun, ScopeBegin, Alloc [256] 0 (buffer_identity 1) False, Alloc [512] 0 (buffer_identity 2) False,
     Submit (waiting_request 0) False, Submit (waiting_request 2) False]"

definition tasks_of :: "Orch \<Rightarrow> nat \<times> (TaskState \<times> TaskSlot list) list \<times> TaskSlot list list \<times> (RunId \<times> RunPhase) list" where
  "tasks_of st = (length (rg_slot_states (o_ring st)),
     map (\<lambda>p. (ts_state (o_slots st p), ts_fanin_producers (o_slots st p))) [0, 1, 2, 3],
     o_scope st, map (\<lambda>(r, run). (r, rn_phase run)) (o_runs st))"

lemma sample_node_view:
  "case perform_node buffer_calls (new_orch sample_ring None None) of
     None \<Rightarrow> False
   | Some st \<Rightarrow>
       tasks_of st = (4, [(COMPLETED, []), (COMPLETED, []), (READY, [0]), (PENDING, [2])], [[0, 1, 2, 3]], [(1, RP_EXECUTING)]) \<and>
       map rs_ring_idx (rg_slot_states (o_ring st)) = [0, 0, 0, 0] \<and>
       map (\<lambda>p. ts_run_id (o_slots st p)) [0, 1, 2, 3] = [1, 1, 1, 1] \<and>
       fst (poison_tasks ''boom'' [2] st) = Inr () \<and>
       (case perform_node [ScopeEnd, FailRunSubmission 1 None] st of
          None \<Rightarrow> False
        | Some st \<Rightarrow>
            tasks_of st = (4, [(CONSUMED, []), (CONSUMED, []), (CONSUMED, [0]), (CONSUMED, [2])], [], [(1, RP_FAILED)]))"
  by code_simp

definition sample_node :: Orch where
  "sample_node = (case perform_node buffer_calls (new_orch sample_ring None None) of
     None \<Rightarrow> new_orch sample_ring None None | Some st \<Rightarrow> st)"

definition failed_node :: Orch where
  "failed_node = (case perform_node [ScopeEnd, FailRunSubmission 1 None] sample_node of None \<Rightarrow> sample_node | Some st \<Rightarrow> st)"

lemma perform_node_sample: "perform_node buffer_calls (new_orch sample_ring None None) = Some sample_node"
  using sample_node_view by (simp add: sample_node_def split: option.splits)

lemma perform_node_failed: "perform_node [ScopeEnd, FailRunSubmission 1 None] sample_node = Some failed_node"
  using sample_node_view unfolding perform_node_sample failed_node_def by (simp split: option.splits)

lemma sample_node_reachable: "reachable node_start node_step sample_node" "reachable node_start node_step failed_node"
proof -
  have "node_start (new_orch sample_ring None None)"
    using sample_start unfolding node_start_def by (intro exI [of _ sample_world]) (auto simp: sample_world_def)
  then show 1: "reachable node_start node_step sample_node"
    using reachable_steps [OF reachable_start perform_node_steps [OF perform_node_sample]] by blast
  show "reachable node_start node_step failed_node"
    using reachable_steps [OF 1 perform_node_steps [OF perform_node_failed]] .
qed

lemma sample_node_tasks:
  "known sample_node = {0, 1, 2, 3}" "o_scope sample_node = [[0, 1, 2, 3]]"
  "ts_state (o_slots sample_node 0) = COMPLETED" "ts_state (o_slots sample_node 1) = COMPLETED"
  "ts_state (o_slots sample_node 2) = READY" "ts_state (o_slots sample_node 3) = PENDING"
  "ts_fanin_producers (o_slots sample_node 2) = [0]" "ts_fanin_producers (o_slots sample_node 3) = [2]"
  "rs_ring_idx (rg_slot_states (o_ring sample_node) ! 0) = 0" "rs_ring_idx (rg_slot_states (o_ring sample_node) ! 1) = 0"
  "map (\<lambda>p. ts_run_id (o_slots sample_node p)) [0, 1, 2, 3] = [1, 1, 1, 1]" "fst (poison_tasks ''boom'' [2] sample_node) = Inr ()"
  using sample_node_view unfolding perform_node_sample
  by (auto simp: tasks_of_def known_def map_eq_Cons_conv atLeastLessThan_def)

lemma failed_node_tasks:
  "known failed_node = {0, 1, 2, 3}" "\<exists>run. find_run failed_node 1 = Some run \<and> rn_phase run = RP_FAILED"
proof -
  have v: "tasks_of failed_node = (4, [(CONSUMED, []), (CONSUMED, []), (CONSUMED, [0]), (CONSUMED, [2])], [], [(1, RP_FAILED)])"
    using sample_node_view unfolding perform_node_sample perform_node_failed option.case by blast
  then show "known failed_node = {0, 1, 2, 3}" by (auto simp: tasks_of_def known_def)
  from v obtain run where "o_runs failed_node = [(1, run)]" "rn_phase run = RP_FAILED" by (auto simp: tasks_of_def map_eq_Cons_conv)
  then show "\<exists>run. find_run failed_node 1 = Some run \<and> rn_phase run = RP_FAILED" by (simp add: find_run_def)
qed

end
