(* ===== verification/Node_Theorems.thy ===== *)
theory Node_Theorems
  imports Node_Sample
begin

text \<open>
  What the invariant of the node means for its tasks: a task is consumed, and its memory returned to the allocator, only when
  nothing needs it any more; its reference counters say exactly who does; a run ends only after its last task; every
  task id the node stores names a task; and a failure always reaches the tasks that depend on the failed one.
\<close>

section \<open>Who needs a task\<close>

lemma count_holders:
  "count (holders st) p = (\<Sum>q \<in> {q \<in> known st. \<not> has_settled (o_slots st q)}.
     (if q = p then 1 else 0) + count (mset (ts_fanin_producers (o_slots st q))) p)"
proof -
  have "count (holders st) p = (\<Sum>q\<in>known st. count (owned (o_slots st q) q) p)" by (simp add: holders_def count_sum)
  also have "\<dots> = (\<Sum>q \<in> {q \<in> known st. \<not> has_settled (o_slots st q)}. count (owned (o_slots st q) q) p)"
    by (rule sum.mono_neutral_right) (auto simp: owned_def)
  also have "\<dots> = (\<Sum>q \<in> {q \<in> known st. \<not> has_settled (o_slots st q)}.
      (if q = p then 1 else 0) + count (mset (ts_fanin_producers (o_slots st q))) p)"
    by (rule sum.cong) (auto simp: owned_def)
  finally show ?thesis .
qed

lemma needed_held:
  assumes "q \<in> known st" "\<not> has_settled (o_slots st q)" "q = p \<or> p \<in> set (ts_fanin_producers (o_slots st q))"
  shows "p \<in># holders st"
proof -
  have "p \<in># owned (o_slots st q) q" using assms(2,3) by (auto simp: owned_def)
  then show ?thesis using assms(1) by (auto simp: holders_def set_mset_sum)
qed

lemma node_refs:
  assumes "reachable node_start node_step st" "p \<in> known st"
  shows "slot_refs (mset (concat (o_scope st))) st p"
  using node_sys.reachable_inv [OF assms(1)] assms(2) by (simp add: node_inv_def node_ok_def refs_def)

text \<open>
  C2: nothing that is still needed is reclaimed. In every reachable state of the node a task that an open scope
  holds, that has not settled, or that a task which has not settled waits for, is not consumed, and its slot and its slab
  in the ring are not released, whatever completions, failures, cancellations and scope exits happened before.
\<close>

theorem needed_task_not_reclaimed:
  assumes "reachable node_start node_step st" "p \<in> known st"
    and "p \<in> set (concat (o_scope st)) \<or>
      (\<exists>q\<in>known st. \<not> has_settled (o_slots st q) \<and> (q = p \<or> p \<in> set (ts_fanin_producers (o_slots st q))))"
  shows "ts_state (o_slots st p) \<noteq> CONSUMED \<and> unreleased (o_ring st) p"
proof -
  have "p \<in># holders st + mset (concat (o_scope st))" using assms(3) needed_held by auto
  then have "ts_state (o_slots st p) \<noteq> CONSUMED"
    using node_refs [OF assms(1,2)] by (auto simp: slot_refs_def Let_def)
  then show ?thesis
    using node_sys.reachable_inv [OF assms(1)] assms(2) by (simp add: node_inv_def node_ok_def heap_ok_def)
qed

theorem needed_task_not_reclaimed_witness:
  "0 \<in> set (ts_fanin_producers (o_slots sample_node 2)) \<and> unreleased (o_ring sample_node) 0"
  using needed_task_not_reclaimed [OF sample_node_reachable(1), of 0] sample_node_tasks(1,5,7)
  by (auto simp: has_settled_def)

text \<open>
  C7: the counters are exact. In every reachable state the references a task has handed out and not got back
  are the open scopes that list it, the unsettled tasks that wait for it, and its own one as long as it has not settled;
  no reference leaks and none is returned twice.
\<close>

theorem reference_counts_exact:
  assumes "reachable node_start node_step st" "p \<in> known st" "ts_state (o_slots st p) \<noteq> CONSUMED"
  shows "ts_fanout_total (o_slots st p) + 1 - ts_fanout_released (o_slots st p) =
    int (count (mset (concat (o_scope st))) p) +
    int (\<Sum>q \<in> {q \<in> known st. \<not> has_settled (o_slots st q)}.
      (if q = p then 1 else 0) + count (mset (ts_fanin_producers (o_slots st q))) p)"
  using node_refs [OF assms(1,2)] assms(3) unfolding count_holders [symmetric] by (simp add: slot_refs_def Let_def)

theorem reference_counts_exact_witness:
  "ts_fanout_total (o_slots sample_node 0) + 1 - ts_fanout_released (o_slots sample_node 0) = 2"
proof -
  have "{q \<in> known sample_node. \<not> has_settled (o_slots sample_node q)} = {2, 3}"
    unfolding sample_node_tasks(1) using sample_node_tasks(3-6) by (auto simp: has_settled_def)
  then show ?thesis
    using reference_counts_exact [OF sample_node_reachable(1), of 0] sample_node_tasks(1,2,3,7,8) by simp
qed

section \<open>Memory\<close>

definition slab_of :: "slab list list \<Rightarrow> Ring \<Rightarrow> TaskSlot \<Rightarrow> slab" where
  "slab_of slabs rg p = (let s = rg_slot_states rg ! nat p in slabs ! rs_ring_idx s ! nat (rs_ring_slot_idx s))"

definition ring_of :: "Ring \<Rightarrow> TaskSlot \<Rightarrow> nat" where
  "ring_of rg p = rs_ring_idx (rg_slot_states rg ! nat p)"

definition apart :: "slab \<Rightarrow> slab \<Rightarrow> bool" where
  "apart a b \<longleftrightarrow> snd a \<le> fst b \<or> snd b \<le> fst a"

lemma live_slabs_apart:
  assumes w: "reachable ring_start ring_step (ring_at_rest rg slabs)"
    and p: "p \<in> {0 ..< int (length (rg_slot_states rg))}" and q: "q \<in> {0 ..< int (length (rg_slot_states rg))}"
    and "p \<noteq> q" "ring_of rg p = ring_of rg q" "unreleased rg p" "unreleased rg q"
  shows "apart (slab_of slabs rg p) (slab_of slabs rg q)"
proof -
  let ?w = "(ring_at_rest rg slabs)" and ?i = "ring_of rg p"
  let ?k = "\<lambda>p. rs_ring_slot_idx (rg_slot_states rg ! nat p)"
  have inv: "length (rg_rings rg) = MAX_RING_DEPTH" "rings_ok (rg_rings rg) slabs" "distinct (owners ?w)" "set (owners ?w) = positions slabs"
    using ring_sys.reachable_inv [OF w] by (simp_all add: ring_inv_def)
  have own: "(ring_of rg x, ?k x) = owners ?w ! nat x" "(ring_of rg x, ?k x) \<in> positions slabs"
    if "x \<in> {0 ..< int (length (rg_slot_states rg))}" for x
  proof -
    have "nat x < length (rg_slot_states rg)" using that by (simp add: nat_less_iff)
    then show 1: "(ring_of rg x, ?k x) = owners ?w ! nat x" by (simp add: owners_def parked_def ring_of_def)
    have "nat x < length (owners ?w)" using that by (simp add: owners_def parked_def nat_less_iff)
    then show "(ring_of rg x, ?k x) \<in> positions slabs" unfolding 1 inv(4) [symmetric] by (rule nth_mem)
  qed
  have "?k p \<noteq> ?k q"
  proof
    assume "?k p = ?k q"
    then have "owners ?w ! nat p = owners ?w ! nat q" using own(1) [OF p] own(1) [OF q] assms(5) by simp
    moreover have "nat p < length (owners ?w)" "nat q < length (owners ?w)" using p q by (simp_all add: owners_def parked_def nat_less_iff)
    ultimately have "nat p = nat q" using nth_eq_iff_index_eq [OF inv(3)] by blast
    then show False using p q \<open>p \<noteq> q\<close> by (simp add: eq_nat_nat_iff)
  qed
  moreover have r: "?i < MAX_RING_DEPTH" "0 \<le> ?k p" "nat (?k p) < length (slabs ! ?i)" "0 \<le> ?k q" "nat (?k q) < length (slabs ! ?i)"
    using own(2) [OF p] own(2) [OF q] assms(5) rings_ok_length [OF inv(2)] inv(1) by (auto simp: positions_def)
  moreover have u: "hr_released (rg_rings rg ! ?i) ! nat (?k p) = 0" "hr_released (rg_rings rg ! ?i) ! nat (?k q) = 0"
    using assms(5-7) by (simp_all add: unreleased_def ring_of_def Let_def)
  ultimately have "nat (?k p) < nat (?k q) \<or> nat (?k q) < nat (?k p)" by linarith
  then show ?thesis
    using unreleased_slabs_apart [OF w r(1), of "nat (?k p)" "nat (?k q)"] unreleased_slabs_apart [OF w r(1), of "nat (?k q)" "nat (?k p)"]
      r u assms(5) by (auto simp: apart_def slab_of_def ring_of_def Let_def)
qed

text \<open>
  C16: live buffers never overlap. The allocator of a reachable node has a history of the allocator of
  \<open>Ring_Safety\<close> behind it, and in the slabs of that history any two tasks of the node that are not consumed and sit
  in the same ring have disjoint slabs.
\<close>

theorem live_buffers_disjoint:
  assumes "reachable node_start node_step st"
  shows "\<exists>slabs. reachable ring_start ring_step (ring_at_rest (o_ring st) slabs) \<and>
    (\<forall>p\<in>known st. \<forall>q\<in>known st. p \<noteq> q \<and> ring_of (o_ring st) p = ring_of (o_ring st) q \<and>
       ts_state (o_slots st p) \<noteq> CONSUMED \<and> ts_state (o_slots st q) \<noteq> CONSUMED \<longrightarrow>
       apart (slab_of slabs (o_ring st) p) (slab_of slabs (o_ring st) q))"
proof -
  have h: "live_ring (o_ring st)" "\<And>p. p \<in> known st \<Longrightarrow> ts_state (o_slots st p) \<noteq> CONSUMED \<Longrightarrow> unreleased (o_ring st) p"
    using node_sys.reachable_inv [OF assms] by (simp_all add: node_inv_def node_ok_def heap_ok_def)
  then obtain slabs where w: "reachable ring_start ring_step (ring_at_rest (o_ring st) slabs)"
    unfolding live_ring_def by blast
  show ?thesis using w live_slabs_apart [OF w] h(2) unfolding known_def by blast
qed

theorem live_buffers_disjoint_witness:
  "\<exists>slabs. reachable ring_start ring_step (ring_at_rest (o_ring sample_node) slabs) \<and> apart (slab_of slabs (o_ring sample_node) 0) (slab_of slabs (o_ring sample_node) 1)"
proof -
  have "ring_of (o_ring sample_node) 0 = ring_of (o_ring sample_node) 1" using sample_node_tasks(9,10) by (simp add: ring_of_def)
  moreover have "0 \<in> known sample_node" "1 \<in> known sample_node" using sample_node_tasks(1) by simp_all
  ultimately show ?thesis using live_buffers_disjoint [OF sample_node_reachable(1)] sample_node_tasks(3,4) by fastforce
qed

section \<open>Runs and their tasks\<close>

text \<open>
  C17: a run ends with its last task. In every reachable state the counter of a run is the number of its tasks that
  are not consumed, so a run that has ended has none; and the run of a task that is not consumed is known and has not ended.
\<close>

theorem run_ends_with_last_task:
  assumes "reachable node_start node_step st"
  shows "(\<forall>r run. find_run st r = Some run \<longrightarrow> rn_active_tasks run = int (card (live_tasks st r)) \<and>
      (is_terminal (rn_phase run) \<longrightarrow> live_tasks st r = {})) \<and>
    (\<forall>p\<in>known st. ts_state (o_slots st p) \<noteq> CONSUMED \<longrightarrow>
      (\<exists>run. find_run st (ts_run_id (o_slots st p)) = Some run \<and> \<not> is_terminal (rn_phase run)))"
proof -
  have n: "run_inv st" "loads {#} st" using node_sys.reachable_inv [OF assms] by (simp_all add: node_inv_def node_ok_def)
  have c: "rn_active_tasks run = int (card (live_tasks st r))" if "find_run st r = Some run" for r run
    using n(2) that by (simp add: loads_def)
  have fin: "finite (live_tasks st r)" for r by (rule finite_subset [OF _ finite_known [of st]]) (auto simp: live_tasks_def)
  have t: "live_tasks st r = {}" if "find_run st r = Some run" "is_terminal (rn_phase run)" for r run
  proof -
    have "rn_active_tasks run = 0" using n(1) that by (simp add: run_inv_def runs_ok_def phases_ok_def run_ok_def)
    then show ?thesis using c [OF that(1)] fin by simp
  qed
  have "\<exists>run. find_run st (ts_run_id (o_slots st p)) = Some run \<and> \<not> is_terminal (rn_phase run)"
    if "p \<in> known st" "ts_state (o_slots st p) \<noteq> CONSUMED" for p
  proof -
    have l: "live_tasks st (ts_run_id (o_slots st p)) \<noteq> {}" using that by (auto simp: live_tasks_def)
    then obtain run where "find_run st (ts_run_id (o_slots st p)) = Some run" using n(2) unfolding loads_def by blast
    then show ?thesis using t l by blast
  qed
  then show ?thesis using c t by blast
qed

theorem run_ends_with_last_task_witness:
  "live_tasks failed_node 1 = {} \<and> (\<exists>run. find_run sample_node 1 = Some run \<and> rn_active_tasks run = 4)"
proof -
  have "live_tasks sample_node 1 = {0, 1, 2, 3}"
    unfolding live_tasks_def sample_node_tasks(1) using sample_node_tasks(3-6,11) by auto
  moreover have "\<exists>run. find_run sample_node (ts_run_id (o_slots sample_node 0)) = Some run"
  proof -
    have "0 \<in> known sample_node" "ts_state (o_slots sample_node 0) \<noteq> CONSUMED" using sample_node_tasks(1,3) by simp_all
    then show ?thesis using run_ends_with_last_task [OF sample_node_reachable(1)] by blast
  qed
  then obtain run where run: "find_run sample_node 1 = Some run" using sample_node_tasks(11) by auto
  moreover have "rn_active_tasks run = int (card (live_tasks sample_node 1))"
    using run_ends_with_last_task [OF sample_node_reachable(1)] run by blast
  ultimately have "rn_active_tasks run = 4" by simp
  moreover obtain run' where "find_run failed_node 1 = Some run'" "is_terminal (rn_phase run')"
    using failed_node_tasks(2) by (auto simp: is_terminal_def)
  then have "live_tasks failed_node 1 = {}" using run_ends_with_last_task [OF sample_node_reachable(2)] by blast
  ultimately show ?thesis using run by blast
qed

text \<open>
  C18: every task id the node stores names a task. In every reachable state the ids in the open scopes, in the
  producer and consumer lists of the tasks, in the task lists of the runs and in the completion queue are slots of the ring,
  so \<open>slot_state\<close> does not throw on any of them; the queue holds one completion per task, and the task runs.
\<close>

theorem stored_ids_name_tasks:
  assumes "reachable node_start node_step st"
  shows "set (concat (o_scope st)) \<subseteq> known st \<and>
    (\<forall>p\<in>known st. set (ts_fanin_producers (o_slots st p)) \<union> set (ts_fanout_consumers (o_slots st p)) \<subseteq> known st) \<and>
    (\<forall>r run. find_run st r = Some run \<longrightarrow> set (rn_task_slots run) \<subseteq> known st) \<and>
    distinct (map wc_task_slot (o_completion_queue st)) \<and>
    (\<forall>k\<in>set (o_completion_queue st). wc_task_slot k \<in> known st \<and> ts_state (o_slots st (wc_task_slot k)) = RUNNING)"
  using node_sys.reachable_inv [OF assms]
  by (auto simp: node_inv_def node_ok_def refs_def slot_refs_def loads_def running_def Let_def)

theorem stored_ids_name_tasks_witness:
  "set (ts_fanout_consumers (o_slots sample_node 2)) \<subseteq> {0, 1, 2, 3} \<and> set (ts_fanout_consumers (o_slots sample_node 0)) \<subseteq> {0, 1, 2, 3}"
  using stored_ids_name_tasks [OF sample_node_reachable(1)] unfolding sample_node_tasks(1) by blast

section \<open>Failures reach the dependents\<close>

text \<open>What poisoning reads of a task: whether it still waits, and who consumes it.\<close>

definition waits :: "TaskSlotState \<Rightarrow> bool" where
  "waits s \<longleftrightarrow> ts_state s = PENDING \<or> ts_state s = READY"

definition wait_view :: "Orch \<Rightarrow> TaskSlot \<Rightarrow> bool \<times> TaskSlot list" where
  "wait_view st p = (waits (o_slots st p), ts_fanout_consumers (o_slots st p))"

lemma wait_view_task: "task_view st' = task_view st \<Longrightarrow> wait_view st' = wait_view st"
proof -
  have "wait_view s p = (waits (fst (task_view s) p), ts_fanout_consumers (fst (task_view s) p))" for s p
    by (simp add: wait_view_def task_view_def unleased_def waits_def)
  then show "task_view st' = task_view st \<Longrightarrow> wait_view st' = wait_view st" by (simp add: fun_eq_iff)
qed

lemma unchanged_wait: "unchanged task_view m \<Longrightarrow> unchanged wait_view m"
  unfolding unchanged_def by (blast intro: wait_view_task)

lemma wait_view_upd:
  "wait_view (upd_slot p f st) = wait_view st"
  if "waits (f (o_slots st p)) = waits (o_slots st p)" "ts_fanout_consumers (f (o_slots st p)) = ts_fanout_consumers (o_slots st p)"
  using that by (simp add: wait_view_def upd_slot_def fun_eq_iff)

lemma wait_on_consumed: "unchanged wait_view (on_consumed p)"
  unfolding unchanged_def
proof
  fix st
  show "wait_view (snd (on_consumed p st)) = wait_view st"
  proof (cases "p \<in> known st \<and> (ts_state (o_slots st p) = COMPLETED \<or> ts_state (o_slots st p) = FAILED)")
    case True
    let ?s = "o_slots st p"
    let ?rest = "seq_act (mark_task_ended p (-1)) (seq_act (modify (\<lambda>st. st\<lparr>
        o_tensormap := erase_task_outputs (o_tensormap st) (ts_run_id ?s) p (ts_output_keys ?s), o_ring := ring_release (o_ring st) p\<rparr>))
      (seq_act (decrement_run_tasks (ts_run_id ?s)) (ok True)))"
    let ?st = "upd_slot p (\<lambda>s. s\<lparr>ts_state := CONSUMED\<rparr>) st"
    have "unchanged wait_view ?rest"
      by (intro unchanged_seq unchanged_ok unchanged_modify unchanged_wait [OF unchanged_mark_ended] unchanged_wait [OF unchanged_decrement])
        (simp add: wait_view_def fun_eq_iff)
    then have "wait_view (snd (?rest ?st)) = wait_view ?st" by (simp add: unchanged_def)
    also have "\<dots> = wait_view st" using True by (intro wait_view_upd) (auto simp: waits_def)
    finally show ?thesis
      using True by (auto simp: on_consumed_def bind_act_def slot_state_known seq_act_def modify_def)
  qed (auto simp: on_consumed_def bind_act_def slot_state_def peek_known ok_def)
qed

lemma wait_try_consume: "unchanged wait_view (try_consume p)"
proof -
  have s: "unchanged wait_view (slot_state p)" by (simp add: unchanged_def slot_state_def split: option.split)
  have u: "wait_view (upd_slot p (\<lambda>s. s\<lparr>ts_fanout_released := r\<rparr>) st) = wait_view st" for r st
    by (rule wait_view_upd) (simp_all add: waits_def)
  show ?thesis
    unfolding try_consume_def Let_def by (auto intro!: unchanged_bind s unchanged_seq unchanged_modify u wait_on_consumed)
qed

lemma wait_release_all: "unchanged wait_view (seq_act (sched_try_consume p) (each_act sched_try_consume ps))"
proof -
  have "unchanged wait_view (each_act try_consume ps)" by (induction ps) (auto intro!: wait_try_consume)
  then show ?thesis unfolding sched_try_consume_eq by (intro unchanged_seq wait_try_consume)
qed

text \<open>The tasks that still wait, and the effect of poisoning on them.\<close>

definition waiting :: "Orch \<Rightarrow> TaskSlot set" where
  "waiting st = {p. waits (o_slots st p)}"

definition consumers :: "Orch \<Rightarrow> TaskSlot \<Rightarrow> TaskSlot set" where
  "consumers st p = set (ts_fanout_consumers (o_slots st p))"

definition poisons :: "TaskSlot set \<Rightarrow> Orch \<Rightarrow> Orch \<Rightarrow> bool" where
  "poisons A st st' \<longleftrightarrow> waiting st' \<subseteq> waiting st \<and> consumers st' = consumers st \<and> A \<inter> waiting st' = {} \<and>
     (\<forall>p \<in> waiting st - waiting st'. consumers st p \<inter> waiting st' = {})"

lemma wait_view_sets: "wait_view st' = wait_view st \<Longrightarrow> waiting st' = waiting st \<and> consumers st' = consumers st"
  by (auto simp: wait_view_def waiting_def consumers_def fun_eq_iff)

lemma poisons_trans: "poisons A s t \<Longrightarrow> poisons B t u \<Longrightarrow> poisons (A \<union> B) s u"
proof -
  assume a: "poisons A s t" and b: "poisons B t u"
  have "consumers s p \<inter> waiting u = {}" if "p \<in> waiting s - waiting u" for p
  proof (cases "p \<in> waiting t")
    case True
    then show ?thesis using b a that by (simp add: poisons_def)
  next
    case False
    then have "consumers s p \<inter> waiting t = {}" using a that by (simp add: poisons_def)
    then show ?thesis using b by (auto simp: poisons_def)
  qed
  moreover have "waiting u \<subseteq> waiting s" "consumers u = consumers s" "(A \<union> B) \<inter> waiting u = {}"
    using a b by (auto simp: poisons_def)
  ultimately show ?thesis unfolding poisons_def by blast
qed

lemma poisons_claim:
  assumes "poisons (B \<union> A) t u" "waiting t = waiting s - {p}" "consumers t = consumers s" "p \<in> waiting s \<Longrightarrow> B = consumers s p"
  shows "poisons (insert p A) s u"
proof -
  have c: "waiting u \<subseteq> waiting s - {p}" "consumers u = consumers s" "(B \<union> A) \<inter> waiting u = {}"
    "\<forall>q \<in> waiting s - {p} - waiting u. consumers s q \<inter> waiting u = {}"
    using assms(1-3) by (simp_all add: poisons_def)
  have "consumers s q \<inter> waiting u = {}" if "q \<in> waiting s - waiting u" for q
  proof (cases "q = p")
    case True
    then show ?thesis using assms(4) c(3) that by blast
  next
    case False
    then show ?thesis using c(4) that by blast
  qed
  then show ?thesis using c(1-3) unfolding poisons_def by blast
qed

lemma poison_tasks_poisons: "poison_tasks message slots st = (Inr (), st') \<Longrightarrow> poisons (set slots) st st'"
proof (induction message slots st arbitrary: st' rule: poison_tasks.induct)
  case (1 message st)
  then show ?case by (simp add: poison_tasks.simps poisons_def)
next
  case (2 message p slots st)
  have p: "p \<in> known st" using 2(4) by (auto simp: poison_tasks.simps slot_state_def peek_known split: if_splits)
  have sl: "slot_state p st = (Inr (o_slots st p), st)" using slot_state_known [OF p] .
  obtain s1 claimed where c: "claim_task_failure (o_slots st p) message = (s1, claimed)"
    by (cases "claim_task_failure (o_slots st p) message")
  define st1 where "st1 = upd_slot p (\<lambda>_. s1) st"
  define s2 where "s2 = mark_group_members_skipped s1 message"
  define st2 where "st2 = upd_slot p (\<lambda>_. s2) st1"
  note eq = 2(4) [unfolded poison_tasks.simps(2) sl prod.case sum.case c Let_def, folded st1_def, folded s2_def, folded st2_def]
  have s1: "\<not> waits s1" "ts_fanout_consumers s1 = ts_fanout_consumers (o_slots st p)"
    using c by (auto simp: claim_task_failure_def waits_def Let_def split: if_splits)
  have w1: "waiting st1 = waiting st - {p}" "consumers st1 = consumers st"
    using s1 by (auto simp: waiting_def consumers_def st1_def upd_slot_def fun_eq_iff)
  show ?case
  proof (cases "claimed = None \<or> claimed = Some BUILDING")
    case True
    have "p \<notin> waiting st" using True c by (auto simp: claim_task_failure_def waiting_def waits_def Let_def split: if_splits)
    moreover have "poisons (set slots) st1 st'" using 2(1) [OF sl [symmetric] refl refl c [symmetric] st1_def True] eq True by simp
    ultimately show ?thesis using poisons_claim [of "{}", OF _ w1] by simp
  next
    case False
    obtain q3 st3 where p3: "poison_tasks message (ts_fanout_consumers s2) st2 = (q3, st3)"
      by (cases "poison_tasks message (ts_fanout_consumers s2) st2")
    obtain q4 st4 where p4: "seq_act (sched_try_consume p) (each_act sched_try_consume (ts_fanin_producers s2)) st3 = (q4, st4)"
      by (cases "seq_act (sched_try_consume p) (each_act sched_try_consume (ts_fanin_producers s2)) st3")
    have q: "q3 = Inr ()" "q4 = Inr ()" "poison_tasks message slots st4 = (Inr (), st')"
      using eq False p3 p4 by (auto split: sum.splits)
    have s2: "\<not> waits s2" "ts_fanout_consumers s2 = ts_fanout_consumers (o_slots st p)"
      using s1 by (simp_all add: s2_def waits_def)
    have w2: "waiting st2 = waiting st - {p}" "consumers st2 = consumers st"
      using s2 w1 by (auto simp: waiting_def consumers_def st2_def st1_def upd_slot_def fun_eq_iff)
    have a: "poisons (consumers st p) st2 st3"
      using 2(2) [OF sl [symmetric] refl refl c [symmetric] st1_def False s2_def st2_def] p3 q(1) s2(2) by (simp add: consumers_def)
    have b: "waiting st4 = waiting st3 \<and> consumers st4 = consumers st3"
      using wait_view_sets [OF unchangedD [OF wait_release_all p4]] .
    have "poisons (set slots) st4 st'"
      using 2(3) [OF sl [symmetric] refl refl c [symmetric] st1_def False s2_def st2_def p3 [symmetric] q(1) p4 [symmetric] q(2) q(3)] .
    moreover have "poisons {} st3 st4" using b by (simp add: poisons_def)
    ultimately have "poisons (consumers st p \<union> set slots) st2 st'" using poisons_trans [OF a poisons_trans [of "{}" st3 st4 "set slots" st']] by simp
    then show ?thesis using poisons_claim [OF _ w2] by simp
  qed
qed

text \<open>
  C8: poisoning ends and leaves no dependent behind. In every reachable state, poisoning any tasks of the node ends
  without an exception (counter overflow apart). Then none of these tasks waits any more, and neither does any consumer
  of a task that poisoning took out of the waiting ones, so the failure has reached everything that depends on them.
\<close>

theorem failure_reaches_dependents:
  assumes "reachable node_start node_step st" "set slots \<subseteq> known st" "poison_tasks message slots st = (res, st')" "\<not> overflow res"
  shows "res = Inr () \<and> set slots \<inter> waiting st' = {} \<and> waiting st' \<subseteq> waiting st \<and>
    (\<forall>p \<in> waiting st - waiting st'. consumers st p \<inter> waiting st' = {})"
proof -
  have "node_at (outer st) (wc_task_slot ` set (o_completion_queue st)) (mset (concat (o_scope st))) st"
    using node_sys.reachable_inv [OF assms(1)] by (simp add: node_inv_def node_at_def)
  then have "res = Inr ()" using poison_runs [OF assms(3,4) _ assms(2)] by blast
  then show ?thesis using poison_tasks_poisons assms(3) by (simp add: poisons_def)
qed

theorem failure_reaches_dependents_witness:
  "2 \<in> waiting sample_node \<and> (\<exists>st'. poison_tasks ''boom'' [2] sample_node = (Inr (), st') \<and> 2 \<notin> waiting st')"
proof -
  obtain st' where p: "poison_tasks ''boom'' [2] sample_node = (Inr (), st')"
    using sample_node_tasks(12) by (cases "poison_tasks ''boom'' [2] sample_node") simp
  have "set [2] \<subseteq> known sample_node" using sample_node_tasks(1) by simp
  from failure_reaches_dependents [OF sample_node_reachable(1) this p] p sample_node_tasks(5) show ?thesis
    by (simp add: waiting_def waits_def)
qed

end
