(* ===== verification/Flight_Frame.thy ===== *)
theory Flight_Frame
  imports Node_Safety
begin

text \<open>
  What the calls of the orchestrator leave alone: the tasks that run and the reports their groups have absorbed, and the queue of
  completions. Only a claim of the scheduler makes a task run, only a report of an endpoint changes what a group has absorbed, and
  only a completion that is drained ends a running task. The invariant is kept with two facts about single slots: a
  task owes the propagation of its failure only after it failed, and a group has a member.
\<close>

section \<open>A logic with exceptional exits\<close>

text \<open>The invariant holds at every exit, the postcondition when the action returns.\<close>

definition safely :: "('s \<Rightarrow> bool) \<Rightarrow> ('s \<Rightarrow> bool) \<Rightarrow> ('s, 'a) action \<Rightarrow> ('a \<Rightarrow> 's \<Rightarrow> bool) \<Rightarrow> bool" where
  "safely I P m Q \<longleftrightarrow> (\<forall>s res s'. I s \<and> P s \<and> m s = (res, s') \<and> \<not> overflow res \<longrightarrow> I s' \<and> (\<forall>x. res = Inr x \<longrightarrow> Q x s'))"

lemma safelyI:
  "(\<And>s res s'. I s \<Longrightarrow> P s \<Longrightarrow> m s = (res, s') \<Longrightarrow> \<not> overflow res \<Longrightarrow> I s' \<and> (\<forall>x. res = Inr x \<longrightarrow> Q x s')) \<Longrightarrow> safely I P m Q"
  unfolding safely_def by blast

lemma safelyD: "safely I P m Q \<Longrightarrow> I s \<Longrightarrow> P s \<Longrightarrow> m s = (res, s') \<Longrightarrow> \<not> overflow res \<Longrightarrow> I s' \<and> (\<forall>x. res = Inr x \<longrightarrow> Q x s')"
  unfolding safely_def by blast

lemma safely_conseq: "safely I P m Q \<Longrightarrow> (\<And>s. P' s \<Longrightarrow> P s) \<Longrightarrow> (\<And>x s. Q x s \<Longrightarrow> Q' x s) \<Longrightarrow> safely I P' m Q'"
  unfolding safely_def by blast

lemma safely_ok: "(\<And>s. P s \<Longrightarrow> Q x s) \<Longrightarrow> safely I P (ok x) Q"
  by (simp add: safely_def ok_def)

lemma safely_throw: "safely I P (throw e) Q"
  by (simp add: safely_def throw_def)

lemma safely_bind:
  assumes "safely I P m R" "\<And>x. safely I (R x) (k x) Q"
  shows "safely I P (bind_act m k) Q"
proof (rule safelyI)
  fix s res s'
  assume a: "I s" "P s" "bind_act m k s = (res, s')" "\<not> overflow res"
  obtain r s1 where m: "m s = (r, s1)" by (cases "m s")
  show "I s' \<and> (\<forall>x. res = Inr x \<longrightarrow> Q x s')"
  proof (cases r)
    case (Inl e)
    then have "res = Inl e" "s' = s1" using a(3) m by (simp_all add: bind_act_def)
    then show ?thesis using safelyD [OF assms(1) a(1,2) m] a(4) Inl by simp
  next
    case (Inr x)
    then have "k x s1 = (res, s')" using a(3) m by (simp add: bind_act_def)
    moreover have "I s1 \<and> R x s1" using safelyD [OF assms(1) a(1,2) m] Inr by simp
    ultimately show ?thesis using safelyD [OF assms(2) _ _ _ a(4)] by blast
  qed
qed

lemma safely_seq: "safely I P m (\<lambda>_. R) \<Longrightarrow> safely I R n Q \<Longrightarrow> safely I P (seq_act m n) Q"
  unfolding seq_act_def by (rule safely_bind)

lemma safely_if: "(b \<Longrightarrow> safely I P m Q) \<Longrightarrow> (\<not> b \<Longrightarrow> safely I P n Q) \<Longrightarrow> safely I P (if b then m else n) Q"
  by simp

lemma safely_modify: "(\<And>s. I s \<Longrightarrow> P s \<Longrightarrow> I (f s) \<and> Q () (f s)) \<Longrightarrow> safely I P (modify f) Q"
  by (simp add: safely_def modify_def)

text \<open>A loop over the elements, with an invariant that may depend on the elements left.\<close>

lemma safely_each:
  assumes "\<And>x xs. safely I (P (x # xs)) (f x) (\<lambda>_. P xs)"
  shows "safely I (P xs) (each_act f xs) (\<lambda>_. P [])"
proof (induction xs)
  case Nil
  then show ?case by (simp add: safely_ok)
next
  case (Cons x xs)
  then show ?case using safely_seq [OF assms] by simp
qed

lemma safely_keeps: "safely I (\<lambda>_. True) m (\<lambda>_ _. True) \<longleftrightarrow> keeps I m"
  unfolding safely_def keeps_def by blast

lemma keeps_safely: "keeps I m \<Longrightarrow> safely I P m (\<lambda>_ _. True)"
  unfolding safely_def keeps_def by blast

lemma safely_slot_state: "safely I P (slot_state p) (\<lambda>s st. P st \<and> p \<in> known st \<and> o_slots st p = s)"
  by (rule safelyI) (auto simp: slot_state_def peek_known split: option.splits if_splits)

section \<open>Running tasks\<close>

type_synonym member_view = "bool \<times> nat \<times> GroupMemberState list \<times> EndpointOutcome list \<times> int \<times> bool"

definition members_of :: "TaskSlotState \<Rightarrow> member_view" where
  "members_of s = (ts_is_group s, ts_group_args s, ts_group_member_states s, ts_group_member_outcomes s, ts_group_terminal_count s, ts_group_failed s)"

definition run_view :: "TaskSlotState \<Rightarrow> member_view option" where
  "run_view s = (if ts_state s = RUNNING then Some (members_of s) else None)"

definition slot_ok :: "TaskSlotState \<Rightarrow> bool" where
  "slot_ok s \<longleftrightarrow> (ts_failure_propagation_pending s \<longrightarrow> ts_state s = FAILED \<or> ts_state s = CONSUMED) \<and> (ts_is_group s \<longrightarrow> 0 < ts_group_args s)"

definition flight_view :: "Orch \<Rightarrow> TaskSlot \<Rightarrow> member_view option" where
  "flight_view st p = (if p \<in> known st then run_view (o_slots st p) else None)"

definition slots_ok :: "Orch \<Rightarrow> bool" where
  "slots_ok st \<longleftrightarrow> (\<forall>p \<in> known st. slot_ok (o_slots st p))"

definition frame :: "WorkerCompletion list \<Rightarrow> (TaskSlot \<Rightarrow> member_view option) \<Rightarrow> Orch \<Rightarrow> bool" where
  "frame q V st \<longleftrightarrow> o_completion_queue st = q \<and> flight_view st = V \<and> slots_ok st"

lemma frame_cong:
  assumes "o_completion_queue st' = o_completion_queue st" "known st' = known st"
    "\<And>p. run_view (o_slots st' p) = run_view (o_slots st p) \<and> slot_ok (o_slots st' p) = slot_ok (o_slots st p)"
  shows "frame q V st' = frame q V st"
proof -
  have "flight_view st' = flight_view st" using assms by (simp add: flight_view_def fun_eq_iff)
  moreover have "slots_ok st' = slots_ok st" using assms by (simp add: slots_ok_def)
  ultimately show ?thesis using assms(1) by (simp add: frame_def)
qed

lemma frame_view: "node_view st' = node_view st \<Longrightarrow> frame q V st' = frame q V st"
proof -
  assume v: "node_view st' = node_view st"
  then have t: "task_view st' = task_view st" and q: "o_completion_queue st' = o_completion_queue st" by (simp_all add: node_view_def)
  have u: "run_view (fst (task_view st) p) = run_view (o_slots st p)" "slot_ok (fst (task_view st) p) = slot_ok (o_slots st p)" for st p
    by (simp_all add: task_view_def unleased_def run_view_def members_of_def slot_ok_def)
  show ?thesis by (rule frame_cong [OF q view_cong(1) [OF t]]) (metis t u)
qed

lemma frame_quiet: "unchanged node_view m \<Longrightarrow> keeps (frame q V) m"
  unfolding keeps_def by (metis frame_view unchangedD)

lemma frame_fields [simp]:
  "frame q V (st\<lparr>o_tensormap := m\<rparr>) = frame q V st" "frame q V (st\<lparr>o_scope := S\<rparr>) = frame q V st"
  "frame q V (st\<lparr>o_ready_sub_queue := subs\<rparr>) = frame q V st" "frame q V (st\<lparr>o_ready_next_level_queues := queues\<rparr>) = frame q V st"
  "frame q V (upd_run r f st) = frame q V st" "frame q V (notify_ready st) = frame q V st" "frame q V (record_run_error r e st) = frame q V st"
  "frame q V (st\<lparr>o_tensormap := m, o_ring := ring_release (o_ring st) p\<rparr>) = frame q V st" "frame q V (st\<lparr>o_building_run_id := b\<rparr>) = frame q V st"
proof -
  have "length (rg_slot_states (ring_release rg p)) = length (rg_slot_states rg)" for rg by (simp add: ring_release_eq Let_def)
  then show "frame q V (st\<lparr>o_tensormap := m, o_ring := ring_release (o_ring st) p\<rparr>) = frame q V st" by (intro frame_cong) (simp_all add: known_def)
qed (intro frame_cong; simp add: known_def upd_run_def notify_ready_def record_run_error_def split: option.split)+

text \<open>A write to one slot. A slot that does not run may be written as long as it does not start to run.\<close>

definition quiet :: "(TaskSlotState \<Rightarrow> TaskSlotState) \<Rightarrow> bool" where
  "quiet f \<longleftrightarrow> (\<forall>s. slot_ok s \<longrightarrow> slot_ok (f s) \<and> run_view (f s) = run_view s)"

lemma slots_ok_upd: "slots_ok st \<Longrightarrow> (p \<in> known st \<Longrightarrow> slot_ok (f (o_slots st p))) \<Longrightarrow> slots_ok (upd_slot p f st)"
  by (simp add: slots_ok_def known_def upd_slot_def)

lemma flight_view_upd: "flight_view (upd_slot p f st) = (flight_view st)(p := if p \<in> known st then run_view (f (o_slots st p)) else None)"
  by (simp add: flight_view_def fun_eq_iff known_def upd_slot_def)

lemma frame_upd:
  assumes "frame q V st" "p \<in> known st \<Longrightarrow> slot_ok (o_slots st p) \<Longrightarrow> slot_ok (f (o_slots st p)) \<and> run_view (f (o_slots st p)) = run_view (o_slots st p)"
  shows "frame q V (upd_slot p f st)"
proof -
  have o: "slots_ok st" "flight_view st = V" "o_completion_queue st = q" using assms(1) by (simp_all add: frame_def)
  then have p: "p \<in> known st \<Longrightarrow> slot_ok (f (o_slots st p)) \<and> run_view (f (o_slots st p)) = run_view (o_slots st p)"
    using assms(2) by (simp add: slots_ok_def)
  then have "(if p \<in> known st then run_view (f (o_slots st p)) else None) = flight_view st p" by (simp add: flight_view_def)
  then have "flight_view (upd_slot p f st) = V" by (simp add: flight_view_upd o(2))
  then show ?thesis using o p slots_ok_upd [of st p f] by (simp add: frame_def upd_slot_def)
qed

lemma frame_quiet_upd: "quiet f \<Longrightarrow> frame q V st \<Longrightarrow> frame q V (upd_slot p f st)"
  by (rule frame_upd) (simp_all add: quiet_def)

lemma not_running_slot: "frame q V st \<Longrightarrow> V p = None \<Longrightarrow> p \<in> known st \<Longrightarrow> ts_state (o_slots st p) \<noteq> RUNNING"
  by (auto simp: frame_def flight_view_def run_view_def split: if_splits)

lemma frame_write:
  assumes "frame q V st" "V p = None" "ts_state (f (o_slots st p)) \<noteq> RUNNING" "slot_ok (o_slots st p) \<Longrightarrow> slot_ok (f (o_slots st p))"
  shows "frame q V (upd_slot p f st)"
  using assms(3,4) not_running_slot [OF assms(1,2)] by (intro frame_upd [OF assms(1)]) (simp add: run_view_def)

section \<open>References and failures\<close>

lemma safely_try_consume: "safely (frame q V) P (try_consume p) (\<lambda>_ _. True)"
proof -
  have dec: "keeps (frame q V) (decrement_run_tasks r)" for r
  proof -
    have f: "keeps (frame q V) (finish_run_if_ready r)" for r by (rule frame_quiet) blast
    show ?thesis
      unfolding keeps_def
    proof (intro allI impI)
      fix st res st'
      assume "frame q V st \<and> decrement_run_tasks r st = (res, st') \<and> \<not> overflow res"
      then show "frame q V st'"
        by (auto simp: decrement_run_tasks_def Let_def split: option.splits if_splits intro: keepsD [OF f [of r], rotated])
    qed
  qed
  have cons: "safely (frame q V) (\<lambda>_. True) (on_consumed p) (\<lambda>_ _. True)"
    unfolding on_consumed_def
  proof (rule safely_bind [OF safely_slot_state], rule safely_if)
    fix s :: TaskSlotState
    assume s: "ts_state s = COMPLETED \<or> ts_state s = FAILED"
    show "safely (frame q V) (\<lambda>st. True \<and> p \<in> known st \<and> o_slots st p = s) (seq_act (modify (upd_slot p (\<lambda>s. s\<lparr>ts_state := CONSUMED\<rparr>)))
       (seq_act (mark_task_ended p (-1)) (seq_act (modify (\<lambda>st. st\<lparr>o_tensormap := erase_task_outputs (o_tensormap st) (ts_run_id s) p (ts_output_keys s),
           o_ring := ring_release (o_ring st) p\<rparr>)) (seq_act (decrement_run_tasks (ts_run_id s)) (ok True))))) (\<lambda>_ _. True)"
    proof (rule safely_seq)
      show "safely (frame q V) (\<lambda>st. True \<and> p \<in> known st \<and> o_slots st p = s) (modify (upd_slot p (\<lambda>s. s\<lparr>ts_state := CONSUMED\<rparr>))) (\<lambda>_ _. True)"
        using s by (intro safely_modify conjI TrueI frame_upd) (auto simp: slot_ok_def run_view_def)
    qed (intro safely_seq [OF keeps_safely] frame_quiet same_mark_ended keeps_modify dec safely_ok; simp)
  qed (simp add: safely_ok)
  have rel: "quiet (\<lambda>s. s\<lparr>ts_fanout_released := n\<rparr>)" for n by (simp add: quiet_def slot_ok_def run_view_def members_of_def)
  have "safely (frame q V) (\<lambda>_. True) (try_consume p) (\<lambda>_ _. True)"
    unfolding try_consume_def Let_def
    by (rule safely_bind [OF safely_slot_state], rule safely_seq [OF keeps_safely])
      (auto intro!: keeps_modify frame_quiet_upd rel safely_if safely_seq [OF cons] safely_ok)
  then show ?thesis by (rule safely_conseq) simp_all
qed

lemma frame_consume: "keeps (frame q V) (try_consume p)"
  using safely_try_consume [of q V "\<lambda>_. True" p] by (simp add: safely_keeps)

lemma claim_quiet: "claim_task_failure s m = (s1, claimed) \<Longrightarrow> slot_ok s \<Longrightarrow> slot_ok s1 \<and> run_view s1 = run_view s \<and> (claimed \<noteq> None \<longrightarrow> ts_state s1 = FAILED)"
  by (auto simp: claim_task_failure_def slot_ok_def run_view_def Let_def split: if_splits)

lemma skipped_quiet: "ts_state (mark_group_members_skipped s m) = ts_state s" "slot_ok (mark_group_members_skipped s m) = slot_ok s"
  by (simp_all add: mark_group_members_skipped_def slot_ok_def Let_def case_prod_unfold)

lemma frame_poison: "frame q V st \<Longrightarrow> poison_tasks m slots st = (res, st') \<Longrightarrow> \<not> overflow res \<Longrightarrow> frame q V st'"
proof (induction m slots st arbitrary: res st' rule: poison_tasks.induct)
  case (1 m st)
  then show ?case by (simp add: poison_tasks.simps)
next
  case (2 m p slots st)
  show ?case
  proof (cases "peek_slot st p")
    case None
    then show ?thesis using "2.prems" by (simp add: poison_tasks.simps slot_state_def)
  next
    case (Some s)
    then have s: "p \<in> known st" "s = o_slots st p" by (auto simp: peek_known split: if_splits)
    have sl: "slot_state p st = (Inr s, st)" using Some by (simp add: slot_state_def)
    have ok: "slot_ok s" using "2.prems"(1) s by (simp add: frame_def slots_ok_def)
    obtain s1 claimed where c: "claim_task_failure s m = (s1, claimed)" by (cases "claim_task_failure s m")
    define st1 where "st1 = upd_slot p (\<lambda>_. s1) st"
    define s2 where "s2 = mark_group_members_skipped s1 m"
    define st2 where "st2 = upd_slot p (\<lambda>_. s2) st1"
    have f1: "frame q V st1" unfolding st1_def using claim_quiet [OF c ok] s(2) by (intro frame_upd [OF "2.prems"(1)]) simp
    show ?thesis
    proof (cases "claimed = None \<or> claimed = Some BUILDING")
      case True
      then have "poison_tasks m slots st1 = (res, st')" using "2.prems"(2) by (simp add: poison_tasks.simps sl c st1_def Let_def)
      then show ?thesis using "2.IH"(1) [OF sl [symmetric] refl refl c [symmetric] st1_def True f1] "2.prems"(3) by simp
    next
      case False
      have f2: "frame q V st2"
        unfolding st2_def using claim_quiet [OF c ok] False
        by (intro frame_upd [OF f1]) (auto simp: st1_def s2_def skipped_quiet run_view_def)
      obtain q3 st3 where p3: "poison_tasks m (ts_fanout_consumers s2) st2 = (q3, st3)" by (cases "poison_tasks m (ts_fanout_consumers s2) st2")
      have f3: "\<not> overflow q3 \<Longrightarrow> frame q V st3" using "2.IH"(2) [OF sl [symmetric] refl refl c [symmetric] st1_def False s2_def st2_def f2 p3] .
      let ?rel = "seq_act (sched_try_consume p) (each_act sched_try_consume (ts_fanin_producers s2))"
      obtain q4 st4 where p4: "?rel st3 = (q4, st4)" by (cases "?rel st3")
      have "keeps (frame q V) ?rel" unfolding sched_try_consume_eq by (intro keeps_seq keeps_each frame_consume)
      then have f4: "frame q V st4" if "\<not> overflow q3" "\<not> overflow q4" using that keepsD [of "frame q V" ?rel st3, OF _ f3 p4] by blast
      have step: "(res, st') = (case q3 of Inl e \<Rightarrow> (Inl e, st3) | Inr _ \<Rightarrow> (case q4 of Inl e \<Rightarrow> (Inl e, st4) | Inr _ \<Rightarrow> poison_tasks m slots st4))"
        using "2.prems"(2) False p3 p4
        by (simp add: poison_tasks.simps(2) [of m p slots st] sl c st1_def [symmetric] s2_def [symmetric] st2_def [symmetric] Let_def) (cases q3; cases q4; auto)
      have "frame q V st'" if u: "q3 = Inr u" "q4 = Inr v" for u v
        using "2.IH"(3) [OF sl [symmetric] refl refl c [symmetric] st1_def False s2_def st2_def p3 [symmetric] u(1) p4 [symmetric] u(2) f4 _ "2.prems"(3)] step u
        by simp
      then show ?thesis using step f3 f4 "2.prems"(3) by (cases q3; cases q4) auto
    qed
  qed
qed

section \<open>Completions\<close>

text \<open>A drained completion ends its task and leaves the others.\<close>

lemma frame_enqueue: "keeps (frame q V) (enqueue_ready p)"
  unfolding keeps_def
  by (auto simp: enqueue_ready_def bind_act_def slot_state_def split: option.splits sum.splits if_splits)

lemma frame_release_consumer: "keeps (frame q V) (release_consumer failed m p)"
proof -
  have r: "slot_ok s' \<and> run_view s' = run_view s" if "try_mark_ready (s\<lparr>ts_fanin_released := n\<rparr>) = (s', b)" "slot_ok s" for s s' n b
    using that by (auto simp: try_mark_ready_def slot_ok_def run_view_def members_of_def split: if_splits)
  have "safely (frame q V) (\<lambda>_. True) (bind_act (slot_state p) (\<lambda>cs.
        let (cs', ready) = try_mark_ready (cs\<lparr>ts_fanin_released := ts_fanin_released cs + 1\<rparr>) in
        seq_act (modify (upd_slot p (\<lambda>_. cs'))) (if ready then enqueue_ready p else ok ()))) (\<lambda>_ _. True)"
  proof (rule safely_bind [OF safely_slot_state])
    fix cs :: TaskSlotState
    obtain cs' ready where m: "try_mark_ready (cs\<lparr>ts_fanin_released := ts_fanin_released cs + 1\<rparr>) = (cs', ready)"
      by (cases "try_mark_ready (cs\<lparr>ts_fanin_released := ts_fanin_released cs + 1\<rparr>)")
    have "safely (frame q V) (\<lambda>st. True \<and> p \<in> known st \<and> o_slots st p = cs) (seq_act (modify (upd_slot p (\<lambda>_. cs'))) (if ready then enqueue_ready p else ok ())) (\<lambda>_ _. True)"
    proof (rule safely_seq [OF safely_modify [where Q = "\<lambda>_ _. True"]])
      show "frame q V (upd_slot p (\<lambda>_. cs') st) \<and> True" if "frame q V st" "True \<and> p \<in> known st \<and> o_slots st p = cs" for st
        using that r [OF m] by (auto intro!: frame_upd)
    qed (intro safely_if keeps_safely frame_enqueue safely_ok TrueI)
    then show "safely (frame q V) (\<lambda>st. True \<and> p \<in> known st \<and> o_slots st p = cs) (let (cs', ready) = try_mark_ready (cs\<lparr>ts_fanin_released := ts_fanin_released cs + 1\<rparr>) in
        seq_act (modify (upd_slot p (\<lambda>_. cs'))) (if ready then enqueue_ready p else ok ())) (\<lambda>_ _. True)"
      by (simp only: m Let_def prod.case)
  qed
  moreover have "keeps (frame q V) (poison_task p m)" unfolding keeps_def poison_task_def using frame_poison by blast
  ultimately show ?thesis by (simp add: release_consumer_def safely_keeps)
qed

lemma frame_complete:
  assumes f: "frame q V st" and p: "p = wc_task_slot k" and e: "on_task_complete k st = (res, st')" "\<not> overflow res"
    and r: "p \<in> known st" "ts_state (o_slots st p) = RUNNING"
  shows "frame q (V(p := None)) st'"
proof -
  let ?f = "\<lambda>s. s\<lparr>ts_failure_message := (if is_failure (wc_outcome k) then wc_error_message k else ts_failure_message s),
      ts_state := (if is_failure (wc_outcome k) then FAILED else COMPLETED)\<rparr>"
  let ?st = "upd_slot p ?f st"
  let ?rest = "seq_act (each_act (release_consumer (is_failure (wc_outcome k)) (wc_error_message k)) (ts_fanout_consumers (o_slots st p)))
        (seq_act (sched_try_consume p) (each_act sched_try_consume (ts_fanin_producers (o_slots st p))))"
  have ok: "slots_ok st" and v: "flight_view st = V" "o_completion_queue st = q" using f by (simp_all add: frame_def)
  have "slot_ok (o_slots st p)" using ok r(1) by (simp add: slots_ok_def)
  then have "slots_ok ?st" using r(2) by (intro slots_ok_upd [OF ok]) (simp add: slot_ok_def)
  moreover have "flight_view ?st = V(p := None)" by (simp add: flight_view_upd v(1) run_view_def)
  moreover have "o_completion_queue ?st = q" using v(2) by (simp add: upd_slot_def)
  ultimately have 1: "frame q (V(p := None)) ?st" by (simp add: frame_def)
  have 2: "keeps (frame q (V(p := None))) ?rest"
    unfolding sched_try_consume_eq by (intro keeps_seq keeps_each frame_release_consumer frame_consume)
  have "seq_act (modify (upd_slot p ?f)) ?rest st = (res, st')"
    using e(1) unfolding on_task_complete_def p [symmetric] Let_def bind_act_def [of "slot_state p"] slot_state_known [OF r(1)] prod.case sum.case .
  then have 3: "?rest ?st = (res, st')" unfolding seq_act_def [of "modify (upd_slot p ?f)"] bind_act_def [of "modify (upd_slot p ?f)"] modify_def prod.case sum.case .
  show ?thesis by (rule keepsD [OF 2 1 3 e(2)])
qed

section \<open>Cancelled submissions\<close>

lemma frame_cancel_slot: "keeps (frame q V) (cancel_slot m p)"
proof -
  have "frame q V st'" if f: "frame q V st" and e: "cancel_slot m p st = (res, st')" for st res st'
  proof (cases "peek_slot st p")
    case None
    then show ?thesis using f e by (simp add: cancel_slot_def bind_act_def slot_state_def)
  next
    case (Some s)
    then have s: "p \<in> known st" "s = o_slots st p" by (auto simp: peek_known split: if_splits)
    have ok: "slot_ok s" using f s by (simp add: frame_def slots_ok_def)
    obtain s1 claimed where c: "claim_task_failure s m = (s1, claimed)" by (cases "claim_task_failure s m")
    note q = claim_quiet [OF c ok]
    define s2 where "s2 = (if claimed \<noteq> None \<and> claimed \<noteq> Some BUILDING then s1\<lparr>ts_failure_propagation_pending := True\<rparr> else s1)"
    have s2: "slot_ok s2 \<and> run_view s2 = run_view s" using q by (auto simp: s2_def slot_ok_def run_view_def members_of_def)
    have st': "st' = upd_slot p (\<lambda>_. s2) st \<or> (claimed \<noteq> None \<or> ts_failure_propagation_pending s2) \<and> st' = upd_slot p (\<lambda>_. mark_group_members_skipped s2 m) st"
      using e unfolding cancel_slot_def bind_act_def slot_state_def Some option.case prod.case sum.case Let_def c s2_def [symmetric]
      by (auto split: if_splits)
    have "ts_state s2 \<noteq> RUNNING" if "claimed \<noteq> None \<or> ts_failure_propagation_pending s2"
      using that q s2 by (auto simp: s2_def slot_ok_def split: if_splits)
    then have "slot_ok (mark_group_members_skipped s2 m) \<and> run_view (mark_group_members_skipped s2 m) = run_view s"
      if "claimed \<noteq> None \<or> ts_failure_propagation_pending s2" using that s2 by (simp add: skipped_quiet run_view_def split: if_splits)
    then show ?thesis using st' s2 s by (auto intro!: frame_upd [OF f])
  qed
  then show ?thesis unfolding keeps_def by blast
qed

lemma frame_cancel_slots: "keeps (frame q V) (cancel_slots m ps)"
  by (induction ps) (auto intro!: keeps_bind frame_cancel_slot keeps_ok)

lemma frame_commit_debts: "keeps (frame q V) (commit_debts ds)"
proof -
  have "quiet (\<lambda>s. fst (commit_failure_propagation s))" by (simp add: quiet_def commit_failure_propagation_def slot_ok_def run_view_def members_of_def)
  then show ?thesis
    by (induction ds rule: commit_debts.induct) (auto intro!: keeps_bind keeps_seq keeps_modify frame_quiet_upd keeps_ok keeps_slot_state)
qed

lemma frame_fail: "keeps (frame q V) (fail_run_submission r error)"
proof -
  have c: "keeps (frame q V) (cancel_unstarted_run r m)" for m
  proof -
    have "keeps (frame q V) (bind_act (cancel_slots m ps) (\<lambda>cancelled. bind_act (commit_debts cancelled) (\<lambda>owned.
        seq_act (each_act (\<lambda>(slot, _). try_consume slot) owned) (each_act (\<lambda>(_, producers). each_act try_consume producers) owned))))" for ps
      by (intro keeps_bind keeps_seq keeps_each frame_cancel_slots frame_commit_debts) (auto intro!: keeps_each frame_consume)
    then show ?thesis unfolding keeps_def cancel_unstarted_run_def by (auto split: option.splits)
  qed
  have k: "keeps (frame q V) (seq_act (cancel_unstarted_run r m) (finish_run_if_ready r))" for m
    by (intro keeps_seq c frame_quiet same_finish)
  have "frame q V st'" if f: "frame q V st" and e: "fail_run_submission r error st = (res, st')" "\<not> overflow res" for st res st'
  proof (cases "get_run st r")
    case (Inl e1)
    then show ?thesis using f e by (simp add: fail_run_submission_def)
  next
    case (Inr run)
    define m where "m = (case error of None \<Rightarrow> ''graph construction failed'' | Some e \<Rightarrow> what e)"
    define st1 where "st1 = (case error of None \<Rightarrow> st | Some e \<Rightarrow> record_run_error r e st)"
    define st2 where "st2 = upd_run r (\<lambda>r. r\<lparr>rn_submission_failed := True, rn_submission_closed := True\<rparr>)
      (if o_building_run_id st1 = r then st1\<lparr>o_building_run_id := INVALID_RUN_ID\<rparr> else st1)"
    have "frame q V st2" using f by (simp add: st2_def st1_def split: option.split)
    moreover have "seq_act (cancel_unstarted_run r m) (finish_run_if_ready r) st2 = (res, st')"
      using e(1) unfolding fail_run_submission_def Inr sum.case Let_def m_def [symmetric] st1_def [symmetric] st2_def [symmetric] .
    ultimately show ?thesis using keepsD [OF k _ _ e(2)] by blast
  qed
  then show ?thesis unfolding keeps_def by blast
qed

section \<open>Submission\<close>

lemma frame_wire: "keeps (frame q V) (wire_producers p ds acc)"
proof -
  have w: "quiet (\<lambda>s. s\<lparr>ts_fanout_consumers := a s\<rparr>)" "quiet (\<lambda>s. s\<lparr>ts_fanin_producers := b s\<rparr>)" "quiet (\<lambda>s. s\<lparr>ts_fanout_total := c s\<rparr>)" for a b c
    by (simp_all add: quiet_def slot_ok_def run_view_def members_of_def)
  have "keeps (frame q V) (wire_producer p d acc)" for d acc
    unfolding keeps_def
    by (auto simp: wire_producer_def bind_act_def slot_state_def Let_def split: option.splits if_splits prod.splits intro!: frame_quiet_upd w)
  then show ?thesis by (induction ds arbitrary: acc) (auto intro!: keeps_bind keeps_ok)
qed

lemma frame_propagate:
  assumes "V p = None"
  shows "keeps (frame q V) (propagate_failure r p m)"
proof -
  have "frame q V st'" if f: "frame q V st" and e: "propagate_failure r p m st = (res, st')" "\<not> overflow res" for st res st'
  proof -
    define st1 where "st1 = upd_slot p (\<lambda>s. fst (claim_task_failure s (non_empty_or m ''producer task failed''))) st"
    define m1 where "m1 = non_empty_or (ts_failure_message (o_slots st1 p)) ''producer task failed''"
    define st2 where "st2 = record_run_error r (RuntimeError m1) (upd_slot p (\<lambda>s. mark_group_members_skipped s m1) st1)"
    define st3 where "st3 = upd_slot p (\<lambda>s. fst (commit_failure_propagation s)) st2"
    have "quiet (\<lambda>s. fst (claim_task_failure s w))" for w by (simp add: quiet_def) (metis claim_quiet prod.collapse)
    then have "frame q V st1" unfolding st1_def using f by (intro frame_quiet_upd)
    then have "frame q V st2"
      unfolding st2_def frame_fields using not_running_slot [where V = V and p = p, OF _ assms] by (intro frame_upd) (auto simp: skipped_quiet run_view_def)
    then have f3: "frame q V st3"
      unfolding st3_def by (intro frame_quiet_upd) (auto simp: quiet_def commit_failure_propagation_def slot_ok_def run_view_def members_of_def)
    have "keeps (frame q V) (seq_act (try_consume p) (each_act try_consume (ts_fanin_producers (o_slots st2 p))))"
      by (intro keeps_seq keeps_each frame_consume)
    moreover have "st' = st3 \<or> seq_act (try_consume p) (each_act try_consume (ts_fanin_producers (o_slots st2 p))) st3 = (res, st')"
      using e(1) unfolding propagate_failure_def Let_def st1_def [symmetric] m1_def [symmetric] st2_def [symmetric] st3_def [symmetric] by (auto split: if_splits)
    ultimately show ?thesis using f3 keepsD [where I = "frame q V" and s = st3, OF _ f3 _ e(2)] by blast
  qed
  then show ?thesis unfolding keeps_def by blast
qed

lemma frame_publish:
  assumes "V p = None"
  shows "keeps (frame q V) (publish_task r p acc)"
proof -
  have "frame q V st'" if f: "frame q V st" and e: "publish_task r p acc st = (res, st')" "\<not> overflow res" for st res st'
  proof -
    obtain live poisoned m where acc: "acc = (live, poisoned, m)" by (cases acc)
    obtain s published ready where pb: "publish_slot (o_slots st p) live = (s, published, ready)" by (cases "publish_slot (o_slots st p) live")
    have f1: "frame q V (upd_slot p (\<lambda>_. s) st)"
      using pb by (intro frame_upd [OF f]) (auto simp: publish_slot_def slot_ok_def run_view_def members_of_def Let_def split: if_splits)
    have en: "keeps (frame q V) (seq_act (enqueue_ready p) (modify notify_ready))" by (intro keeps_seq frame_enqueue keeps_modify) simp
    show ?thesis
      using e f f1 keepsD [OF frame_propagate [where V = V and p = p, OF assms] f] keepsD [OF frame_propagate [where V = V and p = p, OF assms] f1]
      unfolding publish_task_def acc prod.case pb Let_def
      by (auto split: if_splits intro: keepsD [OF en, rotated])
  qed
  then show ?thesis unfolding keeps_def by blast
qed

lemma claim_frame:
  assumes n: "node_some q K st" and f: "frame q V st" and run: "current_building_run st = Inr run"
    and c: "claim_slot (rn_id run) bytes members timed_out m st = (Inr (Some ar), st1)"
  shows "frame q V st1 \<and> V (ar_slot ar) = None \<and> ar_slot ar \<in> known st1 \<and> \<not> ts_is_group (o_slots st1 (ar_slot ar)) \<and> ts_state (o_slots st1 (ar_slot ar)) = BUILDING"
proof -
  have i: "run_inv st" "live_ring (o_ring st)" using n by (simp_all add: node_some_def node_ok_def heap_ok_def)
  show ?thesis
  proof (rule claim_slot_cases [OF i run c])
    show ?thesis if "\<And>a. Inr (Some ar) \<noteq> Inr (Some a)" using that by blast
    fix ar1 ring
    assume a: "Inr (Some ar) = (Inr (Some ar1) :: exn + AllocResult option)" "ar_slot ar1 = int (length (rg_slot_states (o_ring st)))" "\<exists>x. rg_slot_states ring = rg_slot_states (o_ring st) @ [x]"
      and st1: "st1 = upd_run (rn_id run) (\<lambda>r. r\<lparr>
           rn_physical_tasks := rn_physical_tasks r @ [\<lparr>pt_slot = ar_slot ar1, pt_ended_members = replicate members 0\<rparr>],
           rn_task_slots := rn_task_slots r @ [ar_slot ar1], rn_active_tasks := rn_active_tasks r + 1\<rparr>)
         (upd_slot (ar_slot ar1) (\<lambda>_. fresh_task (rn_id run) (rn_lease run)) (st\<lparr>o_ring := ring\<rparr>))"
    let ?p = "ar_slot ar" and ?t = "fresh_task (rn_id run) (rn_lease run)"
    have p: "?p \<notin> known st" using a(1,2) by (simp add: known_def)
    have k: "known st1 = insert ?p (known st)" using a st1 by (auto simp: known_def upd_run_def upd_slot_def)
    have s: "o_slots st1 x = (if x = ?p then ?t else o_slots st x)" for x using a(1) st1 by (simp add: upd_run_def upd_slot_def)
    have t: "slot_ok ?t" "run_view ?t = None" "\<not> ts_is_group ?t" "ts_state ?t = BUILDING"
      by (simp_all add: fresh_task_def slot_reset_def slot_ok_def run_view_def)
    have v: "flight_view st = V" "slots_ok st" "o_completion_queue st = q" using f by (simp_all add: frame_def)
    have V: "V ?p = None" using p v(1) by (auto simp: flight_view_def)
    have "flight_view st1 = V" unfolding v(1) [symmetric] using p t(2) by (auto simp: fun_eq_iff flight_view_def k s)
    moreover have "slots_ok st1" using v(2) t(1) by (simp add: slots_ok_def k s)
    moreover have "o_completion_queue st1 = q" using v(3) st1 by (simp add: upd_run_def upd_slot_def)
    ultimately show ?thesis using V t by (simp add: frame_def k s)
  qed
qed

lemma frame_charge: "frame q V st \<Longrightarrow> frame q V (charge_scope p st)"
proof -
  have "quiet (\<lambda>s. s\<lparr>ts_fanout_total := n\<rparr>)" for n by (simp add: quiet_def slot_ok_def run_view_def members_of_def)
  then show "frame q V st \<Longrightarrow> frame q V (charge_scope p st)" by (simp add: charge_scope_def Let_def frame_quiet_upd)
qed

lemma known_charge: "known (charge_scope p st) = known st"
  by (simp add: charge_scope_def Let_def known_def upd_slot_def)

lemma safely_submit: "safely (frame q V) (node_some q K) (submit_impl rq timed_out) (\<lambda>_ _. True)"
proof (rule safelyI)
  fix st res st'
  assume f: "frame q V st" and n: "node_some q K st" and e: "submit_impl rq timed_out st = (res, st')" "\<not> overflow res"
  have "frame q V st'"
  proof (cases "\<exists>run. current_building_run st = Inr run \<and> check_submit st run rq = Inr ()")
    case False
    then show ?thesis using f e(1) by (auto simp: submit_impl_def split: sum.splits)
  next
    case True
    then obtain run where run: "current_building_run st = Inr run" "check_submit st run rq = Inr ()" by blast
    let ?cl = "claim_slot (rn_id run) 0 (length (sr_args_list rq)) timed_out ''Orchestrator: allocator shutdown'' st"
    obtain res1 st1 where c: "?cl = (res1, st1)" by (cases ?cl)
    show ?thesis
    proof (cases "\<exists>ar. res1 = Inr (Some ar)")
      case False
      then have "st' = st1" using e(1) by (auto simp: submit_impl_def run c split: sum.splits option.splits)
      then show ?thesis using f no_claim [OF n run(1) c] False by blast
    next
      case True
      then obtain ar where ar: "res1 = Inr (Some ar)" by blast
      let ?p = "ar_slot ar"
      note cl = claim_frame [OF n f run(1) c [unfolded ar]]
      define st2 where "st2 = upd_slot ?p (\<lambda>s. s\<lparr>ts_worker_type := sr_worker_type rq\<rparr>) (charge_scope ?p st1)"
      define ds where "ds = fst (infer_step (rn_id run) ?p rq st2)"
      define st3 where "st3 = snd (infer_step (rn_id run) ?p rq st2)"
      define st4 where "st4 = store_args ?p rq st3"
      have "quiet (\<lambda>s. s\<lparr>ts_worker_type := w\<rparr>)" "quiet (\<lambda>s. s\<lparr>ts_output_keys := ks s\<rparr>)" for w ks
        by (simp_all add: quiet_def slot_ok_def run_view_def members_of_def)
      then have f3: "frame q V st3"
        using cl unfolding st3_def st2_def by (simp add: infer_step_def Let_def frame_quiet_upd frame_charge)
      have "ts_state (o_slots st3 ?p) = BUILDING"
        using cl by (simp add: st3_def st2_def infer_step_def charge_scope_def upd_slot_def Let_def)
      moreover have "0 < length (sr_args_list rq)" using run(2) by (auto simp: check_submit_def reject_if_def split: if_splits)
      ultimately have "frame q V st4"
        unfolding st4_def store_args_def Let_def using cl by (intro frame_write [OF f3]) (auto simp: slot_ok_def)
      moreover have "bind_act (wire_producers ?p ds (0, False, [])) (\<lambda>acc. seq_act (publish_task (rn_id run) ?p acc)
          (ok (Some \<lparr>th_run_id = rn_id run, th_task_slot = ?p\<rparr>))) st4 = (res, st')"
        using e(1) unfolding submit_impl_def run c ar sum.case option.case prod.case Let_def st2_def [symmetric] case_prod_unfold
          st3_def [symmetric] st4_def [symmetric] ds_def [symmetric] fst_conv snd_conv .
      moreover have "keeps (frame q V) (bind_act (wire_producers ?p ds (0, False, [])) (\<lambda>acc. seq_act (publish_task (rn_id run) ?p acc)
          (ok (Some \<lparr>th_run_id = rn_id run, th_task_slot = ?p\<rparr>))))"
        by (intro keeps_bind keeps_seq frame_wire frame_publish keeps_ok) (use cl in blast)
      ultimately show ?thesis using keepsD [where I = "frame q V" and s = st4, OF _ _ _ e(2)] by blast
    qed
  qed
  then show "frame q V st' \<and> (\<forall>x. res = Inr x \<longrightarrow> True)" by blast
qed

lemma safely_alloc: "safely (frame q V) (node_some q K) (orch_alloc shape dtype identity timed_out) (\<lambda>_ _. True)"
proof (rule safelyI)
  fix st res st'
  assume f: "frame q V st" and n: "node_some q K st" and e: "orch_alloc shape dtype identity timed_out st = (res, st')"
  have "frame q V st'"
  proof (cases "current_building_run st")
    case (Inl x)
    then show ?thesis using f e by (auto simp: orch_alloc_def split: if_splits)
  next
    case (Inr run)
    let ?cl = "claim_slot (rn_id run) (align_up (numel_bytes shape dtype) HEAP_ALIGN) 1 timed_out ''Orchestrator::alloc: allocator shutdown'' st"
    obtain res1 st1 where c: "?cl = (res1, st1)" by (cases ?cl)
    show ?thesis
    proof (cases "shape \<noteq> [] \<and> length shape \<le> MAX_TENSOR_DIMS \<and> (\<exists>ar. res1 = Inr (Some ar))")
      case False
      then have "st' = st \<or> st' = st1 \<and> (\<forall>ar. res1 \<noteq> Inr (Some ar))"
        using e by (auto simp: orch_alloc_def Inr c [unfolded One_nat_def] split: sum.splits option.splits if_splits)
      then show ?thesis using f no_claim [OF n Inr c] by blast
    next
      case True
      then obtain ar where ar: "shape \<noteq> []" "\<not> MAX_TENSOR_DIMS < length shape" "res1 = Inr (Some ar)" by auto
      let ?p = "ar_slot ar" and ?key = "local_host (CanonicalIdentityHash identity)"
      note cl = claim_frame [OF n f Inr c [unfolded ar(3)]]
      define st2 where "st2 = charge_scope ?p (upd_slot ?p (\<lambda>s. s\<lparr>ts_fanin_count := 0, ts_fanin_released := 0\<rparr>) st1)"
      define st3 where "st3 = (if (case ar_heap_ptr ar of None \<Rightarrow> 0 | Some p \<Rightarrow> p) \<noteq> 0
        then (upd_slot ?p (\<lambda>s. s\<lparr>ts_output_keys := ts_output_keys s @ [?key]\<rparr>) st2)
          \<lparr>o_tensormap := tm_insert (o_tensormap st2) (rn_id run) ?key whole_footprint ?p\<rparr> else st2)"
      have w: "quiet (\<lambda>s. s\<lparr>ts_fanin_count := 0, ts_fanin_released := 0\<rparr>)" "quiet (\<lambda>s. s\<lparr>ts_output_keys := ks s\<rparr>)" for ks
        by (simp_all add: quiet_def slot_ok_def run_view_def members_of_def)
      have f3: "frame q V st3" using cl w by (simp add: st3_def st2_def frame_quiet_upd frame_charge)
      have "\<not> ts_failure_propagation_pending (o_slots st3 ?p)"
      proof -
        have "slot_ok (o_slots st3 ?p)" using f3 cl by (simp add: frame_def slots_ok_def st3_def st2_def known_def charge_scope_def upd_slot_def Let_def)
        moreover have "ts_state (o_slots st3 ?p) = BUILDING" using cl by (simp add: st3_def st2_def charge_scope_def upd_slot_def Let_def)
        ultimately show ?thesis by (auto simp: slot_ok_def)
      qed
      then have "frame q V (upd_slot ?p (\<lambda>s. s\<lparr>ts_fanout_released := 1, ts_state := COMPLETED\<rparr>) st3)"
        using cl by (intro frame_write [OF f3]) (auto simp: slot_ok_def)
      moreover have "st' = upd_slot ?p (\<lambda>s. s\<lparr>ts_fanout_released := 1, ts_state := COMPLETED\<rparr>) st3"
        using e ar unfolding orch_alloc_def Inr c sum.case Let_def st3_def st2_def by auto
      ultimately show ?thesis by simp
    qed
  qed
  then show "frame q V st' \<and> (\<forall>x. res = Inr x \<longrightarrow> True)" by blast
qed

section \<open>Runs and scopes\<close>

lemma frame_begin: "keeps (frame q V) begin_run"
proof -
  have a: "keeps (frame q V) (seq_act activate_fifo_head (ok r))" for r :: RunId by (intro keeps_seq frame_quiet same_activate keeps_ok)
  have b: "frame q V (st\<lparr>o_next_run_id := x, o_runs := y, o_run_fifo := z\<rparr>) = frame q V st" for st x y z
    by (rule frame_cong) (simp_all add: known_def)
  have c: "frame q V (st\<lparr>o_next_run_id := x\<rparr>) = frame q V st" for st x by (rule frame_cong) (simp_all add: known_def)
  have d: "frame q V st'" if "seq_act activate_fifo_head (ok r) (st\<lparr>o_next_run_id := x, o_runs := y, o_run_fifo := z, o_building_run_id := w\<rparr>) = (res, st')"
    "\<not> overflow res" "frame q V st" for r :: RunId and st x y z w res st' using keepsD [OF a _ that(1,2)] that(3) by (simp add: b)
  have "keeps (frame q V) begin_run_admit"
    unfolding keeps_def begin_run_admit_def by (auto simp: Let_def c split: if_splits option.splits intro: d)
  then have "keeps (frame q V) (bind_act begin_run_admit (\<lambda>r. ok (Some r)))" by (intro keeps_bind keeps_ok)
  then show ?thesis unfolding keeps_def begin_run_def by (auto split: if_splits)
qed

lemma safely_release: "safely (frame q V) (node_some q K) (release_run r) (\<lambda>_ _. True)"
proof (rule safelyI)
  fix st res st'
  assume f: "frame q V st" and n: "node_some q K st" and e: "release_run r st = (res, st')"
  have x: "frame q V (st\<lparr>o_runs := rs\<rparr>)" for rs using f frame_cong [of "st\<lparr>o_runs := rs\<rparr>" st q V] by (simp add: known_def)
  let ?rs = "AList.delete r (o_runs st)"
  have "st' = st \<or> st' = st\<lparr>o_runs := ?rs\<rparr> \<or> (\<exists>run ring. find_run st r = Some run \<and> is_terminal (rn_phase run) \<and> ?rs = [] \<and>
      reset_to_empty (o_ring st) = Inr ring \<and> st' = st\<lparr>o_runs := ?rs, o_ring := ring\<rparr>)"
  proof (cases "\<exists>run. find_run st r = Some run \<and> is_terminal (rn_phase run)")
    case False
    then show ?thesis using e by (auto simp: release_run_def split: option.splits if_splits)
  next
    case True
    then have c: "compact_if_quiescent (st\<lparr>o_runs := ?rs\<rparr>) = (res, st')" using e by (auto simp: release_run_def)
    then show ?thesis using True unfolding compact_if_quiescent_def quiescent_def by (cases "reset_to_empty (o_ring st)") (simp_all split: if_splits)
  qed
  then consider "st' = st" | "st' = st\<lparr>o_runs := ?rs\<rparr>"
    | run ring where "find_run st r = Some run" "is_terminal (rn_phase run)" "?rs = []" "reset_to_empty (o_ring st) = Inr ring" "st' = st\<lparr>o_runs := ?rs, o_ring := ring\<rparr>"
    by blast
  then have "frame q V st'"
  proof cases
    case (3 run ring)
    have i: "run_inv st" and ld: "loads {#} st" using n by (simp_all add: node_some_def node_ok_def)
    have "rn_active_tasks run = 0" using i 3(1,2) by (simp add: run_inv_def runs_ok_def phases_ok_def run_ok_def)
    moreover have "finite (live_tasks st r)" by (rule finite_subset [OF _ finite_known [of st]]) (auto simp: live_tasks_def)
    ultimately have "live_tasks st r = {}" using ld 3(1) by (auto simp: loads_def)
    moreover have "live_tasks st a = {}" if "a \<noteq> r" for a
    proof -
      have "map_of ?rs a = map_of (o_runs st) a" using that by (simp add: delete_conv')
      then have "find_run st a = None" using 3(3) by (simp add: find_run_def)
      then show ?thesis using ld by (auto simp: loads_def)
    qed
    ultimately have "ts_state (o_slots st p) = CONSUMED" if "p \<in> known st" for p using that unfolding live_tasks_def by blast
    then have "flight_view st = (\<lambda>_. None)" by (simp add: flight_view_def run_view_def fun_eq_iff)
    then have "V = (\<lambda>_. None)" using f by (simp add: frame_def)
    moreover have "known st' = {}" using 3(4,5) by (simp add: known_def reset_drained)
    ultimately show ?thesis using f 3(5) by (simp add: frame_def flight_view_def slots_ok_def fun_eq_iff)
  qed (use f x in simp_all)
  then show "frame q V st' \<and> (\<forall>x. res = Inr x \<longrightarrow> True)" by blast
qed

lemma frame_scopes: "keeps (frame q V) scope_begin" "keeps (frame q V) scope_end"
proof -
  show "keeps (frame q V) scope_begin" unfolding keeps_def by (auto simp: scope_begin_def split: sum.splits)
  have "keeps (frame q V) (seq_act (each_act release_ref ps) (modify (\<lambda>st. st\<lparr>o_scope := butlast (o_scope st)\<rparr>)))" for ps
    by (intro keeps_seq keeps_each keeps_modify) (simp_all add: release_ref_def frame_consume)
  then show "keeps (frame q V) scope_end" unfolding keeps_def scope_end_def by (auto split: if_splits)
qed

section \<open>All calls\<close>

definition is_report :: "OrchCall \<Rightarrow> bool" where
  "is_report call \<longleftrightarrow> (\<exists>k. call = EndpointComplete k) \<or> call = DrainCompletion"

lemma frame_call:
  assumes n: "node_some q K st" and f: "frame q V st" and e: "perform call st = (res, st')" "\<not> overflow res" and c: "\<not> is_report call"
  shows "frame q V st'"
proof -
  note seen = frame_quiet [OF unchanged_modify, OF view_accepts(1)] frame_quiet [OF unchanged_modify, OF view_accepts(2)]
    frame_quiet [OF unchanged_modify, OF view_accepts(3)]
  have safe: "safely (frame q V) (node_some q K) (discard m) (\<lambda>_ _. True)" if "safely (frame q V) (node_some q K) m (\<lambda>_ _. True)" for m :: "(Orch, 'x) action"
    unfolding discard_def by (rule safely_seq [OF that]) (simp add: safely_ok)
  have "safely (frame q V) (node_some q K) (perform call) (\<lambda>_ _. True)"
  proof (cases call)
    case (Alloc shape dtype identity timed_out)
    then show ?thesis using safe [OF safely_alloc] by simp
  next
    case (Submit rq timed_out)
    then show ?thesis using safe [OF safely_submit] by simp
  next
    case (ReleaseRun r)
    then show ?thesis using safely_release by simp
  qed (use c in \<open>simp_all add: is_report_def keeps_safely keeps_discard same_bookkeeping [THEN frame_quiet] frame_begin frame_fail frame_scopes seen\<close>)
  from safelyD [OF this f n e] show ?thesis by blast
qed

end
