(* ===== verification/Dispatch_Safety.thy ===== *)
theory Dispatch_Safety
  imports Node_Calls Flight_Frame Sched_Dispatch
begin

text \<open>
  The dispatch passes keep the invariant of the node. A claim makes a ready task run, so it has no completion in the queue. A worker that
  cannot publish a dispatch completes it at once, inside the pass; a task that is not a group gets at most one such completion, a
  group gets its verdict only with the report of its last member, and the members of a sub-worker group behind a failed one are not
  dispatched. So no completion is queued twice, and whatever the endpoints answer the pass leaves a node as \<open>Node_Calls\<close> has them.
\<close>

section \<open>What a completion does to its task\<close>

definition bare :: "TaskSlotState \<Rightarrow> TaskSlotState" where
  "bare s = s\<lparr>ts_pipeline_lease := no_lease\<rparr>"

lemma bare_view: "task_view st' = task_view st \<Longrightarrow> bare (o_slots st' p) = bare (o_slots st p)"
proof -
  have "bare (o_slots st p) = fst (task_view st) p" for st by (simp add: bare_def task_view_def unleased_def)
  then show "task_view st' = task_view st \<Longrightarrow> bare (o_slots st' p) = bare (o_slots st p)" by simp
qed

lemma bare_eqD:
  assumes "bare s = bare s'"
  shows "ts_is_group s = ts_is_group s'" "ts_state s = ts_state s'" "ts_group_failed s = ts_group_failed s'"
    "ts_group_args s = ts_group_args s'" "group_after n es s = group_after n es s'" "ref_view s = ref_view s'"
proof -
  have b: "ts_is_group (bare s) = ts_is_group s" "ts_state (bare s) = ts_state s" "ts_group_failed (bare s) = ts_group_failed s"
    "ts_group_args (bare s) = ts_group_args s" "group_after n es (bare s) = group_after n es s" "ref_view (bare s) = ref_view s" for s
    by (simp_all add: bare_def group_after_def group_ran_def ref_view_def split: option.split)
  show "ts_is_group s = ts_is_group s'" "ts_state s = ts_state s'" "ts_group_failed s = ts_group_failed s'"
    "ts_group_args s = ts_group_args s'" "group_after n es s = group_after n es s'" "ref_view s = ref_view s'"
    using b [of s] b [of s'] assms by simp_all
qed

text \<open>\<open>queued\<close> is what the report of \<open>k\<close> on a task in state \<open>s\<close> puts into the queue, \<open>noted\<close> the state it leaves.\<close>

definition queued :: "TaskSlotState \<Rightarrow> WorkerCompletion \<Rightarrow> WorkerCompletion list" where
  "queued s k = (if ts_is_group s then (case snd (group_member_done s k) of None \<Rightarrow> [] | Some t \<Rightarrow> [t]) else [k])"

definition noted :: "TaskSlotState \<Rightarrow> WorkerCompletion \<Rightarrow> TaskSlotState" where
  "noted s k = (if ts_is_group s then fst (group_member_done s k) else s)"

lemma report_frame:
  assumes "p \<in> known st" "wc_task_slot k = p" "report_if b k st = (res, st')"
  shows "res = Inr ()" "o_slots st' = o_slots st" "o_completion_queue st' = o_completion_queue st" "o_ring st' = o_ring st"
proof -
  have "res = Inr () \<and> (st' = st \<or> (\<exists>r e. st' = record_run_error r e st))"
    using assms by (auto simp: report_if_def report_task_error_def bind_act_def slot_state_known modify_def ok_def split: if_splits)
  moreover have "o_slots (record_run_error r e st) = o_slots st" "o_completion_queue (record_run_error r e st) = o_completion_queue st"
    "o_ring (record_run_error r e st) = o_ring st" for r e
    by (simp_all add: record_run_error_def upd_run_def split: option.split)
  ultimately show "res = Inr ()" "o_slots st' = o_slots st" "o_completion_queue st' = o_completion_queue st" "o_ring st' = o_ring st"
    by auto
qed

lemma worker_done_effect:
  assumes p: "p \<in> known st" "wc_task_slot k = p" and e: "worker_done k st = (res, st')"
  shows "res = Inr () \<and> o_slots st' = (o_slots st)(p := noted (o_slots st p) k) \<and>
    o_completion_queue st' = o_completion_queue st @ queued (o_slots st p) k \<and> o_ring st' = o_ring st"
proof -
  let ?s = "o_slots st p" and ?st = "note_endpoint_capacity (wc_worker_id k) (wc_admissible_run_resource_sets k) st"
  let ?rest = "if ts_is_group ?s then (case group_member_done ?s k of
        (s', None) \<Rightarrow> modify (\<lambda>st. notify_ready (upd_slot p (\<lambda>_. s') st))
      | (s', Some t) \<Rightarrow> seq_act (modify (upd_slot p (\<lambda>_. s')))
          (seq_act (report_if (\<not> is_failure (wc_outcome k) \<and> is_failure (wc_outcome t)) t) (modify (queue_completion t))))
      else modify (queue_completion k)"
  have c: "p \<in> known ?st" "o_slots ?st = o_slots st" "o_completion_queue ?st = o_completion_queue st" "o_ring ?st = o_ring st"
    using p(1) by (simp_all add: note_endpoint_capacity_def known_def)
  obtain r1 st1 where r: "report_if (is_failure (wc_outcome k)) k ?st = (r1, st1)" by (cases "report_if (is_failure (wc_outcome k)) k ?st")
  note f = report_frame [OF c(1) p(2) r]
  have e1: "?rest st1 = (res, st')"
    using e r f(1) by (simp add: worker_done_def p(2) bind_act_def [of "slot_state p"] slot_state_known [OF p(1)] Let_def
        seq_act_def [of "modify (note_endpoint_capacity _ _)"] bind_act_def [of "modify (note_endpoint_capacity _ _)"] modify_def [of "note_endpoint_capacity _ _"]
        seq_act_def [of "report_if (is_failure (wc_outcome k)) k"] bind_act_def [of "report_if (is_failure (wc_outcome k)) k"])
  show ?thesis
  proof (cases "ts_is_group ?s")
    case False
    then show ?thesis using e1 f c by (auto simp: modify_def queue_completion_def noted_def queued_def)
  next
    case True
    obtain s' t where g: "group_member_done ?s k = (s', t)" by (cases "group_member_done ?s k")
    show ?thesis
    proof (cases t)
      case None
      then show ?thesis using e1 f c True g by (auto simp: modify_def noted_def queued_def notify_ready_def upd_slot_def)
    next
      case (Some v)
      let ?u = "upd_slot p (\<lambda>_. s') st1" and ?b = "\<not> is_failure (wc_outcome k) \<and> is_failure (wc_outcome v)"
      have v: "wc_task_slot v = p" using group_done_slot [of ?s k v] g Some p(2) by simp
      have u: "p \<in> known ?u" using p(1) c f(4) by (simp add: known_def upd_slot_def note_endpoint_capacity_def)
      obtain r2 st2 where r2: "report_if ?b v ?u = (r2, st2)" by (cases "report_if ?b v ?u")
      note f2 = report_frame [OF u v r2]
      have "(res, st') = (Inr (), queue_completion v st2)"
        using e1 True g Some r2 f2(1) by (simp add: seq_act_def bind_act_def modify_def)
      then show ?thesis using f f2 c True g Some by (simp add: queue_completion_def noted_def queued_def upd_slot_def)
    qed
  qed
qed

lemma complete_effect:
  assumes i: "run_inv st" and p: "p \<in> known st" "wc_task_slot k = p" and e: "endpoint_complete k st = (res, st')" "\<not> overflow res"
  obtains s where "bare s = bare (o_slots st p)" "res = Inr ()" "o_slots st' p = noted s k"
    "o_completion_queue st' = o_completion_queue st @ queued s k" "known st' = known st" "\<And>q. q \<noteq> p \<Longrightarrow> bare (o_slots st' q) = bare (o_slots st q)"
proof -
  let ?st = "note_endpoint_capacity (wc_worker_id k) (wc_admissible_run_resource_sets k) st"
  obtain r1 st1 where m: "mark_task_ended p (wc_group_index k) ?st = (r1, st1)" by (cases "mark_task_ended p (wc_group_index k) ?st")
  have e1: "(case r1 of Inl e \<Rightarrow> (Inl e, st1) | Inr _ \<Rightarrow> worker_done k st1) = (res, st')"
    using e(1) m by (auto simp: endpoint_complete_def p(2) seq_act_def bind_act_def modify_def split: sum.splits)
  have "\<not> overflow r1" using e1 e(2) by (auto split: sum.splits)
  then obtain x where r1: "r1 = Inr x" using runs_toD [OF returns_mark_ended _ m] i by auto
  have v: "node_view st1 = node_view st" using unchangedD [OF same_mark_ended m] by simp
  then have t: "task_view st1 = task_view st" and q: "o_completion_queue st1 = o_completion_queue st" by (simp_all add: node_view_def)
  have k: "known st1 = known st" using view_cong(1) [OF t] by simp
  with p(1) have "p \<in> known st1" by simp
  from worker_done_effect [OF this p(2)] e1 r1
  have "res = Inr () \<and> o_slots st' = (o_slots st1)(p := noted (o_slots st1 p) k) \<and>
    o_completion_queue st' = o_completion_queue st1 @ queued (o_slots st1 p) k \<and> o_ring st' = o_ring st1" by simp
  then show thesis using that [of "o_slots st1 p"] bare_view [OF t] q k by (simp add: known_def)
qed

text \<open>The invariant, for a report that queues nothing for a task already queued.\<close>

definition waits_in_queue :: "TaskSlot \<Rightarrow> Orch \<Rightarrow> bool" where
  "waits_in_queue p st \<longleftrightarrow> p \<in> wc_task_slot ` set (o_completion_queue st)"

lemma complete_node:
  assumes n: "node_inv st" "run_task p st" "wc_task_slot k = p" and e: "endpoint_complete k st = (res, st')" "\<not> overflow res"
    and w: "waits_in_queue p st \<longrightarrow> o_completion_queue st' = o_completion_queue st"
  shows "node_inv st' \<and> run_task p st'"
proof -
  let ?q = "o_completion_queue st"
  let ?K = "wc_task_slot ` set ?q"
  have "node_some ?q ?K st \<and> run_task p st" using n by (simp add: node_inv_some)
  from runs_toD [OF runs_endpoint_complete [OF n(3) [symmetric]] this e] have r: "reported ?q ?K p st'" by blast
  have d: "distinct (map wc_task_slot ?q)" using n by (simp add: node_inv_some)
  have i: "run_inv st" "p \<in> known st" using n(1,2) by (simp_all add: node_inv_some node_some_rest run_task_def)
  obtain s where s: "bare s = bare (o_slots st p)" "o_slots st' p = noted s k" "known st' = known st"
    by (rule complete_effect [OF i n(3) e])
  have "ts_state (noted s k) = ts_state s" using group_done_view [of s k] by (simp add: noted_def ref_view_def)
  then have "run_task p st'" using s n(2) bare_eqD(2) [OF s(1)] by (simp add: run_task_def)
  moreover have "node_inv st'"
    using r unfolding reported_def
  proof (elim disjE exE conjE)
    assume m: "node_some ?q ?K st'"
    then have "o_completion_queue st' = ?q" by (simp add: node_some_def)
    then show ?thesis using m d by (simp add: node_inv_some)
  next
    fix t
    assume t: "wc_task_slot t = p" and m: "node_some (?q @ [t]) (insert p ?K) st'"
    then have q: "o_completion_queue st' = ?q @ [t]" by (simp add: node_some_def)
    then have "p \<notin> ?K" using w by (auto simp: waits_in_queue_def)
    then show ?thesis using m d t q by (simp add: node_inv_some)
  qed
  ultimately show ?thesis by blast
qed

section \<open>What a worker reports while it is given a dispatch\<close>

text \<open>Nothing, or a failure of the dispatch itself, which is then accepted at most once before.\<close>

definition failed_at_once :: "WorkerDispatch \<Rightarrow> LaneEvent list \<Rightarrow> WorkerCompletion \<Rightarrow> bool" where
  "failed_at_once d events c \<longleftrightarrow> wc_task_slot c = wd_task_slot d \<and> wc_group_index c = wd_group_index d \<and> is_failure (wc_outcome c) \<and>
     (\<exists>k. events = [OnComplete k c] \<or> (\<exists>d'. events = [OnAccept d', OnComplete k c] \<and> wd_task_slot d' = wd_task_slot d))"

definition dispatch_events :: "WorkerDispatch \<Rightarrow> LaneEvent list \<Rightarrow> bool" where
  "dispatch_events d events \<longleftrightarrow> (\<exists>d'. events = [Submitted d']) \<or> (\<exists>c. failed_at_once d events c)"

lemma unpublished_events: "wd_task_slot d' = wd_task_slot d \<Longrightarrow> wd_group_index d' = wd_group_index d \<Longrightarrow> dispatch_events d (complete_unpublished d' m)"
  by (auto simp: dispatch_events_def failed_at_once_def complete_unpublished_def unpublished_def is_failure_def)

lemma submission_events:
  assumes "wd_task_slot d' = wd_task_slot d" "wd_group_index d' = wd_group_index d"
    "submit_dispatch None answer d' i run wt = (result, events, wt')" "is_reported result"
  shows "dispatch_events d events"
proof -
  have f: "dispatch_events d (fst (fail_submission None v m owned w))" if "wd_task_slot v = wd_task_slot d" "wd_group_index v = wd_group_index d" for v m owned w
    using that by (auto simp: fail_submission_def finish_progress_dispatch_def dispatch_completed_def dispatch_events_def failed_at_once_def
        final_completion_def unpublished_def is_failure_def Let_def split: option.split)
  show ?thesis
  proof (cases answer)
    case (Published observation_failed)
    then show ?thesis using assms(3,4) by (auto simp: submit_dispatch_def Let_def is_reported_def dispatch_events_def split: if_splits)
  next
    case (Threw reason owned)
    let ?d = "d'\<lparr>wd_dispatch_id := wt_next_dispatch_id wt\<rparr>"
    have "\<exists>m w. fail_submission None ?d m owned w = (events, wt')"
      using assms(3,4) Threw by (auto simp: submit_dispatch_def Let_def is_reported_def split: if_splits)
    then obtain m w where "fail_submission None ?d m owned w = (events, wt')" by blast
    then show ?thesis using f [of ?d m owned w] assms(1,2) by simp
  qed
qed

lemma lane_dispatch_events:
  "wt_dispatch None answer d wt = (events, wt') \<Longrightarrow> dispatch_events d events"
  "dispatch_prepared None answer run d wt = (events, wt') \<Longrightarrow> dispatch_events d events"
proof -
  have s: "dispatch_events d events" if "(if is_reported r then (es, w) else (complete_unpublished d' m, w')) = (events, wt')"
    "submit_dispatch None answer d' i q v = (r, es, w)" "wd_task_slot d' = wd_task_slot d" "wd_group_index d' = wd_group_index d" for r es w w' d' m i q v
    using that submission_events [OF that(3,4,2)] unpublished_events [OF that(3,4)] by (auto split: if_splits)
  show "wt_dispatch None answer d wt = (events, wt') \<Longrightarrow> dispatch_events d events"
    by (auto simp: wt_dispatch_def Let_def unpublished_events split: if_splits prod.splits intro: s)
  show "dispatch_prepared None answer run d wt = (events, wt') \<Longrightarrow> dispatch_events d events"
    by (auto simp: dispatch_prepared_def Let_def unpublished_events split: if_splits prod.splits option.splits intro: s)
qed

lemma node_inv_quiet:
  assumes "node_inv st" "node_view st' = node_view st" "run_inv st'"
  shows "node_inv st'"
proof -
  have "o_completion_queue st' = o_completion_queue st" using assms(2) by (simp add: node_view_def)
  then show ?thesis using assms node_some_quiet [OF assms(2,3)] by (simp add: node_inv_some)
qed

lemma node_inv_runs: "node_inv st \<Longrightarrow> run_inv st"
  by (simp add: node_inv_some node_some_rest)

text \<open>A failure at once comes after at most an acceptance, which changes nothing the invariant is about.\<close>

definition fails_at_once :: "WorkerDispatch \<Rightarrow> Orch \<Rightarrow> WorkerCompletion \<Rightarrow> Orch \<Rightarrow> bool" where
  "fails_at_once d st c st1 \<longleftrightarrow> wc_task_slot c = wd_task_slot d \<and> wc_group_index c = wd_group_index d \<and> is_failure (wc_outcome c) \<and>
     node_view st1 = node_view st \<and> node_inv st1 \<and> node_step\<^sup>*\<^sup>* st st1"

lemma dispatch_effect:
  assumes n: "node_inv (sc_orch sc)" and e: "dispatch_claimed env w d prepared sc = (res, sc')"
  shows "(res = Inr () \<and> sc_orch sc' = sc_orch sc) \<or>
    (\<exists>c st1. fails_at_once d (sc_orch sc) c st1 \<and> endpoint_complete c st1 = (res, sc_orch sc'))"
proof -
  let ?st = "sc_orch sc"
  let ?sc = "sc\<lparr>sc_dispatched_total := sc_dispatched_total sc + 1\<rparr>"
  let ?given = "if prepared then dispatch_prepared None (ep_submit env (sc_asked ?sc)) (map_option ts_run_id (peek_slot (sc_orch ?sc) (wd_task_slot d))) d (worker_at w ?sc)
    else wt_dispatch None (ep_submit env (sc_asked ?sc)) d (worker_at w ?sc)"
  obtain events wt' where g: "?given = (events, wt')" by (cases ?given)
  then have ev: "dispatch_events d events" using lane_dispatch_events by (auto split: if_splits)
  have l: "lift_orch (each_act deliver events) (take_over w events (put_worker w wt' (asked ?sc))) = (res, sc')"
    using e unfolding dispatch_claimed_def Let_def g by simp
  have d: "each_act deliver events ?st = (res, sc_orch sc')"
    using l by (auto simp: lift_orch_def split: prod.splits)
  from ev consider (submitted) d' where "events = [Submitted d']"
    | (done_first) c k where "failed_at_once d events c" "events = [OnComplete k c]"
    | (accepted) c k d' where "failed_at_once d events c" "events = [OnAccept d', OnComplete k c]"
    by (auto simp: dispatch_events_def failed_at_once_def)
  then show ?thesis
  proof cases
    case submitted
    then show ?thesis using d by (simp add: seq_act_def bind_act_def ok_def)
  next
    case done_first
    then have "endpoint_complete c ?st = (res, sc_orch sc')"
      using d by (auto simp: seq_act_def bind_act_def ok_def split: prod.splits sum.splits)
    then show ?thesis using done_first(1) n by (auto simp: fails_at_once_def failed_at_once_def)
  next
    case accepted
    let ?st1 = "mark_task_accepted (wd_task_slot d') ?st"
    have "node_view ?st1 = node_view ?st" by simp
    then have "node_inv ?st1" using node_inv_quiet [OF n] node_inv_runs [OF n] by simp
    moreover have "node_step ?st ?st1"
      using node_step.performed [of "EndpointAccepted (wd_task_slot d')" ?st "Inr ()" ?st1] by (simp add: modify_def)
    moreover have "endpoint_complete c ?st1 = (res, sc_orch sc')"
      using d accepted(2) by (auto simp: seq_act_def bind_act_def ok_def modify_def split: prod.splits sum.splits)
    ultimately have "fails_at_once d ?st c ?st1" "endpoint_complete c ?st1 = (res, sc_orch sc')"
      using accepted(1) by (simp_all add: fails_at_once_def failed_at_once_def r_into_rtranclp)
    then show ?thesis by blast
  qed
qed

section \<open>Which tasks a pass starts\<close>

text \<open>Since \<open>st0\<close> the only tasks that changed their state are ready tasks of the runs \<open>R\<close>, which run now.\<close>

definition started :: "RunId set \<Rightarrow> Orch \<Rightarrow> Orch \<Rightarrow> bool" where
  "started R st0 st \<longleftrightarrow> known st = known st0 \<and> (\<forall>p. ts_run_id (o_slots st p) = ts_run_id (o_slots st0 p) \<and>
     (ts_state (o_slots st p) = ts_state (o_slots st0 p) \<or>
      ts_state (o_slots st0 p) = READY \<and> ts_state (o_slots st p) = RUNNING \<and> ts_run_id (o_slots st0 p) \<in> R))"

lemma started_refl: "started R st st"
  by (simp add: started_def)

lemma started_cong:
  assumes "started R st0 st" "known st' = known st" "\<And>q. ref_view (o_slots st' q) = ref_view (o_slots st q)"
  shows "started R st0 st'"
proof -
  have "ts_run_id (o_slots st' q) = ts_run_id (o_slots st q) \<and> ts_state (o_slots st' q) = ts_state (o_slots st q)" for q
    using assms(3) [of q] by (simp add: ref_view_def)
  then show ?thesis using assms(1,2) by (simp add: started_def)
qed

lemma started_claim:
  assumes "started R st0 st" "claim_for_dispatch (o_slots st p) = (s, claimed)" "ts_run_id (o_slots st p) \<in> R" "ref_view s' = ref_view s"
  shows "started R st0 (upd_slot p (\<lambda>_. s') st)"
proof -
  have "ts_run_id s' = ts_run_id (o_slots st p) \<and> (ts_state s' = ts_state (o_slots st p) \<or> ts_state (o_slots st p) = READY \<and> ts_state s' = RUNNING)"
    using assms(2,4) by (auto simp: claim_for_dispatch_def ref_view_def split: if_splits)
  moreover have "known st = known st0" "ts_run_id (o_slots st p) = ts_run_id (o_slots st0 p)"
    and "ts_state (o_slots st p) = READY \<Longrightarrow> ts_state (o_slots st0 p) = READY"
    using assms(1) unfolding started_def by (blast, blast, metis TaskState.distinct(23))
  ultimately show ?thesis using assms(1,3) unfolding started_def known_def upd_slot_def by auto
qed

lemma noted_view: "ref_view (noted s k) = ref_view s"
  by (simp add: noted_def group_done_view)

lemma complete_started:
  assumes "node_inv st" "p \<in> known st" "wc_task_slot k = p" "endpoint_complete k st = (res, st')" "\<not> overflow res" "started R st0 st"
  shows "started R st0 st'"
proof -
  obtain s where s: "bare s = bare (o_slots st p)" "o_slots st' p = noted s k" "known st' = known st"
    and q: "\<And>q. q \<noteq> p \<Longrightarrow> bare (o_slots st' q) = bare (o_slots st q)"
    by (rule complete_effect [OF node_inv_runs [OF assms(1)] assms(2-5)]) blast
  have "ref_view (o_slots st' q) = ref_view (o_slots st q)" for q
    using bare_eqD(6) [OF s(1)] bare_eqD(6) [OF q [of q]] s(2) by (cases "q = p") (simp_all add: noted_view)
  then show ?thesis using started_cong [OF assms(6) s(3)] by blast
qed

section \<open>Queues, claims and dispatches\<close>

text \<open>The node is where steps of \<open>Node_Calls\<close> lead from \<open>st0\<close>, and only tasks of the runs \<open>R\<close> were started.\<close>

definition disp :: "RunId set \<Rightarrow> Orch \<Rightarrow> Scheduler \<Rightarrow> bool" where
  "disp R st0 sc \<longleftrightarrow> node_inv (sc_orch sc) \<and> started R st0 (sc_orch sc) \<and> node_step\<^sup>*\<^sup>* st0 (sc_orch sc)"

definition at_slot :: "TaskSlot \<Rightarrow> TaskSlotState \<Rightarrow> Scheduler \<Rightarrow> bool" where
  "at_slot p s sc \<longleftrightarrow> p \<in> known (sc_orch sc) \<and> o_slots (sc_orch sc) p = s"

text \<open>A task that runs and has no completion queued.\<close>

definition fresh_run :: "TaskSlot \<Rightarrow> Scheduler \<Rightarrow> bool" where
  "fresh_run p sc \<longleftrightarrow> run_task p (sc_orch sc) \<and> \<not> waits_in_queue p (sc_orch sc)"

lemma disp_orch: "sc_orch sc' = sc_orch sc \<Longrightarrow> disp R st0 sc' = disp R st0 sc"
  by (simp add: disp_def)

lemma disp_queues:
  assumes "disp R st0 sc"
  shows "disp R st0 (sc\<lparr>sc_orch := (sc_orch sc)\<lparr>o_ready_sub_queue := subs, o_ready_next_level_queues := queues\<rparr>\<rparr>)"
  using assms node_step.requeued [of "sc_orch sc" queues subs]
  by (auto simp: disp_def ready_queues_inv started_def known_def intro: rtranclp.rtrancl_into_rtrancl)

lemma put_queues_disp [simp]: "disp R st0 sc \<Longrightarrow> disp R st0 (put_queues queues sc)" "at_slot p s (put_queues queues sc) = at_slot p s sc"
  using disp_queues [where sc = sc and subs = "o_ready_sub_queue (sc_orch sc)" and queues = "Some queues"] by (simp_all add: put_queues_def at_slot_def known_def)

lemma pop_sub_disp [simp]: "disp R st0 sc \<Longrightarrow> disp R st0 (sc\<lparr>sc_orch := (sc_orch sc)\<lparr>o_ready_sub_queue := q\<rparr>\<rparr>)"
  using disp_queues [where sc = sc and subs = q and queues = "o_ready_next_level_queues (sc_orch sc)"] by simp

lemma safely_slot: "safely (disp R st0) P (lift_orch (slot_state p)) (\<lambda>s sc. at_slot p s sc \<and> P sc)"
  by (rule safelyI) (auto simp: lift_orch_def slot_state_def peek_known at_slot_def split: option.splits if_splits)

lemma safely_pop_group: "safely (disp R st0) (at_slot p s) (pop_group run) (\<lambda>_. at_slot p s)"
  by (rule safelyI) (auto simp: pop_group_def split: option.splits)

lemma safely_enqueue: "safely (disp R st0) P (lift_orch (enqueue_ready p)) (\<lambda>_ _. True)"
proof (rule safelyI)
  fix sc res sc'
  assume d: "disp R st0 sc" and e: "lift_orch (enqueue_ready p) sc = (res, sc')"
  obtain st' where sc': "sc' = sc\<lparr>sc_orch := st'\<rparr>" "enqueue_ready p (sc_orch sc) = (res, st')"
    using e by (auto simp: lift_orch_def split: prod.splits)
  have "\<exists>subs queues. st' = (sc_orch sc)\<lparr>o_ready_sub_queue := subs, o_ready_next_level_queues := queues\<rparr>"
  proof -
    have "st' = (sc_orch sc)\<lparr>o_ready_sub_queue := o_ready_sub_queue st', o_ready_next_level_queues := o_ready_next_level_queues st'\<rparr>"
      using sc'(2) by (auto simp: enqueue_ready_def bind_act_def slot_state_def split: option.splits sum.splits if_splits)
    then show ?thesis by blast
  qed
  then show "disp R st0 sc' \<and> (\<forall>x. res = Inr x \<longrightarrow> True)" using disp_queues [where sc = sc] sc'(1) d by auto
qed

lemma claim_step:
  "p \<in> known st \<Longrightarrow> claim_for_dispatch (o_slots st p) = (s, c) \<Longrightarrow> ref_view s' = ref_view s \<Longrightarrow> node_step st (upd_slot p (\<lambda>_. s') st)"
  using node_step.claimed [of p st s c s' "o_ready_next_level_queues st" "o_ready_sub_queue st"] by simp

lemma claimed_disp:
  assumes d: "disp R st0 sc" and p: "p \<in> known (sc_orch sc)" and c: "claim_for_dispatch (o_slots (sc_orch sc) p) = (s, True)"
    and r: "ts_run_id (o_slots (sc_orch sc) p) \<in> R" and v: "ref_view s' = ref_view s"
  shows "disp R st0 (sc\<lparr>sc_orch := upd_slot p (\<lambda>_. s') (sc_orch sc)\<rparr>)" "fresh_run p (sc\<lparr>sc_orch := upd_slot p (\<lambda>_. s') (sc_orch sc)\<rparr>)"
proof -
  let ?st = "sc_orch sc"
  have n: "node_inv ?st" and st: "started R st0 ?st" and to: "node_step\<^sup>*\<^sup>* st0 ?st" using d by (simp_all add: disp_def)
  show "disp R st0 (sc\<lparr>sc_orch := upd_slot p (\<lambda>_. s') ?st\<rparr>)"
    using claim_node_inv [OF n p c v] started_claim [OF st c r v] claim_step [OF p c v] to
    by (auto simp: disp_def intro: rtranclp.rtrancl_into_rtrancl)
  have ready: "ts_state (o_slots ?st p) = READY" "ts_state s' = RUNNING" using c v by (auto simp: claim_for_dispatch_def ref_view_def split: if_splits)
  have "running (wc_task_slot ` set (o_completion_queue ?st)) ?st" using n by (simp add: node_inv_some node_some_rest node_rest_def)
  then have "p \<notin> wc_task_slot ` set (o_completion_queue ?st)" using ready(1) by (auto simp: running_def)
  then show "fresh_run p (sc\<lparr>sc_orch := upd_slot p (\<lambda>_. s') ?st\<rparr>)"
    using p ready(2) by (simp add: fresh_run_def run_task_def waits_in_queue_def known_def upd_slot_def)
qed

lemma safely_claim_single:
  assumes "ts_run_id s \<in> R"
  shows "safely (disp R st0) (at_slot p s) (claim_single p) (\<lambda>claimed sc. claimed \<longrightarrow> fresh_run p sc \<and> ts_is_group (o_slots (sc_orch sc) p) = ts_is_group s)"
proof (rule safelyI)
  fix sc res sc'
  assume d: "disp R st0 sc" "at_slot p s sc" and e: "claim_single p sc = (res, sc')"
  obtain s' c where c: "claim_for_dispatch s = (s', c)" by (cases "claim_for_dispatch s")
  then have sc': "res = Inr c" "sc' = sc\<lparr>sc_orch := upd_slot p (\<lambda>_. s') (sc_orch sc)\<rparr>"
    using e d(2) by (auto simp: claim_single_def lift_orch_def at_slot_def)
  have g: "ts_is_group s' = ts_is_group s" using c by (auto simp: claim_for_dispatch_def split: if_splits)
  show "disp R st0 sc' \<and> (\<forall>x. res = Inr x \<longrightarrow> x \<longrightarrow> fresh_run p sc' \<and> ts_is_group (o_slots (sc_orch sc') p) = ts_is_group s)"
  proof (cases c)
    case True
    then show ?thesis using claimed_disp [of R st0 sc p s' s'] d c sc' g assms by (simp add: at_slot_def upd_slot_def)
  next
    case False
    then have "upd_slot p (\<lambda>_. s') (sc_orch sc) = sc_orch sc"
      using c d(2) by (auto simp: claim_for_dispatch_def at_slot_def upd_slot_def split: if_splits)
    then show ?thesis using d(1) sc' False by simp
  qed
qed

lemma safely_claim_group:
  assumes "ts_run_id s \<in> R"
  shows "safely (disp R st0) (at_slot p s) (claim_group p init) (\<lambda>claimed sc. claimed \<longrightarrow> fresh_run p sc \<and>
    o_slots (sc_orch sc) p = reset_group_state (commit_group_vectors (s\<lparr>ts_state := RUNNING\<rparr>) (prepare_group_vectors s init)) init)"
proof (rule safelyI)
  fix sc res sc'
  let ?s = "reset_group_state (commit_group_vectors (s\<lparr>ts_state := RUNNING\<rparr>) (prepare_group_vectors s init)) init"
  assume d: "disp R st0 sc" "at_slot p s sc" and e: "claim_group p init sc = (res, sc')"
  have v: "ref_view ?s = ref_view (s\<lparr>ts_state := RUNNING\<rparr>)"
    using ref_view_group(1) [of "s\<lparr>ts_state := RUNNING\<rparr>" "prepare_group_vectors s init"] by (simp add: reset_group_state_def ref_view_def)
  show "disp R st0 sc' \<and> (\<forall>claimed. res = Inr claimed \<longrightarrow> claimed \<longrightarrow> fresh_run p sc' \<and> o_slots (sc_orch sc') p = ?s)"
  proof (cases "ts_state s = READY")
    case True
    then have c: "claim_for_dispatch (o_slots (sc_orch sc) p) = (s\<lparr>ts_state := RUNNING\<rparr>, True)"
      using d(2) by (simp add: claim_for_dispatch_def at_slot_def)
    then have "sc' = sc\<lparr>sc_orch := upd_slot p (\<lambda>_. ?s) (sc_orch sc)\<rparr>"
      using e d(2) by (auto simp: claim_group_def lift_orch_def at_slot_def Let_def)
    then show ?thesis using claimed_disp [OF d(1) _ c _ v] d(2) assms by (simp add: at_slot_def)
  next
    case False
    then show ?thesis using e d by (auto simp: claim_group_def lift_orch_def at_slot_def Let_def claim_for_dispatch_def)
  qed
qed

text \<open>A dispatch of a task without a queued completion: the lane took it, or it failed at once.\<close>

lemma dispatch_fresh:
  assumes d: "disp R st0 sc" "fresh_run p sc" and p: "wd_task_slot w = p" and e: "dispatch_claimed env ref w prepared sc = (res, sc')" "\<not> overflow res"
  shows "disp R st0 sc' \<and> run_task p (sc_orch sc') \<and> (\<exists>s. bare s = bare (o_slots (sc_orch sc) p) \<and>
    (o_slots (sc_orch sc') p = s \<and> \<not> waits_in_queue p (sc_orch sc') \<or>
     (\<exists>c. wc_group_index c = wd_group_index w \<and> is_failure (wc_outcome c) \<and> o_slots (sc_orch sc') p = noted s c \<and>
        (waits_in_queue p (sc_orch sc') \<longrightarrow> queued s c \<noteq> []))))"
proof -
  let ?st = "sc_orch sc" and ?st' = "sc_orch sc'"
  have n: "node_inv ?st" "started R st0 ?st" "run_task p ?st" "\<not> waits_in_queue p ?st" and to: "node_step\<^sup>*\<^sup>* st0 ?st"
    using d by (simp_all add: disp_def fresh_run_def)
  from dispatch_effect [OF n(1) e(1)] consider "?st' = ?st"
    | c st1 where "fails_at_once w ?st c st1" "endpoint_complete c st1 = (res, ?st')" by blast
  then show ?thesis
  proof cases
    case 1
    then show ?thesis using n to by (auto simp: disp_def)
  next
    case 2
    then have v: "node_view st1 = node_view ?st" "node_inv st1" "node_step\<^sup>*\<^sup>* ?st st1" and c: "wc_task_slot c = p" "wc_group_index c = wd_group_index w" "is_failure (wc_outcome c)"
      using p by (simp_all add: fails_at_once_def)
    have t: "task_view st1 = task_view ?st" "o_completion_queue st1 = o_completion_queue ?st" using v(1) by (simp_all add: node_view_def)
    have w: "\<not> waits_in_queue p st1" "run_task p st1" using n t(2) run_task_view [OF v(1)] by (simp_all add: waits_in_queue_def)
    have st: "started R st0 st1" by (rule started_cong [OF n(2) view_cong(1) [OF t(1)] bare_eqD(6) [OF bare_view [OF t(1)]]])
    have k: "p \<in> known st1" using w(2) by (simp add: run_task_def)
    have "node_step st1 ?st'"
      using node_step.performed [of "EndpointComplete c" st1 res ?st'] 2(2) e(2) c(1) w by (simp add: waits_in_queue_def)
    then have "node_step\<^sup>*\<^sup>* st0 ?st'" using to v(3) by (meson rtranclp.rtrancl_into_rtrancl rtranclp_trans)
    then have "disp R st0 sc' \<and> run_task p ?st'"
      using complete_node [OF v(2) w(2) c(1) 2(2) e(2)] complete_started [OF v(2) k c(1) 2(2) e(2) st] w(1) by (simp add: disp_def)
    moreover obtain s where s: "bare s = bare (o_slots st1 p)" "o_slots ?st' p = noted s c" "o_completion_queue ?st' = o_completion_queue st1 @ queued s c"
      by (rule complete_effect [OF node_inv_runs [OF v(2)] k c(1) 2(2) e(2)])
    moreover have "waits_in_queue p ?st' \<longrightarrow> queued s c \<noteq> []" using s(3) w(1) by (auto simp: waits_in_queue_def)
    ultimately show ?thesis using bare_view [OF t(1), of p] c(2,3) by metis
  qed
qed

lemma safely_dispatch: "wd_task_slot w = p \<Longrightarrow> safely (disp R st0) (fresh_run p) (dispatch_claimed env ref w prepared) (\<lambda>_ _. True)"
  by (rule safelyI) (use dispatch_fresh in blast)

section \<open>Groups on the next level\<close>

text \<open>Every member that is still to be dispatched has not reported, so the group has no verdict yet.\<close>

definition group_left :: "TaskSlot \<Rightarrow> nat \<Rightarrow> (nat \<times> nat) list \<Rightarrow> Scheduler \<Rightarrow> bool" where
  "group_left p n left sc \<longleftrightarrow> run_task p (sc_orch sc) \<and> distinct (map fst left) \<and>
     (\<exists>es. group_after n es (o_slots (sc_orch sc) p) \<and> (waits_in_queue p (sc_orch sc) \<longrightarrow> length es = n) \<and>
        (\<forall>i \<in> fst ` set left. i < n \<and> int i \<notin> wc_group_index ` set es))"

lemma safely_member:
  "safely (disp R st0) (group_left p n (x # xs)) ((\<lambda>(i, w). dispatch_claimed env (NextLevelWorker w) (new_dispatch p i) False) x) (\<lambda>_. group_left p n xs)"
proof (rule safelyI)
  fix sc res sc'
  obtain i w where x: "x = (i, w)" by (cases x)
  let ?d = "new_dispatch p i"
  assume d: "disp R st0 sc" and g: "group_left p n (x # xs) sc" and o: "\<not> overflow res"
    and "(\<lambda>(i, w). dispatch_claimed env (NextLevelWorker w) (new_dispatch p i) False) x sc = (res, sc')"
  then have e: "dispatch_claimed env (NextLevelWorker w) ?d False sc = (res, sc')" by (simp add: x)
  obtain es where es: "group_after n es (o_slots (sc_orch sc) p)" "waits_in_queue p (sc_orch sc) \<Longrightarrow> length es = n"
    and left: "i < n" "int i \<notin> wc_group_index ` set es" "\<forall>j \<in> fst ` set xs. j < n \<and> int j \<notin> wc_group_index ` set es"
    using g x by (auto simp: group_left_def)
  have r: "run_task p (sc_orch sc)" "distinct (map fst xs)" "i \<notin> fst ` set xs" using g x by (auto simp: group_left_def)
  have "int i \<in> {0..<int n}" using left(1) by simp
  then have "length es \<noteq> n" using group_after_length(2) [OF es(1)] left(2) by blast
  then have f: "fresh_run p sc" using es(2) r(1) by (auto simp: fresh_run_def)
  have dp: "wd_task_slot ?d = p" "wd_group_index ?d = int i" by (simp_all add: new_dispatch_def)
  from dispatch_fresh [OF d f dp(1) e o] obtain s where s: "disp R st0 sc'" "run_task p (sc_orch sc')" "bare s = bare (o_slots (sc_orch sc) p)"
    and cs: "o_slots (sc_orch sc') p = s \<and> \<not> waits_in_queue p (sc_orch sc') \<or>
     (\<exists>c. wc_group_index c = wd_group_index ?d \<and> is_failure (wc_outcome c) \<and> o_slots (sc_orch sc') p = noted s c \<and>
        (waits_in_queue p (sc_orch sc') \<longrightarrow> queued s c \<noteq> []))" by blast
  have ga: "group_after n es s" using es(1) bare_eqD(5) [OF s(3)] by simp
  have "group_left p n xs sc'"
    using cs
  proof (elim disjE exE conjE)
    assume "o_slots (sc_orch sc') p = s" "\<not> waits_in_queue p (sc_orch sc')"
    then show ?thesis using ga s(2) r(2) left(3) by (auto simp: group_left_def)
  next
    fix c
    assume c: "wc_group_index c = wd_group_index ?d" "o_slots (sc_orch sc') p = noted s c" "waits_in_queue p (sc_orch sc') \<longrightarrow> queued s c \<noteq> []"
    have "valid_report n c" using c(1) left(1) dp(2) by (simp add: valid_report_def)
    from group_member_done_after [OF ga this] c(1) dp(2) left(2) obtain s' where s': "group_after n (es @ [c]) s'"
      "group_member_done s c = (s', if length es + 1 < n then None else Some (verdict_of (es @ [c]) c))" by auto
    have "ts_is_group s" using ga by (simp add: group_after_def group_ran_def)
    then have "group_after n (es @ [c]) (o_slots (sc_orch sc') p)" "waits_in_queue p (sc_orch sc') \<Longrightarrow> length (es @ [c]) = n"
      using c(2,3) s' group_after_length(1) [OF s'(1)] by (auto simp: noted_def queued_def split: if_splits)
    moreover have "\<forall>j \<in> fst ` set xs. j < n \<and> int j \<notin> wc_group_index ` set (es @ [c])" using left(3) r(3) c(1) dp(2) by auto
    ultimately show ?thesis using s(2) r(2) unfolding group_left_def by blast
  qed
  then show "disp R st0 sc' \<and> (\<forall>u. res = Inr u \<longrightarrow> group_left p n xs sc')" using s(1) by blast
qed

lemma claimed_group_after:
  assumes "ts_is_group s" "0 < ts_group_args s"
  shows "group_after (group_size s) [] (reset_group_state (commit_group_vectors (s\<lparr>ts_state := RUNNING\<rparr>) (prepare_group_vectors s GM_RUNNING)) GM_RUNNING)"
proof -
  let ?s = "commit_group_vectors (s\<lparr>ts_state := RUNNING\<rparr>) (prepare_group_vectors s GM_RUNNING)"
  have "resized (ts_group_args s) GM_RUNNING xs \<noteq> []" for xs using assms(2) by (simp add: resized_def)
  then have "ts_is_group ?s" "length (ts_group_member_states ?s) = ts_group_args ?s" "length (ts_group_member_outcomes ?s) = ts_group_args ?s" "ts_group_args ?s = group_size s"
    using assms(1) by (auto simp: commit_group_vectors_def prepare_group_vectors_def group_size_def Let_def resized_def)
  then show ?thesis using reset_group_after [of ?s] by simp
qed

lemma safely_members:
  "safely (disp R st0) (\<lambda>sc. left \<noteq> [] \<longrightarrow> group_left p n left sc)
     (each_act (\<lambda>(i, w). dispatch_claimed env (NextLevelWorker w) (new_dispatch p i) False) left) (\<lambda>_ _. True)"
proof -
  let ?f = "\<lambda>(i, w). dispatch_claimed env (NextLevelWorker w) (new_dispatch p i) False"
  let ?P = "\<lambda>left sc. left \<noteq> [] \<longrightarrow> group_left p n left sc"
  have "safely (disp R st0) (?P (x # xs)) (?f x) (\<lambda>_. ?P xs)" for x xs
    by (rule safely_conseq [OF safely_member]) (rule mp, assumption, simp, blast)
  from safely_each [of "disp R st0" ?P ?f left, OF this] show ?thesis by (rule safely_conseq) simp_all
qed

lemma fresh_group_left:
  assumes "fresh_run p sc" "ts_is_group s"
    "o_slots (sc_orch sc) p = reset_group_state (commit_group_vectors (s\<lparr>ts_state := RUNNING\<rparr>) (prepare_group_vectors s GM_RUNNING)) GM_RUNNING"
  shows "zip [0 ..< group_size s] ws \<noteq> [] \<longrightarrow> group_left p (group_size s) (zip [0 ..< group_size s] ws) sc"
proof
  assume "zip [0 ..< group_size s] ws \<noteq> []"
  then have "0 < ts_group_args s" using assms(2) by (auto simp: group_size_def)
  from claimed_group_after [OF assms(2) this]
  have "group_after (group_size s) [] (o_slots (sc_orch sc) p)" using assms(3) by simp
  moreover have "distinct (map fst (zip [0 ..< group_size s] ws))" by (simp add: map_fst_zip_take)
  moreover have "\<forall>i \<in> fst ` set (zip [0 ..< group_size s] ws). i < group_size s" by (auto dest: set_zip_leftD)
  ultimately show "group_left p (group_size s) (zip [0 ..< group_size s] ws) sc"
    using assms(1) unfolding group_left_def fresh_run_def by (auto intro!: exI [of _ "[]"])
qed

lemma safely_check: "safely (disp R st0) (at_slot p s) (check_members env s' is acc) (\<lambda>_. at_slot p s)"
proof (rule safelyI)
  fix sc res sc'
  assume "disp R st0 sc" "at_slot p s sc" "check_members env s' is acc sc = (res, sc')"
  then show "disp R st0 sc' \<and> (\<forall>x. res = Inr x \<longrightarrow> at_slot p s sc')"
    using check_members_frame [of env s' "is" acc sc res sc'] by (auto simp: disp_def at_slot_def)
qed

lemma safely_read: "safely I P (\<lambda>sc. (case f sc of Inl e \<Rightarrow> (Inl e, sc) | Inr x \<Rightarrow> (Inr (g x), sc))) (\<lambda>_ _. True)"
  by (rule safelyI) (auto split: sum.splits)

lemma safely_group_step:
  assumes "run \<in> R"
  shows "safely (disp R st0) (\<lambda>_. True) (group_step env run p) (\<lambda>_ _. True)"
proof -
  have dispatched: "safely (disp R st0) (at_slot p s) (bind_act (claim_group p GM_RUNNING) (\<lambda>claimed. if \<not> claimed then ok None
      else seq_act (each_act (\<lambda>(i, w). dispatch_claimed env (NextLevelWorker w) (new_dispatch p i) False) (zip [0 ..< group_size s] workers)) (ok None))) (\<lambda>_ _. True)"
    if "ts_run_id s \<in> R" "ts_is_group s" for s workers
  proof (rule safely_bind [OF safely_claim_group [OF that(1)]], rule safely_if)
    show "safely (disp R st0) P (ok None) (\<lambda>_ _. True)" for P by (simp add: safely_ok)
    show "safely (disp R st0) (\<lambda>sc. claimed \<longrightarrow> fresh_run p sc \<and>
      o_slots (sc_orch sc) p = reset_group_state (commit_group_vectors (s\<lparr>ts_state := RUNNING\<rparr>) (prepare_group_vectors s GM_RUNNING)) GM_RUNNING)
      (seq_act (each_act (\<lambda>(i, w). dispatch_claimed env (NextLevelWorker w) (new_dispatch p i) False) (zip [0 ..< group_size s] workers)) (ok None)) (\<lambda>_ _. True)"
      if "\<not> \<not> claimed" for claimed
      using that fresh_group_left [OF _ \<open>ts_is_group s\<close>]
      by (intro safely_seq [OF safely_conseq [OF safely_members]] safely_ok) auto
  qed
  have taken: "safely (disp R st0) (at_slot p s) (bind_act (pop_group (ts_run_id s)) (\<lambda>taken. case taken of
      None \<Rightarrow> ok (Some no_group_result)
    | Some t \<Rightarrow> if t \<noteq> p then seq_act (lift_orch (enqueue_ready t)) (ok (Some no_group_result)) else
        bind_act (claim_group p GM_RUNNING) (\<lambda>claimed. if \<not> claimed then ok None
          else seq_act (each_act (\<lambda>(i, w). dispatch_claimed env (NextLevelWorker w) (new_dispatch p i) False) (zip [0 ..< group_size s] workers)) (ok None)))) (\<lambda>_ _. True)"
    if "ts_run_id s \<in> R" "ts_is_group s" for s workers
    by (rule safely_bind [OF safely_pop_group])
      (auto intro!: safely_ok safely_if safely_seq [OF safely_enqueue] dispatched [OF that] split: option.split)
  show ?thesis
    unfolding group_step_def
    by (rule safely_bind [OF safely_slot], intro safely_if safely_seq [OF safely_conseq [OF safely_pop_group]] safely_seq [OF safely_enqueue]
        safely_ok safely_throw)
      (insert assms, auto intro!: safely_bind [OF safely_check] safely_if taken safely_read split: prod.split)
qed

lemma keeps_groups: "run \<in> R \<Longrightarrow> keeps (disp R st0) (dispatch_next_level_group env run)"
proof -
  assume r: "run \<in> R"
  note step = keepsD [OF safely_group_step [OF r, unfolded safely_keeps]]
  have "disp R st0 sc'" if "disp R st0 sc" "dispatch_next_level_group env run sc = (res, sc')" "\<not> overflow res" for sc res sc'
    using that r step
  proof (induction env run sc arbitrary: res sc' rule: dispatch_next_level_group.induct)
    case (1 env run sc)
    show ?case
    proof (cases "try_front_group (sc_queues sc) run")
      case None
      then show ?thesis using "1.prems" by (simp add: dispatch_next_level_group.simps)
    next
      case (Some p)
      obtain r1 sc1 where g: "group_step env run p sc = (r1, sc1)" by (cases "group_step env run p sc")
      show ?thesis
      proof (cases r1)
        case (Inl e)
        then show ?thesis using "1.prems" Some g by (auto simp: dispatch_next_level_group.simps)
      next
        case (Inr x)
        then have d: "disp R st0 sc1" using "1.prems"(1,5) g by auto
        show ?thesis
        proof (cases x)
          case None
          then have "dispatch_next_level_group env run sc1 = (res, sc')"
            using "1.prems"(2) Some g Inr by (subst (asm) dispatch_next_level_group.simps) simp
          then show ?thesis using "1.IH" [OF Some g [symmetric] Inr None d] "1.prems" by blast
        next
          case (Some y)
          then show ?thesis using "1.prems"(2) \<open>try_front_group (sc_queues sc) run = Some p\<close> g Inr d by (simp add: dispatch_next_level_group.simps)
        qed
      qed
    qed
  qed
  then show ?thesis unfolding keeps_def by blast
qed

section \<open>Single tasks\<close>

lemma safely_claimed_single:
  assumes r: "ts_run_id s \<in> R" and m: "safely (disp R st0) (\<lambda>_. True) m (\<lambda>_ _. True)" and n: "safely (disp R st0) (\<lambda>_. True) n (\<lambda>_ _. True)"
  shows "safely (disp R st0) (at_slot p s) (bind_act (claim_single p) (\<lambda>claimed. if \<not> claimed then m else seq_act (dispatch_claimed env ref (new_dispatch p i) prepared) n)) (\<lambda>_ _. True)"
proof (rule safely_bind [OF safely_claim_single [OF r]], rule safely_if)
  have p: "wd_task_slot (new_dispatch p i) = p" by (simp add: new_dispatch_def)
  show "safely (disp R st0) P m (\<lambda>_ _. True)" for P by (rule safely_conseq [OF m]) simp_all
  show "safely (disp R st0) (\<lambda>sc. c \<longrightarrow> fresh_run p sc \<and> ts_is_group (o_slots (sc_orch sc) p) = ts_is_group s) (seq_act (dispatch_claimed env ref (new_dispatch p i) prepared) n) (\<lambda>_ _. True)" if "\<not> \<not> c" for c
    using that by (intro safely_seq [OF safely_conseq [OF safely_dispatch [OF p]] n]) simp_all
qed

lemma keeps_single_step: "run \<in> R \<Longrightarrow> keeps (disp R st0) (single_step env run verify worker_id w p)"
proof -
  assume r: "run \<in> R"
  have target: "safely (disp R st0) (at_slot p s) (bind_act (lift_act (target_worker_id s 0)) (\<lambda>target.
      if target \<noteq> worker_id then throw (RuntimeError ''Scheduler::dispatch_next_level_singles: misrouted task slot'')
      else bind_act (claim_single p) (\<lambda>claimed. if \<not> claimed then ok None
        else seq_act (dispatch_claimed env (NextLevelWorker w) (new_dispatch p 0) False) (ok (Some False))))) (\<lambda>_ _. True)" if "ts_run_id s \<in> R" for s
  proof (rule safely_bind [where R = "\<lambda>_. at_slot p s"])
    show "safely (disp R st0) (at_slot p s) (lift_act (target_worker_id s 0)) (\<lambda>_. at_slot p s)" by (simp add: safely_def lift_act_def)
  qed (intro safely_if safely_throw safely_claimed_single [OF that] safely_ok TrueI)
  have "safely (disp R st0) (\<lambda>_. True) (single_step env run verify worker_id w p) (\<lambda>_ _. True)"
    unfolding single_step_def
  proof (rule safely_bind [OF safely_slot], intro safely_if safely_seq [OF safely_enqueue] safely_ok TrueI)
    fix s :: TaskSlotState
    assume "\<not> ts_run_id s \<noteq> run"
    then have s: "ts_run_id s \<in> R" using r by simp
    show "safely (disp R st0) (\<lambda>sc. at_slot p s sc \<and> True) (bind_act (\<lambda>sc. (Inr (verify \<and> \<not> groups_empty (sc_queues sc) run), sc)) (\<lambda>group_waiting.
       if group_waiting then seq_act (lift_orch (enqueue_ready p)) (ok (Some True))
       else if ts_worker_type s \<noteq> NEXT_LEVEL \<or> ts_is_group s
       then throw (RuntimeError ''Scheduler::dispatch_next_level_singles: misrouted task slot'')
       else bind_act (lift_act (target_worker_id s 0)) (\<lambda>target.
         if target \<noteq> worker_id then throw (RuntimeError ''Scheduler::dispatch_next_level_singles: misrouted task slot'')
         else bind_act (claim_single p) (\<lambda>claimed.
           if \<not> claimed then ok None
           else seq_act (dispatch_claimed env (NextLevelWorker w) (new_dispatch p 0) False) (ok (Some False)))))) (\<lambda>_ _. True)"
      by (rule safely_bind [where R = "\<lambda>_. at_slot p s"], simp add: safely_def,
          intro safely_if safely_seq [OF safely_enqueue] safely_ok safely_throw target [OF s] TrueI)
  qed
  then show ?thesis by (simp add: safely_keeps)
qed

lemma asked_disp [simp]: "disp R st0 (asked sc) = disp R st0 sc"
  by (simp add: disp_def)

lemma keeps_single_loop:
  assumes "run \<in> R" "disp R st0 sc" "single_loop env run verify worker_id w sc = (res, sc')" "\<not> overflow res"
  shows "disp R st0 sc'"
  using assms
proof (induction env run verify worker_id w sc arbitrary: res sc' rule: single_loop.induct)
  case (1 env run verify worker_id w sc)
  show ?case
  proof (cases "\<exists>queues p. try_pop_single (sc_queues sc) worker_id run = Inr (Some (queues, p))")
    case False
    then show ?thesis using "1.prems" by (auto simp: single_loop.simps split: sum.splits option.splits)
  next
    case True
    then obtain queues p where pop: "try_pop_single (sc_queues sc) worker_id run = Inr (Some (queues, p))" by blast
    obtain r1 sc1 where g: "single_step env run verify worker_id w p (put_queues queues sc) = (r1, sc1)"
      by (cases "single_step env run verify worker_id w p (put_queues queues sc)")
    have d: "\<not> overflow r1 \<Longrightarrow> disp R st0 sc1"
      using keepsD [OF keeps_single_step [OF "1.prems"(1)] _ g] "1.prems"(2) by simp
    show ?thesis
    proof (cases "r1 = Inr None")
      case True
      then have "single_loop env run verify worker_id w sc1 = (res, sc')"
        using "1.prems"(3) pop g by (subst (asm) single_loop.simps) simp
      moreover have "disp R st0 sc1" using d True by simp
      ultimately show ?thesis using "1.IH" [OF pop refl refl g [symmetric] True refl] "1.prems" by blast
    next
      case False
      then show ?thesis using "1.prems"(3,4) pop g d by (auto simp: single_loop.simps split: sum.splits option.splits)
    qed
  qed
qed

lemma keeps_singles:
  assumes "run \<in> R" "disp R st0 sc" "singles_pass env run reserved verify ids sc = (res, sc')" "\<not> overflow res"
  shows "disp R st0 sc'"
  using assms
proof (induction env run reserved verify ids sc arbitrary: res sc' rule: singles_pass.induct)
  case (2 env run reserved verify worker_id ids sc)
  note prems = "2.prems" and IH = "2.IH"
  consider (skip) "worker_id \<in> set reserved" | (none) "worker_id \<notin> set reserved" "find_worker (sc_next_level sc) worker_id = None"
    | (closed) w where "worker_id \<notin> set reserved" "find_worker (sc_next_level sc) worker_id = Some w" "\<not> can_dispatch (ep_transport env (sc_asked sc)) (sc_next_level sc ! w)"
    | (free) w where "worker_id \<notin> set reserved" "find_worker (sc_next_level sc) worker_id = Some w" "can_dispatch (ep_transport env (sc_asked sc)) (sc_next_level sc ! w)"
    by fastforce
  then show ?case
  proof cases
    case skip
    then show ?thesis using IH(1) prems by simp
  next
    case none
    then show ?thesis using prems by auto
  next
    case closed
    then show ?thesis using IH(2) prems by simp
  next
    case free
    obtain r1 sc1 where l: "single_loop env run verify worker_id w (asked sc) = (r1, sc1)" by (cases "single_loop env run verify worker_id w (asked sc)")
    have d: "\<not> overflow r1 \<Longrightarrow> disp R st0 sc1" using keeps_single_loop [OF prems(1) _ l] prems(2) by simp
    show ?thesis
    proof (cases "r1 = Inr False")
      case True
      then have "singles_pass env run reserved verify ids sc1 = (res, sc')" using prems(3) free l by simp
      then show ?thesis using IH(3) [OF free(1,2) _ l [symmetric] True refl prems(1)] free(3) d True prems(4) by simp
    next
      case False
      then have "res = r1" "sc' = sc1" using prems(3) free l by (auto split: sum.splits bool.splits)
      then show ?thesis using d prems(4) by blast
    qed
  qed
qed simp

section \<open>Sub-worker tasks\<close>

text \<open>A task of which a member is still to be dispatched has no completion queued, unless it is a group that failed.\<close>

definition sub_left :: "TaskSlot \<Rightarrow> (nat \<times> nat) list \<Rightarrow> Scheduler \<Rightarrow> bool" where
  "sub_left p left sc \<longleftrightarrow> run_task p (sc_orch sc) \<and> (\<not> ts_is_group (o_slots (sc_orch sc) p) \<longrightarrow> length left \<le> 1) \<and>
     (left \<noteq> [] \<and> waits_in_queue p (sc_orch sc) \<longrightarrow> ts_is_group (o_slots (sc_orch sc) p) \<and> ts_group_failed (o_slots (sc_orch sc) p))"

lemma group_done_failed:
  assumes "is_failure (wc_outcome c)" "snd (group_member_done s c) = Some t"
  shows "ts_group_failed (fst (group_member_done s c))"
proof -
  have "ts_group_failed (skip_after_failure s b) = ts_group_failed s" for s b by (simp add: skip_after_failure_def case_prod_unfold Let_def)
  moreover have "ts_group_failed (record_member s i out m)" if "out \<noteq> SUCCESS" for s i out m using that by (simp add: record_member_def Let_def)
  moreover have "wc_outcome c \<noteq> SUCCESS" using assms(1) by (auto simp: is_failure_def)
  ultimately show ?thesis using assms(2) unfolding group_member_done_def Let_def by (auto split: if_splits)
qed

lemma noted_group [simp]: "ts_is_group (noted s c) = ts_is_group s"
proof -
  have "ts_is_group (skip_after_failure s b) = ts_is_group s" "ts_is_group (record_member s i out m) = ts_is_group s"
    "ts_is_group (commit_group_vectors s g) = ts_is_group s" for s b i out m g
    by (simp_all add: skip_after_failure_def case_prod_unfold record_member_def commit_group_vectors_def Let_def split: option.split)
  then show ?thesis unfolding noted_def group_member_done_def Let_def by simp
qed

lemma disp_upd:
  assumes "disp R st0 sc" "run_task p (sc_orch sc)" "ref_view s = ref_view (o_slots (sc_orch sc) p)"
  shows "disp R st0 (sc\<lparr>sc_orch := upd_slot p (\<lambda>_. s) (sc_orch sc)\<rparr>)"
proof -
  let ?st = "upd_slot p (\<lambda>_. s) (sc_orch sc)"
  have k: "p \<in> known (sc_orch sc)" "claim_for_dispatch (o_slots (sc_orch sc) p) = (o_slots (sc_orch sc) p, False)"
    using assms(2) by (simp_all add: run_task_def claim_for_dispatch_def)
  have "started R st0 ?st"
    by (rule started_cong [of R st0 "sc_orch sc"]) (use assms in \<open>auto simp: disp_def known_def upd_slot_def\<close>)
  moreover have "node_step\<^sup>*\<^sup>* st0 ?st"
    using assms(1) claim_step [OF k assms(3)] by (auto simp: disp_def intro: rtranclp.rtrancl_into_rtrancl)
  moreover have "o_completion_queue ?st = o_completion_queue (sc_orch sc)" by (simp add: upd_slot_def)
  ultimately show ?thesis using assms(1,3) k node_some_upd [of _ _ "sc_orch sc" p s] by (simp add: disp_def node_inv_some)
qed

lemma sub_dispatch:
  assumes d: "disp R st0 sc" "fresh_run p sc" and l: "\<not> ts_is_group (o_slots (sc_orch sc) p) \<longrightarrow> xs = []"
    and e: "dispatch_claimed env ref (new_dispatch p i) False sc = (res, sc')" "\<not> overflow res"
  shows "disp R st0 sc' \<and> sub_left p xs sc'"
proof -
  have "wd_task_slot (new_dispatch p i) = p" by (simp add: new_dispatch_def)
  from dispatch_fresh [OF d this e] obtain s where s: "disp R st0 sc'" "run_task p (sc_orch sc')" "bare s = bare (o_slots (sc_orch sc) p)"
    and cs: "o_slots (sc_orch sc') p = s \<and> \<not> waits_in_queue p (sc_orch sc') \<or>
     (\<exists>c. is_failure (wc_outcome c) \<and> o_slots (sc_orch sc') p = noted s c \<and> (waits_in_queue p (sc_orch sc') \<longrightarrow> queued s c \<noteq> []))" by blast
  have g: "ts_is_group s = ts_is_group (o_slots (sc_orch sc) p)" by (rule bare_eqD(1) [OF s(3)])
  have "ts_group_failed (noted s c)" if "is_failure (wc_outcome c)" "queued s c \<noteq> []" "ts_is_group s" for c
    using that group_done_failed [OF that(1), of s] by (auto simp: noted_def queued_def split: option.splits)
  then show ?thesis using s(1,2) cs g l by (auto simp: sub_left_def)
qed

lemma safely_sub_member: "safely (disp R st0) (sub_left p (x # xs)) (dispatch_sub_member env p x) (\<lambda>_. sub_left p xs)"
proof (rule safelyI)
  fix sc :: Scheduler and res sc'
  obtain i w where x: "x = (i, w)" by (cases x)
  let ?s = "o_slots (sc_orch sc) p"
  let ?s1 = "?s\<lparr>ts_group_member_states := (ts_group_member_states ?s)[i := GM_RUNNING]\<rparr>"
  let ?sc = "sc\<lparr>sc_orch := upd_slot p (\<lambda>_. ?s1) (sc_orch sc)\<rparr>"
  assume d: "disp R st0 sc" and l: "sub_left p (x # xs) sc" and e: "dispatch_sub_member env p x sc = (res, sc')" "\<not> overflow res"
  have r: "run_task p (sc_orch sc)" using l by (simp add: sub_left_def)
  have "disp R st0 sc' \<and> sub_left p xs sc'"
  proof (cases "ts_is_group ?s")
    case False
    then have "fresh_run p sc" "xs = []" using l by (auto simp: sub_left_def fresh_run_def)
    then show ?thesis using sub_dispatch [OF d, of p xs env] e x False by (simp add: dispatch_sub_member_eq Let_def)
  next
    case grp: True
    show ?thesis
    proof (cases "ts_group_member_states ?s ! i \<noteq> GM_NOT_DISPATCHED \<or> ts_group_failed ?s")
      case True
      then have "sc' = sc" using e x grp by (auto simp: dispatch_sub_member_eq Let_def)
      then show ?thesis using d l grp by (auto simp: sub_left_def)
    next
      case False
      have "upd_slot p (\<lambda>s. s\<lparr>ts_group_member_states := (ts_group_member_states s)[i := GM_RUNNING]\<rparr>) (sc_orch sc) = upd_slot p (\<lambda>_. ?s1) (sc_orch sc)"
        by (simp add: upd_slot_def)
      then have e1: "dispatch_claimed env (SubWorker w) (new_dispatch p i) False ?sc = (res, sc')"
        using e(1) x grp False by (simp add: dispatch_sub_member_eq Let_def)
      have "disp R st0 ?sc" using disp_upd [OF d r, of ?s1] by (simp add: ref_view_def)
      moreover have "fresh_run p ?sc" using r False l grp by (auto simp: fresh_run_def sub_left_def run_task_def waits_in_queue_def known_def upd_slot_def)
      moreover have "ts_is_group (o_slots (sc_orch ?sc) p)" using grp by (simp add: upd_slot_def)
      ultimately show ?thesis using sub_dispatch [OF _ _ _ e1 e(2)] by blast
    qed
  qed
  then show "disp R st0 sc' \<and> (\<forall>u. res = Inr u \<longrightarrow> sub_left p xs sc')" by blast
qed

lemma safely_sub_claim:
  assumes "ts_run_id s \<in> R"
  shows "safely (disp R st0) (at_slot p s) (if ts_is_group s then claim_group p GM_NOT_DISPATCHED else claim_single p)
    (\<lambda>claimed sc. claimed \<longrightarrow> sub_left p (zip [0 ..< group_size s] ws) sc)"
proof (rule safely_if)
  have g: "ts_is_group (reset_group_state (commit_group_vectors t v) init) = ts_is_group t" for t v init
    by (simp add: reset_group_state_def commit_group_vectors_def split: option.split prod.split)
  show "safely (disp R st0) (at_slot p s) (claim_group p GM_NOT_DISPATCHED) (\<lambda>claimed sc. claimed \<longrightarrow> sub_left p (zip [0 ..< group_size s] ws) sc)"
    if "ts_is_group s"
    using that by (intro safely_conseq [OF safely_claim_group [OF assms]]) (auto simp: sub_left_def fresh_run_def g)
  show "safely (disp R st0) (at_slot p s) (claim_single p) (\<lambda>claimed sc. claimed \<longrightarrow> sub_left p (zip [0 ..< group_size s] ws) sc)"
    if "\<not> ts_is_group s"
    using that by (intro safely_conseq [OF safely_claim_single [OF assms]]) (auto simp: sub_left_def fresh_run_def group_size_def)
qed

lemma keeps_sub_step: "run \<in> R \<Longrightarrow> keeps (disp R st0) (sub_step env run p)"
proof -
  assume r: "run \<in> R"
  have each: "safely (disp R st0) (sub_left p left) (each_act (dispatch_sub_member env p) left) (\<lambda>_ _. True)" for left
    by (rule safely_conseq [OF safely_each [OF safely_sub_member]]) simp_all
  have claimed: "safely (disp R st0) (at_slot p s) (bind_act (if ts_is_group s then claim_group p GM_NOT_DISPATCHED else claim_single p) (\<lambda>claimed.
      if \<not> claimed then ok True else seq_act (each_act (dispatch_sub_member env p) (zip [0 ..< group_size s] ws)) (ok True))) (\<lambda>_ _. True)"
    if "ts_run_id s \<in> R" for s ws
    by (rule safely_bind [OF safely_sub_claim [OF that]], rule safely_if, simp add: safely_ok,
        rule safely_seq [OF safely_conseq [OF each]]) (auto intro: safely_ok)
  have "safely (disp R st0) (\<lambda>_. True) (sub_step env run p) (\<lambda>_ _. True)"
    unfolding sub_step_def
  proof (rule safely_bind [OF safely_slot], intro safely_if safely_seq [OF safely_enqueue] safely_ok safely_throw TrueI)
    fix s :: TaskSlotState
    assume "\<not> ts_run_id s \<noteq> run"
    then have s: "ts_run_id s \<in> R" using r by simp
    show "safely (disp R st0) (\<lambda>sc. at_slot p s sc \<and> True) (bind_act (\<lambda>sc. (Inr (pick_subs (sc_sub sc) (group_size s) []), sc)) (\<lambda>picked. case picked of
         None \<Rightarrow> seq_act (lift_orch (enqueue_ready p)) (ok False)
       | Some workers \<Rightarrow> bind_act (if ts_is_group s then claim_group p GM_NOT_DISPATCHED else claim_single p) (\<lambda>claimed.
             if \<not> claimed then ok True else seq_act (each_act (dispatch_sub_member env p) (zip [0 ..< group_size s] workers)) (ok True)))) (\<lambda>_ _. True)"
      by (rule safely_bind [where R = "\<lambda>_. at_slot p s"], simp add: safely_def,
          split option.split, intro conjI allI impI safely_seq [OF safely_enqueue] safely_ok claimed [OF s] TrueI)
  qed
  then show ?thesis by (simp add: safely_keeps)
qed

lemma keeps_subs:
  assumes "run \<in> R" "disp R st0 sc" "dispatch_sub_ready env run sc = (res, sc')" "\<not> overflow res"
  shows "disp R st0 sc'"
  using assms
proof (induction env run sc arbitrary: res sc' rule: dispatch_sub_ready.induct)
  case (1 env run sc)
  show ?case
  proof (cases "rq_try_pop (o_ready_sub_queue (sc_orch sc)) run")
    case None
    then show ?thesis using "1.prems" by (simp add: dispatch_sub_ready.simps)
  next
    case (Some v)
    then obtain q p where pop: "rq_try_pop (o_ready_sub_queue (sc_orch sc)) run = Some (q, p)" by (cases v) auto
    let ?sc = "sc\<lparr>sc_orch := (sc_orch sc)\<lparr>o_ready_sub_queue := q\<rparr>\<rparr>"
    obtain r1 sc1 where g: "sub_step env run p ?sc = (r1, sc1)" by (cases "sub_step env run p ?sc")
    have d: "\<not> overflow r1 \<Longrightarrow> disp R st0 sc1" using keepsD [OF keeps_sub_step [OF "1.prems"(1)] _ g] "1.prems"(2) by simp
    show ?thesis
    proof (cases "r1 = Inr True")
      case True
      then have "dispatch_sub_ready env run sc1 = (res, sc')" using "1.prems"(3) pop g by (subst (asm) dispatch_sub_ready.simps) simp
      then show ?thesis using "1.IH" [OF pop refl g [symmetric] True] d True "1.prems" by simp
    next
      case False
      then have "sc' = sc1" using "1.prems"(3) pop g by (auto simp: dispatch_sub_ready.simps split: sum.splits bool.splits)
      moreover have "\<not> overflow r1" using False "1.prems"(3,4) pop g by (auto simp: dispatch_sub_ready.simps split: sum.splits bool.splits)
      ultimately show ?thesis using d by simp
    qed
  qed
qed

section \<open>Staged runs\<close>

lemma keeps_stage_claimed: "run \<in> R \<Longrightarrow> keeps (disp R st0) (stage_claimed env run worker_id w p)"
proof -
  assume r: "run \<in> R"
  have ok1: "safely (disp R st0) (\<lambda>_. True) (ok ()) (\<lambda>_ _. True)" by (simp add: safely_ok)
  have target: "safely (disp R st0) (at_slot p s) (bind_act (lift_act (target_worker_id s 0)) (\<lambda>target.
       if target \<noteq> worker_id then lift_orch (enqueue_ready p)
       else bind_act (claim_single p) (\<lambda>claimed.
         if \<not> claimed then ok () else dispatch_claimed env (NextLevelWorker w) (new_dispatch p 0) True))) (\<lambda>_ _. True)" if "ts_run_id s \<in> R" for s
  proof (rule safely_bind [where R = "\<lambda>_. at_slot p s"])
    show "safely (disp R st0) (at_slot p s) (lift_act (target_worker_id s 0)) (\<lambda>_. at_slot p s)" by (simp add: safely_def lift_act_def)
    have "wd_task_slot (new_dispatch p 0) = p" by (simp add: new_dispatch_def)
    then show "safely (disp R st0) (at_slot p s) (if target \<noteq> worker_id then lift_orch (enqueue_ready p)
       else bind_act (claim_single p) (\<lambda>claimed.
         if \<not> claimed then ok () else dispatch_claimed env (NextLevelWorker w) (new_dispatch p 0) True)) (\<lambda>_ _. True)" for target
      by (intro safely_if safely_enqueue safely_bind [OF safely_claim_single [OF that]] safely_ok safely_conseq [OF safely_dispatch]) auto
  qed
  have "safely (disp R st0) (\<lambda>_. True) (stage_claimed env run worker_id w p) (\<lambda>_ _. True)"
    unfolding stage_claimed_def
    by (rule safely_bind [OF safely_slot], intro safely_if safely_enqueue safely_ok TrueI safely_conseq [OF target]) (use r in auto)
  then show ?thesis by (simp add: safely_keeps)
qed

lemma keeps_requeue: "keeps (disp R st0) (lift_orch (enqueue_ready p))"
  using safely_enqueue [of R st0 "\<lambda>_. True" p] by (simp add: safely_keeps)

lemma keeps_stage_workers:
  assumes "run \<in> R"
  shows "disp R st0 sc \<Longrightarrow> stage_workers env run ids sc = (res, sc') \<Longrightarrow> \<not> overflow res \<Longrightarrow> disp R st0 sc'"
proof (induction ids arbitrary: sc res sc')
  case (Cons worker_id ids)
  note claim = keepsD [OF keeps_stage_claimed [OF assms]] and enq = keepsD [OF keeps_requeue]
  let ?sc = "asked sc"
  have next_worker: "disp R st0 sc'" if "stage_workers env run ids sc1 = (res, sc')" "disp R st0 sc1" for sc1 using Cons.IH that Cons.prems(3) by blast
  have d: "disp R st0 ?sc" using Cons.prems(1) by simp
  show ?case
  proof (cases "\<exists>w queues p. find_worker (sc_next_level sc) worker_id = Some w \<and> can_stage (ep_transport env (sc_asked sc)) (sc_next_level sc ! w) \<and>
      single_empty (sc_queues ?sc) worker_id run = Inr False \<and> can_stage_run_on_worker (sc_orch ?sc) run worker_id = Inr True \<and>
      try_pop_single (sc_queues ?sc) worker_id run = Inr (Some (queues, p))")
    case False
    then show ?thesis using Cons.prems(2) next_worker [of sc] next_worker [of ?sc] d Cons.prems(1)
      by (auto simp: Let_def split: option.splits if_splits sum.splits bool.splits)
  next
    case True
    then obtain w queues p where w: "find_worker (sc_next_level sc) worker_id = Some w" "can_stage (ep_transport env (sc_asked sc)) (sc_next_level sc ! w)"
      "single_empty (sc_queues ?sc) worker_id run = Inr False" "can_stage_run_on_worker (sc_orch ?sc) run worker_id = Inr True"
      "try_pop_single (sc_queues ?sc) worker_id run = Inr (Some (queues, p))" by blast
    let ?sc1 = "put_queues queues ?sc"
    have d1: "disp R st0 ?sc1" using d by simp
    show ?thesis
    proof (cases "groups_empty (sc_queues ?sc1) run")
      case False
      then show ?thesis using Cons.prems(2,3) w enq [OF d1] by (simp add: Let_def)
    next
      case True
      obtain r2 sc2 where c: "stage_claimed env run worker_id w p ?sc1 = (r2, sc2)" by (cases "stage_claimed env run worker_id w p ?sc1")
      then show ?thesis
        using Cons.prems(2,3) w True claim [OF d1 c] next_worker [of sc2] by (cases r2) (auto simp: Let_def)
    qed
  qed
qed simp

lemma keeps_preparable:
  assumes "set (preparable_run_ids (sc_orch sc)) \<subseteq> R" "disp R st0 sc" "dispatch_preparable_next_level_singles env sc = (res, sc')" "\<not> overflow res"
  shows "disp R st0 sc'"
proof -
  have "keeps (disp R st0) (stage_preparable_run env run)" if "run \<in> R" for run
    using keeps_stage_workers [OF that] unfolding keeps_def stage_preparable_run_def by (auto split: if_splits)
  then have "keeps (disp R st0) (each_act (stage_preparable_run env) (preparable_run_ids (sc_orch sc)))" using assms(1) by blast
  from keepsD [OF this assms(2) _ assms(4)] assms(3) show ?thesis by (simp add: dispatch_preparable_next_level_singles_def)
qed

section \<open>The whole pass\<close>

lemma keeps_rounds:
  assumes "run \<in> R" "disp R st0 sc" "next_level_rounds env run sc = (res, sc')" "\<not> overflow res"
  shows "disp R st0 sc'"
  using assms
proof (induction env run sc arbitrary: res sc' rule: next_level_rounds.induct)
  case (1 env run sc)
  note prems = "1.prems"
  obtain r1 sc1 where g: "dispatch_next_level_group env run sc = (r1, sc1)" by (cases "dispatch_next_level_group env run sc")
  note g1 = keepsD [OF keeps_groups [OF prems(1)] prems(2) g]
  show ?case
  proof (cases r1)
    case (Inl e)
    then show ?thesis using prems(3,4) g g1 by (auto simp: next_level_rounds.simps)
  next
    case (Inr result)
    let ?sc = "update_reservation_stall env result sc1"
    let ?pass = "dispatch_next_level_singles env (gr_reserved_worker_ids result) run (gr_blocked_group_slot result = INVALID_SLOT) ?sc"
    have d: "disp R st0 ?sc" using g1 Inr by (simp add: disp_def)
    obtain r2 sc2 where p: "?pass = (r2, sc2)" by (cases ?pass)
    have p1: "\<not> overflow r2 \<Longrightarrow> disp R st0 sc2" using keeps_singles [OF prems(1) d] p by (simp add: dispatch_next_level_singles_def)
    show ?thesis
    proof (cases "r2 = Inr True")
      case True
      then have "next_level_rounds env run sc2 = (res, sc')" using prems(3) g Inr p by (subst (asm) next_level_rounds.simps) simp
      then show ?thesis using "1.IH" [OF g [symmetric] Inr p [symmetric] True refl prems(1)] p1 True prems(4) by simp
    next
      case False
      then have "sc' = sc2" "\<not> overflow r2"
        using prems(3,4) g Inr p by (auto simp: next_level_rounds.simps split: sum.splits bool.splits)
      then show ?thesis using p1 by simp
    qed
  qed
qed

lemma authorize_orch: "sc_orch (fold (\<lambda>run sc. if run \<noteq> INVALID_RUN_ID then manager_authorize_staged_launch run sc else sc) runs sc) = sc_orch sc"
  by (induction runs arbitrary: sc) (simp_all add: manager_authorize_staged_launch_def)

lemma keeps_dispatch_ready:
  assumes "dispatchable_run_id (sc_orch sc) \<in> R" "scan_preparable \<Longrightarrow> R = UNIV" "disp R st0 sc"
    "dispatch_ready env scan_preparable sc = (res, sc')" "\<not> overflow res"
  shows "disp R st0 sc'"
proof (cases "dispatchable_run_id (sc_orch sc) = INVALID_RUN_ID")
  case True
  then show ?thesis using assms(3,4) by (auto simp: dispatch_ready_def disp_def)
next
  case False
  let ?run = "dispatchable_run_id (sc_orch sc)"
  let ?sc = "activate_prepared_run ?run (sc\<lparr>sc_dispatch_round_count := sc_dispatch_round_count sc + 1\<rparr>)"
  have r: "keeps (disp R st0) (next_level_rounds env ?run)" "keeps (disp R st0) (dispatch_sub_ready env ?run)"
    using keeps_rounds [OF assms(1)] keeps_subs [OF assms(1)] unfolding keeps_def by blast+
  have p: "keeps (disp R st0) (if scan_preparable then dispatch_preparable_next_level_singles env else ok ())"
    using assms(2) keeps_preparable [of _ R st0 env] unfolding keeps_def by (auto simp: ok_def)
  have a: "keeps (disp R st0) (modify (\<lambda>sc. fold (\<lambda>run sc. if run \<noteq> INVALID_RUN_ID then manager_authorize_staged_launch run sc else sc)
      (early_launch_prefix (sc_orch sc)) sc))"
    by (rule keeps_modify) (simp only: disp_def authorize_orch)
  have "keeps (disp R st0) (seq_act (next_level_rounds env ?run) (seq_act (dispatch_sub_ready env ?run)
      (seq_act (if scan_preparable then dispatch_preparable_next_level_singles env else ok ())
        (modify (\<lambda>sc. fold (\<lambda>run sc. if run \<noteq> INVALID_RUN_ID then manager_authorize_staged_launch run sc else sc) (early_launch_prefix (sc_orch sc)) sc)))))"
    by (intro keeps_seq r p a)
  moreover have "disp R st0 ?sc" using assms(3) by (simp add: disp_def activate_prepared_run_def)
  ultimately show ?thesis using keepsD [OF _ _ _ assms(5)] assms(4) False unfolding dispatch_ready_def Let_def by (simp add: activate_prepared_run_def)
qed

end
