(* ===== verification/Dispatch_Theorems.thy ===== *)
theory Dispatch_Theorems
  imports Dispatch_Safety Node_Sample Lane_Safety
begin

text \<open>
  The dispatch passes as steps of the node: what a pass does to the tasks is a sequence of the node's own steps, so every theorem
  about reachable nodes holds under the scheduler's loop, and a pass starts nothing but ready tasks of the run it works for.
\<close>

section \<open>A pass over the sample node\<close>

definition sample_surroundings :: Surroundings where
  "sample_surroundings = \<lparr>ep_transport = (\<lambda>_. 1), ep_submit = (\<lambda>_. Published False), ep_activate = (\<lambda>_ _. None), ep_poll = (\<lambda>_. Some None),
     ep_now = (\<lambda>n. n), ep_stall_warn_after = 5\<rparr>"

definition scheduler_of :: "Orch \<Rightarrow> Scheduler" where
  "scheduler_of st = \<lparr>sc_orch = st, sc_next_level = [], sc_sub = [sample_wt], sc_reservation_stall_episode = None, sc_stall_reports = [],
     sc_stop_requested = False, sc_dispatch_round_count = 0, sc_dispatched_total = 0, sc_asked = 0, sc_flight = []\<rparr>"

definition ready_calls :: "OrchCall list" where
  "ready_calls = [BeginRun, Submit sample_request False]"

lemma sample_pass_view:
  "case perform_node ready_calls (new_orch sample_ring None None) of
     None \<Rightarrow> False
   | Some st \<Rightarrow>
       ts_state (o_slots st 0) = READY \<and>
       (case dispatch_ready sample_surroundings False (scheduler_of st) of
          (res, sc) \<Rightarrow> res = Inr () \<and> ts_state (o_slots (sc_orch sc) 0) = RUNNING \<and> dispatchable_run_id st = 1 \<and>
            map (\<lambda>(w, d). (w, wd_task_slot d, wd_group_index d)) (sc_flight sc) = [(SubWorker 0, 0, 0)])"
  by code_simp

definition ready_node :: Orch where
  "ready_node = (case perform_node ready_calls (new_orch sample_ring None None) of None \<Rightarrow> new_orch sample_ring None None | Some st \<Rightarrow> st)"

lemma perform_ready: "perform_node ready_calls (new_orch sample_ring None None) = Some ready_node"
  using sample_pass_view by (simp add: ready_node_def split: option.splits)

lemma ready_node_reachable: "reachable node_start node_step ready_node"
proof -
  have "node_start (new_orch sample_ring None None)"
    using sample_start unfolding node_start_def by (intro exI [of _ sample_world]) (auto simp: sample_world_def)
  then show ?thesis using reachable_steps [OF reachable_start perform_node_steps [OF perform_ready]] by blast
qed

lemma sample_pass:
  obtains sc' where "dispatch_ready sample_surroundings False (scheduler_of ready_node) = (Inr (), sc')" "ts_state (o_slots ready_node 0) = READY"
    "ts_state (o_slots (sc_orch sc') 0) = RUNNING" "dispatchable_run_id ready_node = 1" "sc_orch (scheduler_of ready_node) = ready_node"
  using sample_pass_view unfolding perform_ready by (auto simp: scheduler_of_def split: prod.splits)

section \<open>Dispatch and the node\<close>

text \<open>
  C9: the dispatch passes are steps of the node. Whatever the endpoints answer, whether a dispatch is published, refused or
  fails, and however the pass ends, what \<open>dispatch_ready\<close> does to the orchestrator's state is a sequence of claims, queue updates and
  endpoint reports that keep the contract of the node, so the node it leaves is a reachable one. In particular no completion is
  queued twice for a task, although a worker that cannot publish a dispatch completes it inside the pass.
\<close>

theorem dispatch_pass_refines_node:
  assumes "reachable node_start node_step (sc_orch sc)" "dispatch_ready env scan_preparable sc = (res, sc')" "\<not> overflow res"
  shows "node_step\<^sup>*\<^sup>* (sc_orch sc) (sc_orch sc') \<and> reachable node_start node_step (sc_orch sc')"
proof -
  have "disp UNIV (sc_orch sc) sc" using node_sys.reachable_inv [OF assms(1)] by (simp add: disp_def started_refl)
  then have "disp UNIV (sc_orch sc) sc'" using keeps_dispatch_ready [OF _ _ _ assms(2,3)] by blast
  then show ?thesis using reachable_steps [OF assms(1)] by (simp add: disp_def)
qed

theorem dispatch_pass_refines_node_witness:
  "\<exists>sc'. dispatch_ready sample_surroundings False (scheduler_of ready_node) = (Inr (), sc') \<and>
     reachable node_start node_step (sc_orch sc') \<and> ts_state (o_slots (sc_orch sc') 0) = RUNNING"
proof (rule sample_pass)
  fix sc'
  assume p: "dispatch_ready sample_surroundings False (scheduler_of ready_node) = (Inr (), sc')" "ts_state (o_slots (sc_orch sc') 0) = RUNNING"
    "sc_orch (scheduler_of ready_node) = ready_node"
  from dispatch_pass_refines_node [OF _ p(1)] ready_node_reachable p(3) have "reachable node_start node_step (sc_orch sc')" by simp
  with p show ?thesis by blast
qed

text \<open>
  C14: a pass starts only what it may start. A dispatch pass that does not stage runs behind the active one changes the state of
  a task only from ready to running, and only for tasks of the run the FIFO lets dispatch; every other task keeps its state, and no
  task appears or disappears. This holds at every exit, also when an endpoint fails a dispatch at once.
\<close>

theorem dispatch_starts_active_run_only:
  assumes "reachable node_start node_step (sc_orch sc)" "dispatch_ready env False sc = (res, sc')" "\<not> overflow res"
  shows "known (sc_orch sc') = known (sc_orch sc) \<and>
    (ts_state (o_slots (sc_orch sc') p) = ts_state (o_slots (sc_orch sc) p) \<or>
     ts_state (o_slots (sc_orch sc) p) = READY \<and> ts_state (o_slots (sc_orch sc') p) = RUNNING \<and>
     ts_run_id (o_slots (sc_orch sc) p) = dispatchable_run_id (sc_orch sc))"
proof -
  let ?R = "{dispatchable_run_id (sc_orch sc)}"
  have "disp ?R (sc_orch sc) sc" using node_sys.reachable_inv [OF assms(1)] by (simp add: disp_def started_refl)
  then have "disp ?R (sc_orch sc) sc'" using keeps_dispatch_ready [OF _ _ _ assms(2,3)] by blast
  then show ?thesis by (auto simp: disp_def started_def)
qed

theorem dispatch_starts_active_run_only_witness:
  "\<exists>sc'. dispatch_ready sample_surroundings False (scheduler_of ready_node) = (Inr (), sc') \<and>
     ts_state (o_slots (sc_orch sc') 0) = RUNNING \<and> ts_run_id (o_slots ready_node 0) = 1"
proof (rule sample_pass)
  fix sc'
  assume p: "dispatch_ready sample_surroundings False (scheduler_of ready_node) = (Inr (), sc')" "ts_state (o_slots ready_node 0) = READY"
    "ts_state (o_slots (sc_orch sc') 0) = RUNNING" "dispatchable_run_id ready_node = 1" "sc_orch (scheduler_of ready_node) = ready_node"
  from dispatch_starts_active_run_only [OF _ p(1), of 0] ready_node_reachable p(2-5) have "ts_run_id (o_slots ready_node 0) = 1" by simp
  with p show ?thesis by blast
qed

end
