(* ===== verification/Spec2Isabelle.thy ===== *)
theory Spec2Isabelle
  imports Prelude Tensor_View Overlap_Soundness Tensor_Map Heap_Ring Heap_Layout Ring_Safety Ready_Queue
    Run_Arena Pipeline_Contract Task_Slot Task_Args Task_Blob Dep_Infer Orch_State
    Orch_Runs Orch_Tasks Sched Run_Inv Run_Safety Orch_Calls Run_Theorems
    Worker_Lanes Lane_Safety Queue_Bounds Sched_Dispatch Ref_Inv Ref_Safety Node_Safety Node_Calls Node_Sample Node_Theorems
    Flight_Frame Dispatch_Safety Dispatch_Theorems
begin

text \<open>
  Verification of the hierarchical host runtime: the code under \<open>src/common/hierarchical\<close> with the headers it
  relies on in \<open>src/common/task_interface\<close>, \<open>src/common/worker\<close> and \<open>src/common/platform_comm\<close> (all below
  \<open>src/src\<close>).

  \<^bold>\<open>The program.\<close> A node of the runtime builds a graph of tasks, run by run. The orchestrator admits runs into a
  FIFO, leases each a set of device resources, accepts submissions, infers from the tensors a task names which earlier
  tasks it must wait for, and publishes the task. The scheduler dispatches ready tasks to workers, takes the completions
  the endpoints report, releases or poisons the tasks behind them, and returns the slots and heap slabs nobody
  refers to any more. A run ends when its submission is closed and its last task is consumed; its lease then goes to
  the next run.

  \<^bold>\<open>Theories and sources.\<close>
  \<^item> \<open>Prelude\<close>: machine words, exceptions, the locale of transition systems with an invariant.
  \<^item> \<open>Tensor_View\<close>, \<open>Overlap_Soundness\<close> (\<open>buffer.h\<close>, \<open>data_type.h\<close>): buffers, tensor views, their validation, the
    bytes a view touches and the overlap cascade; the cascade never misses a shared byte and \<open>COVERED\<close> means covered.
  \<^item> \<open>Tensor_Map\<close> (\<open>tensormap.cpp\<close>): the map from buffers to recorded writes, the locale of a dependency map and its
    interpretation; the last writer of every byte is found after any history.
  \<^item> \<open>Heap_Ring\<close>, \<open>Heap_Layout\<close>, \<open>Ring_Safety\<close> (\<open>ring.cpp\<close>): the slot and heap allocator, the layout of a ring as a
    chain of slabs, and all interleavings of the critical sections of \<open>alloc\<close>, \<open>release\<close>, \<open>reset_to_empty\<close> and \<open>shutdown\<close>.
  \<^item> \<open>Ready_Queue\<close> (\<open>types.cpp\<close>): the per-run and per-worker queues as an implementation of one FIFO per run.
  \<^item> \<open>Run_Arena\<close> (\<open>run_resource_arena.h\<close>) and \<open>Pipeline_Contract\<close> (\<open>pipeline_contract.h\<close>): leases with generations,
    quarantine, the admission filter; which resource contracts a kernel may declare.
  \<^item> \<open>Task_Slot\<close> (\<open>types.h\<close>, \<open>types.cpp\<close>, parts of \<open>scheduler.cpp\<close>): the state machine of a task and of a group:
    claims, the start of the members of a sub-worker group, their reports, the skipping of the rest after a failure, one verdict.
  \<^item> \<open>Task_Args\<close>, \<open>Task_Blob\<close> (\<open>task_args_wire.h\<close>, \<open>call_config.h\<close>, \<open>comm_domain_use_wire.h\<close>): argument lists, the checks
    at submission, and their byte formats with round trips.
  \<^item> \<open>Dep_Infer\<close> (\<open>Orchestrator::infer_deps\<close>): which producers a task or a group waits for, as far as identity hashes do not collide.
  \<^item> \<open>Orch_State\<close>, \<open>Orch_Runs\<close>, \<open>Orch_Tasks\<close> (\<open>orchestrator.cpp\<close>, \<open>scope.cpp\<close>): the state of a node as one record and
    every operation of the orchestrator on it, as functions that return a result or an exception and the state left.
  \<^item> \<open>Sched\<close> (\<open>scheduler.cpp\<close>, the callbacks in \<open>worker.cpp\<close>): endpoint reports, completion, poisoning, reference release.
  \<^item> \<open>Run_Inv\<close>, \<open>Run_Safety\<close>, \<open>Orch_Calls\<close>, \<open>Run_Theorems\<close>: the invariant of runs and leases, its preservation by
    every operation, the node as a transition system over those operations, and what follows for the runs.
  \<^item> \<open>Ref_Inv\<close>, \<open>Ref_Safety\<close>, \<open>Node_Safety\<close>, \<open>Node_Calls\<close>, \<open>Node_Sample\<close>, \<open>Node_Theorems\<close>: the invariant of tasks, references
    and memory on top of the one of the runs, its preservation by every call of the node, the node as a transition system with the
    endpoints' contract, and what follows: nothing needed is reclaimed, counters are exact, live slabs are disjoint, a run ends
    with its last task, every stored id names a task, failures reach the dependents.
  \<^item> \<open>Worker_Lanes\<close>, \<open>Lane_Safety\<close> (\<open>WorkerThread\<close> of \<open>worker_manager.cpp\<close>): the lanes of a worker, staged dispatches,
    activation, the endpoint's reports; no dispatch is lost or completes twice, and the gates admit exactly what the endpoint takes.
  \<^item> \<open>Queue_Bounds\<close>, \<open>Sched_Dispatch\<close> (\<open>scheduler.cpp\<close>, lookups and passes of \<open>WorkerManager\<close>): the dispatch passes over the
    ready queues, the reservation of workers for a blocked group, staging behind the active run, the progress pass. What the
    endpoints answer and what the clock shows is an argument, indexed by the number of questions asked so far.
  \<^item> \<open>Flight_Frame\<close>: what the calls of the orchestrator leave alone, the running tasks and the completion queue.
  \<^item> \<open>Dispatch_Safety\<close>, \<open>Dispatch_Theorems\<close>: the dispatch passes as steps of the node, with the completions workers report inside
    them; a pass keeps the invariant of the node and starts only ready tasks of the run it works for.

  \<^bold>\<open>Grain.\<close> A step of the allocator is one critical section: \<open>alloc\<close> and \<open>release\<close> have two
  each, \<open>reset_to_empty\<close> one for every ring it checks and one for every ring it rewinds, and they interleave freely, except
  that nothing is reserved while a reset is under way and no release is in flight when it starts to rewind: \<open>ring.h\<close> requires
  of the caller that no registered run remains. Task ids are unbounded there, where the code counts in 32 bits. The operations of the arena,
  the filter, a ready queue, a slot and a group are one critical section each, and any order of them is covered. An operation of a worker's
  lanes takes the lane mutex several times, around the call of the endpoint: it is one step here, so reports of the endpoint come between
  operations, not inside them. Dispatches, activations and the progress pass are all called from the scheduler's thread, and reports arrive
  in its progress pass or as the answer to a submission, but a \<open>stop\<close> in the middle of a dispatch is not covered. At the level
  of the node one call of an operation is one step: the interleavings inside one operation of the orchestrator with another thread's are not
  part of the model. An operation that blocks on a condition variable returns without an effect and is called again. Every exit of an
  operation is covered, exceptions included; the invariant of the runs excludes only the exhaustion of a 64-bit counter. The invariant of
  the tasks relies on two more things: an endpoint reports only for a task that runs and has no completion queued (\<open>expected\<close>),
  and the completion loop stops at an exception.

  \<^bold>\<open>Bounds and termination.\<close> Loops are structural recursions, or functions with a measure: the ring's frontier, the
  compaction of a bucket, the activation of the FIFO's head (each level promotes a run that was waiting) and the spread of a
  failure (each level fails a task that could still be claimed). The dispatch loops take entries out of the queues of one run and
  put none back before they stop. The waiting loop of the allocator takes the list of events
  that wake it, and \<open>None\<close> means that they leave it waiting. No fuel is used.

  \<^bold>\<open>Not modelled.\<close> Threads, process mailboxes, sockets and MPI, device drivers and their simulations, profiling and
  tracing are I/O or outside the host's task logic. The stored callable, arguments and configuration of a slot are not
  read by any operation modelled here. The on-device runtimes and the graph-building runtime are programs of their
  own. The hash functions of the standard library are not modelled: an unordered map is an association list.
\<close>

end
